(* ===== verification/Prelude.thy ===== *)
theory Prelude
  imports Main "HOL-Library.Word"
begin

unbundle bit_operations_syntax

text \<open>
  Shared vocabulary of the development: the machine integer types of the Rust sources,
  strings as byte lists, panics as values, little-endian byte images of integers,
  byte-addressed memory, and the generic list and word facts that the component theories
  draw on.  Generic facts meant for rewriting are collected in \<open>le_simps\<close> (byte
  images) and \<open>mem_simps\<close> (memory).
\<close>

named_theorems le_simps \<open>little-endian images of integers\<close>
named_theorems mem_simps \<open>reads and writes of byte-addressed memory\<close>

section \<open>Types\<close>

type_synonym u8 = "8 word"
type_synonym u16 = "16 word"
type_synonym u32 = "32 word"
type_synonym u64 = "64 word"
type_synonym i16 = "16 word"
type_synonym i64 = "64 word"
type_synonym str = "u8 list"

text \<open>A panic of the Rust code, by the place that raises it.\<close>

datatype panic =
    PoolExhausted nat
  | SymbolIndexOverflow
  | IndexOutOfBounds
  | AssertFailed
  | UnwrapNone
  | Unreachable

text \<open>\<open>'a res\<close> is the outcome of code that may panic; \<open>Inl\<close> is the panic.\<close>

type_synonym 'a res = "panic + 'a"

text \<open>An ASCII literal of the source as the bytes of the \<open>str\<close> it denotes.\<close>

definition lit :: "string \<Rightarrow> str" where
  "lit s = map of_char s"

section \<open>Little-endian images\<close>

fun nat_le :: "nat \<Rightarrow> nat \<Rightarrow> u8 list" where
  "nat_le 0 x = []"
| "nat_le (Suc n) x = word_of_nat (x mod 256) # nat_le n (x div 256)"

fun le_nat :: "u8 list \<Rightarrow> nat" where
  "le_nat [] = 0"
| "le_nat (b # bs) = unat b + 256 * le_nat bs"

definition le16 :: "u16 \<Rightarrow> u8 list" where
  "le16 w = nat_le 2 (unat w)"

definition le32 :: "u32 \<Rightarrow> u8 list" where
  "le32 w = nat_le 4 (unat w)"

definition of_le16 :: "u8 list \<Rightarrow> u16" where
  "of_le16 bs = word_of_nat (le_nat bs)"

definition of_le32 :: "u8 list \<Rightarrow> u32" where
  "of_le32 bs = word_of_nat (le_nat bs)"

definition of_le64 :: "u8 list \<Rightarrow> u64" where
  "of_le64 bs = word_of_nat (le_nat bs)"

lemma length_nat_le [simp]: "length (nat_le n x) = n"
  by (induction n arbitrary: x) auto

lemma length_le16 [simp]: "length (le16 w) = 2"
  by (simp add: le16_def)

lemma length_le32 [simp]: "length (le32 w) = 4"
  by (simp add: le32_def)

lemma unat_byte_mod: "unat (word_of_nat (x mod 256) :: u8) = x mod 256"
  by (simp add: unat_of_nat)

lemma le_nat_nat_le [le_simps]: "le_nat (nat_le n x) = x mod 256 ^ n"
proof (induction n arbitrary: x)
  case 0
  then show ?case by simp
next
  case (Suc n)
  have "le_nat (nat_le (Suc n) x) = x mod 256 + 256 * (x div 256 mod 256 ^ n)"
    by (simp add: Suc unat_byte_mod)
  then show ?case by (simp add: mod_mult2_eq)
qed

lemma le_nat_less: "le_nat bs < 256 ^ length bs"
proof (induction bs)
  case Nil
  then show ?case by simp
next
  case (Cons b bs)
  have "unat b < 256" using unsigned_less [of b] by simp
  with Cons have "unat b + 256 * le_nat bs < 256 + 256 * (256 ^ length bs - 1)"
    by (metis (no_types, lifting) Suc_pred' add_less_le_mono less_Suc_eq_le mult_le_mono2
        zero_less_numeral zero_less_power)
  also have "\<dots> = 256 ^ length (b # bs)"
    by (simp add: diff_mult_distrib2)
  finally show ?case by simp
qed

lemma nat_le_le_nat [le_simps]: "nat_le (length bs) (le_nat bs) = bs"
proof (induction bs)
  case Nil
  then show ?case by simp
next
  case (Cons b bs)
  have b: "unat b < 256" using unsigned_less [of b] by simp
  then have "(unat b + 256 * le_nat bs) mod 256 = unat b"
    and "(unat b + 256 * le_nat bs) div 256 = le_nat bs"
    by (simp_all add: div_add1_eq)
  then show ?case using Cons by simp
qed

lemma le_nat_inj: "length bs = length cs \<Longrightarrow> le_nat bs = le_nat cs \<Longrightarrow> bs = cs"
  by (metis nat_le_le_nat)

lemma of_le32_le32 [simp]: "of_le32 (le32 w) = w"
proof -
  have "unat w < 256 ^ 4" using unsigned_less [of w] by simp
  then show ?thesis by (simp add: of_le32_def le32_def le_simps)
qed

lemma of_le16_le16 [simp]: "of_le16 (le16 w) = w"
proof -
  have "unat w < 256 ^ 2" using unsigned_less [of w] by simp
  then show ?thesis by (simp add: of_le16_def le16_def le_simps)
qed

lemma le32_of_le32: "length bs = 4 \<Longrightarrow> le32 (of_le32 bs) = bs"
  using le_nat_less [of bs] nat_le_le_nat [of bs]
  by (simp add: le32_def of_le32_def unat_of_nat)

lemma le16_of_le16: "length bs = 2 \<Longrightarrow> le16 (of_le16 bs) = bs"
  using le_nat_less [of bs] nat_le_le_nat [of bs]
  by (simp add: le16_def of_le16_def unat_of_nat)

lemma of_le16_inj: "length bs = 2 \<Longrightarrow> length cs = 2 \<Longrightarrow> of_le16 bs = of_le16 cs \<Longrightarrow> bs = cs"
  by (metis le16_of_le16)

lemma of_le32_inj: "length bs = 4 \<Longrightarrow> length cs = 4 \<Longrightarrow> of_le32 bs = of_le32 cs \<Longrightarrow> bs = cs"
  by (metis le32_of_le32)

lemma of_le64_inj: "length bs = 8 \<Longrightarrow> length cs = 8 \<Longrightarrow> of_le64 bs = of_le64 cs \<Longrightarrow> bs = cs"
  using le_nat_less [of bs] le_nat_less [of cs]
  by (intro le_nat_inj) (auto simp: of_le64_def word_of_nat_eq_iff take_bit_nat_eq_self)

lemma unat_of_le32: "length bs = 4 \<Longrightarrow> unat (of_le32 bs) = le_nat bs"
  using le_nat_less [of bs] by (simp add: of_le32_def unat_of_nat)

section \<open>Byte-addressed memory\<close>

text \<open>
  The arena is a total function from addresses to bytes: bytes never written hold whatever
  the allocator returned.  \<open>mem_write\<close> is \<open>copy_nonoverlapping\<close> into the arena,
  \<open>mem_read\<close> is \<open>slice::from_raw_parts\<close>.
\<close>

type_synonym mem = "nat \<Rightarrow> u8"

definition mem_write :: "mem \<Rightarrow> nat \<Rightarrow> u8 list \<Rightarrow> mem" where
  "mem_write m off bs = (\<lambda>a. if off \<le> a \<and> a < off + length bs then bs ! (a - off) else m a)"

definition mem_read :: "mem \<Rightarrow> nat \<Rightarrow> nat \<Rightarrow> u8 list" where
  "mem_read m off n = map (\<lambda>i. m (off + i)) [0..<n]"

lemma length_mem_read [simp]: "length (mem_read m off n) = n"
  by (simp add: mem_read_def)

lemma nth_mem_read [simp]: "i < n \<Longrightarrow> mem_read m off n ! i = m (off + i)"
  by (simp add: mem_read_def)

lemma mem_read_0 [simp]: "mem_read m off 0 = []"
  by (simp add: mem_read_def)

lemma mem_read_write_same [mem_simps]:
  "n = length bs \<Longrightarrow> mem_read (mem_write m off bs) off n = bs"
  by (rule nth_equalityI) (auto simp: mem_write_def)

lemma mem_read_write_disjoint [mem_simps]:
  "off + n \<le> off' \<or> off' + length bs \<le> off \<Longrightarrow>
     mem_read (mem_write m off' bs) off n = mem_read m off n"
  by (rule nth_equalityI) (auto simp: mem_write_def)

lemma mem_read_append: "mem_read m off (n + k) = mem_read m off n @ mem_read m (off + n) k"
  by (rule nth_equalityI) (auto simp: nth_append ac_simps)

lemma mem_read_cong:
  "(\<And>a. off \<le> a \<Longrightarrow> a < off + n \<Longrightarrow> m a = m' a) \<Longrightarrow> mem_read m off n = mem_read m' off n"
  by (simp add: mem_read_def)

lemma mem_write_outside: "a < off \<or> off + length bs \<le> a \<Longrightarrow> mem_write m off bs a = m a"
  by (auto simp: mem_write_def)

text \<open>
  The contract an arena of bytes gives to the code that stores records in it: what a read
  sees after a write to the same and to a disjoint range.
\<close>

locale byte_arena =
  fixes rd :: "'m \<Rightarrow> nat \<Rightarrow> nat \<Rightarrow> u8 list"
    and wr :: "'m \<Rightarrow> nat \<Rightarrow> u8 list \<Rightarrow> 'm"
  assumes rd_length: "length (rd m off n) = n"
    and rd_wr_same: "rd (wr m off bs) off (length bs) = bs"
    and rd_wr_disjoint: "off + n \<le> off' \<or> off' + length bs \<le> off \<Longrightarrow>
      rd (wr m off' bs) off n = rd m off n"
begin

text \<open>A length-prefixed record, written as the code does: the header, then the text.\<close>

definition put_record :: "'m \<Rightarrow> nat \<Rightarrow> u8 list \<Rightarrow> u8 list \<Rightarrow> 'm" where
  "put_record m off hdr txt = wr (wr m off hdr) (off + length hdr) txt"

lemma put_record_hdr: "rd (put_record m off hdr txt) off (length hdr) = hdr"
  by (simp add: put_record_def rd_wr_disjoint rd_wr_same)

lemma put_record_txt:
  "rd (put_record m off hdr txt) (off + length hdr) (length txt) = txt"
  by (simp add: put_record_def rd_wr_same)

lemma put_record_frame:
  "o' + n \<le> off \<or> off + length hdr + length txt \<le> o' \<Longrightarrow>
     rd (put_record m off hdr txt) o' n = rd m o' n"
  by (auto simp: put_record_def rd_wr_disjoint)

end

interpretation arena: byte_arena mem_read mem_write
  by unfold_locales (auto simp: mem_simps)

section \<open>Lists and options\<close>

text \<open>\<open>find_index\<close> is \<open>Iterator::position\<close>: the first index that satisfies a test.\<close>

fun find_index :: "('a \<Rightarrow> bool) \<Rightarrow> 'a list \<Rightarrow> nat option" where
  "find_index p [] = None"
| "find_index p (x # xs) = (if p x then Some 0 else map_option Suc (find_index p xs))"

lemma find_index_None: "find_index p xs = None \<longleftrightarrow> (\<forall>x \<in> set xs. \<not> p x)"
  by (induction xs) auto

lemma find_index_SomeD:
  "find_index p xs = Some i \<Longrightarrow> i < length xs \<and> p (xs ! i) \<and> (\<forall>j < i. \<not> p (xs ! j))"
proof (induction xs arbitrary: i)
  case Nil
  then show ?case by simp
next
  case (Cons x xs)
  then show ?case
    by (cases i) (auto split: if_splits simp: nth_Cons less_Suc_eq_0_disj)
qed

lemma find_index_eq_distinct:
  assumes "distinct xs" "i < length xs"
  shows "find_index (\<lambda>x. x = xs ! i) xs = Some i"
proof (cases "find_index (\<lambda>x. x = xs ! i) xs")
  case None
  then show ?thesis using assms by (auto simp: find_index_None)
next
  case (Some j)
  then show ?thesis using assms by (auto dest!: find_index_SomeD simp: nth_eq_iff_index_eq)
qed

text \<open>\<open>Ord::clamp\<close>.\<close>

definition clamp :: "nat \<Rightarrow> nat \<Rightarrow> nat \<Rightarrow> nat" where
  "clamp lo hi x = (if x < lo then lo else if x > hi then hi else x)"

text \<open>\<open>sub_slice xs a n\<close> is \<open>&xs[a..a+n]\<close>; the bounds check is the caller's.\<close>

definition sub_slice :: "'a list \<Rightarrow> nat \<Rightarrow> nat \<Rightarrow> 'a list" where
  "sub_slice xs a n = take n (drop a xs)"

lemma length_sub_slice [simp]: "a + n \<le> length xs \<Longrightarrow> length (sub_slice xs a n) = n"
  by (simp add: sub_slice_def)

lemma nth_sub_slice: "a + n \<le> length xs \<Longrightarrow> i < n \<Longrightarrow> sub_slice xs a n ! i = xs ! (a + i)"
  by (simp add: sub_slice_def)

lemma sub_slice_append_left: "a + n \<le> length xs \<Longrightarrow> sub_slice (xs @ ys) a n = sub_slice xs a n"
  by (simp add: sub_slice_def)

lemma sum_list_mono_take: "sum_list (take k xs) \<le> sum_list (xs :: nat list)"
proof -
  have "sum_list xs = sum_list (take k xs) + sum_list (drop k xs)"
    by (metis append_take_drop_id sum_list_append)
  then show ?thesis by simp
qed

section \<open>Words\<close>

lemma unat_word_of_nat_small: "x < 2 ^ LENGTH('a) \<Longrightarrow> unat (word_of_nat x :: 'a::len word) = x"
  by (simp add: unat_of_nat)

lemma word_of_nat_u32_inj:
  "a < 2 ^ 32 \<Longrightarrow> b < 2 ^ 32 \<Longrightarrow> (word_of_nat a :: u32) = word_of_nat b \<longleftrightarrow> a = b"
  by (auto dest: arg_cong [of _ _ unat] simp: unat_of_nat)

lemma unat_add_small:
  fixes a b :: "'a::len word"
  shows "unat a + unat b < 2 ^ LENGTH('a) \<Longrightarrow> unat (a + b) = unat a + unat b"
  by (simp add: unat_word_ariths)

lemma unat_mult_small:
  fixes a b :: "'a::len word"
  shows "unat a * unat b < 2 ^ LENGTH('a) \<Longrightarrow> unat (a * b) = unat a * unat b"
  by (simp add: unat_word_ariths)

lemma unat_sub_small:
  fixes a b :: "'a::len word"
  shows "b \<le> a \<Longrightarrow> unat (a - b) = unat a - unat b"
  by (simp add: unat_sub)

lemma word_unat_eqI: "unat a = unat b \<Longrightarrow> a = b" for a b :: "'a::len word"
  by (rule unsigned_word_eqI)

lemma unat_drop_bit: "unat (drop_bit n w) = unat w div 2 ^ n" for w :: "'a::len word"
proof -
  have "unat (drop_bit n w) = drop_bit n (take_bit LENGTH('a) (unat w))"
    by (rule unsigned_drop_bit_eq)
  also have "take_bit LENGTH('a) (unat w) = unat w"
    using unsigned_less [of w] by (simp add: take_bit_nat_eq_self)
  finally show ?thesis by (simp only: drop_bit_eq_div)
qed

lemma unat_ucast_up:
  fixes w :: "'a::len word"
  assumes "LENGTH('a) \<le> LENGTH('b)"
  shows "unat (ucast w :: 'b::len word) = unat w"
proof -
  have "unat w < 2 ^ LENGTH('b)"
    using unsigned_less [of w] assms by (meson less_le_trans power_increasing one_le_numeral)
  then show ?thesis by (simp add: unsigned_ucast_eq take_bit_nat_eq_self)
qed

lemma unat_u32_less: "unat (w :: u32) < 2 ^ 32"
  using unsigned_less [where ?'b = 32 and ?'a = nat] by simp

lemma and_not_mask: "w AND NOT (mask n) = push_bit n (drop_bit n w)" for w :: "'a::len word"
  by (rule bit_word_eqI) (auto simp: bit_simps)

lemma unat_and_mask: "unat (w AND mask n) = unat w mod 2 ^ n"
  for w :: "'a::len word"
proof -
  have "unat (w AND mask n) = unat (take_bit n w)" by (simp only: take_bit_eq_mask)
  also have "\<dots> = take_bit n (unat w)" by (rule unsigned_take_bit_eq)
  finally show ?thesis by (simp only: take_bit_eq_mod)
qed

end
