(* ===== verification/Sqlite_Handles.thy ===== *)
theory Sqlite_Handles
  imports Prelude
begin

text \<open>
  Who owns the temporary file of a SQLite database (\<open>dialect/sqlite.rs\<close>): \<open>SqliteDatabase\<close> holds
  an \<open>Arc<NamedTempFile>\<close>, clones share it, and \<open>close\<close>, \<open>bytes\<close> and \<open>Drop\<close> give it back.  The
  content of the database is the subject of \<open>Sqlite_Db\<close>; here it is only a file name, and the
  reference to the schema is left out.
\<close>

section \<open>Handles and the file system\<close>

record handle =
  h_pool :: nat
  h_file :: "nat option"

text \<open>
  The files that exist, the strong counts and the paths of the \<open>Arc\<close>s, the pools that are open and
  the lines on the standard error.
\<close>

record store =
  fs_files :: "str set"
  arc_count :: "nat \<Rightarrow> nat"
  arc_path :: "nat \<Rightarrow> str"
  pool_open :: "nat \<Rightarrow> bool"
  err_lines :: "str list"

text \<open>
  The file system's answers: whether \<open>remove_file\<close> succeeds, and the error of
  \<open>NamedTempFile::close\<close>, which removes the file.
\<close>

record file_env =
  fe_remove :: "str \<Rightarrow> bool"
  fe_close :: "str \<Rightarrow> str option"

definition SIDECARS :: "str list" where
  "SIDECARS = [lit ''-wal'', lit ''-shm'', lit ''-journal'']"

definition remove_sidecar :: "file_env \<Rightarrow> str \<Rightarrow> str \<Rightarrow> store \<Rightarrow> store" where
  "remove_sidecar E path suffix st =
     (let sidecar = path @ suffix in
      if sidecar \<in> fs_files st \<and> fe_remove E sidecar then st\<lparr>fs_files := fs_files st - {sidecar}\<rparr> else st)"

definition remove_sidecar_files :: "file_env \<Rightarrow> str \<Rightarrow> store \<Rightarrow> store" where
  "remove_sidecar_files E path st = fold (remove_sidecar E path) SIDECARS st"

text \<open>\<open>Arc::into_inner\<close>: the last owner gets the value.\<close>

definition into_inner :: "nat \<Rightarrow> store \<Rightarrow> str option \<times> store" where
  "into_inner a st =
     (if arc_count st a = 1 then Some (arc_path st a) else None,
      st\<lparr>arc_count := (arc_count st)(a := arc_count st a - 1)\<rparr>)"

definition close_temp_file :: "file_env \<Rightarrow> str \<Rightarrow> store \<Rightarrow> store" where
  "close_temp_file E path st =
     (case fe_close E path of
        None \<Rightarrow> st\<lparr>fs_files := fs_files st - {path}\<rparr>
      | Some err \<Rightarrow> st\<lparr>err_lines := err_lines st @ [lit ''failed to remove sqlite temp file: '' @ err]\<rparr>)"

text \<open>The block that \<open>drop\<close>, \<open>close\<close> and \<open>bytes\<close> have in common.\<close>

definition release :: "file_env \<Rightarrow> nat \<Rightarrow> store \<Rightarrow> store" where
  "release E a st =
     (case into_inner a st of
        (None, st') \<Rightarrow> st'
      | (Some path, st') \<Rightarrow> close_temp_file E path (remove_sidecar_files E path st'))"

text \<open>Dropping a \<open>NamedTempFile\<close> removes the file and ignores errors.\<close>

definition unlink :: "file_env \<Rightarrow> str \<Rightarrow> store \<Rightarrow> store" where
  "unlink E path st = (if fe_close E path = None then st\<lparr>fs_files := fs_files st - {path}\<rparr> else st)"

definition drop_arc :: "file_env \<Rightarrow> nat \<Rightarrow> store \<Rightarrow> store" where
  "drop_arc E a st = (case into_inner a st of (None, st') \<Rightarrow> st' | (Some path, st') \<Rightarrow> unlink E path st')"

section \<open>The operations\<close>

definition clone_db :: "handle \<Rightarrow> store \<Rightarrow> handle \<times> store" where
  "clone_db h st = (h, case h_file h of None \<Rightarrow> st | Some a \<Rightarrow> st\<lparr>arc_count := (arc_count st)(a := arc_count st a + 1)\<rparr>)"

definition drop_db :: "file_env \<Rightarrow> handle \<Rightarrow> store \<Rightarrow> store" where
  "drop_db E h st = (case h_file h of None \<Rightarrow> st | Some a \<Rightarrow> release E a st)"

definition close_pool :: "handle \<Rightarrow> store \<Rightarrow> store" where
  "close_pool h st = st\<lparr>pool_open := (pool_open st)(h_pool h := False)\<rparr>"

text \<open>\<open>close\<close> consumes the handle: its \<open>drop\<close> runs at the end and finds the file taken.\<close>

definition close_db :: "file_env \<Rightarrow> handle \<Rightarrow> store \<Rightarrow> store" where
  "close_db E h st =
     (let st1 = close_pool h st;
          st2 = (case h_file h of None \<Rightarrow> st1 | Some a \<Rightarrow> release E a st1)
      in drop_db E (h\<lparr>h_file := None\<rparr>) st2)"

text \<open>
  The end of \<open>bytes\<close>, from the closing of the pool on; \<open>content\<close> is what \<open>std::fs::read\<close> answers.
  The result is an error text or the bytes.
\<close>

definition export_db :: "file_env \<Rightarrow> handle \<Rightarrow> (str + u8 list) \<Rightarrow> store \<Rightarrow> (str + u8 list) \<times> store" where
  "export_db E h content st =
     (let st1 = close_pool h st in
      case h_file h of
        None \<Rightarrow> (Inl (lit ''temp file already taken''), drop_db E (h\<lparr>h_file := None\<rparr>) st1)
      | Some a \<Rightarrow>
          (case content of
             Inl err \<Rightarrow> (Inl err, drop_db E (h\<lparr>h_file := None\<rparr>) (drop_arc E a st1))
           | Inr bytes \<Rightarrow> (Inr bytes, drop_db E (h\<lparr>h_file := None\<rparr>) (release E a st1))))"

text \<open>
  \<open>new\<close> and \<open>from\<close> once the temporary file \<open>path\<close> is there: the pool connects, then the schema is
  installed.  \<open>a\<close> names the new \<open>Arc\<close> and the new pool.
\<close>

definition open_db :: "file_env \<Rightarrow> nat \<Rightarrow> str \<Rightarrow> bool \<Rightarrow> bool \<Rightarrow> store \<Rightarrow> handle option \<times> store" where
  "open_db E a path connects installs st =
     (let st1 = st\<lparr>fs_files := insert path (fs_files st)\<rparr> in
      if \<not> connects then (None, unlink E path st1)
      else
        let h = \<lparr>h_pool = a, h_file = Some a\<rparr>;
            st2 = st1\<lparr>arc_count := (arc_count st1)(a := 1), arc_path := (arc_path st1)(a := path),
              pool_open := (pool_open st1)(a := True)\<rparr>
        in if installs then (Some h, st2) else (None, drop_db E h st2))"

section \<open>Options of the connections\<close>

record connect_options =
  filename :: str
  create_if_missing :: bool
  journal_mode_wal :: bool
  synchronous_off :: bool
  foreign_keys_on :: bool
  busy_timeout_secs :: nat
  pragmas :: "(str \<times> str) list"
  statement_cache_capacity :: nat

definition performance_options :: "str \<Rightarrow> connect_options" where
  "performance_options path =
     \<lparr>filename = path, create_if_missing = True, journal_mode_wal = True, synchronous_off = True,
      foreign_keys_on = False, busy_timeout_secs = 5,
      pragmas = [(lit ''cache_size'', lit ''-65536''), (lit ''mmap_size'', lit ''268435456''),
        (lit ''temp_store'', lit ''MEMORY''), (lit ''wal_autocheckpoint'', lit ''4096''),
        (lit ''journal_size_limit'', lit ''67108864'')],
      statement_cache_capacity = 256\<rparr>"

record pool_opts =
  max_connections :: nat
  min_connections :: nat
  test_before_acquire :: bool
  acquire_timeout_secs :: nat

text \<open>\<open>available_parallelism\<close> is the argument; the cast to \<open>u32\<close> keeps the low half.\<close>

definition pool_options :: "u64 option \<Rightarrow> pool_opts" where
  "pool_options parallelism =
     (let readers = clamp 2 16 (case parallelism of Some n \<Rightarrow> unat (ucast n :: u32) | None \<Rightarrow> 4) in
      \<lparr>max_connections = readers, min_connections = 1, test_before_acquire = False, acquire_timeout_secs = 10\<rparr>)"

section \<open>Runs\<close>

text \<open>
  A process that opens, clones, closes, exports and drops handles, in any order.  SQLite makes
  sidecar files of a database while its pool is open.  A new temporary file has a new name, and
  names of temporary files do not end like sidecars.  \<open>reads\<close>: the file of an open database can be
  read and connected to.
\<close>

definition own :: "str \<Rightarrow> str set" where
  "own path = insert path ((\<lambda>suffix. path @ suffix) ` set SIDECARS)"

definition temp_name :: "str \<Rightarrow> bool" where
  "temp_name path \<longleftrightarrow> (\<forall>suffix \<in> set SIDECARS. \<forall>p. path \<noteq> p @ suffix)"

record process =
  p_store :: store
  p_handles :: "handle list"

inductive pstep :: "file_env \<Rightarrow> bool \<Rightarrow> process \<Rightarrow> process \<Rightarrow> bool" for E reads where
  p_open: "temp_name path \<Longrightarrow> own path \<inter> fs_files (p_store s) = {} \<Longrightarrow> arc_count (p_store s) a = 0 \<Longrightarrow>
     reads \<longrightarrow> connects \<Longrightarrow> open_db E a path connects installs (p_store s) = (r, st) \<Longrightarrow>
     pstep E reads s \<lparr>p_store = st, p_handles = (case r of None \<Rightarrow> p_handles s | Some h \<Rightarrow> p_handles s @ [h])\<rparr>"
| p_clone: "h \<in> set (p_handles s) \<Longrightarrow> clone_db h (p_store s) = (h', st) \<Longrightarrow>
     pstep E reads s \<lparr>p_store = st, p_handles = p_handles s @ [h']\<rparr>"
| p_drop: "p_handles s = xs @ h # ys \<Longrightarrow>
     pstep E reads s \<lparr>p_store = drop_db E h (p_store s), p_handles = xs @ ys\<rparr>"
| p_close: "p_handles s = xs @ h # ys \<Longrightarrow>
     pstep E reads s \<lparr>p_store = close_db E h (p_store s), p_handles = xs @ ys\<rparr>"
| p_export: "p_handles s = xs @ h # ys \<Longrightarrow> reads \<longrightarrow> (\<exists>bytes. content = Inr bytes) \<Longrightarrow>
     export_db E h content (p_store s) = (r, st) \<Longrightarrow> pstep E reads s \<lparr>p_store = st, p_handles = xs @ ys\<rparr>"
| p_sidecar: "h \<in> set (p_handles s) \<Longrightarrow> h_file h = Some a \<Longrightarrow> pool_open (p_store s) (h_pool h) \<Longrightarrow> suffix \<in> set SIDECARS \<Longrightarrow>
     pstep E reads s (s\<lparr>p_store := (p_store s)\<lparr>fs_files := insert (arc_path (p_store s) a @ suffix) (fs_files (p_store s))\<rparr>\<rparr>)"

definition process_new :: "str set \<Rightarrow> process" where
  "process_new F = \<lparr>p_store = \<lparr>fs_files = F, arc_count = (\<lambda>_. 0), arc_path = (\<lambda>_. []), pool_open = (\<lambda>_. False),
     err_lines = []\<rparr>, p_handles = []\<rparr>"

section \<open>Removing files\<close>

text \<open>The file system removes what it is asked to remove.\<close>

definition removes :: "file_env \<Rightarrow> bool" where
  "removes E \<longleftrightarrow> (\<forall>f. fe_remove E f \<and> fe_close E f = None)"

lemma SIDECARS_set: "set SIDECARS = {lit ''-wal'', lit ''-shm'', lit ''-journal''}"
  by (simp add: SIDECARS_def)

lemma remove_sidecar_files_all:
  "removes E \<Longrightarrow> remove_sidecar_files E path st = st\<lparr>fs_files := fs_files st - (\<lambda>suffix. path @ suffix) ` set SIDECARS\<rparr>"
  by (cases st) (auto simp: remove_sidecar_files_def SIDECARS_def remove_sidecar_def removes_def Let_def)

lemma release_all:
  assumes "removes E"
  shows "release E a st = st\<lparr>arc_count := (arc_count st)(a := arc_count st a - 1),
     fs_files := (if arc_count st a = 1 then fs_files st - own (arc_path st a) else fs_files st)\<rparr>"
proof -
  have "fe_close E f = None" for f using assms by (simp add: removes_def)
  then show ?thesis
    by (cases st) (auto simp: release_def into_inner_def close_temp_file_def remove_sidecar_files_all [OF assms] own_def)
qed

lemma own_disjoint:
  assumes "temp_name p" "temp_name q" "p \<noteq> q"
  shows "own p \<inter> own q = {}"
proof -
  have ne: "p @ s \<noteq> q @ t" if "s \<in> set SIDECARS" "t \<in> set SIDECARS" for s t
  proof (cases "s = t")
    case True
    then show ?thesis using assms(3) by simp
  next
    case False
    show ?thesis
    proof
      assume "p @ s = q @ t"
      then have "take 3 (rev (p @ s)) = take 3 (rev (q @ t))" by simp
      then show False using False that by (auto simp: SIDECARS_set lit_def)
    qed
  qed
  have "p \<noteq> q @ t \<and> q \<noteq> p @ t" if "t \<in> set SIDECARS" for t using assms(1,2) that by (auto simp: temp_name_def)
  then show ?thesis using ne assms(3) unfolding own_def by blast
qed

section \<open>The invariant\<close>

definition owners :: "nat \<Rightarrow> handle list \<Rightarrow> nat" where
  "owners a hs = length (filter (\<lambda>h. h_file h = Some a) hs)"

lemma owners_simps [simp]:
  "owners a [] = 0" "owners a (h # hs) = (if h_file h = Some a then 1 else 0) + owners a hs"
  "owners a (xs @ ys) = owners a xs + owners a ys"
  by (simp_all add: owners_def)

lemma owners_pos: "0 < owners a hs \<longleftrightarrow> (\<exists>h \<in> set hs. h_file h = Some a)"
  by (auto simp: owners_def filter_empty_conv)

text \<open>
  Every handle has its file, the strong counts count the handles, files of different \<open>Arc\<close>s have
  nothing in common, and beside the files \<open>F\<close> of others there are only files of live handles.
\<close>

definition handles_ok :: "str set \<Rightarrow> store \<Rightarrow> handle list \<Rightarrow> bool" where
  "handles_ok F st hs \<longleftrightarrow>
     (\<forall>h \<in> set hs. h_file h = Some (h_pool h)) \<and> (\<forall>a. arc_count st a = owners a hs) \<and>
     (\<forall>a. 0 < owners a hs \<longrightarrow> temp_name (arc_path st a) \<and> arc_path st a \<in> fs_files st \<and> own (arc_path st a) \<inter> F = {}) \<and>
     (\<forall>a b. 0 < owners a hs \<longrightarrow> 0 < owners b hs \<longrightarrow> a \<noteq> b \<longrightarrow> arc_path st a \<noteq> arc_path st b) \<and>
     F \<subseteq> fs_files st \<and> fs_files st \<subseteq> F \<union> (\<Union>a \<in> {a. 0 < owners a hs}. own (arc_path st a)) \<and> err_lines st = []"

lemma handles_ok_pool: "handles_ok F (close_pool h st) hs = handles_ok F st hs"
  by (simp add: handles_ok_def close_pool_def)

lemma own_self: "path \<in> own path"
  by (simp add: own_def)

lemma handles_ok_release:
  assumes E: "removes E" and ok: "handles_ok F st (xs @ h # ys)" and a: "h_file h = Some a"
  shows "handles_ok F (release E a st) (xs @ ys)"
proof -
  let ?hs = "xs @ h # ys" and ?hs' = "xs @ ys" and ?st = "release E a st"
  have st: "?st = st\<lparr>arc_count := (arc_count st)(a := arc_count st a - 1),
      fs_files := (if arc_count st a = 1 then fs_files st - own (arc_path st a) else fs_files st)\<rparr>"
    by (rule release_all [OF E])
  have cnt: "owners b ?hs = owners b ?hs' + (if b = a then 1 else 0)" for b using a by auto
  have count: "arc_count st b = owners b ?hs" for b using ok unfolding handles_ok_def by blast
  have live: "temp_name (arc_path st b)" "arc_path st b \<in> fs_files st" "own (arc_path st b) \<inter> F = {}" if "0 < owners b ?hs" for b
    using ok that unfolding handles_ok_def by blast+
  have diff: "arc_path st b \<noteq> arc_path st c" if "0 < owners b ?hs" "0 < owners c ?hs" "b \<noteq> c" for b c
    using ok that unfolding handles_ok_def by blast
  have F: "F \<subseteq> fs_files st" "fs_files st \<subseteq> F \<union> (\<Union>b \<in> {b. 0 < owners b ?hs}. own (arc_path st b))"
    using ok unfolding handles_ok_def by blast+
  have pos_a: "0 < owners a ?hs" using a by simp
  have keep: "own (arc_path st b) \<inter> own (arc_path st a) = {}" if "0 < owners b ?hs" "b \<noteq> a" for b
    using own_disjoint [OF live(1) [OF that(1)] live(1) [OF pos_a] diff [OF that(1) pos_a that(2)]] .
  have pos: "0 < owners b ?hs' \<Longrightarrow> 0 < owners b ?hs" for b by (simp add: cnt)
  have last: "arc_count st a = 1 \<longleftrightarrow> owners a ?hs' = 0" by (simp add: count cnt del: owners_simps)
  have "h_file k = Some (h_pool k)" if "k \<in> set ?hs'" for k using ok that unfolding handles_ok_def by auto
  moreover have "arc_count ?st b = owners b ?hs'" for b by (simp add: st count cnt del: owners_simps)
  moreover have "arc_path st b \<in> fs_files ?st" if "0 < owners b ?hs'" for b
  proof (cases "arc_count st a = 1")
    case True
    then have "b \<noteq> a" using last that by auto
    then have "arc_path st b \<notin> own (arc_path st a)" using keep [OF pos [OF that]] own_self by blast
    then show ?thesis using live(2) [OF pos [OF that]] True by (simp add: st)
  next
    case False
    then show ?thesis using live(2) [OF pos [OF that]] by (simp add: st)
  qed
  moreover have "F \<subseteq> fs_files ?st" using F(1) live(3) [OF pos_a] by (auto simp: st)
  moreover have "fs_files ?st \<subseteq> F \<union> (\<Union>b \<in> {b. 0 < owners b ?hs'}. own (arc_path st b))"
  proof
    fix f
    assume f: "f \<in> fs_files ?st"
    then have "f \<in> fs_files st" by (auto simp: st split: if_splits)
    then consider "f \<in> F" | b where "0 < owners b ?hs" "f \<in> own (arc_path st b)" using F(2) by blast
    then show "f \<in> F \<union> (\<Union>b \<in> {b. 0 < owners b ?hs'}. own (arc_path st b))"
    proof cases
      case (2 b)
      have "0 < owners b ?hs'"
      proof (cases "b = a")
        case True
        then have "arc_count st a \<noteq> 1" using f 2(2) by (auto simp: st split: if_splits)
        then show ?thesis using last True by simp
      next
        case False
        then show ?thesis using 2(1) cnt [of b] by (simp del: owners_simps)
      qed
      then show ?thesis using 2(2) by blast
    qed blast
  qed
  ultimately show ?thesis
    using live(1,3) [OF pos] diff [OF pos pos] ok unfolding handles_ok_def by (auto simp: st simp del: owners_simps)
qed

lemma handles_ok_add:
  assumes ok: "handles_ok F st hs" and h: "h \<in> set hs"
  shows "handles_ok F (snd (clone_db h st)) (hs @ [fst (clone_db h st)])"
proof -
  obtain a where a: "h_file h = Some a" "a = h_pool h" using ok h unfolding handles_ok_def by blast
  then have pos: "0 < owners b (hs @ [h]) \<longleftrightarrow> 0 < owners b hs" for b using h by (auto simp: owners_pos)
  have eq: "clone_db h st = (h, st\<lparr>arc_count := (arc_count st)(a := arc_count st a + 1)\<rparr>)" using a by (simp add: clone_db_def)
  have count: "arc_count st b = owners b hs" for b using ok unfolding handles_ok_def by blast
  show ?thesis
    using ok h a count unfolding eq fst_conv snd_conv handles_ok_def pos by simp
qed

text \<open>A new database, or none when it cannot be set up.\<close>

lemma handles_ok_open:
  assumes E: "removes E" and ok: "handles_ok F st hs" and new: "temp_name path" "own path \<inter> fs_files st = {}" "arc_count st a = 0"
    and op: "open_db E a path True installs st = (r, st')"
  shows "handles_ok F st' (case r of None \<Rightarrow> hs | Some h \<Rightarrow> hs @ [h])"
proof -
  let ?h = "\<lparr>h_pool = a, h_file = Some a\<rparr>"
  let ?st = "st\<lparr>fs_files := insert path (fs_files st), arc_count := (arc_count st)(a := 1), arc_path := (arc_path st)(a := path),
      pool_open := (pool_open st)(a := True)\<rparr>"
  have count: "arc_count st b = owners b hs" for b using ok unfolding handles_ok_def by blast
  then have a0: "owners a hs = 0" using new(3) by simp
  have pos: "0 < owners b (hs @ [?h]) \<longleftrightarrow> b = a \<or> 0 < owners b hs" for b by auto
  have live: "temp_name (arc_path st b)" "arc_path st b \<in> fs_files st" "own (arc_path st b) \<inter> F = {}" "b \<noteq> a"
    if "0 < owners b hs" for b
    using ok that a0 unfolding handles_ok_def by auto
  have F: "F \<subseteq> fs_files st" "fs_files st \<subseteq> F \<union> (\<Union>b \<in> {b. 0 < owners b hs}. own (arc_path st b))"
    using ok unfolding handles_ok_def by blast+
  have ne: "arc_path st b \<noteq> path" if "0 < owners b hs" for b using live(2) [OF that] new(2) own_self by blast
  have added: "handles_ok F ?st (hs @ [?h])"
    unfolding handles_ok_def pos
  proof (intro conjI allI impI)
    show "\<forall>h \<in> set (hs @ [?h]). h_file h = Some (h_pool h)" using ok unfolding handles_ok_def by auto
    show "arc_count ?st b = owners b (hs @ [?h])" for b using count a0 by auto
    show "temp_name (arc_path ?st b)" "arc_path ?st b \<in> fs_files ?st" "own (arc_path ?st b) \<inter> F = {}" if "b = a \<or> 0 < owners b hs" for b
      using that live new F(1) by auto
    show "arc_path ?st b \<noteq> arc_path ?st c" if "b = a \<or> 0 < owners b hs" "c = a \<or> 0 < owners c hs" "b \<noteq> c" for b c
    proof -
      have "arc_path st b \<noteq> arc_path st c" if "0 < owners b hs" "0 < owners c hs"
        using ok that \<open>b \<noteq> c\<close> unfolding handles_ok_def by blast
      then show ?thesis using that ne by auto
    qed
    show "F \<subseteq> fs_files ?st" using F(1) by auto
    show "fs_files ?st \<subseteq> F \<union> (\<Union>b \<in> {b. b = a \<or> 0 < owners b hs}. own (arc_path ?st b))"
    proof
      fix f
      assume "f \<in> fs_files ?st"
      then consider "f = path" | "f \<in> F" | b where "0 < owners b hs" "f \<in> own (arc_path st b)" using F(2) by auto
      then show "f \<in> F \<union> (\<Union>b \<in> {b. b = a \<or> 0 < owners b hs}. own (arc_path ?st b))"
      proof cases
        case 1
        then show ?thesis using own_self by auto
      next
        case (3 b)
        then have "f \<in> own (arc_path ?st b)" using live(4) by simp
        then show ?thesis using 3(1) by blast
      qed blast
    qed
    show "err_lines ?st = []" using ok unfolding handles_ok_def by simp
  qed
  show ?thesis
  proof (cases installs)
    case True
    then show ?thesis using op added by (auto simp: open_db_def Let_def)
  next
    case False
    then have "r = None" "st' = release E a ?st" using op by (auto simp: open_db_def Let_def drop_db_def)
    then show ?thesis using handles_ok_release [OF E added [folded append_Nil2]] by simp
  qed
qed

lemma handles_ok_step:
  assumes E: "removes E" and ok: "handles_ok F (p_store s) (p_handles s)" and st: "pstep E True s s'"
  shows "handles_ok F (p_store s') (p_handles s')"
proof -
  have none: "drop_db E (h\<lparr>h_file := None\<rparr>) st = st" for h st by (simp add: drop_db_def)
  have own_file: "h_file h = Some (h_pool h)" if "h \<in> set (p_handles s)" for h using ok that unfolding handles_ok_def by blast
  have rel: "handles_ok F (release E (h_pool h) (p_store s)) (xs @ ys)"
      "handles_ok F (release E (h_pool h) (close_pool h (p_store s))) (xs @ ys)" if "p_handles s = xs @ h # ys" for xs h ys
    using handles_ok_release [OF E _ own_file] handles_ok_pool ok that by (metis in_set_conv_decomp)+
  from st show ?thesis
  proof cases
    case (p_open path a connects installs r st)
    then have "open_db E a path True installs (p_store s) = (r, st)" by simp
    then show ?thesis using handles_ok_open [OF E ok p_open(2-4)] p_open(1) by simp
  next
    case (p_clone h h' st)
    then show ?thesis using handles_ok_add [OF ok p_clone(2)] by simp
  next
    case (p_drop xs h ys)
    then show ?thesis using rel(1) [OF p_drop(2)] own_file [of h] by (simp add: drop_db_def)
  next
    case (p_close xs h ys)
    then show ?thesis using rel(2) [OF p_close(2)] own_file [of h] by (simp add: close_db_def none Let_def)
  next
    case (p_export xs h ys content r st)
    then show ?thesis using rel(2) [OF p_export(2)] own_file [of h] by (auto simp: export_db_def none Let_def)
  next
    case (p_sidecar h a suffix)
    let ?f = "arc_path (p_store s) a @ suffix"
    have pos: "0 < owners a (p_handles s)" using p_sidecar(2,3) owners_pos by blast
    have "?f \<in> own (arc_path (p_store s) a)" using p_sidecar(5) by (simp add: own_def)
    then have "?f \<in> (\<Union>a \<in> {a. 0 < owners a (p_handles s)}. own (arc_path (p_store s) a))" using pos by blast
    then show ?thesis using ok unfolding p_sidecar(1) handles_ok_def by (simp add: subset_insertI2)
  qed
qed

lemma handles_ok_run:
  assumes "removes E" "(pstep E True)\<^sup>*\<^sup>* (process_new F) s"
  shows "handles_ok F (p_store s) (p_handles s)"
  using assms(2)
proof (induction rule: rtranclp_induct)
  case base
  show ?case by (simp add: handles_ok_def process_new_def)
next
  case (step b c)
  then show ?case using handles_ok_step [OF assms(1)] by blast
qed

section \<open>The life of a temporary file\<close>

text \<open>
  C40: however handles are opened, cloned, closed, exported and dropped, the file of a database exists
  as long as one of its handles does, and whatever exists beside the files of others belongs to a
  live handle: with the last handle the database file and its sidecars are gone, and no file of
  others is touched.  The file system removes what it is asked to, and open databases can be read.
\<close>

theorem temp_file_lifetime:
  assumes "removes E" "(pstep E True)\<^sup>*\<^sup>* (process_new F) s"
  shows "(\<forall>h \<in> set (p_handles s). \<exists>a. h_file h = Some a \<and> arc_path (p_store s) a \<in> fs_files (p_store s)) \<and>
    F \<subseteq> fs_files (p_store s) \<and>
    (\<forall>f \<in> fs_files (p_store s) - F. \<exists>h \<in> set (p_handles s). \<exists>a. h_file h = Some a \<and> f \<in> own (arc_path (p_store s) a)) \<and>
    (p_handles s = [] \<longrightarrow> fs_files (p_store s) = F)"
proof -
  have ok: "handles_ok F (p_store s) (p_handles s)" using assms by (rule handles_ok_run)
  have path: "\<exists>a. h_file h = Some a \<and> arc_path (p_store s) a \<in> fs_files (p_store s)" if "h \<in> set (p_handles s)" for h
    using ok that owners_pos unfolding handles_ok_def by metis
  have "\<exists>h \<in> set (p_handles s). \<exists>a. h_file h = Some a \<and> f \<in> own (arc_path (p_store s) a)"
    if "f \<in> fs_files (p_store s) - F" for f
  proof -
    from that ok obtain a where "0 < owners a (p_handles s)" "f \<in> own (arc_path (p_store s) a)"
      unfolding handles_ok_def by blast
    then show ?thesis using owners_pos by blast
  qed
  moreover have "F \<subseteq> fs_files (p_store s)" using ok unfolding handles_ok_def by blast
  ultimately show ?thesis using path by fastforce
qed

text \<open>A file system that obeys, and the run that opens a database, clones it, and drops both handles.\<close>

definition obeys :: file_env where
  "obeys = \<lparr>fe_remove = (\<lambda>_. True), fe_close = (\<lambda>_. None)\<rparr>"

definition tmp_path :: str where
  "tmp_path = lit ''/tmp/.tmpA1b2C3''"

lemma tmp_path_ok: "temp_name tmp_path" "own tmp_path \<inter> {} = {}" "removes obeys"
proof -
  have "rev tmp_path ! 0 \<noteq> rev (p @ t) ! 0" if "t \<in> set SIDECARS" for p t
    using that by (auto simp: SIDECARS_set tmp_path_def lit_def)
  then show "temp_name tmp_path" unfolding temp_name_def by metis
  show "removes obeys" by (simp add: removes_def obeys_def)
qed simp

definition tmp_handle :: handle where
  "tmp_handle = \<lparr>h_pool = 0, h_file = Some 0\<rparr>"

lemma tmp_run:
  "\<exists>s1. (pstep obeys reads)\<^sup>*\<^sup>* (process_new {}) s1 \<and> p_handles s1 = [tmp_handle, tmp_handle] \<and>
     arc_path (p_store s1) 0 = tmp_path \<and> fs_files (p_store s1) = {tmp_path, tmp_path @ lit ''-wal''} \<and>
     pool_open (p_store s1) 0 \<and> arc_count (p_store s1) 0 = 2"
proof -
  let ?s0 = "process_new {}"
  define st where "st = snd (open_db obeys 0 tmp_path True True (p_store ?s0))"
  have op: "open_db obeys 0 tmp_path True True (p_store ?s0) = (Some tmp_handle, st)"
    by (simp add: st_def open_db_def Let_def tmp_handle_def)
  let ?s1 = "\<lparr>p_store = st, p_handles = [tmp_handle]\<rparr>"
  have "pstep obeys reads ?s0 \<lparr>p_store = st, p_handles = (case Some tmp_handle of None \<Rightarrow> p_handles ?s0 | Some h \<Rightarrow> p_handles ?s0 @ [h])\<rparr>"
    by (rule p_open [OF _ _ _ _ op]) (use tmp_path_ok in \<open>simp_all add: process_new_def\<close>)
  then have 1: "pstep obeys reads ?s0 ?s1" by (simp add: process_new_def)
  have 2: "pstep obeys reads ?s1 \<lparr>p_store = snd (clone_db tmp_handle st), p_handles = [tmp_handle, tmp_handle]\<rparr>" (is "pstep _ _ _ ?s2")
    using p_clone [of tmp_handle ?s1 tmp_handle "snd (clone_db tmp_handle st)" obeys reads] by (simp add: clone_db_def)
  let ?s3 = "?s2\<lparr>p_store := (p_store ?s2)\<lparr>fs_files := insert (arc_path (p_store ?s2) 0 @ lit ''-wal'') (fs_files (p_store ?s2))\<rparr>\<rparr>"
  have 3: "pstep obeys reads ?s2 ?s3"
    by (rule p_sidecar [of tmp_handle]) (simp_all add: tmp_handle_def clone_db_def st_def open_db_def Let_def SIDECARS_set)
  have "(pstep obeys reads)\<^sup>*\<^sup>* ?s0 ?s3" using 1 2 3 by (meson r_into_rtranclp rtranclp_trans)
  then show ?thesis
    by (intro exI [of _ ?s3] conjI) (simp_all add: tmp_handle_def clone_db_def st_def open_db_def Let_def process_new_def insert_commute)
qed

theorem temp_file_lifetime_witness:
  "\<exists>s. (pstep obeys True)\<^sup>*\<^sup>* (process_new {}) s \<and> p_handles s = [] \<and> fs_files (p_store s) = {}"
proof -
  obtain s1 where s1: "(pstep obeys True)\<^sup>*\<^sup>* (process_new {}) s1" "p_handles s1 = [tmp_handle, tmp_handle]"
    using tmp_run [of True] by auto
  let ?s2 = "\<lparr>p_store = drop_db obeys tmp_handle (p_store s1), p_handles = [tmp_handle]\<rparr>"
  let ?s3 = "\<lparr>p_store = close_db obeys tmp_handle (p_store ?s2), p_handles = []\<rparr>"
  have a: "pstep obeys True s1 ?s2" using p_drop [of s1 "[]" tmp_handle "[tmp_handle]"] s1(2) by simp
  have b: "pstep obeys True ?s2 ?s3" using p_close [of ?s2 "[]" tmp_handle "[]"] by simp
  have run: "(pstep obeys True)\<^sup>*\<^sup>* (process_new {}) ?s3"
    by (rule rtranclp.rtrancl_into_rtrancl [OF rtranclp.rtrancl_into_rtrancl [OF s1(1) a] b])
  then have "fs_files (p_store ?s3) = {}" using temp_file_lifetime [OF tmp_path_ok(3) run] by simp
  then show ?thesis using run by (intro exI [of _ ?s3]) simp
qed

text \<open>When \<open>bytes\<close> cannot read the file, the database file goes, but its sidecars stay behind.\<close>

lemma export_leaves_sidecar:
  "\<exists>s. (pstep obeys False)\<^sup>*\<^sup>* (process_new {}) s \<and> p_handles s = [] \<and> fs_files (p_store s) = {tmp_path @ lit ''-wal''}"
proof -
  obtain s1 where s1: "(pstep obeys False)\<^sup>*\<^sup>* (process_new {}) s1" "p_handles s1 = [tmp_handle, tmp_handle]"
      "arc_path (p_store s1) 0 = tmp_path" "fs_files (p_store s1) = {tmp_path, tmp_path @ lit ''-wal''}" "arc_count (p_store s1) 0 = 2"
    using tmp_run [of False] by auto
  let ?s2 = "\<lparr>p_store = drop_db obeys tmp_handle (p_store s1), p_handles = [tmp_handle]\<rparr>"
  let ?e = "export_db obeys tmp_handle (Inl []) (p_store ?s2)"
  let ?s3 = "\<lparr>p_store = snd ?e, p_handles = []\<rparr>"
  have a: "pstep obeys False s1 ?s2" using p_drop [of s1 "[]" tmp_handle "[tmp_handle]"] s1(2) by simp
  have b: "pstep obeys False ?s2 ?s3"
    using p_export [of ?s2 "[]" tmp_handle "[]" False "Inl []" obeys "fst ?e" "snd ?e"] by simp
  have "(pstep obeys False)\<^sup>*\<^sup>* (process_new {}) ?s3"
    by (rule rtranclp.rtrancl_into_rtrancl [OF rtranclp.rtrancl_into_rtrancl [OF s1(1) a] b])
  moreover have "fs_files (snd ?e) = {tmp_path @ lit ''-wal''}"
    using s1(3-5) tmp_path_ok(3)
    by (auto simp: export_db_def tmp_handle_def drop_db_def release_all close_pool_def drop_arc_def into_inner_def unlink_def obeys_def
        Let_def lit_def)
  ultimately show ?thesis by (intro exI [of _ ?s3]) simp
qed

end
