(* ===== verification/Symbols.thy ===== *)
theory Symbols
  imports Prelude
begin

unbundle bit_operations_syntax

text \<open>
  The \<open>Symbol\<close> of \<open>core/string_interner.rs\<close>: a non-zero 32-bit handle that packs a
  shard number (top 8 bits) and an index plus one (bottom 24 bits).  The order of symbols is
  the derived order of the raw word.  The lemmas show that packing loses nothing, that every
  packed symbol is non-zero (which \<open>NonZeroU32::new_unchecked\<close> relies on), and what the
  accessors do on raw words that were never packed.
\<close>

section \<open>The handle\<close>

datatype symbol = Symbol (into_raw: u32)

instantiation symbol :: linorder
begin

definition less_eq_symbol :: "symbol \<Rightarrow> symbol \<Rightarrow> bool" where
  "less_eq_symbol a b \<longleftrightarrow> into_raw a \<le> into_raw b"

definition less_symbol :: "symbol \<Rightarrow> symbol \<Rightarrow> bool" where
  "less_symbol a b \<longleftrightarrow> into_raw a < into_raw b"

instance
  by standard (auto simp: less_eq_symbol_def less_symbol_def intro: symbol.expand)

end

definition INDEX_MASK :: u32 where
  "INDEX_MASK = 0x00FFFFFF"

definition USIZE_MAX :: nat where
  "USIZE_MAX = 2 ^ 64 - 1"

definition STATIC_SHARD_ID :: u8 where
  "STATIC_SHARD_ID = 255"

definition symbol_new :: "u8 \<Rightarrow> nat \<Rightarrow> symbol res" where
  "symbol_new shard index =
     (if index < unat INDEX_MASK
      then Inr (Symbol (push_bit 24 (ucast shard) OR (word_of_nat index + 1)))
      else Inl SymbolIndexOverflow)"

definition shard_id :: "symbol \<Rightarrow> nat" where
  "shard_id s = unat (drop_bit 24 (into_raw s))"

text \<open>
  \<open>(raw & INDEX_MASK) as usize - 1\<close>: with the low 24 bits zero the subtraction wraps
  around to \<open>usize::MAX\<close> (arithmetic of the release profile).
\<close>

definition index :: "symbol \<Rightarrow> nat" where
  "index s = (let low = unat (into_raw s AND INDEX_MASK)
              in if low = 0 then USIZE_MAX else low - 1)"

definition from_raw :: "u32 \<Rightarrow> symbol option" where
  "from_raw r = (if r = 0 then None else Some (Symbol r))"

section \<open>Packing\<close>

lemma unat_INDEX_MASK [simp]: "unat INDEX_MASK = 2 ^ 24 - 1"
  by (simp add: INDEX_MASK_def)

lemma INDEX_MASK_mask: "INDEX_MASK = mask 24"
  by (simp add: INDEX_MASK_def mask_eq_exp_minus_1)

lemma unat_low:
  assumes "i < 2 ^ 24 - 1"
  shows "unat (word_of_nat i + 1 :: u32) = i + 1"
  using assms by (simp add: unat_word_ariths unat_of_nat)

lemma packed_drop:
  fixes x :: u32
  assumes "unat x < 2 ^ 24"
  shows "drop_bit 24 (push_bit 24 (ucast (s :: u8)) OR x) = ucast s"
proof -
  have "drop_bit 24 x = 0"
    using assms by (intro word_unat_eqI) (simp only: unat_drop_bit, simp)
  moreover have "drop_bit 24 (push_bit 24 (ucast s :: u32)) = ucast s"
    by (rule bit_word_eqI) (auto simp: bit_simps dest: bit_imp_le_length)
  ultimately show ?thesis by (simp add: drop_bit_or)
qed

lemma packed_mask:
  fixes x :: u32
  assumes "unat x < 2 ^ 24"
  shows "(push_bit 24 (ucast (s :: u8)) OR x) AND mask 24 = x"
proof -
  have "unat (x AND mask 24) = unat x"
    using assms by (simp add: unat_and_mask)
  then have "x AND mask 24 = x" by (rule word_unat_eqI)
  moreover have "push_bit 24 (ucast s :: u32) AND mask 24 = 0"
    by (rule bit_word_eqI) (auto simp: bit_simps)
  ultimately show ?thesis by (simp add: bit.conj_disj_distrib2)
qed

lemma symbol_new_ok: "i < 2 ^ 24 - 1 \<longleftrightarrow> (\<exists>y. symbol_new s i = Inr y)"
  by (simp add: symbol_new_def)

lemma symbol_new_fields:
  assumes "symbol_new s i = Inr y"
  shows "shard_id y = unat s \<and> index y = i \<and> into_raw y \<noteq> 0"
proof -
  from assms have i: "i < 2 ^ 24 - 1"
    and y: "y = Symbol (push_bit 24 (ucast s) OR (word_of_nat i + 1))"
    by (auto simp: symbol_new_def split: if_splits)
  have low: "unat (word_of_nat i + 1 :: u32) = i + 1" using i by (rule unat_low)
  then have small: "unat (word_of_nat i + 1 :: u32) < 2 ^ 24" using i by simp
  have "shard_id y = unat s"
    by (simp only: y shard_id_def symbol.sel packed_drop [OF small])
      (simp add: unat_ucast_up)
  moreover have m: "into_raw y AND INDEX_MASK = word_of_nat i + 1"
    by (simp add: y INDEX_MASK_mask packed_mask [OF small])
  moreover have "index y = i" using m low by (simp add: index_def Let_def)
  moreover have "into_raw y \<noteq> 0" using m low by auto
  ultimately show ?thesis by simp
qed

lemma symbol_new_inj:
  assumes "symbol_new s i = Inr y" "symbol_new t j = Inr y"
  shows "s = t \<and> i = j"
  using symbol_new_fields [OF assms(1)] symbol_new_fields [OF assms(2)]
  by (auto intro: word_unat_eqI)

text \<open>The total packing function, on arguments that \<open>symbol_new\<close> accepts.\<close>

definition mk_sym :: "nat \<Rightarrow> nat \<Rightarrow> symbol" where
  "mk_sym s i = Symbol (push_bit 24 (ucast (word_of_nat s :: u8)) OR (word_of_nat i + 1))"

lemma symbol_new_mk_sym: "i < 2 ^ 24 - 1 \<Longrightarrow> symbol_new (word_of_nat s) i = Inr (mk_sym s i)"
  by (simp add: symbol_new_def mk_sym_def)

lemma mk_sym_fields:
  assumes "s < 256" "i < 2 ^ 24 - 1"
  shows "shard_id (mk_sym s i) = s" "index (mk_sym s i) = i" "into_raw (mk_sym s i) \<noteq> 0"
  using symbol_new_fields [OF symbol_new_mk_sym [OF assms(2)], of s] assms(1)
  by (simp_all add: unat_of_nat)

lemma mk_sym_inj:
  "s < 256 \<Longrightarrow> t < 256 \<Longrightarrow> i < 2 ^ 24 - 1 \<Longrightarrow> j < 2 ^ 24 - 1 \<Longrightarrow>
     mk_sym s i = mk_sym t j \<longleftrightarrow> s = t \<and> i = j"
  by (metis mk_sym_fields(1,2))

text \<open>Every raw word with a non-zero low part is a packed symbol: its fields rebuild it.\<close>

lemma shard_id_less: "shard_id y < 256"
proof -
  have "unat (into_raw y) < 2 ^ 32" using unsigned_less [of "into_raw y"] by simp
  then show ?thesis
    by (simp only: shard_id_def unat_drop_bit) simp
qed

lemma mk_sym_of_fields:
  assumes "into_raw y AND INDEX_MASK \<noteq> 0"
  shows "mk_sym (shard_id y) (index y) = y"
proof -
  let ?r = "into_raw y"
  have "unat (?r AND INDEX_MASK) \<noteq> 0"
    using assms by (simp add: unat_eq_zero)
  then have low: "word_of_nat (index y) + 1 = ?r AND INDEX_MASK"
    by (simp add: index_def Let_def of_nat_diff)
  have "ucast (word_of_nat (shard_id y) :: u8) = drop_bit 24 ?r"
    using shard_id_less [of y]
    by (intro word_unat_eqI) (simp add: shard_id_def unat_ucast_up unat_of_nat del: of_nat_unat)
  then have "push_bit 24 (ucast (word_of_nat (shard_id y) :: u8)) OR (?r AND INDEX_MASK) = ?r"
    by (auto intro!: bit_word_eqI simp: bit_simps INDEX_MASK_mask)
  then show ?thesis by (simp add: mk_sym_def low symbol.expand)
qed

text \<open>What the accessors do on a raw word whose low part is zero: no packed symbol has it.\<close>

lemma index_of_zero_low:
  "into_raw y AND INDEX_MASK = 0 \<Longrightarrow> index y = USIZE_MAX"
  by (simp add: index_def)

lemma from_raw_into_raw: "into_raw y \<noteq> 0 \<Longrightarrow> from_raw (into_raw y) = Some y"
  by (simp add: from_raw_def)

end
