(* ===== verification/Memory_Pool.thy ===== *)
theory Memory_Pool
  imports Symbols
begin

unbundle bit_operations_syntax

text \<open>
  \<open>MemoryPool\<close> of \<open>core/string_interner.rs\<close>: one arena, cut into a 4-byte header
  (the shard count) and one region per shard.  A shard's cursor counts the bytes used in its
  region; a string is stored as a length-prefixed record, padded to four bytes.  The lemmas
  show that a successful allocation stays inside the shard's region and touches nothing else,
  that it fails exactly when the record does not fit, and that an exhausted shard stays
  exhausted.
\<close>

section \<open>State and operations\<close>

record shard_cursor =
  cvalue :: u32
  poisoned :: bool

record memory_pool =
  pmem :: mem
  cursors :: "shard_cursor list"
  region_size :: u32
  header_size :: u32
  capacity :: u32

definition ARENA_CAPACITY :: u32 where
  "ARENA_CAPACITY = 512 * 1024 * 1024"

definition HEADER_SIZE :: u32 where
  "HEADER_SIZE = 4"

definition padded_record_size :: "u32 \<Rightarrow> u32" where
  "padded_record_size len = (len + 4 + 3) AND NOT 3"

definition shard_cursor_new :: shard_cursor where
  "shard_cursor_new = \<lparr>cvalue = 0, poisoned = False\<rparr>"

text \<open>\<open>uninit\<close> is what the allocator's bytes hold before they are written.\<close>

definition pool_new :: "mem \<Rightarrow> u32 \<Rightarrow> u32 \<Rightarrow> memory_pool res" where
  "pool_new uninit cap shard_count =
     (if \<not> shard_count > 0 then Inl AssertFailed
      else if \<not> cap > HEADER_SIZE then Inl AssertFailed
      else
        let m = mem_write uninit 0 (le32 shard_count);
            rs = ((cap - HEADER_SIZE) div shard_count) AND NOT 3
        in if \<not> rs > 0 then Inl AssertFailed
           else Inr \<lparr>pmem = m, cursors = map (\<lambda>_. shard_cursor_new) [0..<unat shard_count],
                      region_size = rs, header_size = HEADER_SIZE, capacity = cap\<rparr>)"

definition poison :: "memory_pool \<Rightarrow> nat \<Rightarrow> memory_pool" where
  "poison P sid = P\<lparr>cursors := (cursors P)[sid := (cursors P ! sid)\<lparr>poisoned := True\<rparr>]\<rparr>"

definition pool_alloc :: "memory_pool \<Rightarrow> nat \<Rightarrow> str \<Rightarrow> u32 res \<times> memory_pool" where
  "pool_alloc P sid v =
     (if \<not> sid < length (cursors P) then (Inl IndexOutOfBounds, P)
      else
        let shard = cursors P ! sid in
        if poisoned shard then (Inl (PoolExhausted sid), P)
        else
          let len = word_of_nat (length v) :: u32;
              size = padded_record_size len;
              current = cvalue shard
          in if region_size P < current then (Inl (PoolExhausted sid), poison P sid)
             else
               let remaining = region_size P - current in
               if size > remaining then (Inl (PoolExhausted sid), poison P sid)
               else
                 let global_offset = header_size P + word_of_nat sid * region_size P + current;
                     m = mem_write (pmem P) (unat global_offset) (le32 len);
                     m' = mem_write m (unat global_offset + 4) (take (unat len) v)
                 in (Inr global_offset,
                     P\<lparr>pmem := m',
                        cursors := (cursors P)[sid := shard\<lparr>cvalue := current + size\<rparr>]\<rparr>))"

definition committed_bytes :: "memory_pool \<Rightarrow> u8 list" where
  "committed_bytes P =
     (let used = map (\<lambda>c. min (cvalue c) (region_size P)) (cursors P)
      in mem_read (pmem P) 0 (unat (header_size P))
         @ concat (map (\<lambda>sid. mem_read (pmem P)
               (unat (header_size P + word_of_nat sid * region_size P)) (unat (used ! sid)))
             [0..<length used]))"

definition read_shard_count_header :: "u8 list \<Rightarrow> u32 option" where
  "read_shard_count_header bs = (if length bs < 4 then None else Some (of_le32 (take 4 bs)))"

section \<open>Record sizes\<close>

text \<open>The size of a record of \<open>n\<close> bytes of text, over the natural numbers.\<close>

definition rec_size :: "nat \<Rightarrow> nat" where
  "rec_size n = 4 * ((n + 7) div 4)"

lemma rec_size_bounds: "n + 4 \<le> rec_size n" "rec_size n < n + 8" "rec_size n mod 4 = 0"
  by (auto simp: rec_size_def)

lemma rec_size_pos [simp]: "0 < rec_size n"
  by (simp add: rec_size_def)

lemma unat_and_not_3: "unat (x AND NOT 3) = 4 * (unat x div 4)" for x :: u32
proof -
  have "(3 :: u32) = mask 2" by (simp add: mask_eq_exp_minus_1)
  then have "x AND NOT 3 = push_bit 2 (drop_bit 2 x)"
    by (simp only: and_not_mask)
  then have "x AND NOT 3 = drop_bit 2 x * 4" by (simp only: push_bit_eq_mult) simp
  moreover have "unat x div 4 * 4 < 2 ^ 32"
    using unat_u32_less [of x] by simp
  ultimately show ?thesis
    by (simp only: unat_word_ariths unat_drop_bit) simp
qed

lemma unat_padded_record_size:
  assumes "unat len < 2 ^ 32 - 7"
  shows "unat (padded_record_size len) = rec_size (unat len)"
proof -
  have "unat (len + 4 + 3) = unat len + 7"
    using assms by (simp add: unat_word_ariths)
  then show ?thesis by (simp only: padded_record_size_def unat_and_not_3 rec_size_def)
qed

text \<open>Without the bound the size wraps to nothing: a string that long would be given no room.\<close>

lemma padded_record_size_wraps: "padded_record_size (- 7) = 0"
  by (simp add: padded_record_size_def)

section \<open>The layout invariant\<close>

text \<open>
  The arena is large enough for the header and all regions, regions and cursors are
  four-byte aligned, and no cursor has run past its region.
\<close>

definition pool_inv :: "memory_pool \<Rightarrow> bool" where
  "pool_inv P \<longleftrightarrow>
     header_size P = HEADER_SIZE \<and>
     unat (region_size P) mod 4 = 0 \<and>
     4 + length (cursors P) * unat (region_size P) \<le> unat (capacity P) \<and>
     (\<forall>c \<in> set (cursors P). unat (cvalue c) \<le> unat (region_size P) \<and> unat (cvalue c) mod 4 = 0)"

text \<open>Where the region of a shard starts.\<close>

definition region_base :: "memory_pool \<Rightarrow> nat \<Rightarrow> nat" where
  "region_base P sid = 4 + sid * unat (region_size P)"

definition cursor_of :: "memory_pool \<Rightarrow> nat \<Rightarrow> nat" where
  "cursor_of P sid = unat (cvalue (cursors P ! sid))"

lemma pool_inv_cursor:
  "pool_inv P \<Longrightarrow> sid < length (cursors P) \<Longrightarrow> cursor_of P sid \<le> unat (region_size P)"
  by (simp add: pool_inv_def cursor_of_def)

lemma pool_new_inv:
  assumes "pool_new u cap n = Inr P"
  shows "pool_inv P" "cursors P = replicate (unat n) shard_cursor_new"
    "unat (region_size P) = 4 * ((unat cap - 4) div unat n div 4)" "capacity P = cap"
    "mem_read (pmem P) 0 4 = le32 n" "header_size P = 4"
proof -
  from assms have n: "0 < n" and cap: "4 < cap"
    and P: "P = \<lparr>pmem = mem_write u 0 (le32 n),
       cursors = map (\<lambda>_. shard_cursor_new) [0..<unat n],
       region_size = ((cap - 4) div n) AND NOT 3, header_size = 4, capacity = cap\<rparr>"
    by (auto simp: pool_new_def Let_def HEADER_SIZE_def split: if_splits)
  have uc: "unat (cap - 4) = unat cap - 4"
    using cap by (simp add: unat_sub_small order.strict_implies_order)
  show rs: "unat (region_size P) = 4 * ((unat cap - 4) div unat n div 4)"
    by (simp only: P unat_and_not_3 memory_pool.simps unat_div uc)
  have "unat n * (4 * ((unat cap - 4) div unat n div 4)) \<le> unat n * ((unat cap - 4) div unat n)"
    by (intro mult_le_mono2) (metis div_times_less_eq_dividend mult.commute)
  also have "\<dots> \<le> unat cap - 4" by simp
  finally have "4 + unat n * unat (region_size P) \<le> unat cap"
    using cap rs by (simp add: word_less_nat_alt)
  moreover have "unat (region_size P) mod 4 = 0" by (simp add: rs)
  moreover have "length (cursors P) = unat n" "header_size P = HEADER_SIZE" "capacity P = cap"
    by (simp_all add: P HEADER_SIZE_def)
  moreover show "cursors P = replicate (unat n) shard_cursor_new"
    by (simp add: P map_replicate_const)
  ultimately show "pool_inv P" by (simp add: pool_inv_def shard_cursor_new_def)
  show "mem_read (pmem P) 0 4 = le32 n" by (simp add: P mem_simps)
  show "capacity P = cap" "header_size P = 4" by (simp_all add: P)
qed

section \<open>Allocation\<close>

text \<open>Whether a string fits what is left of the shard's region.\<close>

definition fits :: "memory_pool \<Rightarrow> nat \<Rightarrow> str \<Rightarrow> bool" where
  "fits P sid v \<longleftrightarrow> cursor_of P sid + rec_size (length v) \<le> unat (region_size P)"

lemma region_start_exact:
  assumes "pool_inv P" "sid < length (cursors P)"
  shows "unat (header_size P + word_of_nat sid * region_size P) = region_base P sid"
    and "region_base P sid + unat (region_size P) \<le> unat (capacity P)"
proof -
  have "(sid + 1) * unat (region_size P) \<le> length (cursors P) * unat (region_size P)"
    using assms(2) by (intro mult_le_mono1) simp
  then show b: "region_base P sid + unat (region_size P) \<le> unat (capacity P)"
    using assms(1) by (simp add: pool_inv_def region_base_def)
  then have lt: "4 + sid * unat (region_size P) < 2 ^ 32 \<or> unat (region_size P) = 0"
    using unat_u32_less [of "capacity P"] by (auto simp: region_base_def)
  show "unat (header_size P + word_of_nat sid * region_size P) = region_base P sid"
  proof (cases "unat (region_size P) = 0")
    case True
    then show ?thesis
      using assms(1) by (simp add: region_base_def pool_inv_def HEADER_SIZE_def unat_eq_zero)
  next
    case False
    then have "sid \<le> sid * unat (region_size P)" by simp
    moreover from False lt have small: "4 + sid * unat (region_size P) < 2 ^ 32" by simp
    ultimately have "sid < 2 ^ 32" by linarith
    then have s: "unat (word_of_nat sid :: u32) = sid" by (simp add: unat_of_nat)
    have "unat (word_of_nat sid * region_size P) = sid * unat (region_size P)"
      using small by (simp add: unat_mult_small s)
    then show ?thesis
      using small assms(1)
      by (simp add: unat_word_ariths pool_inv_def HEADER_SIZE_def region_base_def)
  qed
qed

lemma alloc_offset_exact:
  assumes "pool_inv P" "sid < length (cursors P)" "unat (cvalue (cursors P ! sid)) < unat (region_size P)"
  shows "unat (header_size P + word_of_nat sid * region_size P + cvalue (cursors P ! sid)) =
     region_base P sid + cursor_of P sid"
  using region_start_exact [OF assms(1,2)] unat_u32_less [of "capacity P"] assms(3)
  by (simp add: unat_word_ariths cursor_of_def)

text \<open>
  The record as the pool stores it, and the pool after a successful allocation.
\<close>

definition stored :: "memory_pool \<Rightarrow> nat \<Rightarrow> str \<Rightarrow> memory_pool" where
  "stored P sid v =
     P\<lparr>pmem := arena.put_record (pmem P) (region_base P sid + cursor_of P sid)
               (le32 (word_of_nat (length v))) v,
        cursors := (cursors P)[sid := (cursors P ! sid)
          \<lparr>cvalue := cvalue (cursors P ! sid) + padded_record_size (word_of_nat (length v))\<rparr>]\<rparr>"

lemma fits_word:
  assumes "pool_inv P" "sid < length (cursors P)" "length v < 2 ^ 32 - 7"
  shows "fits P sid v \<longleftrightarrow>
     \<not> padded_record_size (word_of_nat (length v)) > region_size P - cvalue (cursors P ! sid)"
    and "\<not> region_size P < cvalue (cursors P ! sid)"
proof -
  have c: "unat (cvalue (cursors P ! sid)) \<le> unat (region_size P)"
    using assms(1,2) by (simp add: pool_inv_def)
  then show "\<not> region_size P < cvalue (cursors P ! sid)"
    by (simp add: word_less_nat_alt)
  have "unat (padded_record_size (word_of_nat (length v))) = rec_size (length v)"
    using assms(3) by (simp add: unat_padded_record_size unat_of_nat)
  then show "fits P sid v \<longleftrightarrow>
     \<not> padded_record_size (word_of_nat (length v)) > region_size P - cvalue (cursors P ! sid)"
    using c by (auto simp: fits_def cursor_of_def word_less_nat_alt unat_sub_small word_le_nat_alt)
qed

lemma pool_alloc_ok:
  assumes "pool_inv P" "sid < length (cursors P)" "\<not> poisoned (cursors P ! sid)"
    "length v < 2 ^ 32 - 7" "fits P sid v"
  shows "\<exists>off. pool_alloc P sid v = (Inr off, stored P sid v) \<and>
     unat off = region_base P sid + cursor_of P sid"
proof -
  have "cursor_of P sid < unat (region_size P)"
    using assms(5) rec_size_pos [of "length v"] unfolding fits_def by linarith
  then have off: "unat (header_size P + word_of_nat sid * region_size P + cvalue (cursors P ! sid)) =
     region_base P sid + cursor_of P sid"
    using assms(1,2) by (simp add: alloc_offset_exact cursor_of_def)
  have len: "unat (word_of_nat (length v) :: u32) = length v"
    using assms(4) by (simp add: unat_of_nat)
  show ?thesis
    using fits_word [OF assms(1,2,4)] assms(2,3,5) off
    by (auto simp: pool_alloc_def Let_def stored_def arena.put_record_def len)
qed

lemma pool_alloc_full:
  assumes "pool_inv P" "sid < length (cursors P)" "length v < 2 ^ 32 - 7"
    "poisoned (cursors P ! sid) \<or> \<not> fits P sid v"
  shows "pool_alloc P sid v = (Inl (PoolExhausted sid),
     if poisoned (cursors P ! sid) then P else poison P sid)"
  using fits_word [OF assms(1-3)] assms(2,4) by (auto simp: pool_alloc_def Let_def)

section \<open>What an allocation changes\<close>

lemma stored_simps [simp]:
  "length (cursors (stored P sid v)) = length (cursors P)"
  "region_size (stored P sid v) = region_size P"
  "header_size (stored P sid v) = header_size P"
  "capacity (stored P sid v) = capacity P"
  "region_base (stored P sid v) = region_base P"
  by (auto simp: stored_def region_base_def fun_eq_iff)

lemma cursor_stored:
  assumes "pool_inv P" "sid < length (cursors P)" "length v < 2 ^ 32 - 7" "fits P sid v"
  shows "cursor_of (stored P sid v) t =
     (if t = sid then cursor_of P sid + rec_size (length v) else cursor_of P t)"
proof -
  have p: "unat (padded_record_size (word_of_nat (length v))) = rec_size (length v)"
    using assms(3) by (simp add: unat_padded_record_size unat_of_nat)
  have "unat (cvalue (cursors P ! sid)) + rec_size (length v) < 2 ^ 32"
    using assms(4) unat_u32_less [of "region_size P"] by (simp add: fits_def cursor_of_def)
  then show ?thesis
    using assms(2) by (auto simp: stored_def cursor_of_def nth_list_update unat_add_small p)
qed

lemma poisoned_stored [simp]:
  "sid < length (cursors P) \<Longrightarrow> poisoned (cursors (stored P sid v) ! t) = poisoned (cursors P ! t)"
  by (cases "t = sid") (simp_all add: stored_def)

lemma pool_inv_stored:
  assumes "pool_inv P" "sid < length (cursors P)" "length v < 2 ^ 32 - 7" "fits P sid v"
  shows "pool_inv (stored P sid v)"
proof -
  let ?P' = "stored P sid v"
  have "unat (cvalue c) \<le> unat (region_size P) \<and> unat (cvalue c) mod 4 = 0"
    if c: "c \<in> set (cursors ?P')" for c
  proof -
    from c obtain t where t: "t < length (cursors P)" "c = cursors ?P' ! t"
      by (metis in_set_conv_nth stored_simps(1))
    have "cursor_of P t \<le> unat (region_size P)" "cursor_of P t mod 4 = 0"
      using assms(1) t(1) by (simp_all add: pool_inv_def cursor_of_def)
    moreover have "cursor_of P sid mod 4 = 0"
      using assms(1,2) by (simp add: pool_inv_def cursor_of_def)
    then have "(cursor_of P sid + rec_size (length v)) mod 4 = 0"
      using rec_size_bounds(3) [of "length v"] by presburger
    ultimately have "cursor_of ?P' t \<le> unat (region_size P) \<and> cursor_of ?P' t mod 4 = 0"
      using assms(4) by (simp add: cursor_stored [OF assms] fits_def)
    then show ?thesis by (simp add: cursor_of_def t)
  qed
  then show ?thesis using assms(1) by (simp add: pool_inv_def)
qed

text \<open>The stored record reads back, and every other byte of the arena is as before.\<close>

lemma stored_reads:
  assumes "length v < 2 ^ 32 - 7"
  shows "mem_read (pmem (stored P sid v)) (region_base P sid + cursor_of P sid) 4 =
      le32 (word_of_nat (length v))"
    and "mem_read (pmem (stored P sid v)) (region_base P sid + cursor_of P sid + 4) (length v) = v"
  using arena.put_record_hdr [of "pmem P" _ "le32 (word_of_nat (length v))" v]
    arena.put_record_txt [of "pmem P" _ "le32 (word_of_nat (length v))" v]
  by (simp_all add: stored_def)

lemma stored_frame:
  "a + n \<le> region_base P sid + cursor_of P sid \<or>
   region_base P sid + cursor_of P sid + 4 + length v \<le> a \<Longrightarrow>
     mem_read (pmem (stored P sid v)) a n = mem_read (pmem P) a n"
  using arena.put_record_frame [of a n _ "le32 (word_of_nat (length v))" v "pmem P"]
  by (simp add: stored_def)

lemma poison_simps [simp]:
  "pmem (poison P sid) = pmem P"
  "length (cursors (poison P sid)) = length (cursors P)"
  "region_size (poison P sid) = region_size P"
  "header_size (poison P sid) = header_size P"
  "capacity (poison P sid) = capacity P"
  "region_base (poison P sid) = region_base P"
  "cursor_of (poison P sid) t = cursor_of P t"
  by (auto simp: poison_def cursor_of_def region_base_def fun_eq_iff nth_list_update split: if_splits)
    (metis list_update_beyond not_le nth_list_update_eq nth_list_update_neq shard_cursor.select_convs(1)
      shard_cursor.surjective shard_cursor.update_convs(2))+

lemma poisoned_poison [simp]: "sid < length (cursors P) \<Longrightarrow> poisoned (cursors (poison P sid) ! sid)"
  by (simp add: poison_def)

lemma pool_inv_poison: "pool_inv P \<Longrightarrow> sid < length (cursors P) \<Longrightarrow> pool_inv (poison P sid)"
  by (auto simp: pool_inv_def poison_def dest!: subsetD [OF set_update_subset_insert])

end
