(* ===== verification/String_Array.thy ===== *)
theory String_Array
  imports Memory_Pool
begin

unbundle bit_operations_syntax

text \<open>
  \<open>LockFreeStringArray\<close> of \<open>core/string_interner.rs\<close>: the table from a shard's string
  index to the offset of its record.  The table is an array of pointers to chunks of 4096
  slots, allocated on demand; a slot holds a non-zero offset once it has been filled.  The
  thread-local \<open>LAST_CHUNK\<close> memo short-cuts the pointer load; the lemmas show that it
  never changes what is read.  Atomics are taken at their sequential meaning.
\<close>

section \<open>State and operations\<close>

definition CHUNK_SHIFT :: nat where "CHUNK_SHIFT = 12"
definition CHUNK_SIZE :: nat where "CHUNK_SIZE = 2 ^ CHUNK_SHIFT"
definition CHUNK_MASK :: nat where "CHUNK_MASK = CHUNK_SIZE - 1"
definition NUM_CHUNKS :: nat where "NUM_CHUNKS = 2 ^ (24 - CHUNK_SHIFT)"

text \<open>
  A pointer to a \<open>StringChunk\<close> is the number of its allocation; \<open>chunk_heap\<close> maps
  it to the chunk's slots.  \<open>self_addr\<close> is the address of the array itself.
\<close>

type_synonym chunk_ptr = nat

record string_array =
  arr_interner_id :: u32
  self_addr :: nat
  chunks :: "nat \<Rightarrow> chunk_ptr option"
  chunk_heap :: "chunk_ptr \<Rightarrow> nat \<Rightarrow> u32"
  next_chunk :: chunk_ptr
  arr_len :: nat

text \<open>The \<open>LAST_CHUNK\<close> cell: interner id, array address, chunk number, chunk pointer.\<close>

type_synonym last_chunk = "(u32 \<times> nat \<times> nat \<times> chunk_ptr) option"

definition string_array_new :: "u32 \<Rightarrow> nat \<Rightarrow> string_array" where
  "string_array_new iid addr =
     \<lparr>arr_interner_id = iid, self_addr = addr, chunks = (\<lambda>_. None),
      chunk_heap = (\<lambda>_ _. 0), next_chunk = 0, arr_len = 0\<rparr>"

text \<open>\<open>self.chunks[chunk_idx]\<close> is bounds checked: \<open>NUM_CHUNKS\<close> pointers exist.\<close>

definition load_chunk :: "string_array \<Rightarrow> last_chunk \<Rightarrow> nat \<Rightarrow> chunk_ptr option res \<times> last_chunk" where
  "load_chunk A memo chunk_idx =
     (let miss =
        (if \<not> chunk_idx < NUM_CHUNKS then (Inl IndexOutOfBounds, memo)
         else case chunks A chunk_idx of
             None \<Rightarrow> (Inr None, memo)
           | Some p \<Rightarrow> (Inr (Some p), Some (arr_interner_id A, self_addr A, chunk_idx, p)))
      in case memo of
           Some (cached_id, cached_addr, cached_idx, p) \<Rightarrow>
             if cached_id = arr_interner_id A \<and> cached_addr = self_addr A \<and> cached_idx = chunk_idx
             then (Inr (Some p), memo) else miss
         | None \<Rightarrow> miss)"

text \<open>
  A \<open>&'static str\<close> into the arena is a fat pointer: the address of its first byte,
  relative to the arena's base, and the bytes it spans.  \<open>read_record\<close> is the slice the
  record at an offset holds: the length header, then that many bytes behind it.
\<close>

type_synonym str_ref = "nat \<times> str"

definition read_record :: "mem \<Rightarrow> nat \<Rightarrow> str_ref" where
  "read_record m off = (off + 4, mem_read m (off + 4) (unat (of_le32 (mem_read m off 4))))"

definition get_from_chunk :: "string_array \<Rightarrow> chunk_ptr \<Rightarrow> nat \<Rightarrow> mem \<Rightarrow> str_ref option" where
  "get_from_chunk A p slot_idx m =
     (let off = chunk_heap A p slot_idx
      in if off = 0 then None else Some (read_record m (unat off)))"

definition array_get ::
  "string_array \<Rightarrow> last_chunk \<Rightarrow> nat \<Rightarrow> mem \<Rightarrow> str_ref option res \<times> last_chunk" where
  "array_get A memo idx m =
     (if idx \<ge> arr_len A then (Inr None, memo)
      else
        let chunk_idx = drop_bit CHUNK_SHIFT idx; slot_idx = idx AND CHUNK_MASK
        in case load_chunk A memo chunk_idx of
             (Inl e, memo') \<Rightarrow> (Inl e, memo')
           | (Inr None, memo') \<Rightarrow> (Inr None, memo')
           | (Inr (Some p), memo') \<Rightarrow> (Inr (get_from_chunk A p slot_idx m), memo'))"

text \<open>
  \<open>get_unchecked\<close> dereferences the chunk pointer without a test.  A null pointer or a slot
  that was never filled is undefined behaviour in the source; the model returns \<open>None\<close>
  there, so that a proof that the result is \<open>Some\<close> is a proof that the call is safe.
\<close>

definition array_get_unchecked ::
  "string_array \<Rightarrow> last_chunk \<Rightarrow> nat \<Rightarrow> mem \<Rightarrow> str_ref option res \<times> last_chunk" where
  "array_get_unchecked A memo idx m =
     (let chunk_idx = drop_bit CHUNK_SHIFT idx; slot_idx = idx AND CHUNK_MASK
      in case load_chunk A memo chunk_idx of
           (Inl e, memo') \<Rightarrow> (Inl e, memo')
         | (Inr None, memo') \<Rightarrow> (Inr None, memo')
         | (Inr (Some p), memo') \<Rightarrow> (Inr (get_from_chunk A p slot_idx m), memo'))"

definition array_push :: "string_array \<Rightarrow> u32 \<Rightarrow> nat res \<times> string_array" where
  "array_push A off =
     (let idx = arr_len A; A1 = A\<lparr>arr_len := idx + 1\<rparr>;
          chunk_idx = drop_bit CHUNK_SHIFT idx; slot_idx = idx AND CHUNK_MASK
      in if \<not> chunk_idx < NUM_CHUNKS then (Inl IndexOutOfBounds, A1)
         else
           let (p, A2) =
             (case chunks A1 chunk_idx of
                Some p \<Rightarrow> (p, A1)
              | None \<Rightarrow>
                  (next_chunk A1,
                   A1\<lparr>chunks := (chunks A1)(chunk_idx := Some (next_chunk A1)),
                      chunk_heap := (chunk_heap A1)(next_chunk A1 := (\<lambda>_. 0)),
                      next_chunk := next_chunk A1 + 1\<rparr>))
           in (Inr idx,
               A2\<lparr>chunk_heap := (chunk_heap A2)(p := (chunk_heap A2 p)(slot_idx := off))\<rparr>))"

section \<open>The table as a list of offsets\<close>

lemma chunk_consts [simp]:
  "CHUNK_SHIFT = 12" "CHUNK_SIZE = 4096" "CHUNK_MASK = 4095" "NUM_CHUNKS = 4096"
  by (simp_all add: CHUNK_SHIFT_def CHUNK_SIZE_def CHUNK_MASK_def NUM_CHUNKS_def)

lemma drop_bit_12: "drop_bit 12 (i::nat) = i div 4096"
  by (simp add: drop_bit_eq_div)

lemma and_4095: "(i::nat) AND 4095 = i mod 4096"
proof -
  have "(4095::nat) = mask 12" by (simp add: mask_eq_exp_minus_1)
  then have "i AND 4095 = take_bit 12 i" by (simp only: take_bit_eq_mask)
  then show ?thesis by (simp add: take_bit_eq_mod)
qed

text \<open>The slots behind the strings of an array hold no offset.\<close>

definition slots_clear :: "string_array \<Rightarrow> bool" where
  "slots_clear A \<longleftrightarrow> (\<forall>i p. arr_len A \<le> i \<longrightarrow> chunks A (i div 4096) = Some p \<longrightarrow> chunk_heap A p (i mod 4096) = 0)"

text \<open>
  \<open>arr_rep A os\<close>: the array holds exactly the offsets \<open>os\<close>, in index order; chunk
  pointers are distinct and allocated, and the slots not in use are zero.
\<close>

definition arr_rep :: "string_array \<Rightarrow> u32 list \<Rightarrow> bool" where
  "arr_rep A os \<longleftrightarrow>
     arr_len A = length os \<and>
     (\<forall>i < length os. \<exists>p. chunks A (i div 4096) = Some p \<and> chunk_heap A p (i mod 4096) = os ! i) \<and>
     (\<forall>c p. chunks A c = Some p \<longrightarrow> p < next_chunk A) \<and>
     (\<forall>c d p. chunks A c = Some p \<longrightarrow> chunks A d = Some p \<longrightarrow> c = d) \<and> slots_clear A"

text \<open>The memo is right: when it speaks of this array, it holds this array's pointer.\<close>

definition memo_ok :: "string_array \<Rightarrow> last_chunk \<Rightarrow> bool" where
  "memo_ok A memo \<longleftrightarrow>
     (\<forall>iid addr c p. memo = Some (iid, addr, c, p) \<longrightarrow> iid = arr_interner_id A \<longrightarrow>
        addr = self_addr A \<longrightarrow> c < NUM_CHUNKS \<and> chunks A c = Some p)"

lemma arr_rep_new: "arr_rep (string_array_new iid addr) []"
  by (simp add: arr_rep_def string_array_new_def slots_clear_def)

lemma memo_ok_None [simp]: "memo_ok A None"
  by (simp add: memo_ok_def)

lemma load_chunk_transparent:
  assumes "memo_ok A memo"
  shows "fst (load_chunk A memo c) = fst (load_chunk A None c)"
    and "memo_ok A (snd (load_chunk A memo c))"
  using assms
  by (auto simp: load_chunk_def memo_ok_def Let_def split: option.splits prod.splits if_splits)

lemma array_get_rep:
  assumes "arr_rep A os" "length os \<le> 2 ^ 24" "memo_ok A memo"
  shows "fst (array_get A memo i m) =
     Inr (if i < length os \<and> os ! i \<noteq> 0 then Some (read_record m (unat (os ! i))) else None)"
proof (cases "i < length os")
  case False
  then show ?thesis using assms(1) by (simp add: array_get_def arr_rep_def)
next
  case True
  then obtain p where p: "chunks A (i div 4096) = Some p" "chunk_heap A p (i mod 4096) = os ! i"
    using assms(1) by (auto simp: arr_rep_def)
  have "i div 4096 < 4096" using True assms(2) by (simp add: less_mult_imp_div_less)
  then have "fst (load_chunk A memo (i div 4096)) = Inr (Some p)"
    using p by (simp add: load_chunk_transparent [OF assms(3)]) (simp add: load_chunk_def)
  then show ?thesis
    using True assms(1) p
    by (auto simp: array_get_def arr_rep_def drop_bit_12 and_4095 get_from_chunk_def Let_def
        split: prod.splits)
qed

lemma array_get_unchecked_rep:
  assumes "arr_rep A os" "length os \<le> 2 ^ 24" "memo_ok A memo" "i < length os"
  shows "fst (array_get_unchecked A memo i m) = fst (array_get A memo i m)"
  using assms by (auto simp: array_get_unchecked_def array_get_def arr_rep_def Let_def)

lemma slot_unique:
  fixes i n :: nat
  assumes "i < n" "i div 4096 = n div 4096"
  shows "i mod 4096 \<noteq> n mod 4096"
  using assms by (metis div_mult_mod_eq less_irrefl)

text \<open>Filling the next slot, once the chunk for it is known.\<close>

lemma arr_rep_fill:
  assumes rep: "arr_rep A os" and p: "chunks A (length os div 4096) = Some p"
  shows "arr_rep (A\<lparr>arr_len := length os + 1,
     chunk_heap := (chunk_heap A)(p := (chunk_heap A p)(length os mod 4096 := off))\<rparr>) (os @ [off])"
    (is "arr_rep ?B _")
proof -
  have "\<exists>q. chunks ?B (i div 4096) = Some q \<and> chunk_heap ?B q (i mod 4096) = (os @ [off]) ! i"
    if i: "i < length (os @ [off])" for i
  proof (cases "i = length os")
    case True
    then show ?thesis using p by simp
  next
    case False
    with i have il: "i < length os" by simp
    then obtain q where q: "chunks A (i div 4096) = Some q" "chunk_heap A q (i mod 4096) = os ! i"
      using rep by (auto simp: arr_rep_def)
    have "q = p \<Longrightarrow> i div 4096 = length os div 4096"
      using rep q(1) p unfolding arr_rep_def by blast
    then have "\<not> (q = p \<and> i mod 4096 = length os mod 4096)"
      using slot_unique [OF il] by blast
    then show ?thesis using q il by (auto simp: nth_append)
  qed
  moreover have "\<forall>c q. chunks ?B c = Some q \<longrightarrow> q < next_chunk ?B"
    "\<forall>c d q. chunks ?B c = Some q \<longrightarrow> chunks ?B d = Some q \<longrightarrow> c = d"
    using rep unfolding arr_rep_def by simp_all
  moreover have "slots_clear ?B"
    unfolding slots_clear_def
  proof (intro allI impI)
    fix i q
    assume "arr_len ?B \<le> i" "chunks ?B (i div 4096) = Some q"
    then have i: "length os < i" "chunks A (i div 4096) = Some q" by simp_all
    then have "chunk_heap A q (i mod 4096) = 0" using rep by (simp add: arr_rep_def slots_clear_def)
    moreover have "q = p \<Longrightarrow> i mod 4096 \<noteq> length os mod 4096"
      using rep i p slot_unique [OF i(1)] unfolding arr_rep_def by metis
    ultimately show "chunk_heap ?B q (i mod 4096) = 0" by auto
  qed
  ultimately show ?thesis by (simp add: arr_rep_def)
qed

text \<open>Allocating the chunk for the next slot changes nothing the table holds.\<close>

definition add_chunk :: "string_array \<Rightarrow> nat \<Rightarrow> string_array" where
  "add_chunk A c = A\<lparr>chunks := (chunks A)(c := Some (next_chunk A)),
     chunk_heap := (chunk_heap A)(next_chunk A := (\<lambda>_. 0)), next_chunk := next_chunk A + 1\<rparr>"

lemma slots_clear_add_chunk:
  assumes "arr_rep A os"
  shows "slots_clear (add_chunk A c)"
  unfolding slots_clear_def
proof (intro allI impI)
  fix i p
  assume i: "arr_len (add_chunk A c) \<le> i" "chunks (add_chunk A c) (i div 4096) = Some p"
  show "chunk_heap (add_chunk A c) p (i mod 4096) = 0"
  proof (cases "i div 4096 = c")
    case True
    then show ?thesis using i(2) by (simp add: add_chunk_def)
  next
    case False
    then have "chunks A (i div 4096) = Some p" using i(2) by (simp add: add_chunk_def)
    moreover from this have "p < next_chunk A" using assms by (auto simp: arr_rep_def)
    moreover have "arr_len A \<le> i" using i(1) by (simp add: add_chunk_def)
    ultimately show ?thesis using assms by (auto simp: arr_rep_def slots_clear_def add_chunk_def)
  qed
qed

lemma arr_rep_add_chunk:
  assumes rep: "arr_rep A os" and c: "chunks A c = None"
  shows "arr_rep (add_chunk A c) os" "chunks (add_chunk A c) c = Some (next_chunk A)"
proof -
  let ?B = "add_chunk A c"
  have old: "chunks A d = Some q \<Longrightarrow> d \<noteq> c \<and> q < next_chunk A" for d q
    using rep c by (auto simp: arr_rep_def)
  have inj: "chunks A d = Some q \<Longrightarrow> chunks A e = Some q \<Longrightarrow> d = e" for d e q
    using rep unfolding arr_rep_def by blast
  have "\<exists>q. chunks ?B (i div 4096) = Some q \<and> chunk_heap ?B q (i mod 4096) = os ! i"
    if i: "i < length os" for i
  proof -
    obtain q where q: "chunks A (i div 4096) = Some q" "chunk_heap A q (i mod 4096) = os ! i"
      using rep i by (auto simp: arr_rep_def)
    then show ?thesis using old [OF q(1)] by (simp add: add_chunk_def)
  qed
  moreover have "\<forall>d q. chunks ?B d = Some q \<longrightarrow> q < next_chunk ?B"
    using old by (auto simp: add_chunk_def less_Suc_eq)
  moreover have "\<forall>d e q. chunks ?B d = Some q \<longrightarrow> chunks ?B e = Some q \<longrightarrow> d = e"
  proof (intro allI impI)
    fix d e q
    assume "chunks ?B d = Some q" "chunks ?B e = Some q"
    then show "d = e"
      using old [of d q] old [of e q] inj [of d q e]
      by (cases "d = c"; cases "e = c") (simp_all add: add_chunk_def)
  qed
  moreover have "arr_len ?B = length os"
    using rep by (simp only: arr_rep_def add_chunk_def) simp
  ultimately show "arr_rep ?B os" using slots_clear_add_chunk [OF rep] unfolding arr_rep_def by blast
  show "chunks ?B c = Some (next_chunk A)" by (simp add: add_chunk_def)
qed

lemma array_push_eq:
  assumes "arr_rep A os" "length os < 2 ^ 24"
  shows "array_push A off =
     (let c = length os div 4096; B = (if chunks A c = None then add_chunk A c else A)
      in (Inr (length os), B\<lparr>arr_len := length os + 1,
            chunk_heap := (chunk_heap B)(the (chunks B c) :=
              (chunk_heap B (the (chunks B c)))(length os mod 4096 := off))\<rparr>))"
proof -
  have "length os div 4096 < 4096" using assms(2) by (simp add: less_mult_imp_div_less)
  moreover have "arr_len A = length os" using assms(1) by (simp add: arr_rep_def)
  ultimately show ?thesis
    by (simp add: array_push_def drop_bit_12 and_4095 Let_def add_chunk_def split: option.splits)
qed

lemma array_push_rep:
  assumes "arr_rep A os" "length os < 2 ^ 24"
  shows "fst (array_push A off) = Inr (length os)"
    and "arr_rep (snd (array_push A off)) (os @ [off])"
    and "memo_ok A memo \<Longrightarrow> memo_ok (snd (array_push A off)) memo"
proof -
  let ?c = "length os div 4096"
  define B where "B = (if chunks A ?c = None then add_chunk A ?c else A)"
  obtain p where p: "chunks B ?c = Some p"
    by (cases "chunks A ?c") (auto simp: B_def add_chunk_def)
  have rep: "arr_rep B os"
    using assms(1) arr_rep_add_chunk(1) [OF assms(1)] by (simp add: B_def)
  have eq: "array_push A off = (Inr (length os), B\<lparr>arr_len := length os + 1,
     chunk_heap := (chunk_heap B)(p := (chunk_heap B p)(length os mod 4096 := off))\<rparr>)"
    using array_push_eq [OF assms] p by (simp add: B_def Let_def)
  show "fst (array_push A off) = Inr (length os)" by (simp add: eq)
  show "arr_rep (snd (array_push A off)) (os @ [off])"
    using arr_rep_fill [OF rep p] by (simp add: eq)
  show "memo_ok (snd (array_push A off)) memo" if "memo_ok A memo"
  proof -
    have "chunks A d = Some q \<Longrightarrow> chunks B d = Some q" for d q
      by (auto simp: B_def add_chunk_def)
    moreover have "arr_interner_id B = arr_interner_id A" "self_addr B = self_addr A"
      by (simp_all add: B_def add_chunk_def)
    ultimately show ?thesis using that by (simp add: eq memo_ok_def)
  qed
qed

lemma array_push_ids:
  "arr_interner_id (snd (array_push A off)) = arr_interner_id A"
  "self_addr (snd (array_push A off)) = self_addr A"
  by (auto simp: array_push_def Let_def split: option.splits)

text \<open>A full table: the length has grown past the last chunk and the push panics.\<close>

lemma array_push_full:
  assumes "arr_rep A os" "length os \<ge> 2 ^ 24"
  shows "array_push A off = (Inl IndexOutOfBounds, A\<lparr>arr_len := length os + 1\<rparr>)"
proof -
  have "4096 \<le> length os div 4096" using assms(2) by (simp add: less_eq_div_iff_mult_less_eq)
  then show ?thesis using assms(1) by (simp add: array_push_def drop_bit_12 arr_rep_def Let_def)
qed

end
