(* ===== verification/Interner.thy ===== *)
theory Interner
  imports String_Array
begin

unbundle bit_operations_syntax

text \<open>
  \<open>StringInterner\<close> of \<open>core/string_interner.rs\<close>: a sharded map between strings and
  symbols.  A string is hashed to a shard; the shard's hash table finds its symbol, the
  shard's array finds the symbol's record in the arena.  A thread-local cache sits in front
  of the shards.  Strings of at most one ASCII byte never reach the shards.

  Each operation is modelled as it runs on one thread: the thread's cache is an argument and
  a result, the locks and atomics have their sequential meaning.  The pointer memo
  \<open>LAST_CHUNK\<close> is entered cold; \<open>String_Array\<close> shows that a warm one reads the same.
  Integers are 64-bit little-endian, as on the supported targets.
\<close>

section \<open>Code outside the repository\<close>

text \<open>
  The crates and the allocator that the interner builds on are parameters:
  \<open>rustc_hash\<close>'s hash of a string, \<open>hashbrown::HashTable\<close> holding
  \<open>(hash, prefix, symbol)\<close> entries, and the content of fresh memory.  \<open>ht_items\<close> is
  the set of entries in a table, each with the hash it was inserted under; it is used only to
  state what the table's documentation promises.
\<close>

type_synonym entry = "u64 \<times> u64 \<times> symbol"

record 't deps =
  hash_one :: "str \<Rightarrow> u64"
  ht_with_capacity :: "nat \<Rightarrow> 't"
  ht_find :: "'t \<Rightarrow> u64 \<Rightarrow> (entry \<Rightarrow> bool) \<Rightarrow> entry option"
  ht_insert_unique :: "'t \<Rightarrow> u64 \<Rightarrow> entry \<Rightarrow> 't"
  ht_items :: "'t \<Rightarrow> (u64 \<times> entry) set"
  alloc_bytes :: "u32 \<Rightarrow> mem"

text \<open>
  What the documentation of \<open>HashTable\<close> says: a new table is empty, \<open>insert_unique\<close>
  adds the entry under its hash, \<open>find\<close> returns an entry that satisfies the test, and it
  returns one when some entry under the given hash satisfies it.
\<close>

definition hashbrown_ok :: "'t deps \<Rightarrow> bool" where
  "hashbrown_ok D \<longleftrightarrow>
     (\<forall>n. ht_items D (ht_with_capacity D n) = {}) \<and>
     (\<forall>t h e. ht_items D (ht_insert_unique D t h e) = insert (h, e) (ht_items D t)) \<and>
     (\<forall>t h p e. ht_find D t h p = Some e \<longrightarrow> p e \<and> (\<exists>h'. (h', e) \<in> ht_items D t)) \<and>
     (\<forall>t h p e. ht_find D t h p = None \<longrightarrow> (h, e) \<in> ht_items D t \<longrightarrow> \<not> p e)"

section \<open>State\<close>

definition DEFAULT_SHARD_COUNT :: nat where "DEFAULT_SHARD_COUNT = 16"
definition CACHE_CAPACITY :: nat where "CACHE_CAPACITY = 1024"
definition CACHE_MASK :: u64 where "CACHE_MASK = word_of_nat (CACHE_CAPACITY - 1)"

definition ASCII_STRINGS :: "str list" where
  "ASCII_STRINGS = map (\<lambda>i. [word_of_nat i]) [0..<128]"

record 't shard =
  entries :: 't
  strings :: string_array

record 't interner =
  interner_id :: u32
  ipool :: memory_pool
  shards :: "'t shard list"
  shard_mask :: u64

text \<open>One slot of each of the six parallel arrays of \<open>ThreadLocalCache\<close>.\<close>

record cache_slot =
  ce_interner_id :: u32
  ce_hash :: u32
  ce_len :: u32
  ce_offset :: u32
  ce_symbol :: u32
  ce_prefix :: u64

type_synonym local_cache = "nat \<Rightarrow> cache_slot"

definition local_cache_new :: local_cache where
  "local_cache_new = (\<lambda>_. \<lparr>ce_interner_id = 0, ce_hash = 0, ce_len = 0, ce_offset = 0,
     ce_symbol = 0, ce_prefix = 0\<rparr>)"

section \<open>Hashing\<close>

definition prefix8 :: "u8 list \<Rightarrow> u64" where
  "prefix8 bs =
     (let len = length bs in
      if len \<ge> 8 then of_le64 (take 8 bs)
      else if len \<ge> 4 then
        let a = ucast (of_le32 (take 4 bs)) :: u64;
            b = ucast (of_le32 (take 4 (drop (len - 4) bs))) :: u64
        in push_bit 32 b OR a
      else if len \<ge> 2 then
        let a = ucast (of_le16 (take 2 bs)) :: u64;
            b = ucast (bs ! (len - 1)) :: u64
        in push_bit 16 b OR a
      else 0)"

definition hash_of :: "'t deps \<Rightarrow> str \<Rightarrow> u64" where
  "hash_of D v =
     (if length v \<le> 8
      then let h = prefix8 v * 0x517cc1b727220a95 in h XOR drop_bit 32 h
      else hash_one D v)"

text \<open>The early returns every operation on strings starts with.\<close>

definition static_symbol :: "str \<Rightarrow> symbol res option" where
  "static_symbol v =
     (if length v = 0 then Some (symbol_new STATIC_SHARD_ID 0)
      else if length v = 1 \<and> unat (v ! 0) < 128
        then Some (symbol_new STATIC_SHARD_ID (unat (v ! 0) + 1))
      else None)"

section \<open>Construction\<close>

definition next_power_of_two :: "nat \<Rightarrow> nat" where
  "next_power_of_two n = 2 ^ length (filter (\<lambda>k. 2 ^ k < n) [0..<64])"

text \<open>
  \<open>next_id\<close> is \<open>NEXT_INTERNER_ID\<close>; the operation returns its new value.  The address
  of a shard's array stands for its position: arrays of one interner never share one.
\<close>

definition with_capacity_and_shards ::
  "'t deps \<Rightarrow> u32 \<Rightarrow> nat \<Rightarrow> nat \<Rightarrow> 't interner res \<times> u32" where
  "with_capacity_and_shards D next_id symbols count0 =
     (let iid = next_id;
          count = next_power_of_two (clamp 1 128 count0);
          per_shard = (((symbols + count - 1) div count) * 4) div 3;
          shs = map (\<lambda>i. \<lparr>entries = ht_with_capacity D per_shard,
                          strings = string_array_new iid i\<rparr>) [0..<count]
      in (case pool_new (alloc_bytes D iid) ARENA_CAPACITY (word_of_nat count) of
            Inl e \<Rightarrow> Inl e
          | Inr P \<Rightarrow> Inr \<lparr>interner_id = iid, ipool = P, shards = shs,
                           shard_mask = word_of_nat (count - 1)\<rparr>,
          next_id + 1))"

definition interner_new :: "'t deps \<Rightarrow> u32 \<Rightarrow> 't interner res \<times> u32" where
  "interner_new D next_id = with_capacity_and_shards D next_id 0 DEFAULT_SHARD_COUNT"

definition with_capacity :: "'t deps \<Rightarrow> u32 \<Rightarrow> nat \<Rightarrow> 't interner res \<times> u32" where
  "with_capacity D next_id symbols = with_capacity_and_shards D next_id symbols DEFAULT_SHARD_COUNT"

section \<open>The thread-local cache\<close>

definition cache_index :: "u64 \<Rightarrow> nat" where
  "cache_index hash = unat (hash AND CACHE_MASK)"

definition cache_line_base :: "u64 \<Rightarrow> nat" where
  "cache_line_base hash = unat ((hash AND CACHE_MASK) AND NOT 3)"

text \<open>The four slots a hash may sit in, in the order the loop visits them.\<close>

definition cache_line :: "u64 \<Rightarrow> nat list" where
  "cache_line hash = map (\<lambda>i. cache_line_base hash + i) [0..<4]"

definition unwrap_symbol :: "u32 \<Rightarrow> symbol res" where
  "unwrap_symbol r = (case from_raw r of None \<Rightarrow> Inl UnwrapNone | Some y \<Rightarrow> Inr y)"

definition cache_lookup ::
  "local_cache \<Rightarrow> 't interner \<Rightarrow> u64 \<Rightarrow> u64 \<Rightarrow> str \<Rightarrow> symbol option res" where
  "cache_lookup c I hash prefix v =
     (case find (\<lambda>idx. ce_interner_id (c idx) = interner_id I \<and> ce_hash (c idx) = ucast hash \<and>
              ce_len (c idx) = word_of_nat (length v) \<and> ce_prefix (c idx) = prefix)
            (cache_line hash) of
        None \<Rightarrow> Inr None
      | Some idx \<Rightarrow>
          if length v \<le> 8 then map_sum id Some (unwrap_symbol (ce_symbol (c idx)))
          else
            let cached_value = mem_read (pmem (ipool I)) (unat (ce_offset (c idx)) + 4) (length v)
            in if cached_value = v then map_sum id Some (unwrap_symbol (ce_symbol (c idx)))
               else Inr None)"

definition cache_store ::
  "local_cache \<Rightarrow> 't interner \<Rightarrow> u64 \<Rightarrow> u64 \<Rightarrow> str \<Rightarrow> u32 \<Rightarrow> symbol \<Rightarrow> local_cache" where
  "cache_store c I hash prefix v off symbol =
     (let slot = \<lparr>ce_interner_id = interner_id I, ce_hash = ucast hash,
                  ce_len = word_of_nat (length v), ce_offset = off,
                  ce_symbol = into_raw symbol, ce_prefix = prefix\<rparr>
      in case find (\<lambda>idx. ce_interner_id (c idx) = 0) (cache_line hash) of
           Some idx \<Rightarrow> c(idx := slot)
         | None \<Rightarrow> c(cache_index hash := slot))"

section \<open>The shards\<close>

definition shard_of :: "'t interner \<Rightarrow> u64 \<Rightarrow> nat" where
  "shard_of I hash = unat (hash AND shard_mask I)"

definition set_shard :: "'t interner \<Rightarrow> nat \<Rightarrow> 't shard \<Rightarrow> 't interner" where
  "set_shard I sid sh = I\<lparr>shards := (shards I)[sid := sh]\<rparr>"

text \<open>The slices \<open>strings.get\<close> and \<open>strings.get_unchecked\<close> of a shard return.\<close>

definition shard_get :: "'t interner \<Rightarrow> nat \<Rightarrow> nat \<Rightarrow> str_ref option res" where
  "shard_get I sid i = fst (array_get (strings (shards I ! sid)) None i (pmem (ipool I)))"

definition shard_get_unchecked :: "'t interner \<Rightarrow> nat \<Rightarrow> nat \<Rightarrow> str_ref option res" where
  "shard_get_unchecked I sid i =
     fst (array_get_unchecked (strings (shards I ! sid)) None i (pmem (ipool I)))"

text \<open>Whether a read through the array returned exactly these bytes.\<close>

definition text_is :: "str_ref option res \<Rightarrow> str \<Rightarrow> bool" where
  "text_is r v = (case r of Inr (Some (a, w)) \<Rightarrow> w = v | _ \<Rightarrow> False)"

text \<open>
  The searches in a shard's table: \<open>entries.find\<close> and \<open>entries.entry\<close> with the
  test that goes through \<open>strings.get\<close>, and the one through \<open>get_unchecked\<close>.
\<close>

definition find_entry :: "'t deps \<Rightarrow> 't interner \<Rightarrow> nat \<Rightarrow> u64 \<Rightarrow> u64 \<Rightarrow> str \<Rightarrow> entry option" where
  "find_entry D I sid hash prefix v =
     ht_find D (entries (shards I ! sid)) hash
       (\<lambda>(cand_hash, cand_prefix, y). cand_hash = hash \<and> cand_prefix = prefix \<and>
          text_is (shard_get I sid (index y)) v)"

definition find_entry_unchecked ::
  "'t deps \<Rightarrow> 't interner \<Rightarrow> nat \<Rightarrow> u64 \<Rightarrow> u64 \<Rightarrow> str \<Rightarrow> entry option" where
  "find_entry_unchecked D I sid hash prefix v =
     ht_find D (entries (shards I ! sid)) hash
       (\<lambda>(cand_hash, cand_prefix, y). cand_hash = hash \<and> cand_prefix = prefix \<and>
          text_is (shard_get_unchecked I sid (index y)) v)"

text \<open>The lookup under the read lock of \<open>get_or_intern\<close>.\<close>

definition read_lookup ::
  "'t deps \<Rightarrow> 't interner \<Rightarrow> nat \<Rightarrow> u64 \<Rightarrow> u64 \<Rightarrow> str \<Rightarrow> (str_ref \<times> symbol) option res" where
  "read_lookup D I sid hash prefix v =
     (case find_entry_unchecked D I sid hash prefix v of
        None \<Rightarrow> Inr None
      | Some (_, _, y) \<Rightarrow>
          (case shard_get I sid (index y) of
             Inl e \<Rightarrow> Inl e
           | Inr None \<Rightarrow> Inl UnwrapNone
           | Inr (Some text) \<Rightarrow> Inr (Some (text, y))))"

text \<open>
  Allocation of a string that is not in the shard, under the write lock: the record, the
  array slot, the symbol, the table entry, in this order.  A panic leaves what was done
  before it.
\<close>

definition insert_new ::
  "'t deps \<Rightarrow> 't interner \<Rightarrow> nat \<Rightarrow> u64 \<Rightarrow> u64 \<Rightarrow> str \<Rightarrow> (u32 \<times> symbol) res \<times> 't interner" where
  "insert_new D I sid hash prefix v =
     (case pool_alloc (ipool I) sid v of
        (Inl e, P) \<Rightarrow> (Inl e, I\<lparr>ipool := P\<rparr>)
      | (Inr off, P) \<Rightarrow>
          let I1 = I\<lparr>ipool := P\<rparr>; sh = shards I1 ! sid in
          (case array_push (strings sh) off of
             (Inl e, A) \<Rightarrow> (Inl e, set_shard I1 sid (sh\<lparr>strings := A\<rparr>))
           | (Inr idx, A) \<Rightarrow>
               let sh1 = sh\<lparr>strings := A\<rparr> in
               (case symbol_new (word_of_nat sid) idx of
                  Inl e \<Rightarrow> (Inl e, set_shard I1 sid sh1)
                | Inr y \<Rightarrow>
                    (Inr (off, y),
                     set_shard I1 sid
                       (sh1\<lparr>entries := ht_insert_unique D (entries sh1) hash (hash, prefix, y)\<rparr>)))))"

text \<open>The write-lock branch of \<open>get_or_intern\<close>: look again, then insert.\<close>

definition write_lookup_or_insert ::
  "'t deps \<Rightarrow> 't interner \<Rightarrow> nat \<Rightarrow> u64 \<Rightarrow> u64 \<Rightarrow> str \<Rightarrow> (str_ref \<times> symbol) res \<times> 't interner" where
  "write_lookup_or_insert D I sid hash prefix v =
     (case find_entry D I sid hash prefix v of
        Some (_, _, y) \<Rightarrow>
          (case shard_get_unchecked I sid (index y) of
             Inl e \<Rightarrow> (Inl e, I)
           | Inr None \<Rightarrow> (Inl UnwrapNone, I)
           | Inr (Some text) \<Rightarrow> (Inr (text, y), I))
      | None \<Rightarrow>
          (case insert_new D I sid hash prefix v of
             (Inl e, I') \<Rightarrow> (Inl e, I')
           | (Inr (off, y), I') \<Rightarrow>
               (Inr ((unat off + 4, mem_read (pmem (ipool I')) (unat off + 4) (length v)), y), I')))"

section \<open>Public operations\<close>

text \<open>\<open>offset = text.as_ptr() - base\<close>, as stored in the cache.\<close>

definition text_offset :: "str_ref \<Rightarrow> u32" where
  "text_offset text = word_of_nat (fst text)"

definition get_or_intern ::
  "'t deps \<Rightarrow> 't interner \<Rightarrow> local_cache \<Rightarrow> str \<Rightarrow> symbol res \<times> 't interner \<times> local_cache" where
  "get_or_intern D I c v =
     (case static_symbol v of
        Some r \<Rightarrow> (r, I, c)
      | None \<Rightarrow>
          let prefix = prefix8 v; hash = hash_of D v in
          (case cache_lookup c I hash prefix v of
             Inl e \<Rightarrow> (Inl e, I, c)
           | Inr (Some y) \<Rightarrow> (Inr y, I, c)
           | Inr None \<Rightarrow>
               let sid = shard_of I hash in
               if \<not> sid < length (shards I) then (Inl IndexOutOfBounds, I, c)
               else
                 (case read_lookup D I sid hash prefix v of
                    Inl e \<Rightarrow> (Inl e, I, c)
                  | Inr (Some (text, y)) \<Rightarrow>
                      (Inr y, I, cache_store c I hash prefix v (text_offset text) y)
                  | Inr None \<Rightarrow>
                      (case write_lookup_or_insert D I sid hash prefix v of
                         (Inl e, I') \<Rightarrow> (Inl e, I', c)
                       | (Inr (text, y), I') \<Rightarrow>
                           (Inr y, I', cache_store c I' hash prefix v (text_offset text) y)))))"

definition insert_unique :: "'t deps \<Rightarrow> 't interner \<Rightarrow> str \<Rightarrow> symbol res \<times> 't interner" where
  "insert_unique D I v =
     (case static_symbol v of
        Some r \<Rightarrow> (r, I)
      | None \<Rightarrow>
          let prefix = prefix8 v; hash = hash_of D v; sid = shard_of I hash in
          if \<not> sid < length (shards I) then (Inl IndexOutOfBounds, I)
          else
            (case insert_new D I sid hash prefix v of
               (Inl e, I') \<Rightarrow> (Inl e, I')
             | (Inr (off, y), I') \<Rightarrow> (Inr y, I')))"

definition get_symbol_of ::
  "'t deps \<Rightarrow> 't interner \<Rightarrow> local_cache \<Rightarrow> str \<Rightarrow> symbol option res \<times> local_cache" where
  "get_symbol_of D I c v =
     (case static_symbol v of
        Some r \<Rightarrow> (map_sum id Some r, c)
      | None \<Rightarrow>
          let prefix = prefix8 v; hash = hash_of D v in
          (case cache_lookup c I hash prefix v of
             Inl e \<Rightarrow> (Inl e, c)
           | Inr (Some y) \<Rightarrow> (Inr (Some y), c)
           | Inr None \<Rightarrow>
               let sid = shard_of I hash in
               if \<not> sid < length (shards I) then (Inl IndexOutOfBounds, c)
               else
                 (case find_entry D I sid hash prefix v of
                    None \<Rightarrow> (Inr None, c)
                  | Some (_, _, y) \<Rightarrow>
                      (case shard_get I sid (index y) of
                         Inl e \<Rightarrow> (Inl e, c)
                       | Inr None \<Rightarrow> (Inr None, c)
                       | Inr (Some text) \<Rightarrow>
                           (Inr (Some y), cache_store c I hash prefix v (text_offset text) y)))))"

definition resolve :: "'t interner \<Rightarrow> symbol \<Rightarrow> str option res" where
  "resolve I y =
     (let sid = shard_id y; i = index y in
      if sid = unat STATIC_SHARD_ID then
        if i = 0 then Inr (Some [])
        else if i \<le> 128 then Inr (Some (ASCII_STRINGS ! (i - 1)))
        else Inr None
      else if sid \<ge> length (shards I) then Inr None
      else map_sum id (map_option snd) (shard_get I sid i))"

text \<open>
  \<open>resolve_unchecked\<close>; as for \<open>get_unchecked\<close>, \<open>None\<close> marks what is undefined
  behaviour in the source.
\<close>

definition resolve_unchecked :: "'t interner \<Rightarrow> symbol \<Rightarrow> str option res" where
  "resolve_unchecked I y =
     (let sid = shard_id y; i = index y in
      if sid = unat STATIC_SHARD_ID then
        if i = 0 then Inr (Some [])
        else if i - 1 < length ASCII_STRINGS then Inr (Some (ASCII_STRINGS ! (i - 1)))
        else Inr None
      else if sid \<ge> length (shards I) then Inr None
      else map_sum id (map_option snd) (shard_get_unchecked I sid i))"

definition contains ::
  "'t deps \<Rightarrow> 't interner \<Rightarrow> local_cache \<Rightarrow> str \<Rightarrow> bool res \<times> local_cache" where
  "contains D I c v = (case get_symbol_of D I c v of (r, c') \<Rightarrow> (map_sum id (\<lambda>s. s \<noteq> None) r, c'))"

definition interner_len :: "'t interner \<Rightarrow> nat" where
  "interner_len I = sum_list (map (\<lambda>sh. arr_len (strings sh)) (shards I))"

definition interner_is_empty :: "'t interner \<Rightarrow> bool" where
  "interner_is_empty I = (interner_len I = 0)"

definition offset_of :: "'t interner \<Rightarrow> symbol \<Rightarrow> u32 option res" where
  "offset_of I y =
     (let sid = shard_id y in
      if sid \<ge> length (shards I) then Inr None
      else
        let A = strings (shards I ! sid);
            chunk_idx = drop_bit CHUNK_SHIFT (index y); slot_idx = index y AND CHUNK_MASK
        in case fst (load_chunk A None chunk_idx) of
             Inl e \<Rightarrow> Inl e
           | Inr None \<Rightarrow> Inr None
           | Inr (Some p) \<Rightarrow>
               let off = chunk_heap A p slot_idx in Inr (if off = 0 then None else Some off))"

end
