(* ===== verification/Interner_Rep.thy ===== *)
theory Interner_Rep
  imports Interner
begin

unbundle bit_operations_syntax

text \<open>
  What an interner represents.  The abstract state is, per shard, the list of strings the
  shard holds in index order; \<open>interner_rep\<close> ties it to the arena, the arrays and the hash
  tables.  The theory first shows the facts about hashing and UTF-8 that the fast paths rely
  on, then that a fresh interner represents the empty state and that storing one string
  appends it to its shard.
\<close>

section \<open>UTF-8\<close>

text \<open>\<open>str::from_utf8\<close>: the well-formed byte sequences of the standard library.\<close>

definition cont :: "u8 \<Rightarrow> bool" where
  "cont b = (0x80 \<le> b \<and> b \<le> 0xBF)"

fun utf8_valid :: "u8 list \<Rightarrow> bool" where
  "utf8_valid [] = True"
| "utf8_valid (a # bs) =
     (if a < 0x80 then utf8_valid bs
      else case bs of
        [] \<Rightarrow> False
      | b # cs \<Rightarrow>
          if 0xC2 \<le> a \<and> a \<le> 0xDF then cont b \<and> utf8_valid cs
          else case cs of
            [] \<Rightarrow> False
          | c # ds \<Rightarrow>
              if 0xE0 \<le> a \<and> a \<le> 0xEF then
                (if a = 0xE0 then 0xA0 \<le> b \<and> b \<le> 0xBF
                 else if a = 0xED then 0x80 \<le> b \<and> b \<le> 0x9F else cont b)
                \<and> cont c \<and> utf8_valid ds
              else case ds of
                [] \<Rightarrow> False
              | d # es \<Rightarrow>
                  0xF0 \<le> a \<and> a \<le> 0xF4 \<and>
                  (if a = 0xF0 then 0x90 \<le> b \<and> b \<le> 0xBF
                   else if a = 0xF4 then 0x80 \<le> b \<and> b \<le> 0x8F else cont b)
                  \<and> cont c \<and> cont d \<and> utf8_valid es)"

lemma utf8_valid_single: "utf8_valid [a] \<longleftrightarrow> unat a < 128"
  by (simp add: word_less_nat_alt)

lemma utf8_valid_ascii: "\<forall>b \<in> set bs. b < 0x80 \<Longrightarrow> utf8_valid bs"
  by (induction bs) auto

section \<open>Hashing\<close>

lemma join_inj:
  fixes a a' :: "'a::len word" and b b' :: "'b::len word"
  assumes le: "LENGTH('a) + LENGTH('b) \<le> 64"
    and eq: "push_bit LENGTH('a) (ucast b) OR ucast a = (push_bit LENGTH('a) (ucast b') OR ucast a' :: u64)"
  shows "a = a' \<and> b = b'"
proof
  have bits: "bit (push_bit LENGTH('a) (ucast b) OR ucast a :: u64) k =
      bit (push_bit LENGTH('a) (ucast b') OR ucast a' :: u64) k" for k
    by (simp only: eq)
  show "a = a'"
  proof (rule bit_word_eqI)
    fix n assume "n < LENGTH('a)"
    then show "bit a n = bit a' n" using bits [of n] le by (simp add: bit_simps)
  qed
  show "b = b'"
  proof (rule bit_word_eqI)
    fix n assume "n < LENGTH('b)"
    then show "bit b n = bit b' n"
      using bits [of "n + LENGTH('a)"] le
      by (auto simp: bit_simps dest: bit_imp_le_length)
  qed
qed

lemma list_eq_from_ends:
  assumes len: "length v = length w" and n: "n \<le> length v" "length v \<le> 2 * n"
    and "take n v = take n w" "take n (drop (length v - n) v) = take n (drop (length w - n) w)"
  shows "v = w"
proof (rule nth_equalityI)
  fix i assume i: "i < length v"
  show "v ! i = w ! i"
  proof (cases "i < n")
    case True
    then show ?thesis using assms(4) by (metis nth_take)
  next
    case False
    let ?j = "i - (length v - n)"
    have "?j < n" "length v - n + ?j = i" using i n False by auto
    then show ?thesis
      using assms(5) len i n by (metis nth_drop nth_take diff_le_self)
  qed
qed (rule len)

text \<open>
  The prefix of a string of two to eight bytes, with its length, determines the string: the
  fast path of the cache needs no comparison of bytes.
\<close>

lemma prefix8_inj:
  assumes len: "length v = length w" and l2: "2 \<le> length v" and l8: "length v \<le> 8"
    and eq: "prefix8 v = prefix8 w"
  shows "v = w"
proof -
  consider "length v = 8" | "4 \<le> length v" "length v < 8" | "length v = 2" | "length v = 3"
    using l2 l8 by linarith
  then show ?thesis
  proof cases
    case 1
    then show ?thesis using eq len by (auto simp: prefix8_def dest: of_le64_inj)
  next
    case 2
    let ?d = "length v - 4"
    have "of_le32 (take 4 v) = of_le32 (take 4 w) \<and>
        of_le32 (take 4 (drop ?d v)) = of_le32 (take 4 (drop ?d w))"
      using eq 2 len join_inj [of "of_le32 (take 4 (drop ?d v))" "of_le32 (take 4 v)"
          "of_le32 (take 4 (drop ?d w))" "of_le32 (take 4 w)"]
      by (simp add: prefix8_def Let_def)
    then have "take 4 v = take 4 w" "take 4 (drop ?d v) = take 4 (drop ?d w)"
      using 2 len of_le32_inj [of "take 4 v" "take 4 w"]
        of_le32_inj [of "take 4 (drop ?d v)" "take 4 (drop ?d w)"]
      by simp_all
    then show ?thesis using list_eq_from_ends [of v w 4] 2 len by simp
  next
    case 3
    then have "of_le16 (take 2 v) = of_le16 (take 2 w)"
      using eq len join_inj [of "v ! (length v - 1)" "of_le16 (take 2 v)"
          "w ! (length w - 1)" "of_le16 (take 2 w)"]
      by (simp add: prefix8_def Let_def)
    then show ?thesis using 3 len of_le16_inj [of v w] by simp
  next
    case 4
    have "of_le16 (take 2 v) = of_le16 (take 2 w) \<and> v ! 2 = w ! 2"
      using 4 eq len join_inj [of "v ! (length v - 1)" "of_le16 (take 2 v)"
          "w ! (length w - 1)" "of_le16 (take 2 w)"]
      by (simp add: prefix8_def Let_def)
    then have "take 2 v = take 2 w" "v ! 2 = w ! 2"
      using 4 len of_le16_inj [of "take 2 v" "take 2 w"] by simp_all
    moreover have "v = take 2 v @ [v ! 2]" "w = take 2 w @ [w ! 2]"
      using 4 len take_Suc_conv_app_nth [of 2 v] take_Suc_conv_app_nth [of 2 w] by simp_all
    ultimately show ?thesis by metis
  qed
qed

section \<open>Layout of a region\<close>

definition total_size :: "str list \<Rightarrow> nat" where
  "total_size ss = sum_list (map (\<lambda>v. rec_size (length v)) ss)"

fun layout :: "nat \<Rightarrow> str list \<Rightarrow> nat list" where
  "layout b [] = []"
| "layout b (v # vs) = b # layout (b + rec_size (length v)) vs"

lemma total_size_simps [simp]:
  "total_size [] = 0" "total_size (v # vs) = rec_size (length v) + total_size vs"
  "total_size (vs @ ws) = total_size vs + total_size ws"
  by (simp_all add: total_size_def)

lemma length_layout [simp]: "length (layout b ss) = length ss"
  by (induction ss arbitrary: b) auto

lemma layout_append: "layout b (ss @ ts) = layout b ss @ layout (b + total_size ss) ts"
  by (induction ss arbitrary: b) (auto simp: add.assoc)

lemma layout_nth: "i < length ss \<Longrightarrow> layout b ss ! i = b + total_size (take i ss)"
  by (induction ss arbitrary: b i) (auto simp: nth_Cons split: nat.splits)

lemma layout_bounds:
  assumes "i < length ss"
  shows "b \<le> layout b ss ! i" "layout b ss ! i + rec_size (length (ss ! i)) \<le> b + total_size ss"
proof -
  have "ss = take i ss @ ss ! i # drop (Suc i) ss" using assms by (rule id_take_nth_drop)
  then have "total_size ss = total_size (take i ss) + (rec_size (length (ss ! i)) + total_size (drop (Suc i) ss))"
    by (metis total_size_simps(2,3))
  then show "layout b ss ! i + rec_size (length (ss ! i)) \<le> b + total_size ss"
    using assms by (simp add: layout_nth)
  show "b \<le> layout b ss ! i" using assms by (simp add: layout_nth)
qed

text \<open>A record of the arena: the length header and the text behind it.\<close>

definition record_at :: "mem \<Rightarrow> nat \<Rightarrow> str \<Rightarrow> bool" where
  "record_at m off v \<longleftrightarrow>
     mem_read m off 4 = le32 (word_of_nat (length v)) \<and> mem_read m (off + 4) (length v) = v"

lemma read_record_at:
  "record_at m off v \<Longrightarrow> length v < 2 ^ 32 \<Longrightarrow> read_record m off = (off + 4, v)"
  by (simp add: read_record_def record_at_def unat_of_nat)

lemma record_at_stored:
  assumes "record_at (pmem P) off w"
    and "off + rec_size (length w) \<le> region_base P sid + cursor_of P sid \<or>
         region_base P sid + cursor_of P sid + rec_size (length v) \<le> off"
  shows "record_at (pmem (stored P sid v)) off w"
proof -
  note rec_size_bounds(1) [of "length w"] rec_size_bounds(1) [of "length v"]
  then have "mem_read (pmem (stored P sid v)) off 4 = mem_read (pmem P) off 4"
    "mem_read (pmem (stored P sid v)) (off + 4) (length w) = mem_read (pmem P) (off + 4) (length w)"
    using assms(2) by (auto intro!: stored_frame)
  then show ?thesis using assms(1) by (simp add: record_at_def)
qed

section \<open>The representation\<close>

text \<open>A \<open>&str\<close> that the allocator's assertion admits.\<close>

definition value_ok :: "str \<Rightarrow> bool" where
  "value_ok v \<longleftrightarrow> utf8_valid v \<and> length v < 2 ^ 32 - 7"

lemma dynamic_length:
  assumes "value_ok v" "static_symbol v = None"
  shows "2 \<le> length v"
proof (rule ccontr)
  assume "\<not> 2 \<le> length v"
  then consider "v = []" | b where "v = [b]"
    by (cases v; cases "tl v") auto
  then show False
    using assms utf8_valid_single by cases (auto simp: static_symbol_def value_ok_def split: if_splits)
qed

text \<open>The shard a string belongs to, among \<open>n\<close> shards.\<close>

definition home :: "'t deps \<Rightarrow> nat \<Rightarrow> str \<Rightarrow> nat" where
  "home D n v = unat (hash_of D v AND word_of_nat (n - 1))"

definition item :: "'t deps \<Rightarrow> nat \<Rightarrow> str list \<Rightarrow> nat \<Rightarrow> u64 \<times> entry" where
  "item D sid ss i = (hash_of D (ss ! i), (hash_of D (ss ! i), prefix8 (ss ! i), mk_sym sid i))"

definition shard_rep :: "'t deps \<Rightarrow> nat \<Rightarrow> memory_pool \<Rightarrow> nat \<Rightarrow> 't shard \<Rightarrow> str list \<Rightarrow> bool" where
  "shard_rep D n P sid sh ss \<longleftrightarrow>
     arr_rep (strings sh) (map word_of_nat (layout (region_base P sid) ss)) \<and>
     cursor_of P sid = total_size ss \<and>
     (\<forall>i < length ss. record_at (pmem P) (layout (region_base P sid) ss ! i) (ss ! i)) \<and>
     ht_items D (entries sh) = item D sid ss ` {..<length ss} \<and>
     distinct ss \<and>
     (\<forall>v \<in> set ss. value_ok v \<and> static_symbol v = None \<and> home D n v = sid) \<and>
     length ss < 2 ^ 24"

definition interner_rep :: "'t deps \<Rightarrow> 't interner \<Rightarrow> str list list \<Rightarrow> bool" where
  "interner_rep D I sss \<longleftrightarrow>
     pool_inv (ipool I) \<and>
     length (shards I) = length sss \<and> length (cursors (ipool I)) = length sss \<and>
     (\<exists>k \<le> 7. length sss = 2 ^ k) \<and>
     shard_mask I = word_of_nat (length sss - 1) \<and>
     interner_id I \<noteq> 0 \<and>
     mem_read (pmem (ipool I)) 0 4 = le32 (word_of_nat (length sss)) \<and>
     (\<forall>sid < length sss. shard_rep D (length sss) (ipool I) sid (shards I ! sid) (sss ! sid))"

lemma interner_rep_count:
  assumes "interner_rep D I sss"
  shows "0 < length sss" "length sss \<le> 128"
proof -
  obtain k where k: "k \<le> 7" "length sss = 2 ^ k" using assms by (auto simp: interner_rep_def)
  then have "(2::nat) ^ k \<le> 2 ^ 7" by (intro power_increasing) auto
  then show "0 < length sss" "length sss \<le> 128" using k by simp_all
qed

lemma home_less:
  assumes "length sss = 2 ^ k" "k \<le> 7"
  shows "home D (length sss) v < length sss"
proof -
  have "word_of_nat (2 ^ k - 1) = (mask k :: u64)"
    by (simp add: mask_eq_exp_minus_1 of_nat_diff)
  then show ?thesis using assms by (simp add: home_def unat_and_mask)
qed

lemma shard_of_home:
  assumes "interner_rep D I sss"
  shows "shard_of I (hash_of D v) = home D (length sss) v" "home D (length sss) v < length sss"
proof -
  show "shard_of I (hash_of D v) = home D (length sss) v"
    using assms by (simp add: interner_rep_def shard_of_def home_def)
  show "home D (length sss) v < length sss"
    using assms home_less by (auto simp: interner_rep_def)
qed

lemma shard_repD:
  assumes "interner_rep D I sss" "sid < length sss"
  shows "shard_rep D (length sss) (ipool I) sid (shards I ! sid) (sss ! sid)"
    "sid < length (cursors (ipool I))" "sid < length (shards I)" "sid < 256"
  using assms interner_rep_count(2) [OF assms(1)] by (simp_all add: interner_rep_def)

text \<open>The offsets of a represented shard are exact and non-zero.\<close>

lemma rep_offset:
  assumes "pool_inv P" "sid < length (cursors P)" "shard_rep D n P sid sh ss" "i < length ss"
  shows "unat (word_of_nat (layout (region_base P sid) ss ! i) :: u32) = layout (region_base P sid) ss ! i"
    "layout (region_base P sid) ss ! i \<noteq> 0"
    "layout (region_base P sid) ss ! i + rec_size (length (ss ! i)) \<le> unat (capacity P)"
proof -
  let ?o = "layout (region_base P sid) ss ! i"
  have cur: "total_size ss \<le> unat (region_size P)"
    using pool_inv_cursor [OF assms(1,2)] assms(3) by (simp add: shard_rep_def)
  show le: "?o + rec_size (length (ss ! i)) \<le> unat (capacity P)"
    using layout_bounds(2) [OF assms(4), of "region_base P sid"]
      region_start_exact(2) [OF assms(1,2)] cur by linarith
  then have "?o < 2 ^ 32"
    using unat_u32_less [of "capacity P"] rec_size_pos [of "length (ss ! i)"] by linarith
  then show "unat (word_of_nat ?o :: u32) = ?o" by (simp add: unat_of_nat)
  show "?o \<noteq> 0"
    using layout_bounds(1) [OF assms(4), of "region_base P sid"] by (simp add: region_base_def)
qed

text \<open>Reading a represented shard: exactly the strings of the list, at their places.\<close>

lemma shard_get_rep:
  assumes "interner_rep D I sss" "sid < length sss"
  shows "shard_get I sid i =
     Inr (if i < length (sss ! sid)
          then Some (layout (region_base (ipool I) sid) (sss ! sid) ! i + 4, sss ! sid ! i)
          else None)"
proof -
  let ?P = "ipool I" and ?ss = "sss ! sid"
  note rep = shard_repD [OF assms]
  have arr: "arr_rep (strings (shards I ! sid)) (map word_of_nat (layout (region_base ?P sid) ?ss))"
    and len: "length ?ss < 2 ^ 24"
    using rep(1) by (auto simp: shard_rep_def)
  have pool: "pool_inv ?P" using assms(1) by (simp add: interner_rep_def)
  have read: "read_record (pmem ?P) (unat (word_of_nat (layout (region_base ?P sid) ?ss ! i) :: u32)) =
      (layout (region_base ?P sid) ?ss ! i + 4, ?ss ! i)"
    and nz: "(word_of_nat (layout (region_base ?P sid) ?ss ! i) :: u32) \<noteq> 0" if "i < length ?ss"
  proof -
    note off = rep_offset [OF pool rep(2) rep(1) that]
    have "length (?ss ! i) < 2 ^ 32"
      using rep(1) that by (auto simp: shard_rep_def value_ok_def dest!: bspec [OF _ nth_mem])
    then show "read_record (pmem ?P) (unat (word_of_nat (layout (region_base ?P sid) ?ss ! i) :: u32)) =
      (layout (region_base ?P sid) ?ss ! i + 4, ?ss ! i)"
      using rep(1) that off(1) by (simp add: shard_rep_def read_record_at)
    show "(word_of_nat (layout (region_base ?P sid) ?ss ! i) :: u32) \<noteq> 0"
      using off(1,2) by (metis unsigned_0)
  qed
  show ?thesis
    using array_get_rep [OF arr _ memo_ok_None] len read nz
    by (simp add: shard_get_def)
qed

lemma shard_get_unchecked_rep:
  assumes "interner_rep D I sss" "sid < length sss" "i < length (sss ! sid)"
  shows "shard_get_unchecked I sid i = shard_get I sid i"
proof -
  note rep = shard_repD [OF assms(1,2)]
  then have "arr_rep (strings (shards I ! sid))
      (map word_of_nat (layout (region_base (ipool I) sid) (sss ! sid)))" "length (sss ! sid) < 2 ^ 24"
    by (auto simp: shard_rep_def)
  then show ?thesis
    using array_get_unchecked_rep [OF _ _ memo_ok_None] assms(3)
    by (simp add: shard_get_unchecked_def shard_get_def)
qed

section \<open>A fresh interner\<close>

lemma next_power_of_two_pow: "k \<le> 63 \<Longrightarrow> next_power_of_two (2 ^ k) = 2 ^ k"
proof -
  assume k: "k \<le> 63"
  have "filter (\<lambda>j. (2::nat) ^ j < 2 ^ k) [0..<64] = filter (\<lambda>j. j < k) [0..<64]"
    by simp
  also have "\<dots> = [0..<k]"
  proof -
    have "[0..<64] = [0..<k] @ [k..<64]" using k upt_add_eq_append [of 0 k "64 - k"] by simp
    then show ?thesis by (simp add: filter_False)
  qed
  finally show ?thesis by (simp add: next_power_of_two_def)
qed

lemma shard_count_pow: "\<exists>k \<le> 7. next_power_of_two (clamp 1 128 count) = 2 ^ k"
proof -
  let ?n = "clamp 1 128 count"
  have "length (filter (\<lambda>k. 2 ^ k < ?n) [0..<64]) = card {k. k < 64 \<and> (2::nat) ^ k < ?n}"
    by (simp add: length_filter_conv_card)
      (metis (no_types, lifting) Collect_cong nth_upt add_0)
  also have "\<dots> \<le> card {..<7::nat}"
  proof (rule card_mono)
    show "{k. k < 64 \<and> (2::nat) ^ k < ?n} \<subseteq> {..<7}"
    proof
      fix k assume "k \<in> {k. k < 64 \<and> (2::nat) ^ k < ?n}"
      moreover have "?n \<le> 128" by (simp add: clamp_def)
      ultimately have "(2::nat) ^ k < 2 ^ 7" by simp
      then show "k \<in> {..<7}" by (simp only: power_strict_increasing_iff) simp
    qed
  qed simp
  finally show ?thesis by (auto simp: next_power_of_two_def)
qed

lemma pool_new_total:
  assumes "k \<le> 7"
  shows "\<exists>P. pool_new u ARENA_CAPACITY (word_of_nat (2 ^ k)) = Inr P"
proof -
  have le: "(2::nat) ^ k \<le> 2 ^ 7" using assms by (intro power_increasing) auto
  then have n: "unat (word_of_nat (2 ^ k) :: u32) = 2 ^ k"
    by (intro unat_word_of_nat_small) simp
  have cap: "unat (ARENA_CAPACITY - HEADER_SIZE) = 2 ^ 29 - 4"
    by (simp add: ARENA_CAPACITY_def HEADER_SIZE_def)
  have "(4::nat) * 2 ^ k \<le> 2 ^ 29 - 4" using le by simp
  then have "4 \<le> (2 ^ 29 - 4) div (2::nat) ^ k" by (simp add: less_eq_div_iff_mult_less_eq)
  then have "0 < unat (((ARENA_CAPACITY - HEADER_SIZE) div word_of_nat (2 ^ k)) AND NOT 3 :: u32)"
    by (simp only: unat_and_not_3 unat_div cap n)
  then have "((ARENA_CAPACITY - HEADER_SIZE) div word_of_nat (2 ^ k)) AND NOT 3 > (0 :: u32)"
    by (simp only: word_less_nat_alt unsigned_0)
  moreover have "(0::u32) < word_of_nat (2 ^ k)" by (simp only: word_less_nat_alt n) simp
  moreover have "HEADER_SIZE < ARENA_CAPACITY" by (simp add: ARENA_CAPACITY_def HEADER_SIZE_def)
  ultimately show ?thesis by (simp only: pool_new_def Let_def if_True if_False simp_thms) blast
qed

text \<open>The arena has the default capacity; no cursor of the pool is poisoned.\<close>

definition arena_sized :: "memory_pool \<Rightarrow> bool" where
  "arena_sized P \<longleftrightarrow> capacity P = ARENA_CAPACITY \<and>
     unat (region_size P) = 4 * ((2 ^ 29 - 4) div length (cursors P) div 4)"

definition pool_healthy :: "memory_pool \<Rightarrow> bool" where
  "pool_healthy P \<longleftrightarrow> arena_sized P \<and> (\<forall>sid < length (cursors P). \<not> poisoned (cursors P ! sid))"

lemma pool_healthy_stored:
  "pool_healthy P \<Longrightarrow> sid < length (cursors P) \<Longrightarrow> pool_healthy (stored P sid v)"
  by (simp add: pool_healthy_def arena_sized_def)

lemma interner_rep_new:
  assumes ok: "hashbrown_ok D" and nid: "next_id \<noteq> 0"
  shows "\<exists>I. with_capacity_and_shards D next_id symbols count = (Inr I, next_id + 1) \<and>
     interner_rep D I (replicate (next_power_of_two (clamp 1 128 count)) []) \<and>
     interner_id I = next_id \<and> pool_healthy (ipool I)"
proof -
  obtain k where k: "k \<le> 7" and n: "next_power_of_two (clamp 1 128 count) = 2 ^ k"
    using shard_count_pow by blast
  obtain P where P: "pool_new (alloc_bytes D next_id) ARENA_CAPACITY (word_of_nat (2 ^ k)) = Inr P"
    using pool_new_total [OF k] by blast
  have "(2::nat) ^ k \<le> 2 ^ 7" using k by (intro power_increasing) auto
  then have un: "unat (word_of_nat (2 ^ k) :: u32) = 2 ^ k"
    by (intro unat_word_of_nat_small) simp
  note pn = pool_new_inv [OF P, unfolded un]
  define shs where "shs = map (\<lambda>i. \<lparr>entries = ht_with_capacity D
      ((((symbols + 2 ^ k - 1) div 2 ^ k) * 4) div 3), strings = string_array_new next_id i\<rparr>) [0..<2 ^ k]"
  define I where "I = \<lparr>interner_id = next_id, ipool = P, shards = shs, shard_mask = word_of_nat (2 ^ k - 1)\<rparr>"
  have "with_capacity_and_shards D next_id symbols count = (Inr I, next_id + 1)"
    by (simp only: with_capacity_and_shards_def Let_def n P I_def shs_def sum.case)
  moreover have "shard_rep D (2 ^ k) P sid (shs ! sid) []" if "sid < 2 ^ k" for sid
    using that ok pn(2)
    by (simp add: shard_rep_def shs_def arr_rep_new cursor_of_def shard_cursor_new_def hashbrown_ok_def)
  then have "interner_rep D I (replicate (2 ^ k) [])"
    using pn k nid by (auto simp: interner_rep_def I_def shs_def)
  moreover have "pool_healthy P"
    using pn by (auto simp: pool_healthy_def arena_sized_def ARENA_CAPACITY_def shard_cursor_new_def)
  ultimately show ?thesis unfolding n by (auto simp: I_def)
qed

section \<open>Storing a string\<close>

lemma shard_rep_stored_same:
  assumes pool: "pool_inv P" and sid: "sid < length (cursors P)"
    and rep: "shard_rep D n P sid sh ss" and v: "value_ok v" "static_symbol v = None" "home D n v = sid"
    and new: "v \<notin> set ss" and f: "fits P sid v" and room: "length ss < 2 ^ 24 - 1"
    and A: "arr_rep A (map word_of_nat (layout (region_base P sid) (ss @ [v])))"
    and ok: "hashbrown_ok D"
  shows "shard_rep D n (stored P sid v) sid
     \<lparr>entries = ht_insert_unique D (entries sh) (hash_of D v)
         (hash_of D v, prefix8 v, mk_sym sid (length ss)), strings = A\<rparr> (ss @ [v])"
proof -
  let ?P = "stored P sid v" and ?b = "region_base P sid"
  have len: "length v < 2 ^ 32 - 7" using v by (simp add: value_ok_def)
  have cur: "cursor_of P sid = total_size ss" using rep by (simp add: shard_rep_def)
  have recs: "record_at (pmem ?P) (layout ?b (ss @ [v]) ! i) ((ss @ [v]) ! i)"
    if i: "i < length (ss @ [v])" for i
  proof (cases "i < length ss")
    case True
    then have "layout ?b ss ! i + rec_size (length (ss ! i)) \<le> ?b + cursor_of P sid"
      using layout_bounds(2) [of i ss ?b] cur by simp
    then show ?thesis
      using True rep by (auto simp: layout_append nth_append shard_rep_def intro!: record_at_stored)
  next
    case False
    then have "i = length ss" using i by simp
    then show ?thesis
      using stored_reads [OF len, of P sid] cur
      by (simp add: record_at_def layout_append nth_append)
  qed
  have "item D sid (ss @ [v]) ` {..<length (ss @ [v])} =
      insert (item D sid (ss @ [v]) (length ss)) (item D sid (ss @ [v]) ` {..<length ss})"
    by (simp add: lessThan_Suc)
  also have "item D sid (ss @ [v]) ` {..<length ss} = item D sid ss ` {..<length ss}"
    by (intro image_cong) (simp_all add: item_def nth_append)
  finally have "item D sid (ss @ [v]) ` {..<length (ss @ [v])} =
      insert (hash_of D v, hash_of D v, prefix8 v, mk_sym sid (length ss)) (item D sid ss ` {..<length ss})"
    by (simp add: item_def)
  then have items: "ht_items D (ht_insert_unique D (entries sh) (hash_of D v)
         (hash_of D v, prefix8 v, mk_sym sid (length ss))) = item D sid (ss @ [v]) ` {..<length (ss @ [v])}"
    using ok rep by (simp add: hashbrown_ok_def shard_rep_def)
  have "cursor_of ?P sid = total_size (ss @ [v])"
    using cursor_stored [OF pool sid len f, of sid] cur by simp
  then show ?thesis
    using recs items A v new rep room by (simp add: shard_rep_def)
qed

lemma shard_rep_stored_other:
  assumes pool: "pool_inv P" and sid: "sid < length (cursors P)" and t: "t < length (cursors P)" "t \<noteq> sid"
    and rep: "shard_rep D n P t sh ss" and v: "length v < 2 ^ 32 - 7" and f: "fits P sid v"
  shows "shard_rep D n (stored P sid v) t sh ss"
proof -
  have "cursor_of P t \<le> unat (region_size P)" using pool t(1) by (rule pool_inv_cursor)
  then have tot: "total_size ss \<le> unat (region_size P)" using rep by (simp add: shard_rep_def)
  have "record_at (pmem (stored P sid v)) (layout (region_base P t) ss ! i) (ss ! i)"
    if i: "i < length ss" for i
  proof (rule record_at_stored)
    show "record_at (pmem P) (layout (region_base P t) ss ! i) (ss ! i)"
      using rep i by (simp add: shard_rep_def)
    note b = layout_bounds [OF i, of "region_base P t"]
    have "t < sid \<Longrightarrow> (t + 1) * unat (region_size P) \<le> sid * unat (region_size P)"
      "sid < t \<Longrightarrow> (sid + 1) * unat (region_size P) \<le> t * unat (region_size P)"
      by (intro mult_le_mono1, simp)+
    then show "layout (region_base P t) ss ! i + rec_size (length (ss ! i))
        \<le> region_base P sid + cursor_of P sid \<or>
      region_base P sid + cursor_of P sid + rec_size (length v) \<le> layout (region_base P t) ss ! i"
      using b tot f t(2) by (cases "t < sid") (auto simp: region_base_def fits_def)
  qed
  then show ?thesis
    using rep cursor_stored [OF pool sid v f, of t] t(2) by (simp add: shard_rep_def)
qed

text \<open>The new state: the string is the last one of its shard.\<close>

definition add_string :: "str list list \<Rightarrow> nat \<Rightarrow> str \<Rightarrow> str list list" where
  "add_string sss sid v = sss[sid := (sss ! sid) @ [v]]"

lemma length_add_string [simp]: "length (add_string sss sid v) = length sss"
  by (simp add: add_string_def)

lemma insert_new_rep:
  assumes ok: "hashbrown_ok D" and rep: "interner_rep D I sss"
    and v: "value_ok v" "static_symbol v = None" and sid: "sid = home D (length sss) v"
    and new: "v \<notin> set (sss ! sid)"
    and np: "\<not> poisoned (cursors (ipool I) ! sid)" and f: "fits (ipool I) sid v"
    and room: "length (sss ! sid) < 2 ^ 24 - 1"
  shows "\<exists>off I'. insert_new D I sid (hash_of D v) (prefix8 v) v =
       (Inr (off, mk_sym sid (length (sss ! sid))), I') \<and>
     interner_rep D I' (add_string sss sid v) \<and> interner_id I' = interner_id I \<and>
     ipool I' = stored (ipool I) sid v \<and>
     unat off = region_base (ipool I) sid + total_size (sss ! sid)"
proof -
  let ?P = "ipool I" and ?ss = "sss ! sid" and ?sh = "shards I ! sid"
  have sl: "sid < length sss" using shard_of_home(2) [OF rep] sid by simp
  note sr = shard_repD [OF rep sl]
  have pool: "pool_inv ?P" using rep by (simp add: interner_rep_def)
  have len: "length v < 2 ^ 32 - 7" using v by (simp add: value_ok_def)
  have cur: "cursor_of ?P sid = total_size ?ss" using sr(1) by (simp add: shard_rep_def)
  obtain off where off: "pool_alloc ?P sid v = (Inr off, stored ?P sid v)"
      "unat off = region_base ?P sid + total_size ?ss"
    using pool_alloc_ok [OF pool sr(2) np len f] cur by auto
  have arr: "arr_rep (strings ?sh) (map word_of_nat (layout (region_base ?P sid) ?ss))"
    using sr(1) by (simp add: shard_rep_def)
  note push = array_push_rep [OF arr, where off = off]
  obtain A where A: "array_push (strings ?sh) off = (Inr (length ?ss), A)"
      "arr_rep A (map word_of_nat (layout (region_base ?P sid) (?ss @ [v])))"
  proof
    have "word_of_nat (region_base ?P sid + total_size ?ss) = off" by (simp only: off(2) [symmetric]) simp
    then have "map word_of_nat (layout (region_base ?P sid) (?ss @ [v])) =
        map word_of_nat (layout (region_base ?P sid) ?ss) @ [off]" by (simp add: layout_append)
    then show "arr_rep (snd (array_push (strings ?sh) off))
        (map word_of_nat (layout (region_base ?P sid) (?ss @ [v])))" using push(2) room by simp
    show "array_push (strings ?sh) off = (Inr (length ?ss), snd (array_push (strings ?sh) off))"
      using push(1) room by (simp add: prod_eq_iff)
  qed
  define sh' where "sh' = \<lparr>entries = ht_insert_unique D (entries ?sh) (hash_of D v)
         (hash_of D v, prefix8 v, mk_sym sid (length ?ss)), strings = A\<rparr>"
  define I' where "I' = set_shard (I\<lparr>ipool := stored ?P sid v\<rparr>) sid sh'"
  have ins: "insert_new D I sid (hash_of D v) (prefix8 v) v = (Inr (off, mk_sym sid (length ?ss)), I')"
  proof -
    have "sh' = ?sh\<lparr>strings := A, entries := ht_insert_unique D (entries ?sh) (hash_of D v)
         (hash_of D v, prefix8 v, mk_sym sid (length ?ss))\<rparr>"
      by (simp add: sh'_def)
    then show ?thesis using room by (simp add: insert_new_def off A Let_def symbol_new_mk_sym I'_def)
  qed
  have "shard_rep D (length sss) (stored ?P sid v) sid sh' (?ss @ [v])"
    unfolding sh'_def
    using shard_rep_stored_same [OF pool sr(2) sr(1) v _ new f room A(2) ok] sid by simp
  moreover have "shard_rep D (length sss) (stored ?P sid v) t (shards I ! t) (sss ! t)"
    if "t < length sss" "t \<noteq> sid" for t
    using shard_rep_stored_other [OF pool sr(2) _ that(2) shard_repD(1) [OF rep that(1)] len f]
      shard_repD(2) [OF rep that(1)] by simp
  ultimately have "\<forall>t < length sss. shard_rep D (length sss) (ipool I') t (shards I' ! t)
      (add_string sss sid v ! t)"
    using sr(3) sl by (auto simp: I'_def set_shard_def add_string_def nth_list_update)
  moreover have "mem_read (pmem (stored ?P sid v)) 0 4 = mem_read (pmem ?P) 0 4"
    by (rule stored_frame) (simp add: region_base_def)
  moreover have "pool_inv (stored ?P sid v)" using pool sr(2) len f by (rule pool_inv_stored)
  ultimately have "interner_rep D I' (add_string sss sid v)"
    using rep by (simp add: interner_rep_def I'_def set_shard_def)
  then show ?thesis using ins off(2) by (auto simp: I'_def set_shard_def)
qed

end
