(* ===== verification/Interner_Correct.thy ===== *)
theory Interner_Correct
  imports Interner_Rep
begin

unbundle bit_operations_syntax

text \<open>
  Correctness of the interner against its abstract state.  \<open>abs_get\<close> and
  \<open>abs_resolve\<close> are what a lookup and a resolve should answer; the theory shows that the
  operations refine them, on every branch, whatever the thread's cache holds, as long as no
  stored string collides with the argument in everything the cache compares.  The contract
  that the schema and the sync code rely on is the locale \<open>symbol_table\<close>.
\<close>

section \<open>Abstract operations\<close>

definition abs_find :: "str list list \<Rightarrow> nat \<Rightarrow> str \<Rightarrow> symbol option" where
  "abs_find sss sid v = map_option (mk_sym sid) (find_index (\<lambda>w. w = v) (sss ! sid))"

definition abs_get :: "'t deps \<Rightarrow> str list list \<Rightarrow> str \<Rightarrow> symbol option" where
  "abs_get D sss v =
     (if v = [] then Some (mk_sym 255 0)
      else if length v = 1 \<and> unat (v ! 0) < 128 then Some (mk_sym 255 (unat (v ! 0) + 1))
      else abs_find sss (home D (length sss) v) v)"

definition abs_resolve :: "str list list \<Rightarrow> symbol \<Rightarrow> str option" where
  "abs_resolve sss y =
     (if shard_id y = 255 then
        if index y = 0 then Some []
        else if index y \<le> 128 then Some [word_of_nat (index y - 1)] else None
      else if shard_id y < length sss \<and> index y < length (sss ! shard_id y)
        then Some (sss ! shard_id y ! index y) else None)"

lemma static_symbol_abs:
  "static_symbol v = (if v = [] then Some (Inr (mk_sym 255 0))
     else if length v = 1 \<and> unat (v ! 0) < 128 then Some (Inr (mk_sym 255 (unat (v ! 0) + 1)))
     else None)"
  using symbol_new_mk_sym [of _ 255] by (auto simp: static_symbol_def STATIC_SHARD_ID_def)

lemma abs_get_static: "static_symbol v = Some r \<Longrightarrow> r = Inr y \<longleftrightarrow> abs_get D sss v = Some y"
  by (auto simp: static_symbol_abs abs_get_def split: if_splits)

lemma abs_get_dynamic: "static_symbol v = None \<Longrightarrow> abs_get D sss v = abs_find sss (home D (length sss) v) v"
  by (auto simp: static_symbol_abs abs_get_def split: if_splits)

lemma abs_find_Some:
  "abs_find sss sid v = Some y \<Longrightarrow>
     \<exists>i < length (sss ! sid). y = mk_sym sid i \<and> sss ! sid ! i = v \<and>
       find_index (\<lambda>w. w = v) (sss ! sid) = Some i"
  using find_index_SomeD by (fastforce simp: abs_find_def)

lemma abs_find_None: "abs_find sss sid v = None \<longleftrightarrow> v \<notin> set (sss ! sid)"
  by (auto simp: abs_find_def find_index_None)

section \<open>Lookups in a represented shard\<close>

lemma find_rep:
  assumes ok: "hashbrown_ok D" and rep: "shard_rep D n P sid sh ss"
    and p: "\<And>i. i < length ss \<Longrightarrow> p (snd (item D sid ss i)) \<longleftrightarrow> ss ! i = v"
  shows "ht_find D (entries sh) (hash_of D v) p =
     map_option (\<lambda>i. (hash_of D v, prefix8 v, mk_sym sid i)) (find_index (\<lambda>w. w = v) ss)"
proof -
  have items: "ht_items D (entries sh) = item D sid ss ` {..<length ss}" and d: "distinct ss"
    using rep by (simp_all add: shard_rep_def)
  show ?thesis
  proof (cases "ht_find D (entries sh) (hash_of D v) p")
    case None
    have "ss ! i \<noteq> v" if "i < length ss" for i
    proof
      assume eq: "ss ! i = v"
      have "item D sid ss i \<in> ht_items D (entries sh)" using that items by simp
      then have "(hash_of D v, snd (item D sid ss i)) \<in> ht_items D (entries sh)"
        by (simp add: item_def eq)
      then have "\<not> p (snd (item D sid ss i))" using ok None unfolding hashbrown_ok_def by blast
      then show False using p [OF that] eq by simp
    qed
    then have "find_index (\<lambda>w. w = v) ss = None"
      by (simp only: find_index_None) (metis in_set_conv_nth)
    then show ?thesis using None by simp
  next
    case (Some e)
    then obtain h where "p e" "(h, e) \<in> ht_items D (entries sh)"
      using ok unfolding hashbrown_ok_def by blast
    then have "(h, e) \<in> item D sid ss ` {..<length ss}" by (simp only: items)
    then obtain i where i: "i < length ss" "(h, e) = item D sid ss i" by blast
    from i(2) have e: "e = snd (item D sid ss i)" by (metis snd_conv)
    then have "ss ! i = v" using p [OF i(1)] \<open>p e\<close> by simp
    then have "find_index (\<lambda>w. w = v) ss = Some i"
      using find_index_eq_distinct [OF d i(1)] by simp
    then show ?thesis using Some e \<open>ss ! i = v\<close> by (simp add: item_def)
  qed
qed

text \<open>The test the code passes to the table, through either of the two array reads.\<close>

lemma entry_test:
  assumes rep: "interner_rep D I sss" and sid: "sid < length sss" and i: "i < length (sss ! sid)"
  shows "index (mk_sym sid i) = i" "shard_id (mk_sym sid i) = sid"
    "text_is (shard_get I sid i) v \<longleftrightarrow> sss ! sid ! i = v"
    "text_is (shard_get_unchecked I sid i) v \<longleftrightarrow> sss ! sid ! i = v"
proof -
  note sr = shard_repD [OF rep sid]
  have "i < 2 ^ 24 - 1" using sr(1) i by (simp add: shard_rep_def)
  then show "index (mk_sym sid i) = i" "shard_id (mk_sym sid i) = sid"
    using mk_sym_fields(1,2) [OF sr(4)] by simp_all
  show "text_is (shard_get I sid i) v \<longleftrightarrow> sss ! sid ! i = v"
    using i by (simp add: shard_get_rep [OF rep sid] text_is_def)
  then show "text_is (shard_get_unchecked I sid i) v \<longleftrightarrow> sss ! sid ! i = v"
    by (simp add: shard_get_unchecked_rep [OF rep sid i])
qed

lemma find_checked:
  assumes ok: "hashbrown_ok D" and rep: "interner_rep D I sss" and sid: "sid < length sss"
  shows "find_entry D I sid (hash_of D v) (prefix8 v) v =
     map_option (\<lambda>i. (hash_of D v, prefix8 v, mk_sym sid i)) (find_index (\<lambda>w. w = v) (sss ! sid))"
  unfolding find_entry_def
  by (rule find_rep [OF ok shard_repD(1) [OF rep sid]])
    (use entry_test [OF rep sid] in \<open>auto simp: item_def\<close>)

lemma find_unchecked:
  assumes ok: "hashbrown_ok D" and rep: "interner_rep D I sss" and sid: "sid < length sss"
  shows "find_entry_unchecked D I sid (hash_of D v) (prefix8 v) v =
     map_option (\<lambda>i. (hash_of D v, prefix8 v, mk_sym sid i)) (find_index (\<lambda>w. w = v) (sss ! sid))"
  unfolding find_entry_unchecked_def
  by (rule find_rep [OF ok shard_repD(1) [OF rep sid]])
    (use entry_test [OF rep sid] in \<open>auto simp: item_def\<close>)

text \<open>Where the text of the \<open>i\<close>th string of a shard starts.\<close>

definition text_addr :: "'t interner \<Rightarrow> str list list \<Rightarrow> nat \<Rightarrow> nat \<Rightarrow> nat" where
  "text_addr I sss sid i = layout (region_base (ipool I) sid) (sss ! sid) ! i + 4"

lemma read_lookup_rep:
  assumes ok: "hashbrown_ok D" and rep: "interner_rep D I sss" and sid: "sid < length sss"
  shows "read_lookup D I sid (hash_of D v) (prefix8 v) v =
     Inr (map_option (\<lambda>i. ((text_addr I sss sid i, v), mk_sym sid i))
       (find_index (\<lambda>w. w = v) (sss ! sid)))"
proof (cases "find_index (\<lambda>w. w = v) (sss ! sid)")
  case None
  then show ?thesis by (simp add: read_lookup_def find_unchecked [OF assms])
next
  case (Some i)
  then have i: "i < length (sss ! sid)" "sss ! sid ! i = v" by (auto dest: find_index_SomeD)
  then show ?thesis
    using Some entry_test(1) [OF rep sid i(1)]
    by (simp add: read_lookup_def find_unchecked [OF assms] shard_get_rep [OF rep sid] text_addr_def)
qed

section \<open>The cache\<close>

text \<open>
  Every slot that names this interner describes one of its strings.  The stored offset is
  that of the text, four bytes behind the record.
\<close>

definition cache_ok :: "'t deps \<Rightarrow> 't interner \<Rightarrow> str list list \<Rightarrow> local_cache \<Rightarrow> bool" where
  "cache_ok D I sss c \<longleftrightarrow>
     (\<forall>idx. ce_interner_id (c idx) = interner_id I \<longrightarrow>
        (\<exists>sid i. sid < length sss \<and> i < length (sss ! sid) \<and>
           ce_hash (c idx) = ucast (hash_of D (sss ! sid ! i)) \<and>
           ce_len (c idx) = word_of_nat (length (sss ! sid ! i)) \<and>
           ce_prefix (c idx) = prefix8 (sss ! sid ! i) \<and>
           ce_symbol (c idx) = into_raw (mk_sym sid i) \<and>
           ce_offset (c idx) = word_of_nat (text_addr I sss sid i)))"

text \<open>
  No string stored in the interner other than \<open>v\<close> itself agrees with \<open>v\<close> in length
  (above eight), in the first eight bytes and in the low half of the hash.
\<close>

definition no_cache_alias :: "'t deps \<Rightarrow> str list list \<Rightarrow> str \<Rightarrow> bool" where
  "no_cache_alias D sss v \<longleftrightarrow>
     (\<forall>ss \<in> set sss. \<forall>w \<in> set ss. 8 < length w \<and> length w = length v \<and> prefix8 w = prefix8 v \<and>
        (ucast (hash_of D w) :: u32) = ucast (hash_of D v) \<longrightarrow> w = v)"

lemma cache_ok_cold: "interner_rep D I sss \<Longrightarrow> cache_ok D I sss local_cache_new"
  by (auto simp: cache_ok_def local_cache_new_def interner_rep_def)

lemma cache_lookup_cold:
  "interner_rep D I sss \<Longrightarrow> cache_lookup local_cache_new I h p v = Inr None"
  by (simp add: cache_lookup_def local_cache_new_def interner_rep_def cache_line_def upt_rec)

lemma home_unique:
  assumes "interner_rep D I sss" "sid < length sss" "i < length (sss ! sid)"
  shows "home D (length sss) (sss ! sid ! i) = sid" "value_ok (sss ! sid ! i)"
    "static_symbol (sss ! sid ! i) = None"
    "find_index (\<lambda>w. w = sss ! sid ! i) (sss ! sid) = Some i"
  using shard_repD(1) [OF assms(1,2)] assms(3)
  by (auto simp: shard_rep_def find_index_eq_distinct)

lemma cache_lookup_rep:
  assumes rep: "interner_rep D I sss" and cok: "cache_ok D I sss c"
    and na: "no_cache_alias D sss v" and v: "value_ok v" "static_symbol v = None"
    and sid: "sid = home D (length sss) v"
  shows "cache_lookup c I (hash_of D v) (prefix8 v) v = Inr None \<or>
     (\<exists>i. find_index (\<lambda>w. w = v) (sss ! sid) = Some i \<and>
          cache_lookup c I (hash_of D v) (prefix8 v) v = Inr (Some (mk_sym sid i)))"
proof (cases "find (\<lambda>idx. ce_interner_id (c idx) = interner_id I \<and> ce_hash (c idx) = ucast (hash_of D v) \<and>
              ce_len (c idx) = word_of_nat (length v) \<and> ce_prefix (c idx) = prefix8 v)
            (cache_line (hash_of D v))")
  case None
  then show ?thesis by (simp add: cache_lookup_def)
next
  case (Some idx)
  then have slot: "ce_interner_id (c idx) = interner_id I" "ce_hash (c idx) = ucast (hash_of D v)"
      "ce_len (c idx) = word_of_nat (length v)" "ce_prefix (c idx) = prefix8 v"
    by (auto simp: find_Some_iff)
  then obtain t i where t: "t < length sss" "i < length (sss ! t)" and w:
      "ce_hash (c idx) = ucast (hash_of D (sss ! t ! i))"
      "ce_len (c idx) = word_of_nat (length (sss ! t ! i))"
      "ce_prefix (c idx) = prefix8 (sss ! t ! i)" "ce_symbol (c idx) = into_raw (mk_sym t i)"
    using cok by (auto simp: cache_ok_def)
  let ?w = "sss ! t ! i"
  note hu = home_unique [OF rep t]
  have "length ?w = length v"
    using slot(3) w(2) v(1) hu(2) word_of_nat_u32_inj [of "length v" "length ?w"]
    by (simp add: value_ok_def)
  moreover have "?w = v" if "8 < length v"
    using na t slot w that \<open>length ?w = length v\<close>
    unfolding no_cache_alias_def by (metis nth_mem)
  moreover have "?w = v" if "length v \<le> 8"
    using prefix8_inj [of ?w v] slot(4) w(3) dynamic_length [OF v] that \<open>length ?w = length v\<close> by simp
  ultimately have "?w = v" by linarith
  then have "t = sid" "find_index (\<lambda>w. w = v) (sss ! sid) = Some i" using hu sid by auto
  moreover have "into_raw (mk_sym t i) \<noteq> 0"
    using mk_sym_fields(3) [of t i] shard_repD [OF rep t(1)] t(2) by (simp add: shard_rep_def)
  ultimately show ?thesis
    using Some w(4) by (auto simp: cache_lookup_def unwrap_symbol_def from_raw_into_raw)
qed

lemma cache_store_ok:
  assumes cok: "cache_ok D I sss c" and sid: "sid < length sss" and i: "i < length (sss ! sid)"
    and v: "sss ! sid ! i = v"
  shows "cache_ok D I sss (cache_store c I (hash_of D v) (prefix8 v) v
     (text_offset (text_addr I sss sid i, v)) (mk_sym sid i))"
proof -
  define slot where "slot = \<lparr>ce_interner_id = interner_id I, ce_hash = ucast (hash_of D v),
     ce_len = word_of_nat (length v), ce_offset = word_of_nat (text_addr I sss sid i),
     ce_symbol = into_raw (mk_sym sid i), ce_prefix = prefix8 v\<rparr>"
  have upd: "cache_ok D I sss (c(idx := slot))" for idx
    unfolding cache_ok_def
  proof (intro allI impI)
    fix k
    assume "ce_interner_id ((c(idx := slot)) k) = interner_id I"
    then show "\<exists>t j. t < length sss \<and> j < length (sss ! t) \<and>
           ce_hash ((c(idx := slot)) k) = ucast (hash_of D (sss ! t ! j)) \<and>
           ce_len ((c(idx := slot)) k) = word_of_nat (length (sss ! t ! j)) \<and>
           ce_prefix ((c(idx := slot)) k) = prefix8 (sss ! t ! j) \<and>
           ce_symbol ((c(idx := slot)) k) = into_raw (mk_sym t j) \<and>
           ce_offset ((c(idx := slot)) k) = word_of_nat (text_addr I sss t j)"
      using cok sid i v by (cases "k = idx") (auto simp: cache_ok_def slot_def)
  qed
  then show ?thesis
    by (simp add: cache_store_def text_offset_def slot_def Let_def split: option.splits)
qed

lemma add_string_old:
  assumes "t < length sss" "i < length (sss ! t)"
  shows "i < length (add_string sss sid v ! t)" "add_string sss sid v ! t ! i = sss ! t ! i"
  using assms by (cases "t = sid"; simp add: add_string_def nth_append)+

lemma text_addr_old:
  assumes "t < length sss" "i < length (sss ! t)" "ipool I' = stored (ipool I) sid v"
  shows "text_addr I' (add_string sss sid v) t i = text_addr I sss t i"
  using assms by (cases "t = sid") (auto simp: text_addr_def add_string_def layout_append nth_append)

lemma cache_ok_grow:
  assumes cok: "cache_ok D I sss c" and P: "ipool I' = stored (ipool I) sid v"
    and id: "interner_id I' = interner_id I"
  shows "cache_ok D I' (add_string sss sid v) c"
  unfolding cache_ok_def
proof (intro allI impI)
  fix k
  assume "ce_interner_id (c k) = interner_id I'"
  then obtain t j where tj: "t < length sss" "j < length (sss ! t)"
      "ce_hash (c k) = ucast (hash_of D (sss ! t ! j)) \<and>
       ce_len (c k) = word_of_nat (length (sss ! t ! j)) \<and> ce_prefix (c k) = prefix8 (sss ! t ! j) \<and>
       ce_symbol (c k) = into_raw (mk_sym t j) \<and> ce_offset (c k) = word_of_nat (text_addr I sss t j)"
    using cok id unfolding cache_ok_def by metis
  then show "\<exists>t j. t < length (add_string sss sid v) \<and> j < length (add_string sss sid v ! t) \<and>
       ce_hash (c k) = ucast (hash_of D (add_string sss sid v ! t ! j)) \<and>
       ce_len (c k) = word_of_nat (length (add_string sss sid v ! t ! j)) \<and>
       ce_prefix (c k) = prefix8 (add_string sss sid v ! t ! j) \<and>
       ce_symbol (c k) = into_raw (mk_sym t j) \<and>
       ce_offset (c k) = word_of_nat (text_addr I' (add_string sss sid v) t j)"
    using add_string_old [OF tj(1,2)] text_addr_old [OF tj(1,2) P] by (intro exI [of _ t] exI [of _ j]) simp
qed

section \<open>Interning\<close>

text \<open>The string is there: its symbol is returned and the shards are as before.\<close>

lemma get_or_intern_present:
  assumes ok: "hashbrown_ok D" and rep: "interner_rep D I sss" and cok: "cache_ok D I sss c"
    and na: "no_cache_alias D sss v" and v: "value_ok v" and y: "abs_get D sss v = Some y"
  shows "\<exists>c'. get_or_intern D I c v = (Inr y, I, c') \<and> cache_ok D I sss c'"
proof (cases "static_symbol v")
  case (Some r)
  then have "r = Inr y" using abs_get_static y by blast
  then show ?thesis using Some cok by (simp add: get_or_intern_def)
next
  case None
  let ?sid = "home D (length sss) v"
  have sid: "?sid < length sss" "shard_of I (hash_of D v) = ?sid" "?sid < length (shards I)"
    using shard_of_home [OF rep] rep by (auto simp: interner_rep_def)
  obtain i where i: "i < length (sss ! ?sid)" "y = mk_sym ?sid i" "sss ! ?sid ! i = v"
      "find_index (\<lambda>w. w = v) (sss ! ?sid) = Some i"
    using y abs_get_dynamic [OF None] abs_find_Some by (metis (no_types, lifting))
  from cache_lookup_rep [OF rep cok na v None refl] i(4)
  consider "cache_lookup c I (hash_of D v) (prefix8 v) v = Inr None"
    | "cache_lookup c I (hash_of D v) (prefix8 v) v = Inr (Some y)"
    using i(2) by auto
  then show ?thesis
  proof cases
    case 1
    then show ?thesis
      using None sid i cache_store_ok [OF cok sid(1) i(1,3)]
      by (simp add: get_or_intern_def Let_def read_lookup_rep [OF ok rep sid(1)])
  next
    case 2
    then show ?thesis using None cok by (simp add: get_or_intern_def Let_def)
  qed
qed

text \<open>The branch taken when the string is not there, up to the insertion.\<close>

lemma get_or_intern_absent:
  assumes ok: "hashbrown_ok D" and rep: "interner_rep D I sss" and cok: "cache_ok D I sss c"
    and na: "no_cache_alias D sss v" and v: "value_ok v" and y: "abs_get D sss v = None"
    and sid: "sid = home D (length sss) v"
  shows "static_symbol v = None" "v \<notin> set (sss ! sid)"
    "get_or_intern D I c v = (case insert_new D I sid (hash_of D v) (prefix8 v) v of
        (Inl e, I') \<Rightarrow> (Inl e, I', c)
      | (Inr (off, y), I') \<Rightarrow> (Inr y, I', cache_store c I' (hash_of D v) (prefix8 v) v
          (text_offset (unat off + 4, mem_read (pmem (ipool I')) (unat off + 4) (length v))) y))"
proof -
  show st: "static_symbol v = None"
    using y by (auto simp: static_symbol_abs abs_get_def split: if_splits)
  then show new: "v \<notin> set (sss ! sid)" using y abs_get_dynamic abs_find_None sid by metis
  have sl: "sid < length sss" "shard_of I (hash_of D v) = sid" "sid < length (shards I)"
    using shard_of_home [OF rep] rep sid by (auto simp: interner_rep_def)
  have none: "find_index (\<lambda>w. w = v) (sss ! sid) = None" using new by (auto simp: find_index_None)
  then have miss: "cache_lookup c I (hash_of D v) (prefix8 v) v = Inr None"
    using cache_lookup_rep [OF rep cok na v st sid] by (metis option.distinct(1))
  have "read_lookup D I sid (hash_of D v) (prefix8 v) v = Inr None"
    by (simp add: read_lookup_rep [OF ok rep sl(1)] none)
  moreover have "write_lookup_or_insert D I sid (hash_of D v) (prefix8 v) v =
     (case insert_new D I sid (hash_of D v) (prefix8 v) v of
        (Inl e, I') \<Rightarrow> (Inl e, I')
      | (Inr (off, y), I') \<Rightarrow> (Inr ((unat off + 4, mem_read (pmem (ipool I')) (unat off + 4) (length v)), y), I'))"
    by (simp only: write_lookup_or_insert_def find_checked [OF ok rep sl(1)] none option.map option.case)
  ultimately show "get_or_intern D I c v = (case insert_new D I sid (hash_of D v) (prefix8 v) v of
        (Inl e, I') \<Rightarrow> (Inl e, I', c)
      | (Inr (off, y), I') \<Rightarrow> (Inr y, I', cache_store c I' (hash_of D v) (prefix8 v) v
          (text_offset (unat off + 4, mem_read (pmem (ipool I')) (unat off + 4) (length v))) y))"
    using st miss sl by (simp add: get_or_intern_def Let_def split: prod.splits sum.splits)
qed

text \<open>The string is new and fits: it becomes the last string of its shard.\<close>

lemma get_or_intern_insert:
  assumes ok: "hashbrown_ok D" and rep: "interner_rep D I sss" and cok: "cache_ok D I sss c"
    and na: "no_cache_alias D sss v" and v: "value_ok v" and y: "abs_get D sss v = None"
    and sid: "sid = home D (length sss) v"
    and np: "\<not> poisoned (cursors (ipool I) ! sid)" and f: "fits (ipool I) sid v"
    and room: "length (sss ! sid) < 2 ^ 24 - 1"
  shows "\<exists>I' c'. get_or_intern D I c v = (Inr (mk_sym sid (length (sss ! sid))), I', c') \<and>
     interner_rep D I' (add_string sss sid v) \<and> cache_ok D I' (add_string sss sid v) c' \<and>
     interner_id I' = interner_id I \<and> ipool I' = stored (ipool I) sid v \<and>
     c' = cache_store c I' (hash_of D v) (prefix8 v) v
       (word_of_nat (region_base (ipool I) sid + total_size (sss ! sid) + 4))
       (mk_sym sid (length (sss ! sid)))"
proof -
  note ab = get_or_intern_absent [OF ok rep cok na v y sid]
  have sl: "sid < length sss" using shard_of_home [OF rep] sid by simp
  obtain off I' where I': "insert_new D I sid (hash_of D v) (prefix8 v) v =
       (Inr (off, mk_sym sid (length (sss ! sid))), I')"
      "interner_rep D I' (add_string sss sid v)" "interner_id I' = interner_id I"
      "ipool I' = stored (ipool I) sid v"
      "unat off = region_base (ipool I) sid + total_size (sss ! sid)"
    using insert_new_rep [OF ok rep v ab(1) sid ab(2) np f room] by blast
  let ?sss = "add_string sss sid v" and ?i = "length (sss ! sid)"
  have i: "?i < length (?sss ! sid)" "?sss ! sid ! ?i = v"
    using sl by (simp_all add: add_string_def)
  have addr: "text_addr I' ?sss sid ?i = unat off + 4"
    using sl by (simp add: text_addr_def I' add_string_def layout_append nth_append)
  have "mem_read (pmem (ipool I')) (unat off + 4) (length v) = v"
    using shard_repD(1) [OF I'(2), of sid] i sl addr
    by (auto simp: shard_rep_def record_at_def text_addr_def)
  moreover have "cache_ok D I' ?sss (cache_store c I' (hash_of D v) (prefix8 v) v
      (text_offset (text_addr I' ?sss sid ?i, v)) (mk_sym sid ?i))"
    using cache_store_ok [OF cache_ok_grow [OF cok I'(4,3)] _ i] sl by simp
  moreover have "off = word_of_nat (region_base (ipool I) sid + total_size (sss ! sid))"
    by (simp flip: I'(5))
  ultimately show ?thesis using ab(3) I' addr by (simp add: text_offset_def)
qed

text \<open>The shard's region is used up: the call panics and no stored string is lost.\<close>

lemma interner_rep_poison:
  assumes rep: "interner_rep D I sss" and sid: "sid < length sss"
  shows "interner_rep D (I\<lparr>ipool := poison (ipool I) sid\<rparr>) sss"
  using assms pool_inv_poison [of "ipool I" sid] shard_repD(2) [OF assms]
  by (auto simp: interner_rep_def shard_rep_def)

lemma get_or_intern_full:
  assumes ok: "hashbrown_ok D" and rep: "interner_rep D I sss" and cok: "cache_ok D I sss c"
    and na: "no_cache_alias D sss v" and v: "value_ok v" and y: "abs_get D sss v = None"
    and sid: "sid = home D (length sss) v"
    and full: "poisoned (cursors (ipool I) ! sid) \<or> \<not> fits (ipool I) sid v"
  shows "\<exists>I'. get_or_intern D I c v = (Inl (PoolExhausted sid), I', c) \<and> interner_rep D I' sss \<and>
     poisoned (cursors (ipool I') ! sid)"
proof -
  note ab = get_or_intern_absent [OF ok rep cok na v y sid]
  have sl: "sid < length sss" using shard_of_home [OF rep] sid by simp
  note sr = shard_repD [OF rep sl]
  have pool: "pool_inv (ipool I)" using rep by (simp add: interner_rep_def)
  define P where "P = (if poisoned (cursors (ipool I) ! sid) then ipool I else poison (ipool I) sid)"
  have "pool_alloc (ipool I) sid v = (Inl (PoolExhausted sid), P)"
    using pool_alloc_full [OF pool sr(2) _ full] v by (simp add: value_ok_def P_def)
  then have "get_or_intern D I c v = (Inl (PoolExhausted sid), I\<lparr>ipool := P\<rparr>, c)"
    by (simp add: ab(3) insert_new_def)
  moreover have "interner_rep D (I\<lparr>ipool := P\<rparr>) sss"
    using interner_rep_poison [OF rep sl] rep by (simp add: P_def)
  moreover have "poisoned (cursors P ! sid)" using sr(2) by (simp add: P_def)
  ultimately show ?thesis by simp
qed

text \<open>The shard's indices are used up: the symbol constructor panics.\<close>

lemma get_or_intern_overflow:
  assumes ok: "hashbrown_ok D" and rep: "interner_rep D I sss" and cok: "cache_ok D I sss c"
    and na: "no_cache_alias D sss v" and v: "value_ok v" and y: "abs_get D sss v = None"
    and sid: "sid = home D (length sss) v"
    and np: "\<not> poisoned (cursors (ipool I) ! sid)" and f: "fits (ipool I) sid v"
    and full: "2 ^ 24 - 1 \<le> length (sss ! sid)"
  shows "fst (get_or_intern D I c v) = Inl SymbolIndexOverflow"
proof -
  note ab = get_or_intern_absent [OF ok rep cok na v y sid]
  have sl: "sid < length sss" using shard_of_home [OF rep] sid by simp
  note sr = shard_repD [OF rep sl]
  have pool: "pool_inv (ipool I)" using rep by (simp add: interner_rep_def)
  have arr: "arr_rep (strings (shards I ! sid))
      (map word_of_nat (layout (region_base (ipool I) sid) (sss ! sid)))"
    and len: "length (sss ! sid) < 2 ^ 24"
    using sr(1) unfolding shard_rep_def by blast+
  obtain off where off: "pool_alloc (ipool I) sid v = (Inr off, stored (ipool I) sid v)"
    using pool_alloc_ok [OF pool sr(2) np _ f] v by (auto simp: value_ok_def)
  obtain A where "array_push (strings (shards I ! sid)) off = (Inr (length (sss ! sid)), A)"
    using array_push_rep(1) [OF arr, where off = off] len
    by (cases "array_push (strings (shards I ! sid)) off") simp
  moreover have "symbol_new (word_of_nat sid) (length (sss ! sid)) = Inl SymbolIndexOverflow"
    using full by (simp add: symbol_new_def)
  ultimately have "fst (insert_new D I sid (hash_of D v) (prefix8 v) v) = Inl SymbolIndexOverflow"
    by (simp add: insert_new_def off Let_def)
  then show ?thesis
    by (cases "insert_new D I sid (hash_of D v) (prefix8 v) v") (simp add: ab(3))
qed

section \<open>Lookups\<close>

lemma get_symbol_of_rep:
  assumes ok: "hashbrown_ok D" and rep: "interner_rep D I sss" and cok: "cache_ok D I sss c"
    and na: "no_cache_alias D sss v" and v: "value_ok v"
  shows "\<exists>c'. get_symbol_of D I c v = (Inr (abs_get D sss v), c') \<and> cache_ok D I sss c'"
proof (cases "static_symbol v")
  case (Some r)
  then obtain y where "r = Inr y" "abs_get D sss v = Some y"
    by (auto simp: static_symbol_abs abs_get_def split: if_splits)
  then show ?thesis using Some cok by (simp add: get_symbol_of_def)
next
  case None
  let ?sid = "home D (length sss) v"
  have sid: "?sid < length sss" "shard_of I (hash_of D v) = ?sid" "?sid < length (shards I)"
    using shard_of_home [OF rep] rep by (auto simp: interner_rep_def)
  have ag: "abs_get D sss v = map_option (mk_sym ?sid) (find_index (\<lambda>w. w = v) (sss ! ?sid))"
    by (simp add: abs_get_dynamic [OF None] abs_find_def)
  from cache_lookup_rep [OF rep cok na v None refl]
  consider "cache_lookup c I (hash_of D v) (prefix8 v) v = Inr None"
    | "cache_lookup c I (hash_of D v) (prefix8 v) v = Inr (abs_get D sss v)" "abs_get D sss v \<noteq> None"
    using ag by (metis option.distinct(1) option.map(2))
  then show ?thesis
  proof cases
    case 1
    show ?thesis
    proof (cases "find_index (\<lambda>w. w = v) (sss ! ?sid)")
      case miss: None
      then show ?thesis
        using None 1 sid ag cok by (simp add: get_symbol_of_def Let_def find_checked [OF ok rep sid(1)])
    next
      case (Some i)
      then have i: "i < length (sss ! ?sid)" "sss ! ?sid ! i = v" by (auto dest: find_index_SomeD)
      have "shard_get I ?sid i = Inr (Some (text_addr I sss ?sid i, v))"
        using i by (simp add: shard_get_rep [OF rep sid(1)] text_addr_def)
      then show ?thesis
        using None 1 sid ag Some entry_test(1) [OF rep sid(1) i(1)] cache_store_ok [OF cok sid(1) i]
        by (simp add: get_symbol_of_def Let_def find_checked [OF ok rep sid(1)])
    qed
  next
    case 2
    then show ?thesis using None cok by (auto simp: get_symbol_of_def Let_def)
  qed
qed

text \<open>On a thread with an empty cache the answer needs no side condition.\<close>

lemma get_symbol_of_cold:
  assumes ok: "hashbrown_ok D" and rep: "interner_rep D I sss"
  shows "fst (get_symbol_of D I local_cache_new v) = Inr (abs_get D sss v)"
proof (cases "static_symbol v")
  case (Some r)
  then show ?thesis
    by (auto simp: get_symbol_of_def static_symbol_abs abs_get_def split: if_splits)
next
  case None
  let ?sid = "home D (length sss) v"
  have sid: "?sid < length sss" "shard_of I (hash_of D v) = ?sid" "?sid < length (shards I)"
    using shard_of_home [OF rep] rep by (auto simp: interner_rep_def)
  show ?thesis
  proof (cases "find_index (\<lambda>w. w = v) (sss ! ?sid)")
    case miss: None
    then show ?thesis
      using None sid
      by (simp add: get_symbol_of_def Let_def find_checked [OF ok rep sid(1)] abs_get_dynamic
          abs_find_def cache_lookup_cold [OF rep])
  next
    case (Some i)
    then have i: "i < length (sss ! ?sid)" by (auto dest: find_index_SomeD)
    then show ?thesis
      using None sid Some entry_test(1) [OF rep sid(1) i]
      by (simp add: get_symbol_of_def Let_def find_checked [OF ok rep sid(1)] abs_get_dynamic
          abs_find_def cache_lookup_cold [OF rep] shard_get_rep [OF rep sid(1)])
  qed
qed

lemma ASCII_STRINGS_nth: "i < 128 \<Longrightarrow> ASCII_STRINGS ! i = [word_of_nat i]"
  by (simp add: ASCII_STRINGS_def)

lemma resolve_rep:
  assumes "interner_rep D I sss"
  shows "resolve I y = Inr (abs_resolve sss y)"
proof -
  have "length (shards I) = length sss" using assms by (simp add: interner_rep_def)
  then show ?thesis
    using interner_rep_count(2) [OF assms] shard_get_rep [OF assms]
    by (auto simp: resolve_def abs_resolve_def Let_def STATIC_SHARD_ID_def ASCII_STRINGS_nth not_le)
qed

lemma resolve_unchecked_rep:
  assumes rep: "interner_rep D I sss" and v: "abs_resolve sss y = Some v"
  shows "resolve_unchecked I y = Inr (Some v)"
proof -
  have "length (shards I) = length sss" using assms by (simp add: interner_rep_def)
  then show ?thesis
    using v shard_get_rep [OF rep] shard_get_unchecked_rep [OF rep]
    by (auto simp: resolve_unchecked_def abs_resolve_def Let_def STATIC_SHARD_ID_def
        ASCII_STRINGS_def not_le split: if_splits)
qed

lemma index_bound_mk_sym: "index y < USIZE_MAX \<Longrightarrow> mk_sym (shard_id y) (index y) = y"
  by (rule mk_sym_of_fields) (use index_of_zero_low in force)

lemma abs_resolve_get:
  assumes rep: "interner_rep D I sss" and y: "abs_get D sss v = Some y"
  shows "abs_resolve sss y = Some v"
proof (cases "static_symbol v")
  case (Some r)
  then consider "v = []" | b where "v = [b]" "unat b < 128"
    by (cases v; cases "tl v") (auto simp: static_symbol_abs split: if_splits)
  then show ?thesis
    using y mk_sym_fields [of 255] by cases (auto simp: abs_get_def abs_resolve_def)
next
  case None
  let ?sid = "home D (length sss) v"
  have sid: "?sid < length sss" using shard_of_home(2) [OF rep] .
  obtain i where i: "i < length (sss ! ?sid)" "y = mk_sym ?sid i" "sss ! ?sid ! i = v"
    using y abs_get_dynamic [OF None] abs_find_Some by metis
  then show ?thesis
    using entry_test(1,2) [OF rep sid i(1)] sid interner_rep_count(2) [OF rep]
    by (simp add: abs_resolve_def)
qed

lemma abs_get_resolve:
  assumes rep: "interner_rep D I sss" and y: "abs_resolve sss y = Some v"
  shows "abs_get D sss v = Some y"
proof (cases "shard_id y = 255")
  case True
  with y have i: "index y \<le> 128" "v = (if index y = 0 then [] else [word_of_nat (index y - 1)])"
    by (auto simp: abs_resolve_def split: if_splits)
  then have "mk_sym 255 (index y) = y"
    using index_bound_mk_sym [of y] True by (simp add: USIZE_MAX_def)
  show ?thesis
    using i \<open>mk_sym 255 (index y) = y\<close>
  proof (cases "index y = 0")
    case False
    then have u: "unat (word_of_nat (index y - 1) :: u8) = index y - 1"
      using i(1) by (intro unat_word_of_nat_small) simp
    obtain b where b: "v = [b]" "b = word_of_nat (index y - 1)" using i(2) False by simp
    then have "unat b < 128" "unat b + 1 = index y" using u False i(1) by simp_all
    then show ?thesis
      using b(1) \<open>mk_sym 255 (index y) = y\<close> by (simp add: abs_get_def)
  qed (auto simp: abs_get_def)
next
  case False
  with y have s: "shard_id y < length sss" "index y < length (sss ! shard_id y)"
      "sss ! shard_id y ! index y = v"
    by (auto simp: abs_resolve_def split: if_splits)
  note hu = home_unique [OF rep s(1,2), unfolded s(3)]
  have "length (sss ! shard_id y) < 2 ^ 24" using shard_repD(1) [OF rep s(1)] by (simp add: shard_rep_def)
  then have "mk_sym (shard_id y) (index y) = y"
    using index_bound_mk_sym [of y] s(2) by (simp add: USIZE_MAX_def)
  then show ?thesis by (simp add: abs_get_dynamic [OF hu(3)] abs_find_def hu)
qed

text \<open>Everything a successful call implies.\<close>

lemma get_or_intern_Inr:
  assumes ok: "hashbrown_ok D" and rep: "interner_rep D I sss" and cok: "cache_ok D I sss c"
    and na: "no_cache_alias D sss v" and v: "value_ok v"
    and ret: "get_or_intern D I c v = (Inr y, I', c')"
  shows "\<exists>sss'. interner_rep D I' sss' \<and> cache_ok D I' sss' c' \<and> abs_get D sss' v = Some y \<and>
     interner_id I' = interner_id I \<and>
     (sss' = sss \<and> I' = I \<or> sss' = add_string sss (home D (length sss) v) v \<and> abs_get D sss v = None)"
proof (cases "abs_get D sss v")
  case (Some z)
  then show ?thesis
    using get_or_intern_present [OF ok rep cok na v Some] ret rep by auto
next
  case None
  let ?sid = "home D (length sss) v"
  note hyps = ok rep cok na v None refl
  have sl: "?sid < length sss" using shard_of_home(2) [OF rep] .
  have np: "\<not> poisoned (cursors (ipool I) ! ?sid)" and f: "fits (ipool I) ?sid v"
    using get_or_intern_full [OF hyps] ret by auto
  have room: "length (sss ! ?sid) < 2 ^ 24 - 1"
    using get_or_intern_overflow [OF hyps np f] ret by (rule_tac ccontr) simp
  let ?sss = "add_string sss ?sid v"
  obtain J d where J: "get_or_intern D I c v = (Inr (mk_sym ?sid (length (sss ! ?sid))), J, d)"
      "interner_rep D J ?sss" "cache_ok D J ?sss d" "interner_id J = interner_id I"
    using get_or_intern_insert [OF hyps np f room] by blast
  have "abs_resolve ?sss (mk_sym ?sid (length (sss ! ?sid))) = Some v"
    using entry_test(1,2) [OF J(2), of ?sid "length (sss ! ?sid)"] sl interner_rep_count(2) [OF rep]
    by (simp add: abs_resolve_def add_string_def)
  then have "abs_get D ?sss v = Some (mk_sym ?sid (length (sss ! ?sid)))"
    by (rule abs_get_resolve [OF J(2)])
  then show ?thesis using J ret None by auto
qed

lemma abs_resolve_grow: "abs_resolve sss z = Some w \<Longrightarrow> abs_resolve (add_string sss sid v) z = Some w"
  using add_string_old [of "shard_id z" sss "index z" sid v]
  by (auto simp: abs_resolve_def split: if_splits)

section \<open>Counting, offsets, room\<close>

lemma interner_len_rep:
  assumes "interner_rep D I sss"
  shows "interner_len I = sum_list (map length sss)"
proof -
  have "map (\<lambda>sh. arr_len (strings sh)) (shards I) = map length sss"
  proof (rule nth_equalityI)
    fix i assume i: "i < length (map (\<lambda>sh. arr_len (strings sh)) (shards I))"
    then have "i < length sss" using assms by (simp add: interner_rep_def)
    then show "map (\<lambda>sh. arr_len (strings sh)) (shards I) ! i = map length sss ! i"
      using shard_repD(1) [OF assms, of i] i by (simp add: shard_rep_def arr_rep_def)
  qed (use assms in \<open>simp add: interner_rep_def\<close>)
  then show ?thesis by (simp add: interner_len_def)
qed

lemma total_size_ge:
  assumes "\<forall>v \<in> set ss. 2 \<le> length v"
  shows "8 * length ss \<le> total_size ss"
  using assms
proof (induction ss)
  case Nil
  then show ?case by simp
next
  case (Cons v ss)
  have "8 \<le> rec_size (length v)"
    using Cons.prems div_le_mono [of 9 "length v + 7" 4] by (simp add: rec_size_def)
  then show ?case using Cons by simp
qed

text \<open>With at least four shards a region runs out of bytes before it runs out of indices.\<close>

lemma room_of_sized:
  assumes rep: "interner_rep D I sss" and h: "arena_sized (ipool I)" and n: "4 \<le> length sss"
    and sid: "sid < length sss" and f: "fits (ipool I) sid v" and v: "2 \<le> length v"
  shows "length (sss ! sid) < 2 ^ 24 - 1"
proof -
  note sr = shard_repD [OF rep sid]
  have "\<forall>w \<in> set (sss ! sid). 2 \<le> length w"
    using sr(1) dynamic_length by (auto simp: shard_rep_def)
  then have "8 * length (sss ! sid) \<le> cursor_of (ipool I) sid"
    using total_size_ge sr(1) by (simp add: shard_rep_def)
  moreover have "8 \<le> rec_size (length v)"
    using v div_le_mono [of 9 "length v + 7" 4] by (simp add: rec_size_def)
  ultimately have le: "8 * (length (sss ! sid) + 1) \<le> unat (region_size (ipool I))"
    using f by (simp add: fits_def)
  have "(2 ^ 29 - 4) div length sss \<le> (2 ^ 29 - 4) div (4::nat)" using n by (intro div_le_mono2) auto
  then have "unat (region_size (ipool I)) \<le> 2 ^ 27 - 1"
    using h rep by (simp add: arena_sized_def interner_rep_def)
  then show ?thesis using le by simp
qed

lemma room_of_fits:
  assumes "interner_rep D I sss" "pool_healthy (ipool I)" "4 \<le> length sss" "sid < length sss" "fits (ipool I) sid v"
    "2 \<le> length v"
  shows "length (sss ! sid) < 2 ^ 24 - 1"
  using room_of_sized [OF assms(1) _ assms(3-6)] assms(2) by (simp add: pool_healthy_def)

lemma offset_of_at:
  assumes rep: "interner_rep D I sss" and s: "shard_id y < length sss" "index y < length (sss ! shard_id y)"
  shows "\<exists>off. offset_of I y = Inr (Some off) \<and>
     unat off = layout (region_base (ipool I) (shard_id y)) (sss ! shard_id y) ! index y"
proof -
  let ?P = "ipool I" and ?ss = "sss ! shard_id y" and ?i = "index y"
  let ?o = "layout (region_base ?P (shard_id y)) ?ss ! ?i"
  note sr = shard_repD [OF rep s(1)]
  have pool: "pool_inv ?P" using rep by (simp add: interner_rep_def)
  note off = rep_offset [OF pool sr(2) sr(1) s(2)]
  have arr: "arr_rep (strings (shards I ! shard_id y))
      (map word_of_nat (layout (region_base ?P (shard_id y)) ?ss))"
    and len: "length ?ss < 2 ^ 24"
    using sr(1) unfolding shard_rep_def by blast+
  obtain p where p: "chunks (strings (shards I ! shard_id y)) (?i div 4096) = Some p"
      "chunk_heap (strings (shards I ! shard_id y)) p (?i mod 4096) = word_of_nat ?o"
    using arr s(2) by (auto simp: arr_rep_def)
  have "?i div 4096 < 4096" using s(2) len by (simp add: less_mult_imp_div_less)
  then show ?thesis
    using p sr(3) off(1,2) by (auto simp: offset_of_def Let_def drop_bit_12 and_4095 load_chunk_def)
qed

lemma offset_of_rep:
  assumes rep: "interner_rep D I sss" and s: "shard_id y < length sss" "index y < length (sss ! shard_id y)"
  shows "\<exists>off. offset_of I y = Inr (Some off) \<and>
     read_record (pmem (ipool I)) (unat off) = (unat off + 4, sss ! shard_id y ! index y)"
proof -
  have "record_at (pmem (ipool I)) (layout (region_base (ipool I) (shard_id y)) (sss ! shard_id y) ! index y)
      (sss ! shard_id y ! index y)"
    using shard_repD(1) [OF rep s(1)] s(2) by (simp add: shard_rep_def)
  moreover have "length (sss ! shard_id y ! index y) < 2 ^ 32"
    using home_unique(2) [OF rep s] by (simp add: value_ok_def)
  ultimately show ?thesis using offset_of_at [OF rep s] read_record_at by auto
qed

section \<open>The contract of a symbol table\<close>

text \<open>
  What the users of the interner rely on: in a valid state, looking a string up and resolving
  a symbol are inverse to each other.
\<close>

locale symbol_table =
  fixes inv :: "'i \<Rightarrow> bool"
    and lookup :: "'i \<Rightarrow> str \<Rightarrow> symbol option"
    and res :: "'i \<Rightarrow> symbol \<Rightarrow> str option"
  assumes res_lookup: "inv i \<Longrightarrow> lookup i v = Some y \<Longrightarrow> res i y = Some v"
    and lookup_res: "inv i \<Longrightarrow> res i y = Some v \<Longrightarrow> lookup i v = Some y"
begin

lemma lookup_inj: "inv i \<Longrightarrow> lookup i v = Some y \<Longrightarrow> lookup i w = Some y \<Longrightarrow> v = w"
  by (metis res_lookup option.inject)

lemma res_inj: "inv i \<Longrightarrow> res i y = Some v \<Longrightarrow> res i z = Some v \<Longrightarrow> y = z"
  by (metis lookup_res option.inject)

lemma lookup_iff_res: "inv i \<Longrightarrow> lookup i v = Some y \<longleftrightarrow> res i y = Some v"
  using lookup_res res_lookup by blast

lemma lookup_None_iff: "inv i \<Longrightarrow> lookup i v = None \<longleftrightarrow> (\<forall>y. res i y \<noteq> Some v)"
  using lookup_iff_res by (metis not_Some_eq)

end

text \<open>Looking up and resolving on a thread with an empty cache; a panic answers nothing.\<close>

definition ok_opt :: "'a option res \<Rightarrow> 'a option" where
  "ok_opt r = (case r of Inr x \<Rightarrow> x | Inl _ \<Rightarrow> None)"

definition interner_inv :: "'t deps \<times> 't interner \<Rightarrow> bool" where
  "interner_inv DI \<longleftrightarrow> hashbrown_ok (fst DI) \<and> (\<exists>sss. interner_rep (fst DI) (snd DI) sss)"

definition interner_lookup :: "'t deps \<times> 't interner \<Rightarrow> str \<Rightarrow> symbol option" where
  "interner_lookup DI v = ok_opt (fst (get_symbol_of (fst DI) (snd DI) local_cache_new v))"

definition interner_resolve :: "'t deps \<times> 't interner \<Rightarrow> symbol \<Rightarrow> str option" where
  "interner_resolve DI y = ok_opt (resolve (snd DI) y)"

lemma interner_lookup_rep:
  "hashbrown_ok D \<Longrightarrow> interner_rep D I sss \<Longrightarrow> interner_lookup (D, I) v = abs_get D sss v"
  by (simp add: interner_lookup_def get_symbol_of_cold ok_opt_def)

text \<open>
  A cache that cannot mislead a lookup of \<open>v\<close>: it has no entry of this interner, or it is valid
  and no stored string can be confused with \<open>v\<close>.
\<close>

definition cache_fits :: "'t deps \<Rightarrow> 't interner \<Rightarrow> local_cache \<Rightarrow> str \<Rightarrow> bool" where
  "cache_fits D I c v \<longleftrightarrow> (\<forall>idx. ce_interner_id (c idx) \<noteq> interner_id I) \<or>
     value_ok v \<and> (\<exists>sss. interner_rep D I sss \<and> cache_ok D I sss c \<and> no_cache_alias D sss v)"

lemma cache_fits_new: "interner_rep D I sss \<Longrightarrow> cache_fits D I local_cache_new v"
  by (simp add: cache_fits_def local_cache_new_def interner_rep_def)

lemma get_symbol_of_fits:
  assumes ok: "hashbrown_ok D" and rep: "interner_rep D I sss" and fits: "cache_fits D I c v"
  shows "fst (get_symbol_of D I c v) = Inr (abs_get D sss v)"
proof (cases "\<forall>idx. ce_interner_id (c idx) \<noteq> interner_id I")
  case True
  have "cache_lookup c I h p v = Inr None" for h p
  proof -
    have "find (\<lambda>idx. False) xs = None" for xs :: "nat list" by (induction xs) simp_all
    then show ?thesis using True by (simp add: cache_lookup_def)
  qed
  then have "cache_lookup c I h p v = cache_lookup local_cache_new I h p v" for h p
    using cache_lookup_cold [OF rep] by simp
  then have "fst (get_symbol_of D I c v) = fst (get_symbol_of D I local_cache_new v)"
    by (simp add: get_symbol_of_def Let_def split: option.splits sum.splits)
  then show ?thesis using get_symbol_of_cold [OF ok rep] by simp
next
  case False
  then obtain us where us: "interner_rep D I us" "cache_ok D I us c" "no_cache_alias D us v" "value_ok v"
    using fits by (auto simp: cache_fits_def)
  then have "fst (get_symbol_of D I c v) = Inr (abs_get D us v)"
    using get_symbol_of_rep [OF ok us] by auto
  then show ?thesis using interner_lookup_rep [OF ok] rep us(1) by metis
qed

lemma interner_resolve_rep: "interner_rep D I sss \<Longrightarrow> interner_resolve (D, I) y = abs_resolve sss y"
  by (simp add: interner_resolve_def resolve_rep ok_opt_def)

interpretation tbl: symbol_table interner_inv interner_lookup interner_resolve
proof
  fix DI :: "'t deps \<times> 't interner" and v y
  assume "interner_inv DI"
  then obtain D I sss where DI: "DI = (D, I)" "hashbrown_ok D" "interner_rep D I sss"
    by (cases DI) (auto simp: interner_inv_def)
  show "interner_lookup DI v = Some y \<Longrightarrow> interner_resolve DI y = Some v"
    using DI abs_resolve_get by (simp add: interner_lookup_rep interner_resolve_rep)
  show "interner_resolve DI y = Some v \<Longrightarrow> interner_lookup DI v = Some y"
    using DI abs_get_resolve by (simp add: interner_lookup_rep interner_resolve_rep)
qed

end
