(* ===== verification/Interner_Bytes.thy ===== *)
theory Interner_Bytes
  imports Interner_Correct
begin

unbundle bit_operations_syntax

text \<open>
  The byte image of an interner: \<open>bytes\<close>, \<open>from_bytes\<close>, \<open>from_bytes_unchecked\<close>
  and \<open>resolve_raw_offset\<close> of \<open>core/string_interner.rs\<close>.  The image is the arena's
  header followed by the used part of every region; reading it back inserts the records in
  order.  The main result is that the rebuilt interner represents the same state, so every
  symbol keeps its meaning.
\<close>

section \<open>Operations\<close>

definition interner_bytes :: "'t interner \<Rightarrow> u8 list" where
  "interner_bytes I = committed_bytes (ipool I)"

definition resolve_raw_offset :: "u8 list \<Rightarrow> u32 \<Rightarrow> str option" where
  "resolve_raw_offset bs offset =
     (let off = unat offset in
      if off = 0 \<or> off + 4 > length bs then None
      else
        let len = unat (of_le32 (sub_slice bs off 4)) in
        if off + 4 + len > length bs then None
        else
          let text = sub_slice bs (off + 4) len in
          if utf8_valid text then Some text else None)"

text \<open>
  The loop of \<open>from_bytes\<close>; \<open>accept\<close> is the UTF-8 check, which the unchecked
  variant leaves out.  The cursor moves by \<open>padded_record_size\<close>, which can be zero for
  lengths near \<open>u32::MAX\<close>, so the loop is not known to end on every input: \<open>None\<close>
  stands for a loop that does not.
\<close>

partial_function (option) from_bytes_loop ::
  "(str \<Rightarrow> bool) \<Rightarrow> 't deps \<Rightarrow> 't interner \<Rightarrow> u8 list \<Rightarrow> nat \<Rightarrow> (unit res \<times> 't interner) option" where
  "from_bytes_loop accept D I bs cursor =
     (if cursor + 4 \<le> length bs then
        let len = unat (of_le32 (sub_slice bs cursor 4)) in
        if cursor + 4 + len > length bs then Some (Inr (), I)
        else
          let text = sub_slice bs (cursor + 4) len;
              step = (if accept text then apfst (map_sum id (\<lambda>_. ())) (insert_unique D I text)
                      else (Inr (), I));
              cursor' = cursor + unat (padded_record_size (word_of_nat len))
          in if isl (fst step) then Some step
             else from_bytes_loop accept D (snd step) bs cursor'
      else Some (Inr (), I))"

definition from_bytes_with ::
  "(str \<Rightarrow> bool) \<Rightarrow> 't deps \<Rightarrow> u32 \<Rightarrow> u8 list \<Rightarrow> ('t interner res \<times> u32) option" where
  "from_bytes_with accept D next_id bs =
     (let shard_count = (case read_shard_count_header bs of
            None \<Rightarrow> word_of_nat DEFAULT_SHARD_COUNT | Some n \<Rightarrow> n);
          estimated_symbols = length bs div 16
      in case with_capacity_and_shards D next_id estimated_symbols (unat shard_count) of
           (Inl e, next_id') \<Rightarrow> Some (Inl e, next_id')
         | (Inr I, next_id') \<Rightarrow>
             if length bs \<le> 4 then Some (Inr I, next_id')
             else case from_bytes_loop accept D I bs 4 of
                    None \<Rightarrow> None
                  | Some (Inl e, _) \<Rightarrow> Some (Inl e, next_id')
                  | Some (Inr _, I') \<Rightarrow> Some (Inr I', next_id'))"

definition from_bytes :: "'t deps \<Rightarrow> u32 \<Rightarrow> u8 list \<Rightarrow> ('t interner res \<times> u32) option" where
  "from_bytes = from_bytes_with utf8_valid"

definition from_bytes_unchecked :: "'t deps \<Rightarrow> u32 \<Rightarrow> u8 list \<Rightarrow> ('t interner res \<times> u32) option" where
  "from_bytes_unchecked = from_bytes_with (\<lambda>_. True)"

section \<open>Images of records\<close>

definition is_img :: "u8 list \<Rightarrow> str \<Rightarrow> bool" where
  "is_img bs v \<longleftrightarrow> length bs = rec_size (length v) \<and>
     take 4 bs = le32 (word_of_nat (length v)) \<and> take (length v) (drop 4 bs) = v"

lemma is_img_read:
  assumes "record_at m off v"
  shows "is_img (mem_read m off (rec_size (length v))) v"
proof -
  have "rec_size (length v) = 4 + (length v + (rec_size (length v) - 4 - length v))"
    using rec_size_bounds(1) [of "length v"] by simp
  then have "mem_read m off (rec_size (length v)) = mem_read m off 4 @ mem_read m (off + 4) (length v) @
      mem_read m (off + 4 + length v) (rec_size (length v) - 4 - length v)"
    by (metis mem_read_append)
  then show ?thesis
    using assms rec_size_bounds(1) [of "length v"] by (simp add: is_img_def record_at_def)
qed

text \<open>The used part of a region is the images of its strings, one after the other.\<close>

lemma region_imgs:
  assumes "\<forall>i < length ss. record_at m (layout b ss ! i) (ss ! i)"
  shows "\<exists>imgs. mem_read m b (total_size ss) = concat imgs \<and> list_all2 is_img imgs ss"
  using assms
proof (induction ss arbitrary: b)
  case Nil
  then show ?case by (intro exI [of _ "[]"]) simp
next
  case (Cons v ss)
  from Cons.prems have v: "record_at m b v" by (metis layout.simps(2) length_greater_0_conv list.discI nth_Cons_0)
  have "\<forall>i < length ss. record_at m (layout (b + rec_size (length v)) ss ! i) (ss ! i)"
    using Cons.prems by (metis Suc_less_eq layout.simps(2) length_Cons nth_Cons_Suc)
  then obtain imgs where imgs: "mem_read m (b + rec_size (length v)) (total_size ss) = concat imgs"
      "list_all2 is_img imgs ss"
    using Cons.IH by blast
  have "mem_read m b (total_size (v # ss)) =
      mem_read m b (rec_size (length v)) @ mem_read m (b + rec_size (length v)) (total_size ss)"
    by (simp add: mem_read_append)
  then show ?case
    using imgs is_img_read [OF v] by (intro exI [of _ "mem_read m b (rec_size (length v)) # imgs"]) simp
qed

lemma concat_concat_map: "concat (map (\<lambda>s. concat (f s)) xs) = concat (concat (map f xs))"
  by (induction xs) auto

lemma bytes_of_rep:
  assumes rep: "interner_rep D I sss"
  shows "\<exists>imgs. interner_bytes I = le32 (word_of_nat (length sss)) @ concat imgs \<and>
     list_all2 is_img imgs (concat sss)"
proof -
  let ?P = "ipool I" and ?n = "length sss"
  have pool: "pool_inv ?P" "length (cursors ?P) = ?n" "mem_read (pmem ?P) 0 4 = le32 (word_of_nat ?n)"
    using rep by (simp_all add: interner_rep_def)
  have reg: "mem_read (pmem ?P) (unat (header_size ?P + word_of_nat s * region_size ?P))
        (unat (min (cvalue (cursors ?P ! s)) (region_size ?P))) =
      mem_read (pmem ?P) (region_base ?P s) (total_size (sss ! s))" if s: "s < ?n" for s
  proof -
    note sr = shard_repD [OF rep s]
    have "unat (cvalue (cursors ?P ! s)) \<le> unat (region_size ?P)"
      using pool_inv_cursor [OF pool(1) sr(2)] by (simp add: cursor_of_def)
    then have "min (cvalue (cursors ?P ! s)) (region_size ?P) = cvalue (cursors ?P ! s)"
      by (simp add: min_def word_le_nat_alt)
    then show ?thesis
      using region_start_exact(1) [OF pool(1) sr(2)] sr(1) by (simp add: shard_rep_def cursor_of_def)
  qed
  have "\<forall>s < ?n. \<exists>imgs. mem_read (pmem ?P) (region_base ?P s) (total_size (sss ! s)) = concat imgs \<and>
      list_all2 is_img imgs (sss ! s)"
    using shard_repD(1) [OF rep] by (intro allI impI region_imgs) (simp add: shard_rep_def)
  then obtain f where f: "\<And>s. s < ?n \<Longrightarrow>
      mem_read (pmem ?P) (region_base ?P s) (total_size (sss ! s)) = concat (f s) \<and>
      list_all2 is_img (f s) (sss ! s)" by metis
  define imgs where "imgs = concat (map f [0..<?n])"
  have hdr: "unat (header_size ?P) = 4" using pool(1) by (simp add: pool_inv_def HEADER_SIZE_def)
  have "map (\<lambda>s. mem_read (pmem ?P) (unat (header_size ?P + word_of_nat s * region_size ?P))
        (unat (map (\<lambda>c. min (cvalue c) (region_size ?P)) (cursors ?P) ! s))) [0..<?n] =
      map (\<lambda>s. concat (f s)) [0..<?n]"
    using reg f pool(2) by (intro map_cong) auto
  then have "interner_bytes I = le32 (word_of_nat ?n) @ concat (map (\<lambda>s. concat (f s)) [0..<?n])"
    by (simp only: interner_bytes_def committed_bytes_def Let_def hdr length_map pool(2,3))
  also have "concat (map (\<lambda>s. concat (f s)) [0..<?n]) = concat imgs"
    by (simp add: imgs_def concat_concat_map)
  finally have "interner_bytes I = le32 (word_of_nat ?n) @ concat imgs" .
  moreover have "list_all2 is_img imgs (concat (map (\<lambda>s. sss ! s) [0..<?n]))"
    unfolding imgs_def using f
    by (intro concat_transfer [THEN rel_funD] list_all2_all_nthI) (simp_all add: list_all2_conv_all_nth)
  ultimately show ?thesis by (auto simp: map_nth)
qed

section \<open>Reading records back\<close>

lemma from_bytes_loop_end: "from_bytes_loop accept D I bs (length bs) = Some (Inr (), I)"
  by (subst from_bytes_loop.simps) simp

lemma from_bytes_loop_img:
  assumes bs: "bs = pre @ img @ rest" and img: "is_img img v" and v: "length v < 2 ^ 32 - 7"
    and acc: "accept v" and ins: "insert_unique D I v = (Inr y, I')"
  shows "from_bytes_loop accept D I bs (length pre) =
     from_bytes_loop accept D I' bs (length (pre @ img))"
proof -
  note l = rec_size_bounds(1) [of "length v"]
  have len: "length img = rec_size (length v)" using img by (simp add: is_img_def)
  have hdr: "sub_slice bs (length pre) 4 = le32 (word_of_nat (length v))"
    using img len l by (simp add: bs sub_slice_def is_img_def)
  have body: "sub_slice bs (length pre + 4) (length v) = v"
    using img len l by (simp add: bs sub_slice_def is_img_def)
  have n: "unat (word_of_nat (length v) :: u32) = length v" using v by (simp add: unat_of_nat)
  have pad: "unat (padded_record_size (word_of_nat (length v))) = length img"
    using v len by (simp add: unat_padded_record_size n)
  have fit: "length pre + 4 + length v \<le> length bs" using len l by (simp add: bs)
  show ?thesis
    using acc ins fit
    by (subst from_bytes_loop.simps) (simp add: Let_def hdr n body pad)
qed

section \<open>Rebuilding the shards\<close>

text \<open>The state reached by inserting a list of strings, each into its home shard.\<close>

definition dist :: "'t deps \<Rightarrow> nat \<Rightarrow> str list \<Rightarrow> str list list" where
  "dist D n L = map (\<lambda>s. filter (\<lambda>v. home D n v = s) L) [0..<n]"

lemma length_dist [simp]: "length (dist D n L) = n"
  by (simp add: dist_def)

lemma dist_nth: "s < n \<Longrightarrow> dist D n L ! s = filter (\<lambda>v. home D n v = s) L"
  by (simp add: dist_def)

lemma dist_snoc:
  assumes "home D n v < n"
  shows "dist D n (L @ [v]) = add_string (dist D n L) (home D n v) v"
  by (rule nth_equalityI) (use assms in \<open>auto simp: dist_nth add_string_def nth_list_update\<close>)

lemma concat_one:
  "concat (map (\<lambda>t. if t = s then x else []) [0..<n]) = (if s < n then x else [])"
  by (induction n) auto

lemma distinct_by_class: "(\<And>s. distinct (filter (\<lambda>v. f v = s) xs)) \<Longrightarrow> distinct xs"
proof (induction xs)
  case (Cons x xs)
  have "distinct (filter (\<lambda>v. f v = s) xs)" for s
    using Cons.prems [of s] by (simp split: if_splits)
  moreover have "x \<notin> set xs" using Cons.prems [of "f x"] by simp
  ultimately show ?case using Cons.IH by simp
qed simp

lemma dist_concat:
  assumes "\<And>s v. s < length sss \<Longrightarrow> v \<in> set (sss ! s) \<Longrightarrow> home D (length sss) v = s"
  shows "dist D (length sss) (concat sss) = sss"
proof (rule nth_equalityI)
  fix s assume "s < length (dist D (length sss) (concat sss))"
  then have s: "s < length sss" by simp
  let ?f = "filter (\<lambda>v. home D (length sss) v = s)"
  have "?f (sss ! t) = (if t = s then sss ! s else [])" if "t < length sss" for t
    using assms [OF that] assms [OF s] by (auto simp: filter_id_conv filter_empty_conv)
  then have "map ?f sss = map (\<lambda>t. if t = s then sss ! s else []) [0..<length sss]"
    by (intro nth_equalityI) auto
  then have "?f (concat sss) = concat (map (\<lambda>t. if t = s then sss ! s else []) [0..<length sss])"
    by (simp add: filter_concat)
  then show "dist D (length sss) (concat sss) ! s = sss ! s"
    using s by (simp add: dist_nth concat_one)
qed simp

lemma insert_unique_rep:
  assumes ok: "hashbrown_ok D" and rep: "interner_rep D I sss"
    and v: "value_ok v" "static_symbol v = None" and sid: "sid = home D (length sss) v"
    and new: "v \<notin> set (sss ! sid)" and h: "pool_healthy (ipool I)" and f: "fits (ipool I) sid v"
    and room: "length (sss ! sid) < 2 ^ 24 - 1"
  shows "\<exists>I'. insert_unique D I v = (Inr (mk_sym sid (length (sss ! sid))), I') \<and>
     interner_rep D I' (add_string sss sid v) \<and> interner_id I' = interner_id I \<and>
     pool_healthy (ipool I') \<and> region_size (ipool I') = region_size (ipool I)"
proof -
  have sl: "sid < length sss" "shard_of I (hash_of D v) = sid"
    using shard_of_home [OF rep] sid by simp_all
  note sr = shard_repD [OF rep sl(1)]
  have np: "\<not> poisoned (cursors (ipool I) ! sid)" using h sr(2) by (simp add: pool_healthy_def)
  from insert_new_rep [OF ok rep v sid new np f room] show ?thesis
    using v(2) sl sr pool_healthy_stored [OF h sr(2)]
    by (auto simp: insert_unique_def Let_def)
qed

lemma from_bytes_loop_rebuild:
  assumes ok: "hashbrown_ok D"
    and vals: "\<forall>v \<in> set (L @ M). value_ok v \<and> static_symbol v = None \<and> accept v"
    and d: "distinct (L @ M)"
    and small: "\<forall>s < n. length (dist D n (L @ M) ! s) < 2 ^ 24 \<and> total_size (dist D n (L @ M) ! s) \<le> rs"
    and imgs: "list_all2 is_img imgs M"
    and rep: "interner_rep D I (dist D n L)" and h: "pool_healthy (ipool I)"
    and rsz: "unat (region_size (ipool I)) = rs" and bs: "bs = pre @ concat imgs"
  shows "\<exists>I'. from_bytes_loop accept D I bs (length pre) = Some (Inr (), I') \<and>
     interner_rep D I' (dist D n (L @ M)) \<and> interner_id I' = interner_id I \<and> pool_healthy (ipool I')"
  using imgs vals d small rep h rsz bs
proof (induction imgs M arbitrary: L I pre rule: list_all2_induct)
  case Nil
  then show ?case using from_bytes_loop_end [of accept D I pre] by simp
next
  case (Cons img imgs v M)
  let ?sid = "home D n v"
  have v: "value_ok v" "static_symbol v = None" "accept v" using Cons.prems by simp_all
  have sl: "?sid < n" using shard_of_home(2) [OF Cons.prems(4), of v] by simp
  have dn: "dist D n (L @ v # M) ! ?sid = dist D n L ! ?sid @ v # filter (\<lambda>w. home D n w = ?sid) M"
    using sl by (simp add: dist_nth)
  have new: "v \<notin> set (dist D n L ! ?sid)" using Cons.prems(2) sl by (simp add: dist_nth)
  have "total_size (dist D n L ! ?sid) + rec_size (length v) \<le> rs"
    "length (dist D n L ! ?sid) + 1 < 2 ^ 24"
    using Cons.prems(3) sl dn by fastforce+
  moreover have "cursor_of (ipool I) ?sid = total_size (dist D n L ! ?sid)"
    using shard_repD(1) [OF Cons.prems(4), of ?sid] sl by (simp add: shard_rep_def)
  ultimately have f: "fits (ipool I) ?sid v" and room: "length (dist D n L ! ?sid) < 2 ^ 24 - 1"
    using Cons.prems(6) by (simp_all add: fits_def)
  obtain I1 where I1: "insert_unique D I v = (Inr (mk_sym ?sid (length (dist D n L ! ?sid))), I1)"
      "interner_rep D I1 (dist D n (L @ [v]))" "interner_id I1 = interner_id I"
      "pool_healthy (ipool I1)" "region_size (ipool I1) = region_size (ipool I)"
    using insert_unique_rep [OF ok Cons.prems(4) v(1,2) _ _ Cons.prems(5), of ?sid] new f room
      dist_snoc [OF sl, of L] by auto
  have step: "from_bytes_loop accept D I bs (length pre) = from_bytes_loop accept D I1 bs (length (pre @ img))"
    by (rule from_bytes_loop_img [where v = v and rest = "concat imgs"])
      (use Cons.prems(7) Cons.hyps(1) v I1(1) in \<open>simp_all add: value_ok_def\<close>)
  have "\<exists>I'. from_bytes_loop accept D I1 bs (length (pre @ img)) = Some (Inr (), I') \<and>
     interner_rep D I' (dist D n ((L @ [v]) @ M)) \<and> interner_id I' = interner_id I1 \<and> pool_healthy (ipool I')"
    by (rule Cons.IH) (use Cons.prems I1 in simp_all)
  then show ?case using step I1(3) by simp
qed

text \<open>Reading the image of an interner gives an interner in the same state.\<close>

lemma from_bytes_roundtrip:
  assumes ok: "hashbrown_ok D" and rep: "interner_rep D I sss" and sz: "arena_sized (ipool I)"
    and nid: "next_id \<noteq> 0" and acc: "\<And>v. utf8_valid v \<Longrightarrow> accept v"
  shows "\<exists>I'. from_bytes_with accept D next_id (interner_bytes I) = Some (Inr I', next_id + 1) \<and>
     interner_rep D I' sss \<and> interner_id I' = next_id \<and> pool_healthy (ipool I')"
proof -
  let ?n = "length sss" and ?bs = "interner_bytes I"
  obtain k where k: "k \<le> 7" "?n = 2 ^ k" using rep by (auto simp: interner_rep_def)
  note cnt = interner_rep_count [OF rep]
  have n32: "unat (word_of_nat ?n :: u32) = ?n"
    using cnt by (intro unat_word_of_nat_small) simp
  have cl: "clamp 1 128 ?n = ?n" using cnt by (simp add: clamp_def)
  have np: "next_power_of_two ?n = ?n" using k next_power_of_two_pow [of k] by simp
  obtain imgs where imgs: "?bs = le32 (word_of_nat ?n) @ concat imgs" "list_all2 is_img imgs (concat sss)"
    using bytes_of_rep [OF rep] by blast
  have hdr: "read_shard_count_header ?bs = Some (word_of_nat ?n)"
    by (simp add: read_shard_count_header_def imgs)
  obtain I0 where I0: "with_capacity_and_shards D next_id (length ?bs div 16) ?n = (Inr I0, next_id + 1)"
      "interner_rep D I0 (replicate ?n [])" "interner_id I0 = next_id" "pool_healthy (ipool I0)"
    using interner_rep_new [OF ok nid, of _ ?n] cl np by auto
  have d0: "replicate ?n [] = dist D ?n []" by (simp add: dist_def map_replicate_const)
  have homes: "home D ?n v = s" if "s < ?n" "v \<in> set (sss ! s)" for s v
    using shard_repD(1) [OF rep that(1)] that(2) by (simp add: shard_rep_def)
  have dc: "dist D ?n (concat sss) = sss" by (rule dist_concat) (rule homes)
  have vals: "\<forall>v \<in> set (concat sss). value_ok v \<and> static_symbol v = None \<and> accept v"
    using shard_repD(1) [OF rep] acc by (auto simp: shard_rep_def value_ok_def in_set_conv_nth [of _ sss])
  have dst: "distinct (concat sss)"
  proof (rule distinct_by_class)
    fix s
    show "distinct (filter (\<lambda>v. home D ?n v = s) (concat sss))"
    proof (cases "s < ?n")
      case True
      then have "filter (\<lambda>v. home D ?n v = s) (concat sss) = sss ! s"
        using dist_nth [of s ?n D "concat sss"] dc by simp
      then show ?thesis using shard_repD(1) [OF rep True] by (simp add: shard_rep_def)
    next
      case False
      then have "home D ?n v \<noteq> s" for v using shard_of_home(2) [OF rep, of v] by auto
      then show ?thesis by simp
    qed
  qed
  have "unat (region_size (ipool I0)) = unat (region_size (ipool I))"
    using I0(2,4) sz rep by (simp add: pool_healthy_def arena_sized_def interner_rep_def)
  moreover have "length (sss ! s) < 2 ^ 24 \<and> total_size (sss ! s) \<le> unat (region_size (ipool I))"
    if "s < ?n" for s
    using shard_repD(1,2) [OF rep that] rep pool_inv_cursor [of "ipool I" s]
    by (simp add: shard_rep_def interner_rep_def)
  ultimately have "\<exists>I'. from_bytes_loop accept D I0 ?bs 4 = Some (Inr (), I') \<and> interner_rep D I' sss \<and>
      interner_id I' = interner_id I0 \<and> pool_healthy (ipool I')"
    using from_bytes_loop_rebuild [OF ok, of "[]" "concat sss" accept ?n "unat (region_size (ipool I))"
        imgs I0 ?bs "le32 (word_of_nat ?n)"] vals dst imgs I0(2,4) dc d0 by simp
  then obtain I' where I': "from_bytes_loop accept D I0 ?bs 4 = Some (Inr (), I')" "interner_rep D I' sss"
      "interner_id I' = next_id" "pool_healthy (ipool I')"
    using I0(3) by auto
  show ?thesis
  proof (cases "length ?bs \<le> 4")
    case True
    then have "I' = I0" using I'(1) by (subst (asm) from_bytes_loop.simps) simp
    then show ?thesis
      using True I0 I' by (simp add: from_bytes_with_def Let_def hdr n32)
  next
    case False
    then show ?thesis using I0 I' by (simp add: from_bytes_with_def Let_def hdr n32)
  qed
qed

end
