(* ===== verification/Interner_Props.thy ===== *)
theory Interner_Props
  imports Interner_Bytes
begin

unbundle bit_operations_syntax

text \<open>
  The properties of the interner, stated over its operations, with a concrete run of each
  hypothesis.  The concrete parameters are an association list for the hash table and a
  simple hash of long strings.
\<close>

section \<open>A concrete table\<close>

definition list_deps :: "(str \<Rightarrow> u64) \<Rightarrow> (u64 \<times> entry) list deps" where
  "list_deps h =
     \<lparr>hash_one = h, ht_with_capacity = (\<lambda>_. []),
      ht_find = (\<lambda>t hash p. map_option snd (find (\<lambda>(h', e). h' = hash \<and> p e) t)),
      ht_insert_unique = (\<lambda>t hash e. (hash, e) # t),
      ht_items = set, alloc_bytes = (\<lambda>_ _. 0)\<rparr>"

lemma list_deps_ok: "hashbrown_ok (list_deps h)"
proof -
  have "find (\<lambda>(h', e). h' = hash \<and> p e) t = Some (h', e') \<Longrightarrow> p e' \<and> (h', e') \<in> set t"
    for t :: "(u64 \<times> entry) list" and hash p h' e'
  proof -
    assume "find (\<lambda>(h', e). h' = hash \<and> p e) t = Some (h', e')"
    then obtain i where "i < length t" "t ! i = (h', e')" "h' = hash \<and> p e'"
      by (auto simp: find_Some_iff)
    then show ?thesis using nth_mem by metis
  qed
  moreover have "find (\<lambda>(h', e). h' = hash \<and> p e) t = None \<Longrightarrow> (hash, e') \<in> set t \<Longrightarrow> \<not> p e'"
    for t :: "(u64 \<times> entry) list" and hash p e'
    by (cases e') (auto simp: find_None_iff)
  ultimately show ?thesis by (simp add: hashbrown_ok_def list_deps_def) blast
qed

text \<open>A fresh interner over this table, and two strings to intern.\<close>

definition demo_D :: "(u64 \<times> entry) list deps" where
  "demo_D = list_deps (\<lambda>_. 0)"

definition fresh_I :: "(u64 \<times> entry) list interner" where
  "fresh_I = projr (fst (interner_new demo_D 1))"

definition hello :: str where
  "hello = lit ''hello''"

lemma demo_D_ok: "hashbrown_ok demo_D"
  by (simp add: demo_D_def list_deps_ok)

lemma fresh_I_new: "interner_new demo_D 1 = (Inr fresh_I, 2)"
  and fresh_I_rep: "interner_rep demo_D fresh_I (replicate 16 [])"
  and fresh_I_healthy: "pool_healthy (ipool fresh_I)"
proof -
  have "next_power_of_two (clamp 1 128 16) = 16"
    using next_power_of_two_pow [of 4] by (simp add: clamp_def)
  then have "\<exists>I. interner_new demo_D 1 = (Inr I, 2) \<and> interner_rep demo_D I (replicate 16 []) \<and>
      pool_healthy (ipool I)"
    using interner_rep_new [OF demo_D_ok, of 1 0 16] by (auto simp: interner_new_def DEFAULT_SHARD_COUNT_def)
  then show "interner_new demo_D 1 = (Inr fresh_I, 2)" "interner_rep demo_D fresh_I (replicate 16 [])"
    "pool_healthy (ipool fresh_I)"
    by (auto simp: fresh_I_def)
qed

lemma empty_no_alias: "no_cache_alias D (replicate n []) v"
  by (simp add: no_cache_alias_def)

lemma hello_ok: "value_ok hello" "length hello = 5" "static_symbol hello = None"
  by (simp_all add: value_ok_def hello_def lit_def static_symbol_def)

lemma hello_absent: "abs_get demo_D (replicate 16 []) hello = None"
proof -
  have "home demo_D 16 hello < 16" using home_less [of "replicate 16 []" 4 demo_D hello] by simp
  then show ?thesis using hello_ok(3) by (simp add: abs_get_dynamic abs_find_None)
qed

lemma hello_fits: "sid < 16 \<Longrightarrow> fits (ipool fresh_I) sid hello"
proof -
  assume s: "sid < 16"
  have "cursor_of (ipool fresh_I) sid = 0"
    using shard_repD(1) [OF fresh_I_rep, of sid] s by (simp add: shard_rep_def)
  moreover have "unat (region_size (ipool fresh_I)) = 4 * ((2 ^ 29 - 4) div 16 div 4)"
    using fresh_I_healthy fresh_I_rep by (simp add: pool_healthy_def arena_sized_def interner_rep_def)
  ultimately show ?thesis by (simp add: fits_def hello_ok rec_size_def)
qed


lemma hello_home: "home demo_D 16 v < 16"
  using home_less [of "replicate 16 []" 4 demo_D v] by simp

lemma hello_run:
  "\<exists>I' c'. get_or_intern demo_D fresh_I local_cache_new hello =
       (Inr (mk_sym (home demo_D 16 hello) 0), I', c') \<and>
     interner_rep demo_D I' (add_string (replicate 16 []) (home demo_D 16 hello) hello) \<and>
     cache_ok demo_D I' (add_string (replicate 16 []) (home demo_D 16 hello) hello) c' \<and>
     ipool I' = stored (ipool fresh_I) (home demo_D 16 hello) hello"
proof -
  have "\<not> poisoned (cursors (ipool fresh_I) ! home demo_D 16 hello)"
    using fresh_I_healthy fresh_I_rep hello_home by (simp add: pool_healthy_def interner_rep_def)
  then show ?thesis
    using get_or_intern_insert [OF demo_D_ok fresh_I_rep cache_ok_cold [OF fresh_I_rep] empty_no_alias hello_ok(1)
        hello_absent refl] hello_fits hello_home by fastforce
qed

text \<open>The interner, the cache and the symbol after the first call.\<close>

definition hello_I :: "(u64 \<times> entry) list interner" where
  "hello_I = fst (snd (get_or_intern demo_D fresh_I local_cache_new hello))"

definition hello_c :: local_cache where
  "hello_c = snd (snd (get_or_intern demo_D fresh_I local_cache_new hello))"

definition hello_y :: symbol where
  "hello_y = projr (fst (get_or_intern demo_D fresh_I local_cache_new hello))"

definition hello_s :: "str list list" where
  "hello_s = add_string (replicate 16 []) (home demo_D 16 hello) hello"

lemma hello_y_eq: "hello_y = mk_sym (home demo_D 16 hello) 0"
  using hello_run by (auto simp: hello_y_def)

lemma hello_I_run: "get_or_intern demo_D fresh_I local_cache_new hello = (Inr hello_y, hello_I, hello_c)"
  and hello_I_rep: "interner_rep demo_D hello_I hello_s"
  and hello_c_ok: "cache_ok demo_D hello_I hello_s hello_c"
  and hello_I_pool: "ipool hello_I = stored (ipool fresh_I) (home demo_D 16 hello) hello"
  using hello_run by (auto simp: hello_I_def hello_c_def hello_y_def hello_s_def)

lemma hello_resolves: "resolve hello_I hello_y = Inr (Some hello)" "shard_id hello_y \<noteq> 255"
proof -
  have "shard_id hello_y = home demo_D 16 hello" "index hello_y = 0"
    using hello_home [of hello] by (simp_all add: hello_y_eq mk_sym_fields)
  then show "resolve hello_I hello_y = Inr (Some hello)" "shard_id hello_y \<noteq> 255"
    using hello_home [of hello]
    by (simp_all add: resolve_rep [OF hello_I_rep] abs_resolve_def hello_s_def add_string_def)
qed

definition world :: str where
  "world = lit ''world''"

lemma world_ok: "value_ok world" "no_cache_alias demo_D hello_s world" "abs_get demo_D hello_s world = None"
    "fits (ipool hello_I) (home demo_D 16 world) world" "\<not> poisoned (cursors (ipool hello_I) ! home demo_D 16 world)"
proof -
  note h = hello_home [of hello] and w = hello_home [of world]
  have len: "length world = 5" "length hello = 5" "world \<noteq> hello" "static_symbol world = None"
    by (simp_all add: world_def hello_def lit_def static_symbol_def)
  show "value_ok world" by (simp add: value_ok_def world_def lit_def)
  have pool: "pool_inv (ipool fresh_I)" "length (cursors (ipool fresh_I)) = 16"
    using fresh_I_rep by (simp_all add: interner_rep_def)
  have sets: "ss \<in> set hello_s \<Longrightarrow> ss = [] \<or> ss = [hello]" for ss
    using h by (auto simp: hello_s_def add_string_def in_set_conv_nth nth_list_update split: if_splits)
  then show "no_cache_alias demo_D hello_s world" using len by (auto simp: no_cache_alias_def dest!: sets)
  have "hello_s ! home demo_D 16 world \<in> set hello_s" "length hello_s = 16" using w by (simp_all add: hello_s_def)
  then show "abs_get demo_D hello_s world = None"
    using sets [of "hello_s ! home demo_D 16 world"] len by (auto simp: abs_get_dynamic abs_find_None)
  have "cursor_of (ipool hello_I) (home demo_D 16 world) \<le> 12"
    using cursor_stored [OF pool(1) _ _ hello_fits [OF h]] pool(2) h len(2)
      shard_repD(1) [OF fresh_I_rep, of "home demo_D 16 world"] w
    by (auto simp: hello_I_pool rec_size_def shard_rep_def)
  moreover have "unat (region_size (ipool hello_I)) = 4 * ((2 ^ 29 - 4) div 16 div 4)"
    using fresh_I_healthy pool by (simp add: hello_I_pool pool_healthy_def arena_sized_def)
  ultimately show "fits (ipool hello_I) (home demo_D 16 world) world" by (simp add: fits_def len rec_size_def)
  show "\<not> poisoned (cursors (ipool hello_I) ! home demo_D 16 world)"
    using pool_healthy_stored [OF fresh_I_healthy, of "home demo_D 16 hello" hello] h w pool(2)
    by (simp add: hello_I_pool pool_healthy_def)
qed

lemma world_run: "\<exists>z J d. get_or_intern demo_D hello_I hello_c world = (Inr z, J, d)"
proof -
  have "length hello_s = 16" by (simp add: hello_s_def)
  then have "home demo_D 16 world = home demo_D (length hello_s) world" by simp
  moreover have "length (hello_s ! home demo_D 16 world) < 2 ^ 24 - 1"
    using hello_home [of hello] hello_home [of world]
    by (simp add: hello_s_def add_string_def nth_list_update)
  ultimately show ?thesis
    using get_or_intern_insert [OF demo_D_ok hello_I_rep hello_c_ok world_ok(2,1,3)] world_ok(4,5) by blast
qed

text \<open>A string longer than a region.\<close>

definition big :: str where
  "big = replicate (2 ^ 26) 97"

lemma big_ok: "value_ok big" "abs_get demo_D (replicate 16 []) big = None"
    "\<not> fits (ipool fresh_I) (home demo_D 16 big) big"
proof -
  have len: "length big = 2 ^ 26" unfolding big_def by (rule length_replicate)
  have "utf8_valid big" unfolding big_def by (rule utf8_valid_ascii) auto
  then show "value_ok big" using len by (simp add: value_ok_def)
  have "static_symbol big = None" using len by (auto simp: static_symbol_def)
  moreover have sid: "home demo_D 16 big < 16" using home_less [of "replicate 16 []" 4 demo_D big] by simp
  ultimately show "abs_get demo_D (replicate 16 []) big = None" by (simp add: abs_get_dynamic abs_find_None)
  have "unat (region_size (ipool fresh_I)) = 4 * ((2 ^ 29 - 4) div 16 div 4)"
    using fresh_I_healthy fresh_I_rep by (simp add: pool_healthy_def arena_sized_def interner_rep_def)
  then show "\<not> fits (ipool fresh_I) (home demo_D 16 big) big" by (simp add: fits_def len rec_size_def)
qed

lemma no_cache_alias_add:
  assumes "no_cache_alias D sss v"
  shows "no_cache_alias D (add_string sss sid v) v"
proof (cases "sid < length sss")
  case True
  then have "set (add_string sss sid v) \<subseteq> insert (sss ! sid @ [v]) (set sss)" "sss ! sid \<in> set sss"
    by (simp_all add: add_string_def set_update_subset_insert)
  then show ?thesis
    using assms unfolding no_cache_alias_def by fastforce
qed (use assms in \<open>simp add: add_string_def list_update_beyond\<close>)

lemma no_cache_alias_mono:
  assumes "no_cache_alias D (add_string sss sid v) w"
  shows "no_cache_alias D sss w"
  unfolding no_cache_alias_def
proof (intro ballI)
  fix ss x assume "ss \<in> set sss" "x \<in> set ss"
  then obtain t i where ti: "t < length sss" "i < length (sss ! t)" "sss ! t ! i = x"
    by (metis in_set_conv_nth)
  then have "add_string sss sid v ! t \<in> set (add_string sss sid v)" "x \<in> set (add_string sss sid v ! t)"
    using add_string_old [OF ti(1,2), of sid v] by (simp, metis nth_mem)
  then show "8 < length x \<and> length x = length w \<and> prefix8 x = prefix8 w \<and>
      (ucast (hash_of D x) :: u32) = ucast (hash_of D w) \<longrightarrow> x = w"
    using assms unfolding no_cache_alias_def by blast
qed

section \<open>Interning\<close>

text \<open>
  C1: a successful \<open>get_or_intern\<close> returns a symbol that resolves to its argument and that
  a later lookup finds again; every symbol that resolved before resolves to the same string,
  and the interner and the thread's cache are left in a valid state.
\<close>

theorem get_or_intern_correct:
  assumes "hashbrown_ok D" "interner_rep D I sss" "cache_ok D I sss c" "no_cache_alias D sss v"
    "value_ok v" "get_or_intern D I c v = (Inr y, I', c')"
  shows "resolve I' y = Inr (Some v) \<and>
    fst (get_symbol_of D I' local_cache_new v) = Inr (Some y) \<and>
    (\<forall>z w. resolve I z = Inr (Some w) \<longrightarrow> resolve I' z = Inr (Some w)) \<and>
    (\<exists>sss'. interner_rep D I' sss' \<and> cache_ok D I' sss' c')"
proof -
  obtain sss' where s: "interner_rep D I' sss'" "cache_ok D I' sss' c'" "abs_get D sss' v = Some y"
      "sss' = sss \<or> sss' = add_string sss (home D (length sss) v) v"
    using get_or_intern_Inr [OF assms] by blast
  have "abs_resolve sss z = Some w \<Longrightarrow> abs_resolve sss' z = Some w" for z w
    using s(4) abs_resolve_grow by blast
  then show ?thesis
    using s abs_resolve_get [OF s(1,3)] get_symbol_of_cold [OF assms(1) s(1)]
    by (auto simp: resolve_rep [OF assms(2)] resolve_rep [OF s(1)])
qed

theorem get_or_intern_correct_witness: "resolve hello_I hello_y = Inr (Some hello)"
  using get_or_intern_correct [OF demo_D_ok fresh_I_rep cache_ok_cold [OF fresh_I_rep] empty_no_alias hello_ok(1) hello_I_run]
  by simp

text \<open>
  C6: with at least four shards, in an interner that has not run out of memory, a string that
  fits in its region is interned: the call returns a symbol and does not panic.
\<close>

theorem get_or_intern_total:
  assumes "hashbrown_ok D" "interner_rep D I sss" "cache_ok D I sss c" "no_cache_alias D sss v"
    "value_ok v" "pool_healthy (ipool I)" "4 \<le> length sss"
    "fits (ipool I) (home D (length sss) v) v"
  shows "\<exists>y I' c'. get_or_intern D I c v = (Inr y, I', c') \<and> pool_healthy (ipool I')"
proof (cases "abs_get D sss v")
  case None
  let ?sid = "home D (length sss) v"
  have sid: "?sid < length sss" using shard_of_home(2) [OF assms(2)] .
  have "2 \<le> length v"
    using get_or_intern_absent(1) [OF assms(1-5) None refl] dynamic_length [OF assms(5)] by simp
  then have "length (sss ! ?sid) < 2 ^ 24 - 1"
    using room_of_fits [OF assms(2,6,7) sid assms(8)] by simp
  moreover have "\<not> poisoned (cursors (ipool I) ! ?sid)"
    using assms(6) shard_repD(2) [OF assms(2) sid] by (simp add: pool_healthy_def)
  ultimately show ?thesis
    using get_or_intern_insert [OF assms(1-5) None refl _ assms(8)]
      pool_healthy_stored [OF assms(6)] shard_repD(2) [OF assms(2) sid] by fastforce
qed (use get_or_intern_present [OF assms(1-5)] assms(6) in blast)

theorem get_or_intern_total_witness:
  "\<exists>y I' c'. get_or_intern demo_D fresh_I local_cache_new hello = (Inr y, I', c') \<and> pool_healthy (ipool I')"
  by (rule get_or_intern_total [OF demo_D_ok fresh_I_rep cache_ok_cold [OF fresh_I_rep] empty_no_alias hello_ok(1)
        fresh_I_healthy]) (use hello_fits home_less [of "replicate 16 []" 4 demo_D hello] in simp_all)

text \<open>
  C24: a string that is not there and does not fit makes \<open>get_or_intern\<close> panic with the pool
  exhausted.  Every stored string still resolves, and the shard stays closed: after the panic
  any other new string of that shard panics as well, however short it is.
\<close>

theorem get_or_intern_exhausted:
  assumes "hashbrown_ok D" "interner_rep D I sss" "cache_ok D I sss c" "no_cache_alias D sss v"
    "value_ok v" "abs_get D sss v = None" "\<not> fits (ipool I) (home D (length sss) v) v"
  shows "\<exists>I'. get_or_intern D I c v = (Inl (PoolExhausted (home D (length sss) v)), I', c) \<and>
    (\<forall>z. resolve I' z = resolve I z) \<and>
    (\<forall>c2 w. cache_ok D I' sss c2 \<longrightarrow> no_cache_alias D sss w \<longrightarrow> value_ok w \<longrightarrow> abs_get D sss w = None \<longrightarrow>
       home D (length sss) w = home D (length sss) v \<longrightarrow>
       fst (get_or_intern D I' c2 w) = Inl (PoolExhausted (home D (length sss) v)))"
proof -
  let ?sid = "home D (length sss) v"
  obtain I' where I': "get_or_intern D I c v = (Inl (PoolExhausted ?sid), I', c)"
      "interner_rep D I' sss" "poisoned (cursors (ipool I') ! ?sid)"
    using get_or_intern_full [OF assms(1-6) refl] assms(7) by blast
  have "fst (get_or_intern D I' c2 w) = Inl (PoolExhausted ?sid)"
    if "cache_ok D I' sss c2" "no_cache_alias D sss w" "value_ok w" "abs_get D sss w = None"
      "home D (length sss) w = ?sid" for c2 w
    using get_or_intern_full [OF assms(1) I'(2) that(1-4) refl] I'(3) that(5) by fastforce
  then show ?thesis
    using I' by (intro exI [of _ I']) (simp add: resolve_rep [OF assms(2)] resolve_rep [OF I'(2)])
qed

theorem get_or_intern_exhausted_witness:
  "fst (get_or_intern demo_D fresh_I local_cache_new big) = Inl (PoolExhausted (home demo_D 16 big))"
  using get_or_intern_exhausted [OF demo_D_ok fresh_I_rep cache_ok_cold [OF fresh_I_rep] empty_no_alias big_ok(1,2)]
    big_ok(3) by fastforce

text \<open>
  Interning is idempotent: a second call with the same string, on any thread whose cache
  is valid, returns the same symbol and changes nothing.
\<close>

theorem get_or_intern_idempotent:
  assumes "hashbrown_ok D" "interner_rep D I sss" "cache_ok D I sss c" "no_cache_alias D sss v"
    "value_ok v" "get_or_intern D I c v = (Inr y, I', c')"
  shows "fst (get_or_intern D I' c' v) = Inr y \<and> fst (snd (get_or_intern D I' c' v)) = I' \<and>
    fst (get_or_intern D I' local_cache_new v) = Inr y"
proof -
  obtain sss' where s: "interner_rep D I' sss'" "cache_ok D I' sss' c'" "abs_get D sss' v = Some y"
      "sss' = sss \<or> sss' = add_string sss (home D (length sss) v) v"
    using get_or_intern_Inr [OF assms] by blast
  have "no_cache_alias D (add_string sss (home D (length sss) v) v) v"
    using assms(4) by (rule no_cache_alias_add)
  then have na: "no_cache_alias D sss' v" using s(4) assms(4) by blast
  show ?thesis
    using get_or_intern_present [OF assms(1) s(1,2) na assms(5) s(3)]
      get_or_intern_present [OF assms(1) s(1) cache_ok_cold [OF s(1)] na assms(5) s(3)] by auto
qed

theorem get_or_intern_idempotent_witness: "fst (get_or_intern demo_D hello_I hello_c hello) = Inr hello_y"
  using get_or_intern_idempotent [OF demo_D_ok fresh_I_rep cache_ok_cold [OF fresh_I_rep] empty_no_alias hello_ok(1) hello_I_run]
  by simp

text \<open>
  Two strings interned one after the other get the same symbol exactly when they are
  the same string.
\<close>

theorem get_or_intern_injective:
  assumes "hashbrown_ok D" "interner_rep D I sss" "cache_ok D I sss c" "no_cache_alias D sss v"
    "value_ok v" "get_or_intern D I c v = (Inr y, I1, c1)"
    "no_cache_alias D (add_string sss (home D (length sss) v) v) w" "value_ok w"
    "get_or_intern D I1 c1 w = (Inr z, I2, c2)"
  shows "y = z \<longleftrightarrow> v = w"
proof -
  let ?add = "add_string sss (home D (length sss) v) v"
  obtain s1 where s1: "interner_rep D I1 s1" "cache_ok D I1 s1 c1" "abs_get D s1 v = Some y"
      "s1 = sss \<or> s1 = ?add"
    using get_or_intern_Inr [OF assms(1-6)] by blast
  have "no_cache_alias D s1 w"
    using s1(4) assms(7) no_cache_alias_mono [OF assms(7)] by blast
  from get_or_intern_Inr [OF assms(1) s1(1,2) this assms(8,9)]
  obtain s2 where s2: "interner_rep D I2 s2" "abs_get D s2 w = Some z"
      "s2 = s1 \<or> s2 = add_string s1 (home D (length s1) w) w"
    by blast
  have inv: "interner_inv (D, I2)" using assms(1) s2(1) by (auto simp: interner_inv_def)
  have "abs_resolve s2 y = Some v"
    using abs_resolve_get [OF s1(1,3)] abs_resolve_grow s2(3) by blast
  then have "interner_resolve (D, I2) y = Some v" by (simp add: interner_resolve_rep [OF s2(1)])
  moreover have "interner_resolve (D, I2) z = Some w"
    using abs_resolve_get [OF s2(1,2)] by (simp add: interner_resolve_rep [OF s2(1)])
  ultimately show ?thesis using tbl.res_inj [OF inv] by auto
qed

theorem get_or_intern_injective_witness:
  "\<exists>z J d. get_or_intern demo_D hello_I hello_c world = (Inr z, J, d) \<and> hello_y \<noteq> z"
proof -
  obtain z J d where run: "get_or_intern demo_D hello_I hello_c world = (Inr z, J, d)" using world_run by blast
  have "hello \<noteq> world" by (simp add: hello_def world_def lit_def)
  then show ?thesis
    using get_or_intern_injective [OF demo_D_ok fresh_I_rep cache_ok_cold [OF fresh_I_rep] empty_no_alias hello_ok(1)
        hello_I_run _ world_ok(1) run] world_ok(2) run by (simp add: hello_s_def)
qed

section \<open>Lookup and resolve\<close>

text \<open>
  C17: in a valid state, with any valid cache and provided that no stored string of more than
  eight bytes can be confused with the argument by the cache (\<open>no_cache_alias\<close>: equal length, equal
  prefix and equal low half of the hash, yet another string), \<open>get\<close> does not panic and is the
  inverse of \<open>resolve\<close>: it answers \<open>y\<close> exactly when \<open>y\<close> resolves to the string, and nothing
  when no symbol does.  \<open>contains\<close> says whether it answered.  Without the proviso \<open>get\<close> can
  answer the symbol of the other string; \<open>Interner_Cache\<close> has such a state.
\<close>

theorem get_inverse_of_resolve:
  assumes "hashbrown_ok D" "interner_rep D I sss" "cache_ok D I sss c" "no_cache_alias D sss v"
    "value_ok v"
  shows "\<exists>r c'. get_symbol_of D I c v = (Inr r, c') \<and> cache_ok D I sss c' \<and>
    (\<forall>y. r = Some y \<longleftrightarrow> resolve I y = Inr (Some v)) \<and> contains D I c v = (Inr (r \<noteq> None), c')"
proof -
  obtain c' where c': "get_symbol_of D I c v = (Inr (abs_get D sss v), c')" "cache_ok D I sss c'"
    using get_symbol_of_rep [OF assms] by blast
  have inv: "interner_inv (D, I)" using assms(1,2) by (auto simp: interner_inv_def)
  have "abs_get D sss v = Some y \<longleftrightarrow> resolve I y = Inr (Some v)" for y
    using tbl.lookup_iff_res [OF inv, of v y]
    by (simp add: interner_lookup_rep [OF assms(1,2)] interner_resolve_rep [OF assms(2)]
        resolve_rep [OF assms(2)])
  then show ?thesis using c' by (intro exI [of _ "abs_get D sss v"] exI [of _ c']) (simp add: contains_def)
qed

theorem get_inverse_of_resolve_witness:
  "\<exists>r c'. get_symbol_of demo_D hello_I hello_c world = (Inr r, c') \<and>
     (\<forall>y. r = Some y \<longleftrightarrow> resolve hello_I y = Inr (Some world))"
  using get_inverse_of_resolve [OF demo_D_ok hello_I_rep hello_c_ok world_ok(2,1)] by blast

text \<open>
  \<open>resolve\<close> never panics: on any 32-bit symbol it answers a string or nothing.  Where it
  answers a string the unchecked variant answers the same one, so an unchecked resolve of a
  symbol this interner handed out never touches a null chunk or an empty slot.
\<close>

theorem resolve_unchecked_agrees:
  assumes "interner_rep D I sss"
  shows "\<exists>r. resolve I y = Inr r \<and> (r \<noteq> None \<longrightarrow> resolve_unchecked I y = Inr r)"
  using resolve_rep [OF assms] resolve_unchecked_rep [OF assms] by auto

theorem resolve_unchecked_agrees_witness:
  "\<exists>r. resolve hello_I hello_y = Inr r \<and> (r \<noteq> None \<longrightarrow> resolve_unchecked hello_I hello_y = Inr r)"
  by (rule resolve_unchecked_agrees [OF hello_I_rep])

text \<open>
  C9: reading the bytes of an interner back gives an interner, with the checked and with the
  unchecked reader, and always ends: every symbol resolves to the string it resolved to, and every
  string has the symbol it had.
\<close>

theorem bytes_roundtrip:
  assumes "hashbrown_ok D" "interner_rep D I sss" "arena_sized (ipool I)" "next_id \<noteq> 0"
  shows "\<forall>read \<in> {from_bytes, from_bytes_unchecked}.
    \<exists>J. read D next_id (interner_bytes I) = Some (Inr J, next_id + 1) \<and> interner_id J = next_id \<and>
      interner_rep D J sss \<and> (\<forall>y. resolve J y = resolve I y) \<and>
      (\<forall>v. fst (get_symbol_of D J local_cache_new v) = fst (get_symbol_of D I local_cache_new v))"
proof -
  have "\<exists>J. from_bytes_with accept D next_id (interner_bytes I) = Some (Inr J, next_id + 1) \<and>
      interner_id J = next_id \<and> interner_rep D J sss \<and> (\<forall>y. resolve J y = resolve I y) \<and>
      (\<forall>v. fst (get_symbol_of D J local_cache_new v) = fst (get_symbol_of D I local_cache_new v))"
    if acc: "\<And>v. utf8_valid v \<Longrightarrow> accept v" for accept
  proof -
    obtain J where J: "from_bytes_with accept D next_id (interner_bytes I) = Some (Inr J, next_id + 1)"
        "interner_rep D J sss" "interner_id J = next_id"
      using from_bytes_roundtrip [OF assms, of accept] acc by blast
    then show ?thesis
      by (intro exI [of _ J]) (simp add: resolve_rep [OF assms(2)] resolve_rep [OF J(2)]
          get_symbol_of_cold [OF assms(1,2)] get_symbol_of_cold [OF assms(1) J(2)])
  qed
  then show ?thesis unfolding from_bytes_def from_bytes_unchecked_def by simp
qed

theorem bytes_roundtrip_witness:
  "\<exists>J. from_bytes demo_D 2 (interner_bytes hello_I) = Some (Inr J, 3) \<and>
     resolve J hello_y = resolve hello_I hello_y"
proof -
  have "arena_sized (ipool hello_I)"
    using fresh_I_healthy by (simp add: hello_I_pool pool_healthy_def arena_sized_def)
  then show ?thesis using bytes_roundtrip [OF demo_D_ok hello_I_rep, of 2] by fastforce
qed

text \<open>
  The function \<open>len\<close> counts the dynamic strings: a call of \<open>get_or_intern\<close> raises it by one when
  the string had no symbol and leaves it alone otherwise.
\<close>

theorem get_or_intern_len:
  assumes "hashbrown_ok D" "interner_rep D I sss" "cache_ok D I sss c" "no_cache_alias D sss v"
    "value_ok v" "get_or_intern D I c v = (Inr y, I', c')"
  shows "interner_len I' =
    (if fst (get_symbol_of D I local_cache_new v) = Inr None then interner_len I + 1 else interner_len I)"
proof -
  let ?sid = "home D (length sss) v"
  obtain sss' where s: "interner_rep D I' sss'" "abs_get D sss' v = Some y"
      "sss' = sss \<and> I' = I \<or> sss' = add_string sss ?sid v \<and> abs_get D sss v = None"
    using get_or_intern_Inr [OF assms] by blast
  have sid: "?sid < length sss" using shard_of_home(2) [OF assms(2)] .
  have "sum_list (map length (add_string sss ?sid v)) = sum_list (map length sss) + 1"
    using sid by (simp add: add_string_def map_update sum_list_update elem_le_sum_list)
  then show ?thesis
    using s get_symbol_of_cold [OF assms(1,2), of v]
    by (auto simp: interner_len_rep [OF assms(2)] interner_len_rep [OF s(1)])
qed

theorem get_or_intern_len_witness: "interner_len hello_I = interner_len fresh_I + 1"
  using get_or_intern_len [OF demo_D_ok fresh_I_rep cache_ok_cold [OF fresh_I_rep] empty_no_alias hello_ok(1)
      hello_I_run] by (simp add: get_symbol_of_cold [OF demo_D_ok fresh_I_rep] hello_absent)

end
