(* ===== verification/Interner_Cache.thy ===== *)
theory Interner_Cache
  imports Interner_Props
begin

unbundle bit_operations_syntax

text \<open>
  The thread-local cache and strings of more than eight bytes.  \<open>get_or_intern\<close> and
  \<open>get\<close> store the offset of the text in a slot (\<open>text.as_ptr() - base\<close>, four bytes
  behind the record), and a later probe reads its comparison bytes four bytes behind the stored
  offset.  The two do not fit together: the theory states what this costs and what it breaks.
\<close>

section \<open>What a probe reads\<close>

lemma prefix8_take: "8 \<le> length v \<Longrightarrow> prefix8 (take 8 v) = prefix8 v"
  by (simp add: prefix8_def min_def)

lemma prefix8_eq_take:
  assumes "8 \<le> length v" "8 \<le> length w" "prefix8 v = prefix8 w"
  shows "take 8 v = take 8 w"
  by (rule prefix8_inj) (use assms in \<open>simp_all add: prefix8_take\<close>)

text \<open>Four bytes into the text the probe still sees the rest of the cached string.\<close>

lemma probe_reads:
  assumes rep: "interner_rep D I sss" and t: "t < length sss" and i: "i < length (sss ! t)"
    and len: "4 \<le> length (sss ! t ! i)"
  shows "mem_read (pmem (ipool I)) (unat (word_of_nat (text_addr I sss t i) :: u32) + 4)
      (length (sss ! t ! i) - 4) = drop 4 (sss ! t ! i)"
proof -
  note sr = shard_repD [OF rep t]
  let ?w = "sss ! t ! i" and ?o = "layout (region_base (ipool I) t) (sss ! t) ! i"
  have pool: "pool_inv (ipool I)" using rep by (simp add: interner_rep_def)
  note off = rep_offset [OF pool sr(2) sr(1) i]
  have "record_at (pmem (ipool I)) ?o ?w" using sr(1) i by (simp add: shard_rep_def)
  then have w: "mem_read (pmem (ipool I)) (?o + 4) (length ?w) = ?w" by (simp add: record_at_def)
  have "drop 4 (mem_read (pmem (ipool I)) (?o + 4) (length ?w)) =
      mem_read (pmem (ipool I)) (?o + 4 + 4) (length ?w - 4)"
    using mem_read_append [of "pmem (ipool I)" "?o + 4" 4 "length ?w - 4"] len by simp
  then have "drop 4 ?w = mem_read (pmem (ipool I)) (?o + 4 + 4) (length ?w - 4)" by (simp add: w)
  moreover have "unat (word_of_nat (?o + 4) :: u32) = ?o + 4"
    using off(3) rec_size_bounds(1) [of "length ?w"] unat_u32_less [of "capacity (ipool I)"] len
    by (intro unat_word_of_nat_small) simp
  ultimately show ?thesis by (simp add: text_addr_def)
qed

section \<open>Long strings never hit\<close>

text \<open>
  C30: a string of more than eight bytes whose first four bytes differ from its next four is
  never answered from the cache, even directly after it was stored there: the probe compares it
  with bytes that start four bytes too late.
\<close>

theorem long_strings_miss:
  assumes "interner_rep D I sss" "cache_ok D I sss c" "8 < length v" "length v < 2 ^ 32"
    "take 4 v \<noteq> take 4 (drop 4 v)"
  shows "cache_lookup c I (hash_of D v) (prefix8 v) v = Inr None"
proof (cases "find (\<lambda>idx. ce_interner_id (c idx) = interner_id I \<and> ce_hash (c idx) = ucast (hash_of D v) \<and>
              ce_len (c idx) = word_of_nat (length v) \<and> ce_prefix (c idx) = prefix8 v)
            (cache_line (hash_of D v))")
  case None
  then show ?thesis by (simp add: cache_lookup_def)
next
  case (Some idx)
  then have slot: "ce_interner_id (c idx) = interner_id I" "ce_len (c idx) = word_of_nat (length v)"
      "ce_prefix (c idx) = prefix8 v"
    by (auto simp: find_Some_iff)
  then obtain t i where t: "t < length sss" "i < length (sss ! t)" and w:
      "ce_len (c idx) = word_of_nat (length (sss ! t ! i))" "ce_prefix (c idx) = prefix8 (sss ! t ! i)"
      "ce_offset (c idx) = word_of_nat (text_addr I sss t i)"
    using assms(2) by (auto simp: cache_ok_def)
  let ?w = "sss ! t ! i" and ?m = "pmem (ipool I)"
  have len: "length ?w = length v"
    using slot(2) w(1) assms(4) home_unique(2) [OF assms(1) t]
      word_of_nat_u32_inj [of "length v" "length ?w"] by (simp add: value_ok_def)
  then have p: "take 8 ?w = take 8 v"
    using prefix8_eq_take [of ?w v] slot(3) w(2) assms(3) by simp
  let ?a = "unat (ce_offset (c idx)) + 4"
  have "mem_read ?m ?a (length v - 4) = drop 4 ?w"
    using probe_reads [OF assms(1) t] len assms(3) w(3) by simp
  then have "take 4 (mem_read ?m ?a ((length v - 4) + 4)) = take 4 (drop 4 ?w)"
    using len assms(3) by (simp only: mem_read_append take_append) simp
  also have "\<dots> = drop 4 (take 8 ?w)" by (simp add: drop_take)
  also have "\<dots> = take 4 (drop 4 v)" by (simp add: p drop_take)
  finally have "take 4 (mem_read ?m ?a (length v)) = take 4 (drop 4 v)" using assms(3) by simp
  then have "mem_read ?m ?a (length v) \<noteq> v" using assms(5) by metis
  then show ?thesis using Some assms(3) by (simp add: cache_lookup_def)
qed

theorem long_strings_miss_witness:
  "cache_lookup hello_c hello_I (hash_of demo_D (lit ''hello world'')) (prefix8 (lit ''hello world''))
     (lit ''hello world'') = Inr None"
  by (rule long_strings_miss [OF hello_I_rep hello_c_ok]) (simp_all add: lit_def)

section \<open>A wrong hit\<close>

text \<open>
  Three strings of twelve bytes: \<open>text_a\<close> is stored first, \<open>text_b\<close> right behind it, and
  \<open>text_c\<close> is what the probe of \<open>text_a\<close>'s slot reads, the tail of \<open>text_a\<close> followed
  by the length field of \<open>text_b\<close>.
\<close>

definition text_a :: str where "text_a = lit ''AAAAAAAAAAAA''"
definition text_b :: str where "text_b = lit ''BBBBBBBBBBBB''"
definition text_c :: str where "text_c = lit ''AAAAAAAA'' @ [12, 0, 0, 0]"

lemma texts:
  "length text_a = 12" "length text_b = 12" "length text_c = 12"
  "value_ok text_a" "value_ok text_b" "value_ok text_c"
  "static_symbol text_a = None" "static_symbol text_b = None" "static_symbol text_c = None"
  "text_a \<noteq> text_b" "text_c \<noteq> text_a" "text_c \<noteq> text_b"
  "take 8 text_c = take 8 text_a" "take 8 text_b \<noteq> take 8 text_a"
  by (simp_all add: text_a_def text_b_def text_c_def lit_def value_ok_def static_symbol_def)

lemma text_c_eq: "text_c = drop 4 text_a @ le32 12"
proof -
  have "nat_le (Suc (Suc (Suc (Suc 0)))) 12 = [12, 0, 0, 0]" by simp
  moreover have "Suc (Suc (Suc (Suc 0))) = 4" by simp
  ultimately have "le32 12 = [12, 0, 0, 0]" by (simp add: le32_def)
  then show ?thesis by (simp add: text_a_def text_c_def lit_def)
qed

lemma texts_hash: "v \<in> {text_a, text_b, text_c} \<Longrightarrow> hash_of demo_D v = 0 \<and> home demo_D 16 v = 0"
  using texts(1-3) by (auto simp: hash_of_def home_def demo_D_def list_deps_def)

lemma fresh_fits: "sid < 16 \<Longrightarrow> length v \<le> 1000 \<Longrightarrow> fits (ipool fresh_I) sid v"
proof -
  assume s: "sid < 16" "length v \<le> 1000"
  have "cursor_of (ipool fresh_I) sid = 0"
    using shard_repD(1) [OF fresh_I_rep, of sid] s(1) by (simp add: shard_rep_def)
  moreover have "unat (region_size (ipool fresh_I)) = 4 * ((2 ^ 29 - 4) div 16 div 4)"
    using fresh_I_healthy fresh_I_rep by (simp add: pool_healthy_def arena_sized_def interner_rep_def)
  moreover have "rec_size (length v) \<le> 1007" using s(2) by (simp add: rec_size_def)
  ultimately show ?thesis by (simp add: fits_def)
qed

text \<open>The states after interning \<open>text_a\<close> and then \<open>text_b\<close>, on one thread.\<close>

lemma run_a:
  "\<exists>I c. get_or_intern demo_D fresh_I local_cache_new text_a = (Inr (mk_sym 0 0), I, c) \<and>
     interner_rep demo_D I (add_string (replicate 16 []) 0 text_a) \<and>
     cache_ok demo_D I (add_string (replicate 16 []) 0 text_a) c \<and>
     ipool I = stored (ipool fresh_I) 0 text_a \<and>
     c = cache_store local_cache_new I 0 (prefix8 text_a) text_a 8 (mk_sym 0 0)"
proof -
  have ha: "hash_of demo_D text_a = 0" "home demo_D 16 text_a = 0" using texts_hash by simp_all
  have "\<not> poisoned (cursors (ipool fresh_I) ! 0)"
    using fresh_I_healthy fresh_I_rep by (simp add: pool_healthy_def interner_rep_def)
  moreover have "abs_get demo_D (replicate 16 []) text_a = None"
    by (simp add: abs_get_dynamic [OF texts(7)] ha abs_find_None)
  moreover have "fits (ipool fresh_I) 0 text_a" by (rule fresh_fits) (simp_all add: texts)
  ultimately show ?thesis
    using get_or_intern_insert [OF demo_D_ok fresh_I_rep cache_ok_cold [OF fresh_I_rep] empty_no_alias
        texts(4), of 0] ha by (auto simp: region_base_def)
qed

lemma run_b:
  assumes rep: "interner_rep demo_D I (add_string (replicate 16 []) 0 text_a)"
    and cok: "cache_ok demo_D I (add_string (replicate 16 []) 0 text_a) c"
    and pool: "ipool I = stored (ipool fresh_I) 0 text_a"
  shows "\<exists>J d off. get_or_intern demo_D I c text_b = (Inr (mk_sym 0 1), J, d) \<and>
     interner_rep demo_D J (add_string (add_string (replicate 16 []) 0 text_a) 0 text_b) \<and>
     interner_id J = interner_id I \<and> ipool J = stored (ipool I) 0 text_b \<and>
     d = cache_store c J 0 (prefix8 text_b) text_b off (mk_sym 0 1)"
proof -
  let ?s = "add_string (replicate 16 []) 0 text_a"
  have s: "?s ! 0 = [text_a]" "length ?s = 16" by (simp_all add: add_string_def)
  have hb: "hash_of demo_D text_b = 0" "home demo_D 16 text_b = 0" using texts_hash by simp_all
  have sets: "ss \<in> set ?s \<Longrightarrow> ss = [] \<or> ss = [text_a]" for ss
    by (auto simp: add_string_def in_set_conv_nth nth_list_update split: if_splits)
  have "prefix8 text_a \<noteq> prefix8 text_b"
    using prefix8_eq_take [of text_a text_b] texts(1,2,14) by auto
  then have na: "no_cache_alias demo_D ?s text_b" unfolding no_cache_alias_def using sets by fastforce
  have fresh: "pool_inv (ipool fresh_I)" "length (cursors (ipool fresh_I)) = 16"
    using fresh_I_rep by (simp_all add: interner_rep_def)
  have np: "\<not> poisoned (cursors (ipool I) ! 0)"
    using pool_healthy_stored [OF fresh_I_healthy, of 0 text_a] fresh(2) by (simp add: pool pool_healthy_def)
  have "cursor_of (ipool I) 0 = 16"
    using shard_repD(1) [OF rep, of 0] s texts(1) by (simp add: shard_rep_def rec_size_def)
  moreover have "unat (region_size (ipool I)) = 4 * ((2 ^ 29 - 4) div 16 div 4)"
    using fresh_I_healthy fresh by (simp add: pool pool_healthy_def arena_sized_def)
  ultimately have f: "fits (ipool I) 0 text_b" by (simp add: fits_def texts rec_size_def)
  have ab: "abs_get demo_D ?s text_b = None"
    using texts(10) by (simp add: abs_get_dynamic [OF texts(8)] hb s abs_find_None)
  show ?thesis
    using get_or_intern_insert [OF demo_D_ok rep cok na texts(5) ab, of 0] np f hb s by fastforce
qed

lemma two_records:
  assumes rep: "interner_rep demo_D J (add_string (add_string (replicate 16 []) 0 text_a) 0 text_b)"
  shows "mem_read (pmem (ipool J)) 12 12 = text_c"
proof -
  let ?s = "add_string (add_string (replicate 16 []) 0 text_a) 0 text_b" and ?m = "pmem (ipool J)"
  have s0: "?s ! 0 = [text_a, text_b]" by (simp add: add_string_def)
  have base: "region_base (ipool J) 0 = 4" by (simp add: region_base_def)
  have recs: "\<forall>i < 2. record_at ?m (layout 4 [text_a, text_b] ! i) ([text_a, text_b] ! i)"
    using shard_repD(1) [OF rep, of 0] s0 base by (simp add: shard_rep_def)
  have "record_at ?m 4 text_a" using recs [rule_format, of 0] by simp
  then have a: "mem_read ?m 8 12 = text_a" by (simp add: record_at_def texts(1))
  have "record_at ?m 20 text_b" using recs [rule_format, of 1] by (simp add: texts(1) rec_size_def)
  then have b: "mem_read ?m 20 4 = le32 12" by (simp add: record_at_def texts(2))
  have "mem_read ?m 12 8 = drop 4 (mem_read ?m 8 12)"
    using mem_read_append [of ?m 8 4 8] by simp
  then show ?thesis
    using mem_read_append [of ?m 12 8 4] a b by (simp add: text_c_eq)
qed

text \<open>
  C31: the cache can answer a lookup with the symbol of another string.  On one thread, with a
  hash function that sends the three texts to the same value, \<open>get\<close> of \<open>text_c\<close>, which
  was never interned, returns the symbol of \<open>text_a\<close>; without the cache it returns nothing.
\<close>

theorem cache_wrong_hit:
  "\<exists>I1 c1 I2 c2 z. get_or_intern demo_D fresh_I local_cache_new text_a = (Inr (mk_sym 0 0), I1, c1) \<and>
     get_or_intern demo_D I1 c1 text_b = (Inr z, I2, c2) \<and>
     fst (get_symbol_of demo_D I2 c2 text_c) = Inr (Some (mk_sym 0 0)) \<and>
     resolve I2 (mk_sym 0 0) = Inr (Some text_a) \<and> text_c \<noteq> text_a \<and>
     fst (get_symbol_of demo_D I2 local_cache_new text_c) = Inr None"
proof -
  obtain I1 c1 where I1: "get_or_intern demo_D fresh_I local_cache_new text_a = (Inr (mk_sym 0 0), I1, c1)"
      "interner_rep demo_D I1 (add_string (replicate 16 []) 0 text_a)"
      "cache_ok demo_D I1 (add_string (replicate 16 []) 0 text_a) c1"
      "ipool I1 = stored (ipool fresh_I) 0 text_a"
      "c1 = cache_store local_cache_new I1 0 (prefix8 text_a) text_a 8 (mk_sym 0 0)"
    using run_a by blast
  let ?s = "add_string (add_string (replicate 16 []) 0 text_a) 0 text_b"
  obtain I2 c2 off where I2: "get_or_intern demo_D I1 c1 text_b = (Inr (mk_sym 0 1), I2, c2)"
      "interner_rep demo_D I2 ?s" "interner_id I2 = interner_id I1"
      "c2 = cache_store c1 I2 0 (prefix8 text_b) text_b off (mk_sym 0 1)"
    using run_b [OF I1(2-4)] by blast
  have line: "cache_line 0 = [0, 1, 2, 3]" by (simp add: cache_line_def cache_line_base_def upt_rec)
  have id: "interner_id I1 \<noteq> 0" using I1(2) by (simp add: interner_rep_def)
  have c1: "c1 = local_cache_new(0 := \<lparr>ce_interner_id = interner_id I1, ce_hash = 0, ce_len = 12,
      ce_offset = 8, ce_symbol = into_raw (mk_sym 0 0), ce_prefix = prefix8 text_a\<rparr>)"
    by (simp add: I1(5) cache_store_def line local_cache_new_def texts)
  then have "c2 0 = c1 0" using id by (simp add: I2(4) cache_store_def line local_cache_new_def)
  moreover have "prefix8 text_c = prefix8 text_a"
    using prefix8_take [of text_c] prefix8_take [of text_a] texts(1,3,13) by simp
  moreover have "mem_read (pmem (ipool I2)) 12 12 = text_c" by (rule two_records [OF I2(2)])
  ultimately have hit: "cache_lookup c2 I2 0 (prefix8 text_c) text_c = Inr (Some (mk_sym 0 0))"
    using mk_sym_fields(3) [of 0 0] c1 I2(3)
    by (simp add: cache_lookup_def line texts unwrap_symbol_def from_raw_into_raw)
  have hc: "hash_of demo_D text_c = 0" "home demo_D 16 text_c = 0" using texts_hash by simp_all
  have "fst (get_symbol_of demo_D I2 c2 text_c) = Inr (Some (mk_sym 0 0))"
    using hit hc by (simp add: get_symbol_of_def texts)
  moreover have "resolve I2 (mk_sym 0 0) = Inr (Some text_a)"
    using entry_test(1,2) [OF I2(2), of 0 0]
    by (simp add: resolve_rep [OF I2(2)] abs_resolve_def add_string_def)
  moreover have "fst (get_symbol_of demo_D I2 local_cache_new text_c) = Inr None"
    using hc texts(11,12) by (simp add: get_symbol_of_cold [OF demo_D_ok I2(2)] abs_get_dynamic [OF texts(9)]
        abs_find_None add_string_def)
  ultimately show ?thesis using I1(1) I2(1) texts(11) by blast
qed

end
