(* ===== verification/Interner_Threads.thy ===== *)
theory Interner_Threads
  imports Interner_Correct
begin

unbundle bit_operations_syntax

text \<open>
  The interner of \<open>core/string_interner.rs\<close> as several threads use it at the same time.  The
  theory \<open>Interner\<close> models \<open>get_or_intern\<close>, \<open>get\<close> and \<open>resolve\<close> as one thread runs them alone; here
  they are cut into the steps between which other threads can run.  A step ends at each access
  to shared memory that another thread may observe: taking or releasing a shard's
  \<open>RwLock\<close>, an atomic load or store, the bytes of a new record.  Reads of a shard's table happen
  under its lock and are one step.  Atomics are sequentially consistent.
\<close>

section \<open>The operations in steps\<close>

text \<open>
  \<open>MemoryPool::alloc\<close> up to the bytes of the record, and its last store, the new cursor.
\<close>

definition alloc_write :: "memory_pool \<Rightarrow> nat \<Rightarrow> str \<Rightarrow> (u32 \<times> u32) res \<times> memory_pool" where
  "alloc_write P sid v =
     (if \<not> sid < length (cursors P) then (Inl IndexOutOfBounds, P)
      else
        let shard = cursors P ! sid in
        if poisoned shard then (Inl (PoolExhausted sid), P)
        else
          let len = word_of_nat (length v) :: u32;
              size = padded_record_size len;
              current = cvalue shard
          in if region_size P < current then (Inl (PoolExhausted sid), poison P sid)
             else
               let remaining = region_size P - current in
               if size > remaining then (Inl (PoolExhausted sid), poison P sid)
               else
                 let global_offset = header_size P + word_of_nat sid * region_size P + current;
                     m = mem_write (pmem P) (unat global_offset) (le32 len);
                     m' = mem_write m (unat global_offset + 4) (take (unat len) v)
                 in (Inr (global_offset, current + size), P\<lparr>pmem := m'\<rparr>))"

definition alloc_commit :: "memory_pool \<Rightarrow> nat \<Rightarrow> u32 \<Rightarrow> memory_pool" where
  "alloc_commit P sid value = P\<lparr>cursors := (cursors P)[sid := (cursors P ! sid)\<lparr>cvalue := value\<rparr>]\<rparr>"

text \<open>
  \<open>LockFreeStringArray::push\<close>: \<open>fetch_add\<close> on the length, the load of the chunk pointer, the
  \<open>compare_exchange\<close> with a new chunk, and the store into the slot.
\<close>

definition push_len :: "string_array \<Rightarrow> nat \<times> string_array" where
  "push_len A = (arr_len A, A\<lparr>arr_len := arr_len A + 1\<rparr>)"

definition push_load :: "string_array \<Rightarrow> nat \<Rightarrow> chunk_ptr option res" where
  "push_load A idx =
     (let chunk_idx = drop_bit CHUNK_SHIFT idx in
      if \<not> chunk_idx < NUM_CHUNKS then Inl IndexOutOfBounds else Inr (chunks A chunk_idx))"

definition push_exchange :: "string_array \<Rightarrow> nat \<Rightarrow> chunk_ptr \<times> string_array" where
  "push_exchange A idx =
     (let chunk_idx = drop_bit CHUNK_SHIFT idx in
      case chunks A chunk_idx of
        None \<Rightarrow> (next_chunk A, add_chunk A chunk_idx)
      | Some existing \<Rightarrow> (existing, A))"

definition push_store :: "string_array \<Rightarrow> nat \<Rightarrow> chunk_ptr \<Rightarrow> u32 \<Rightarrow> string_array" where
  "push_store A idx p off =
     A\<lparr>chunk_heap := (chunk_heap A)(p := (chunk_heap A p)(idx AND CHUNK_MASK := off))\<rparr>"

text \<open>The steps, one after the other, are the operations.\<close>

lemma pool_alloc_steps:
  "pool_alloc P sid v = (case alloc_write P sid v of
       (Inl e, P') \<Rightarrow> (Inl e, P')
     | (Inr (off, cur), P') \<Rightarrow> (Inr off, alloc_commit P' sid cur))"
  by (simp add: pool_alloc_def alloc_write_def alloc_commit_def Let_def)

lemma array_push_steps:
  "array_push A off = (case push_len A of (idx, A1) \<Rightarrow>
     (case push_load A1 idx of
        Inl e \<Rightarrow> (Inl e, A1)
      | Inr (Some p) \<Rightarrow> (Inr idx, push_store A1 idx p off)
      | Inr None \<Rightarrow> (case push_exchange A1 idx of (p, A2) \<Rightarrow> (Inr idx, push_store A2 idx p off))))"
  by (simp add: array_push_def push_len_def push_load_def push_exchange_def push_store_def add_chunk_def Let_def
      split: option.splits)

section \<open>Threads\<close>

text \<open>
  Where a thread is inside a call, with the local variables it still needs.  \<open>Lookup\<close>, \<open>GetLookup\<close>
  and \<open>GetStore\<close> hold the read lock of the string's shard; \<open>Check\<close> to \<open>Publish\<close> hold its write
  lock.
\<close>

datatype pc =
    Idle
  | ReadLock str
  | Lookup str
  | WriteLock str
  | Check str
  | Alloc str
  | Commit str u32 u32
  | PushLen str u32
  | PushLoad str u32 nat
  | PushExchange str u32 nat
  | PushStore str u32 nat chunk_ptr
  | Publish str u32 nat
  | CacheStore str str_ref symbol
  | ReadLen symbol
  | ReadChunk symbol
  | ReadSlot symbol chunk_ptr
  | GetLock str
  | GetLookup str
  | GetStore str str_ref symbol

datatype call = Intern str | Get str | Resolve symbol

datatype reply = RIntern str symbol | RGet str "symbol option" | RResolve symbol "str option" | RPanic panic

datatype event = Called nat call | Replied nat reply

text \<open>\<open>parking_lot::RwLock\<close>: the threads that hold its guards.\<close>

record lock =
  lk_readers :: "nat set"
  lk_writer :: "nat option"

definition read_acquire :: "nat \<Rightarrow> nat \<Rightarrow> (nat \<Rightarrow> lock) \<Rightarrow> nat \<Rightarrow> lock" where
  "read_acquire i sid L = L(sid := (L sid)\<lparr>lk_readers := insert i (lk_readers (L sid))\<rparr>)"

definition read_release :: "nat \<Rightarrow> nat \<Rightarrow> (nat \<Rightarrow> lock) \<Rightarrow> nat \<Rightarrow> lock" where
  "read_release i sid L = L(sid := (L sid)\<lparr>lk_readers := lk_readers (L sid) - {i}\<rparr>)"

definition write_acquire :: "nat \<Rightarrow> nat \<Rightarrow> (nat \<Rightarrow> lock) \<Rightarrow> nat \<Rightarrow> lock" where
  "write_acquire i sid L = L(sid := (L sid)\<lparr>lk_writer := Some i\<rparr>)"

definition write_release :: "nat \<Rightarrow> (nat \<Rightarrow> lock) \<Rightarrow> nat \<Rightarrow> lock" where
  "write_release sid L = L(sid := (L sid)\<lparr>lk_writer := None\<rparr>)"

section \<open>One step of a thread\<close>

text \<open>
  The start of a call: what it does before it first touches shared state that changes.  The
  probe of the thread's own cache also reads the arena.
\<close>

fun start :: "'t deps \<Rightarrow> 't interner \<Rightarrow> local_cache \<Rightarrow> call \<Rightarrow> pc \<times> reply option" where
  "start D I c (Intern v) =
     (case static_symbol v of
        Some (Inl e) \<Rightarrow> (Idle, Some (RPanic e))
      | Some (Inr y) \<Rightarrow> (Idle, Some (RIntern v y))
      | None \<Rightarrow>
          (case cache_lookup c I (hash_of D v) (prefix8 v) v of
             Inl e \<Rightarrow> (Idle, Some (RPanic e))
           | Inr (Some y) \<Rightarrow> (Idle, Some (RIntern v y))
           | Inr None \<Rightarrow>
               if \<not> shard_of I (hash_of D v) < length (shards I) then (Idle, Some (RPanic IndexOutOfBounds))
               else (ReadLock v, None)))"
| "start D I c (Get v) =
     (case static_symbol v of
        Some (Inl e) \<Rightarrow> (Idle, Some (RPanic e))
      | Some (Inr y) \<Rightarrow> (Idle, Some (RGet v (Some y)))
      | None \<Rightarrow>
          (case cache_lookup c I (hash_of D v) (prefix8 v) v of
             Inl e \<Rightarrow> (Idle, Some (RPanic e))
           | Inr (Some y) \<Rightarrow> (Idle, Some (RGet v (Some y)))
           | Inr None \<Rightarrow>
               if \<not> shard_of I (hash_of D v) < length (shards I) then (Idle, Some (RPanic IndexOutOfBounds))
               else (GetLock v, None)))"
| "start D I c (Resolve y) =
     (if shard_id y = unat STATIC_SHARD_ID then
        (Idle, Some (RResolve y (if index y = 0 then Some []
          else if index y \<le> 128 then Some (ASCII_STRINGS ! (index y - 1)) else None)))
      else if shard_id y \<ge> length (shards I) then (Idle, Some (RResolve y None))
      else (ReadLen y, None))"

text \<open>
  The next step of thread \<open>i\<close>: the interner, the locks, its cache and its place afterwards, and
  the answer if the call is over.  \<open>None\<close>: the thread is idle or waits for a lock.  A panic
  unwinds and releases the guard.
\<close>

type_synonym 't effect = "'t interner \<times> (nat \<Rightarrow> lock) \<times> local_cache \<times> pc \<times> reply option"

definition set_strings :: "'t interner \<Rightarrow> nat \<Rightarrow> string_array \<Rightarrow> 't interner" where
  "set_strings I sid A = set_shard I sid ((shards I ! sid)\<lparr>strings := A\<rparr>)"

fun act :: "'t deps \<Rightarrow> nat \<Rightarrow> 't interner \<Rightarrow> (nat \<Rightarrow> lock) \<Rightarrow> local_cache \<Rightarrow> pc \<Rightarrow> 't effect option" where
  "act D i I L c Idle = None"
| "act D i I L c (ReadLock v) =
     (let sid = shard_of I (hash_of D v) in
      if lk_writer (L sid) \<noteq> None then None
      else Some (I, read_acquire i sid L, c, Lookup v, None))"
| "act D i I L c (Lookup v) =
     (let sid = shard_of I (hash_of D v); L' = read_release i sid L in
      case read_lookup D I sid (hash_of D v) (prefix8 v) v of
        Inl e \<Rightarrow> Some (I, L', c, Idle, Some (RPanic e))
      | Inr (Some (text, y)) \<Rightarrow> Some (I, L', c, CacheStore v text y, None)
      | Inr None \<Rightarrow> Some (I, L', c, WriteLock v, None))"
| "act D i I L c (WriteLock v) =
     (let sid = shard_of I (hash_of D v) in
      if lk_writer (L sid) \<noteq> None \<or> lk_readers (L sid) \<noteq> {} then None
      else Some (I, write_acquire i sid L, c, Check v, None))"
| "act D i I L c (Check v) =
     (let sid = shard_of I (hash_of D v); L' = write_release sid L in
      case find_entry D I sid (hash_of D v) (prefix8 v) v of
        Some (_, _, y) \<Rightarrow>
          (case shard_get_unchecked I sid (index y) of
             Inl e \<Rightarrow> Some (I, L', c, Idle, Some (RPanic e))
           | Inr None \<Rightarrow> Some (I, L', c, Idle, Some (RPanic UnwrapNone))
           | Inr (Some text) \<Rightarrow> Some (I, L', c, CacheStore v text y, None))
      | None \<Rightarrow> Some (I, L, c, Alloc v, None))"
| "act D i I L c (Alloc v) =
     (let sid = shard_of I (hash_of D v) in
      case alloc_write (ipool I) sid v of
        (Inl e, P) \<Rightarrow> Some (I\<lparr>ipool := P\<rparr>, write_release sid L, c, Idle, Some (RPanic e))
      | (Inr (off, cur), P) \<Rightarrow> Some (I\<lparr>ipool := P\<rparr>, L, c, Commit v off cur, None))"
| "act D i I L c (Commit v off cur) =
     (let sid = shard_of I (hash_of D v) in
      Some (I\<lparr>ipool := alloc_commit (ipool I) sid cur\<rparr>, L, c, PushLen v off, None))"
| "act D i I L c (PushLen v off) =
     (let sid = shard_of I (hash_of D v) in
      case push_len (strings (shards I ! sid)) of
        (idx, A) \<Rightarrow> Some (set_strings I sid A, L, c, PushLoad v off idx, None))"
| "act D i I L c (PushLoad v off idx) =
     (let sid = shard_of I (hash_of D v) in
      case push_load (strings (shards I ! sid)) idx of
        Inl e \<Rightarrow> Some (I, write_release sid L, c, Idle, Some (RPanic e))
      | Inr (Some p) \<Rightarrow> Some (I, L, c, PushStore v off idx p, None)
      | Inr None \<Rightarrow> Some (I, L, c, PushExchange v off idx, None))"
| "act D i I L c (PushExchange v off idx) =
     (let sid = shard_of I (hash_of D v) in
      case push_exchange (strings (shards I ! sid)) idx of
        (p, A) \<Rightarrow> Some (set_strings I sid A, L, c, PushStore v off idx p, None))"
| "act D i I L c (PushStore v off idx p) =
     (let sid = shard_of I (hash_of D v) in
      Some (set_strings I sid (push_store (strings (shards I ! sid)) idx p off), L, c, Publish v off idx, None))"
| "act D i I L c (Publish v off idx) =
     (let sid = shard_of I (hash_of D v); sh = shards I ! sid; L' = write_release sid L in
      case symbol_new (word_of_nat sid) idx of
        Inl e \<Rightarrow> Some (I, L', c, Idle, Some (RPanic e))
      | Inr y \<Rightarrow>
          Some (set_shard I sid (sh\<lparr>entries := ht_insert_unique D (entries sh) (hash_of D v) (hash_of D v, prefix8 v, y)\<rparr>),
            L', c, CacheStore v (unat off + 4, mem_read (pmem (ipool I)) (unat off + 4) (length v)) y, None))"
| "act D i I L c (CacheStore v text y) =
     Some (I, L, cache_store c I (hash_of D v) (prefix8 v) v (text_offset text) y, Idle, Some (RIntern v y))"
| "act D i I L c (ReadLen y) =
     (if index y \<ge> arr_len (strings (shards I ! shard_id y)) then Some (I, L, c, Idle, Some (RResolve y None))
      else Some (I, L, c, ReadChunk y, None))"
| "act D i I L c (ReadChunk y) =
     (case fst (load_chunk (strings (shards I ! shard_id y)) None (drop_bit CHUNK_SHIFT (index y))) of
        Inl e \<Rightarrow> Some (I, L, c, Idle, Some (RPanic e))
      | Inr None \<Rightarrow> Some (I, L, c, Idle, Some (RResolve y None))
      | Inr (Some p) \<Rightarrow> Some (I, L, c, ReadSlot y p, None))"
| "act D i I L c (ReadSlot y p) =
     Some (I, L, c, Idle, Some (RResolve y (map_option snd
       (get_from_chunk (strings (shards I ! shard_id y)) p (index y AND CHUNK_MASK) (pmem (ipool I))))))"
| "act D i I L c (GetLock v) =
     (let sid = shard_of I (hash_of D v) in
      if lk_writer (L sid) \<noteq> None then None
      else Some (I, read_acquire i sid L, c, GetLookup v, None))"
| "act D i I L c (GetLookup v) =
     (let sid = shard_of I (hash_of D v); L' = read_release i sid L in
      case find_entry D I sid (hash_of D v) (prefix8 v) v of
        None \<Rightarrow> Some (I, L', c, Idle, Some (RGet v None))
      | Some (_, _, y) \<Rightarrow>
          (case shard_get I sid (index y) of
             Inl e \<Rightarrow> Some (I, L', c, Idle, Some (RPanic e))
           | Inr None \<Rightarrow> Some (I, L', c, Idle, Some (RGet v None))
           | Inr (Some text) \<Rightarrow> Some (I, L, c, GetStore v text y, None)))"
| "act D i I L c (GetStore v text y) =
     Some (I, read_release i (shard_of I (hash_of D v)) L,
       cache_store c I (hash_of D v) (prefix8 v) v (text_offset text) y, Idle, Some (RGet v (Some y)))"

section \<open>The machine\<close>

record thread =
  th_pc :: pc
  th_cache :: local_cache

record 't machine =
  m_interner :: "'t interner"
  m_locks :: "nat \<Rightarrow> lock"
  m_threads :: "thread list"
  m_trace :: "event list"

definition machine_new :: "'t interner \<Rightarrow> nat \<Rightarrow> 't machine" where
  "machine_new I n =
     \<lparr>m_interner = I, m_locks = (\<lambda>_. \<lparr>lk_readers = {}, lk_writer = None\<rparr>),
      m_threads = replicate n \<lparr>th_pc = Idle, th_cache = local_cache_new\<rparr>, m_trace = []\<rparr>"

definition replied :: "nat \<Rightarrow> reply option \<Rightarrow> event list" where
  "replied i r = (case r of None \<Rightarrow> [] | Some x \<Rightarrow> [Replied i x])"

text \<open>An idle thread starts a call; a thread takes its next step.\<close>

definition invoke :: "'t deps \<Rightarrow> nat \<Rightarrow> call \<Rightarrow> 't machine \<Rightarrow> 't machine option" where
  "invoke D i x s =
     (if i < length (m_threads s) \<and> th_pc (m_threads s ! i) = Idle then
        let th = m_threads s ! i in
        (case start D (m_interner s) (th_cache th) x of
           (p, r) \<Rightarrow> Some (s\<lparr>m_threads := (m_threads s)[i := th\<lparr>th_pc := p\<rparr>],
             m_trace := m_trace s @ [Called i x] @ replied i r\<rparr>))
      else None)"

definition proceed :: "'t deps \<Rightarrow> nat \<Rightarrow> 't machine \<Rightarrow> 't machine option" where
  "proceed D i s =
     (if i < length (m_threads s) then
        let th = m_threads s ! i in
        (case act D i (m_interner s) (m_locks s) (th_cache th) (th_pc th) of
           None \<Rightarrow> None
         | Some (I, L, c, p, r) \<Rightarrow>
             Some \<lparr>m_interner = I, m_locks = L, m_threads = (m_threads s)[i := \<lparr>th_pc = p, th_cache = c\<rparr>],
               m_trace = m_trace s @ replied i r\<rparr>)
      else None)"

text \<open>The schedules: any idle thread may call, on strings of \<open>W\<close> or any symbol, and any thread may go on.\<close>

inductive step :: "'t deps \<Rightarrow> str set \<Rightarrow> 't machine \<Rightarrow> 't machine \<Rightarrow> bool" for D W where
  step_intern: "v \<in> W \<Longrightarrow> value_ok v \<Longrightarrow> invoke D i (Intern v) s = Some s' \<Longrightarrow> step D W s s'"
| step_get: "v \<in> W \<Longrightarrow> value_ok v \<Longrightarrow> invoke D i (Get v) s = Some s' \<Longrightarrow> step D W s s'"
| step_resolve: "invoke D i (Resolve y) s = Some s' \<Longrightarrow> step D W s s'"
| step_proceed: "proceed D i s = Some s' \<Longrightarrow> step D W s s'"

inductive_cases stepE: "step D W s s'"

end
