(* ===== verification/Threads_Solo.thy ===== *)
theory Threads_Solo
  imports Interner_Threads
begin

unbundle bit_operations_syntax

text \<open>
  A thread that is not interrupted: the steps of \<open>Interner_Threads\<close>, run one after the other,
  compute what the sequential operations of \<open>Interner\<close> compute.
\<close>

section \<open>Running to the end of a call\<close>

inductive ends ::
  "'t deps \<Rightarrow> nat \<Rightarrow> 't interner \<Rightarrow> (nat \<Rightarrow> lock) \<Rightarrow> local_cache \<Rightarrow> pc \<Rightarrow> 't interner \<Rightarrow> (nat \<Rightarrow> lock) \<Rightarrow> local_cache \<Rightarrow>
   reply \<Rightarrow> bool" for D i where
  ends_now: "act D i I L c p = Some (I', L', c', Idle, Some x) \<Longrightarrow> ends D i I L c p I' L' c' x"
| ends_later: "act D i I L c p = Some (I1, L1, c1, p1, None) \<Longrightarrow> ends D i I1 L1 c1 p1 I' L' c' x \<Longrightarrow>
    ends D i I L c p I' L' c' x"

lemma ends_proceeds:
  "ends D i I L c p I' L' c' x \<Longrightarrow> i < length ts \<Longrightarrow>
   (\<lambda>s s'. proceed D i s = Some s')\<^sup>*\<^sup>*
     \<lparr>m_interner = I, m_locks = L, m_threads = ts[i := \<lparr>th_pc = p, th_cache = c\<rparr>], m_trace = tr\<rparr>
     \<lparr>m_interner = I', m_locks = L', m_threads = ts[i := \<lparr>th_pc = Idle, th_cache = c'\<rparr>], m_trace = tr @ [Replied i x]\<rparr>"
proof (induction rule: ends.induct)
  case (ends_now I L c p I' L' c' x)
  then show ?case by (intro r_into_rtranclp) (simp add: proceed_def replied_def)
next
  case (ends_later I L c p I1 L1 c1 p1 I' L' c' x)
  let ?s = "\<lambda>I L p c. \<lparr>m_interner = I, m_locks = L, m_threads = ts[i := \<lparr>th_pc = p, th_cache = c\<rparr>], m_trace = tr\<rparr>"
  have "proceed D i (?s I L p c) = Some (?s I1 L1 p1 c1)" using ends_later by (simp add: proceed_def replied_def)
  then show ?case using ends_later.IH [OF ends_later.prems] by (rule converse_rtranclp_into_rtranclp)
qed

definition no_locks :: "nat \<Rightarrow> lock" where
  "no_locks = (\<lambda>_. \<lparr>lk_readers = {}, lk_writer = None\<rparr>)"

lemma no_locks_simps [simp]:
  "lk_readers (no_locks sid) = {}" "lk_writer (no_locks sid) = None"
  "read_release i sid (read_acquire i sid no_locks) = no_locks"
  "write_release sid (write_acquire i sid no_locks) = no_locks"
  by (simp_all add: no_locks_def read_release_def read_acquire_def write_release_def write_acquire_def fun_upd_idem)

lemma set_strings_simps [simp]:
  "shard_of (set_strings I sid A) h = shard_of I h" "ipool (set_strings I sid A) = ipool I"
  "sid < length (shards I) \<Longrightarrow> shards (set_strings I sid A) ! sid = (shards I ! sid)\<lparr>strings := A\<rparr>"
  "length (shards (set_strings I sid A)) = length (shards I)"
  by (simp_all add: set_strings_def set_shard_def shard_of_def)

lemma set_strings_twice [simp]: "set_strings (set_strings I sid A) sid B = set_strings I sid B"
  by (cases "sid < length (shards I)") (simp_all add: set_strings_def set_shard_def list_update_beyond)

text \<open>The insertion, from the allocation to the release of the write lock.\<close>

lemma ends_insert:
  assumes sid: "sid = shard_of I (hash_of D v)" "sid < length (shards I)"
  shows "ends D i I (write_acquire i sid no_locks) c (Alloc v)
    (snd (insert_new D I sid (hash_of D v) (prefix8 v) v)) no_locks
    (case insert_new D I sid (hash_of D v) (prefix8 v) v of
        (Inl e, I') \<Rightarrow> c
      | (Inr (off, y), I') \<Rightarrow> cache_store c I' (hash_of D v) (prefix8 v) v
          (text_offset (unat off + 4, mem_read (pmem (ipool I')) (unat off + 4) (length v))) y)
    (case fst (insert_new D I sid (hash_of D v) (prefix8 v) v) of Inl e \<Rightarrow> RPanic e | Inr (off, y) \<Rightarrow> RIntern v y)"
proof -
  let ?L = "write_acquire i sid no_locks" and ?ins = "insert_new D I sid (hash_of D v) (prefix8 v) v"
  define c' where "c' = (case ?ins of
        (Inl e, I') \<Rightarrow> c
      | (Inr (off, y), I') \<Rightarrow> cache_store c I' (hash_of D v) (prefix8 v) v
          (text_offset (unat off + 4, mem_read (pmem (ipool I')) (unat off + 4) (length v))) y)"
  define x where "x = (case fst ?ins of Inl e \<Rightarrow> RPanic e | Inr (off, y) \<Rightarrow> RIntern v y)"
  have sh: "shard_of (I\<lparr>ipool := P\<rparr>) h = shard_of I h" for P h by (simp add: shard_of_def)
  have "ends D i I ?L c (Alloc v) (snd ?ins) no_locks c' x"
  proof (cases "alloc_write (ipool I) sid v")
    case (Pair r P)
    show ?thesis
    proof (cases r)
      case (Inl e)
      then have "?ins = (Inl e, I\<lparr>ipool := P\<rparr>)" using Pair by (simp add: insert_new_def pool_alloc_steps)
      then show ?thesis using Pair Inl sid by (intro ends_now) (simp add: Let_def c'_def x_def)
    next
      case (Inr oc)
      obtain off cur where oc: "oc = (off, cur)" by (cases oc)
      let ?P = "alloc_commit P sid cur" and ?A = "strings (shards I ! sid)"
      let ?I = "I\<lparr>ipool := ?P\<rparr>"
      have alloc: "pool_alloc (ipool I) sid v = (Inr off, ?P)" using Pair Inr oc by (simp add: pool_alloc_steps)
      obtain idx A1 where len: "push_len ?A = (idx, A1)" by (cases "push_len ?A")
      have pub: "ends D i (set_strings ?I sid B) ?L c (Publish v off idx) (snd ?ins) no_locks c' x"
        if B: "array_push ?A off = (Inr idx, B)" for B
      proof (cases "symbol_new (word_of_nat sid) idx")
        case (Inl e)
        have "?ins = (Inl e, set_strings ?I sid B)"
          using alloc B Inl by (simp add: insert_new_def Let_def set_strings_def)
        then show ?thesis using Inl sid by (intro ends_now) (simp add: Let_def sh c'_def x_def)
      next
        case (Inr y)
        let ?sh = "(shards I ! sid)\<lparr>strings := B\<rparr>"
        let ?J = "set_shard ?I sid (?sh\<lparr>entries := ht_insert_unique D (entries ?sh) (hash_of D v) (hash_of D v, prefix8 v, y)\<rparr>)"
        let ?t = "(unat off + 4, mem_read (pmem (ipool ?J)) (unat off + 4) (length v))"
        have ins: "?ins = (Inr (off, y), ?J)" using alloc B Inr by (simp add: insert_new_def Let_def)
        have J: "set_shard (set_strings ?I sid B) sid (?sh\<lparr>entries := ht_insert_unique D (entries ?sh) (hash_of D v) (hash_of D v, prefix8 v, y)\<rparr>) = ?J"
          by (simp add: set_strings_def set_shard_def)
        have pool: "ipool ?J = ?P" by (simp add: set_shard_def)
        have "act D i (set_strings ?I sid B) ?L c (Publish v off idx) =
            Some (?J, no_locks, c, CacheStore v ?t y, None)"
          using Inr sid J pool by (simp add: Let_def sh)
        moreover have "act D i ?J no_locks c (CacheStore v ?t y) = Some (?J, no_locks, c', Idle, Some x)"
          by (simp add: ins c'_def x_def)
        ultimately show ?thesis unfolding ins by (simp add: ends_later ends_now)
      qed
      have store: "ends D i (set_strings ?I sid B) ?L c (PushStore v off idx p) (snd ?ins) no_locks c' x"
        if "array_push ?A off = (Inr idx, push_store B idx p off)" for B p
        using sid by (intro ends_later [OF _ pub [OF that]]) (simp add: Let_def sh)
      have "ends D i (set_strings ?I sid A1) ?L c (PushLoad v off idx) (snd ?ins) no_locks c' x"
      proof (cases "push_load A1 idx")
        case (Inl e)
        then have "?ins = (Inl e, set_strings ?I sid A1)"
          using alloc len by (simp add: insert_new_def array_push_steps Let_def set_strings_def)
        then show ?thesis using Inl sid by (intro ends_now) (simp add: Let_def sh c'_def x_def)
      next
        case (Inr q)
        show ?thesis
        proof (cases q)
          case None
          obtain p A2 where ex: "push_exchange A1 idx = (p, A2)" by (cases "push_exchange A1 idx")
          then have "array_push ?A off = (Inr idx, push_store A2 idx p off)"
            using len Inr None by (simp add: array_push_steps)
          then have st: "ends D i (set_strings ?I sid A2) ?L c (PushStore v off idx p) (snd ?ins) no_locks c' x" by (rule store)
          have "act D i (set_strings ?I sid A1) ?L c (PushLoad v off idx) =
              Some (set_strings ?I sid A1, ?L, c, PushExchange v off idx, None)"
            using Inr None sid by (simp add: Let_def sh)
          moreover have "act D i (set_strings ?I sid A1) ?L c (PushExchange v off idx) =
              Some (set_strings ?I sid A2, ?L, c, PushStore v off idx p, None)"
            using sid ex by (simp add: Let_def sh)
          ultimately show ?thesis using st by (blast intro: ends_later)
        next
          case (Some p)
          then have "array_push ?A off = (Inr idx, push_store A1 idx p off)"
            using len Inr by (simp add: array_push_steps)
          then show ?thesis
            using Inr Some sid by (intro ends_later [OF _ store]) (simp_all add: Let_def sh)
        qed
      qed
      moreover have "act D i ?I ?L c (PushLen v off) = Some (set_strings ?I sid A1, ?L, c, PushLoad v off idx, None)"
        using sid len by (simp add: Let_def sh)
      moreover have "act D i (I\<lparr>ipool := P\<rparr>) ?L c (Commit v off cur) = Some (?I, ?L, c, PushLen v off, None)"
        using sid by (simp add: Let_def sh)
      moreover have "act D i I ?L c (Alloc v) = Some (I\<lparr>ipool := P\<rparr>, ?L, c, Commit v off cur, None)"
        using Pair Inr oc sid by (simp add: Let_def)
      ultimately show ?thesis by (blast intro: ends_later)
    qed
  qed
  then show ?thesis by (simp add: c'_def x_def)
qed

section \<open>Whole calls\<close>

definition reply_of :: "str \<Rightarrow> symbol res \<Rightarrow> reply" where
  "reply_of v r = (case r of Inl e \<Rightarrow> RPanic e | Inr y \<Rightarrow> RIntern v y)"

lemma ends_intern:
  assumes start: "start D I c (Intern v) = (p, r)" and goi: "get_or_intern D I c v = (q, I', c')"
  shows "case r of Some x \<Rightarrow> p = Idle \<and> x = reply_of v q \<and> I' = I \<and> c' = c
    | None \<Rightarrow> ends D i I no_locks c p I' no_locks c' (reply_of v q)"
proof (cases "static_symbol v")
  case (Some b)
  then show ?thesis using start goi by (cases b) (auto simp: get_or_intern_def reply_of_def)
next
  case None
  let ?sid = "shard_of I (hash_of D v)" and ?h = "hash_of D v" and ?p = "prefix8 v"
  show ?thesis
  proof (cases "cache_lookup c I ?h ?p v = Inr None \<and> ?sid < length (shards I)")
    case False
    then show ?thesis
      using None start goi by (auto simp: get_or_intern_def reply_of_def Let_def split: sum.splits option.splits if_splits)
  next
    case True
    then have pr: "p = ReadLock v" "r = None" using None start by auto
    have sid: "?sid < length (shards I)" using True by simp
    let ?R = "read_acquire i ?sid no_locks" and ?W = "write_acquire i ?sid no_locks"
    have read: "act D i I no_locks c (ReadLock v) = Some (I, ?R, c, Lookup v, None)" by (simp add: Let_def)
    have "ends D i I ?R c (Lookup v) I' no_locks c' (reply_of v q)"
    proof (cases "read_lookup D I ?sid ?h ?p v")
      case (Inl e)
      then show ?thesis
        using None True goi by (intro ends_now) (auto simp: get_or_intern_def Let_def reply_of_def)
    next
      case (Inr m)
      show ?thesis
      proof (cases m)
        case (Some ty)
        obtain t y where ty: "ty = (t, y)" by (cases ty)
        have "act D i I ?R c (Lookup v) = Some (I, no_locks, c, CacheStore v t y, None)"
          using Inr Some ty by (simp add: Let_def)
        moreover have "act D i I no_locks c (CacheStore v t y) = Some (I', no_locks, c', Idle, Some (reply_of v q))"
          using None True goi Inr Some ty by (auto simp: get_or_intern_def Let_def reply_of_def)
        ultimately show ?thesis by (rule ends_later [OF _ ends_now])
      next
        case m: None
        have goi': "(case write_lookup_or_insert D I ?sid ?h ?p v of (Inl e, J) \<Rightarrow> (Inl e, J, c)
            | (Inr (text, y), J) \<Rightarrow> (Inr y, J, cache_store c J ?h ?p v (text_offset text) y)) = (q, I', c')"
          using None True goi Inr m by (simp add: get_or_intern_def Let_def)
        have looked: "act D i I ?R c (Lookup v) = Some (I, no_locks, c, WriteLock v, None)"
          using Inr m by (simp add: Let_def)
        have locked: "act D i I no_locks c (WriteLock v) = Some (I, ?W, c, Check v, None)" by (simp add: Let_def)
        have "ends D i I ?W c (Check v) I' no_locks c' (reply_of v q)"
        proof (cases "find_entry D I ?sid ?h ?p v")
          case (Some e)
          obtain a b y where e: "e = (a, b, y)" by (cases e)
          show ?thesis
          proof (cases "shard_get_unchecked I ?sid (index y)")
            case (Inl err)
            then show ?thesis using goi' Some e
              by (intro ends_now) (auto simp: write_lookup_or_insert_def Let_def reply_of_def)
          next
            case (Inr t)
            show ?thesis
            proof (cases t)
              case None
              then show ?thesis using goi' Some e Inr
                by (intro ends_now) (auto simp: write_lookup_or_insert_def Let_def reply_of_def)
            next
              case t: (Some tx)
              have "act D i I ?W c (Check v) = Some (I, no_locks, c, CacheStore v tx y, None)"
                using Some e Inr t by (simp add: Let_def)
              moreover have "act D i I no_locks c (CacheStore v tx y) = Some (I', no_locks, c', Idle, Some (reply_of v q))"
                using goi' Some e Inr t by (auto simp: write_lookup_or_insert_def Let_def reply_of_def)
              ultimately show ?thesis by (rule ends_later [OF _ ends_now])
            qed
          qed
        next
          case none: None
          have "act D i I ?W c (Check v) = Some (I, ?W, c, Alloc v, None)" using none by (simp add: Let_def)
          moreover have "ends D i I ?W c (Alloc v) I' no_locks c' (reply_of v q)"
          proof (cases "insert_new D I ?sid ?h ?p v")
            case (Pair a J)
            then show ?thesis
              using ends_insert [OF refl sid, of i c] goi' none
              by (cases a) (auto simp: write_lookup_or_insert_def reply_of_def)
          qed
          ultimately show ?thesis by (rule ends_later)
        qed
        then show ?thesis using looked locked by (blast intro: ends_later)
      qed
    qed
    then show ?thesis using pr read by (simp add: ends_later)
  qed
qed

lemma ends_get:
  assumes start: "start D I c (Get v) = (p, r)" and gso: "get_symbol_of D I c v = (q, c')"
    and x: "x = (case q of Inl e \<Rightarrow> RPanic e | Inr a \<Rightarrow> RGet v a)"
  shows "case r of Some z \<Rightarrow> p = Idle \<and> z = x \<and> c' = c | None \<Rightarrow> ends D i I no_locks c p I no_locks c' x"
proof (cases "static_symbol v")
  case (Some b)
  then show ?thesis using start gso x by (cases b) (auto simp: get_symbol_of_def)
next
  case None
  let ?sid = "shard_of I (hash_of D v)" and ?h = "hash_of D v" and ?p = "prefix8 v"
  show ?thesis
  proof (cases "cache_lookup c I ?h ?p v = Inr None \<and> ?sid < length (shards I)")
    case False
    then show ?thesis
      using None start gso x by (auto simp: get_symbol_of_def Let_def split: sum.splits option.splits if_splits)
  next
    case True
    then have pr: "p = GetLock v" "r = None" using None start by auto
    let ?R = "read_acquire i ?sid no_locks"
    have lock: "act D i I no_locks c (GetLock v) = Some (I, ?R, c, GetLookup v, None)" by (simp add: Let_def)
    have "ends D i I ?R c (GetLookup v) I no_locks c' x"
    proof (cases "find_entry D I ?sid ?h ?p v")
      case e: None
      have "q = Inr None" "c' = c" using None True gso e by (simp_all add: get_symbol_of_def)
      then show ?thesis using x e by (intro ends_now) (simp add: Let_def)
    next
      case (Some e)
      obtain a b y where e: "e = (a, b, y)" by (cases e)
      show ?thesis
      proof (cases "\<exists>t. shard_get I ?sid (index y) = Inr (Some t)")
        case False
        then show ?thesis
          using None True gso x Some e by (intro ends_now) (auto simp: get_symbol_of_def Let_def split: sum.splits option.splits)
      next
        case t: True
        then obtain t where t: "shard_get I ?sid (index y) = Inr (Some t)" by blast
        have "act D i I ?R c (GetLookup v) = Some (I, ?R, c, GetStore v t y, None)" using Some e t by (simp add: Let_def)
        moreover have "act D i I ?R c (GetStore v t y) = Some (I, no_locks, c', Idle, Some x)"
          using None True gso x Some e t by (auto simp: get_symbol_of_def Let_def)
        ultimately show ?thesis by (rule ends_later [OF _ ends_now])
      qed
    qed
    then show ?thesis using pr lock by (simp add: ends_later)
  qed
qed

lemma ends_resolve:
  assumes start: "start D I c (Resolve y) = (p, r)"
  shows "case r of Some x \<Rightarrow> p = Idle \<and> x = (case resolve I y of Inl e \<Rightarrow> RPanic e | Inr a \<Rightarrow> RResolve y a)
    | None \<Rightarrow> ends D i I no_locks c p I no_locks c (case resolve I y of Inl e \<Rightarrow> RPanic e | Inr a \<Rightarrow> RResolve y a)"
proof (cases "shard_id y = unat STATIC_SHARD_ID \<or> shard_id y \<ge> length (shards I)")
  case True
  then show ?thesis using start by (auto simp: resolve_def Let_def split: if_splits)
next
  case False
  let ?A = "strings (shards I ! shard_id y)" and ?x = "case resolve I y of Inl e \<Rightarrow> RPanic e | Inr a \<Rightarrow> RResolve y a"
  have p: "p = ReadLen y" "r = None" using start False by auto
  have res: "resolve I y = map_sum id (map_option snd) (fst (array_get ?A None (index y) (pmem (ipool I))))"
    using False by (simp add: resolve_def Let_def shard_get_def)
  have "ends D i I no_locks c (ReadLen y) I no_locks c ?x"
  proof (cases "index y \<ge> arr_len ?A")
    case True
    then show ?thesis by (intro ends_now) (simp add: res array_get_def)
  next
    case len: False
    have "ends D i I no_locks c (ReadChunk y) I no_locks c ?x"
    proof (cases "load_chunk ?A None (drop_bit CHUNK_SHIFT (index y))")
      case (Pair l memo)
      show ?thesis
      proof (cases l)
        case (Inl e)
        then show ?thesis using Pair len by (intro ends_now) (simp add: res array_get_def Let_def)
      next
        case (Inr q)
        show ?thesis
        proof (cases q)
          case None
          then show ?thesis using Pair Inr len by (intro ends_now) (simp add: res array_get_def Let_def)
        next
          case (Some ptr)
          have "act D i I no_locks c (ReadChunk y) = Some (I, no_locks, c, ReadSlot y ptr, None)"
            using Pair Inr Some by simp
          moreover have "act D i I no_locks c (ReadSlot y ptr) = Some (I, no_locks, c, Idle, Some ?x)"
            using Pair Inr Some len by (simp add: res array_get_def Let_def)
          ultimately show ?thesis by (rule ends_later [OF _ ends_now])
        qed
      qed
    qed
    moreover have "act D i I no_locks c (ReadLen y) = Some (I, no_locks, c, ReadChunk y, None)" using len by simp
    ultimately show ?thesis by (rule ends_later [rotated])
  qed
  then show ?thesis using p by simp
qed

end
