(* ===== verification/Interner_Atomic.thy ===== *)
theory Interner_Atomic
  imports Interner_Threads
begin

unbundle bit_operations_syntax

text \<open>
  What an interner promises to threads that use it at the same time: the machine of
  \<open>Interner_Threads\<close> with every operation replaced by one atomic step on the lists of strings of
  the shards.  A call is answered by what that step finds, at some moment between the call and
  the reply.
\<close>

section \<open>The atomic interner\<close>

datatype spec_pc = SIdle | SIntern str | SInterned str symbol | SGet str | SGot str "symbol option" | SResolve symbol | SResolved symbol "str option"

record spec =
  sp_strings :: "str list list"
  sp_closed :: "nat set"
  sp_pcs :: "spec_pc list"
  sp_trace :: "event list"

fun called :: "call \<Rightarrow> spec_pc" where
  "called (Intern v) = SIntern v"
| "called (Get v) = SGet v"
| "called (Resolve y) = SResolve y"

text \<open>\<open>room\<close>: the shard is open and the string fits into what is left of its \<open>R\<close> bytes.\<close>

definition room :: "nat \<Rightarrow> spec \<Rightarrow> nat \<Rightarrow> str \<Rightarrow> bool" where
  "room R a sid v \<longleftrightarrow> sid \<notin> sp_closed a \<and> total_size (sp_strings a ! sid) + rec_size (length v) \<le> R"

inductive spec_step :: "'t deps \<Rightarrow> nat \<Rightarrow> spec \<Rightarrow> spec \<Rightarrow> bool" for D R where
  spec_call: "i < length (sp_pcs a) \<Longrightarrow> sp_pcs a ! i = SIdle \<Longrightarrow>
     spec_step D R a (a\<lparr>sp_pcs := (sp_pcs a)[i := called x], sp_trace := sp_trace a @ [Called i x]\<rparr>)"
| spec_find: "i < length (sp_pcs a) \<Longrightarrow> sp_pcs a ! i = SIntern v \<Longrightarrow> abs_get D (sp_strings a) v = Some y \<Longrightarrow>
     spec_step D R a (a\<lparr>sp_pcs := (sp_pcs a)[i := SInterned v y]\<rparr>)"
| spec_add: "i < length (sp_pcs a) \<Longrightarrow> sp_pcs a ! i = SIntern v \<Longrightarrow> abs_get D (sp_strings a) v = None \<Longrightarrow>
     sid = home D (length (sp_strings a)) v \<Longrightarrow> room R a sid v \<Longrightarrow>
     spec_step D R a (a\<lparr>sp_strings := add_string (sp_strings a) sid v,
       sp_pcs := (sp_pcs a)[i := SInterned v (mk_sym sid (length (sp_strings a ! sid)))]\<rparr>)"
| spec_full: "i < length (sp_pcs a) \<Longrightarrow> sp_pcs a ! i = SIntern v \<Longrightarrow> abs_get D (sp_strings a) v = None \<Longrightarrow>
     sid = home D (length (sp_strings a)) v \<Longrightarrow> \<not> room R a sid v \<Longrightarrow>
     spec_step D R a (a\<lparr>sp_closed := insert sid (sp_closed a), sp_pcs := (sp_pcs a)[i := SIdle],
       sp_trace := sp_trace a @ [Replied i (RPanic (PoolExhausted sid))]\<rparr>)"
| spec_interned: "i < length (sp_pcs a) \<Longrightarrow> sp_pcs a ! i = SInterned v y \<Longrightarrow>
     spec_step D R a (a\<lparr>sp_pcs := (sp_pcs a)[i := SIdle], sp_trace := sp_trace a @ [Replied i (RIntern v y)]\<rparr>)"
| spec_get: "i < length (sp_pcs a) \<Longrightarrow> sp_pcs a ! i = SGet v \<Longrightarrow>
     spec_step D R a (a\<lparr>sp_pcs := (sp_pcs a)[i := SGot v (abs_get D (sp_strings a) v)]\<rparr>)"
| spec_got: "i < length (sp_pcs a) \<Longrightarrow> sp_pcs a ! i = SGot v r \<Longrightarrow>
     spec_step D R a (a\<lparr>sp_pcs := (sp_pcs a)[i := SIdle], sp_trace := sp_trace a @ [Replied i (RGet v r)]\<rparr>)"
| spec_resolve: "i < length (sp_pcs a) \<Longrightarrow> sp_pcs a ! i = SResolve y \<Longrightarrow>
     spec_step D R a (a\<lparr>sp_pcs := (sp_pcs a)[i := SResolved y (abs_resolve (sp_strings a) y)]\<rparr>)"
| spec_resolved: "i < length (sp_pcs a) \<Longrightarrow> sp_pcs a ! i = SResolved y r \<Longrightarrow>
     spec_step D R a (a\<lparr>sp_pcs := (sp_pcs a)[i := SIdle], sp_trace := sp_trace a @ [Replied i (RResolve y r)]\<rparr>)"

definition spec_new :: "nat \<Rightarrow> nat \<Rightarrow> spec" where
  "spec_new k n = \<lparr>sp_strings = replicate k [], sp_closed = {}, sp_pcs = replicate n SIdle, sp_trace = []\<rparr>"

section \<open>Simulation\<close>

text \<open>
  Every step of the concrete system is answered by any number of steps of the abstract one that
  lead to a related state.
\<close>

locale simulation =
  fixes conc :: "'c \<Rightarrow> 'c \<Rightarrow> bool" and spec :: "'a \<Rightarrow> 'a \<Rightarrow> bool" and rel :: "'c \<Rightarrow> 'a \<Rightarrow> bool"
  assumes simulate: "rel s a \<Longrightarrow> conc s s' \<Longrightarrow> \<exists>a'. spec\<^sup>*\<^sup>* a a' \<and> rel s' a'"
begin

lemma run: "conc\<^sup>*\<^sup>* s s' \<Longrightarrow> rel s a \<Longrightarrow> \<exists>a'. spec\<^sup>*\<^sup>* a a' \<and> rel s' a'"
proof (induction rule: rtranclp_induct)
  case (step s1 s2)
  then obtain a1 where "spec\<^sup>*\<^sup>* a a1" "rel s1 a1" by blast
  moreover from this(2) step.hyps(2) obtain a2 where "spec\<^sup>*\<^sup>* a1 a2" "rel s2 a2" using simulate by blast
  ultimately show ?case by (meson rtranclp_trans)
qed blast

end

section \<open>What the atomic interner guarantees\<close>

text \<open>
  The answers that are fixed: a returned symbol is the symbol of its string, a resolved string is
  the symbol's.
\<close>

definition answer_ok :: "'t deps \<Rightarrow> str list list \<Rightarrow> event \<Rightarrow> bool" where
  "answer_ok D sss e = (case e of
       Replied i (RIntern v y) \<Rightarrow> abs_get D sss v = Some y
     | Replied i (RGet v (Some y)) \<Rightarrow> abs_get D sss v = Some y
     | Replied i (RResolve y (Some v)) \<Rightarrow> abs_resolve sss y = Some v
     | Replied i (RPanic p) \<Rightarrow> \<exists>sid. p = PoolExhausted sid
     | _ \<Rightarrow> True)"

definition place_ok :: "'t deps \<Rightarrow> str list list \<Rightarrow> spec_pc \<Rightarrow> bool" where
  "place_ok D sss p = (case p of
       SInterned v y \<Rightarrow> abs_get D sss v = Some y
     | SGot v (Some y) \<Rightarrow> abs_get D sss v = Some y
     | SResolved y (Some v) \<Rightarrow> abs_resolve sss y = Some v
     | _ \<Rightarrow> True)"

definition spec_ok :: "'t deps \<Rightarrow> spec \<Rightarrow> bool" where
  "spec_ok D a \<longleftrightarrow> (\<exists>k \<le> 7. length (sp_strings a) = 2 ^ k) \<and>
     (\<forall>e \<in> set (sp_trace a). answer_ok D (sp_strings a) e) \<and> (\<forall>p \<in> set (sp_pcs a). place_ok D (sp_strings a) p)"

lemma find_index_append:
  "find_index p (xs @ ys) = (case find_index p xs of Some i \<Rightarrow> Some i
     | None \<Rightarrow> map_option (\<lambda>i. length xs + i) (find_index p ys))"
proof (induction xs)
  case Nil
  then show ?case by (cases "find_index p ys") simp_all
qed (auto simp: option.map_comp comp_def split: option.splits intro!: option.map_cong)

lemma abs_find_grow:
  "abs_find sss sid v = Some y \<Longrightarrow> sid < length sss \<Longrightarrow> abs_find (add_string sss t w) sid v = Some y"
  by (cases "t = sid") (auto simp: abs_find_def add_string_def find_index_append)

lemma abs_get_grow:
  assumes "length sss = 2 ^ k" "k \<le> 7" "abs_get D sss v = Some y"
  shows "abs_get D (add_string sss t w) v = Some y"
  using assms(3) abs_find_grow [OF _ home_less [OF assms(1,2), of D v]] by (auto simp: abs_get_def split: if_splits)

lemma abs_get_new:
  assumes "length sss = 2 ^ k" "k \<le> 7" "abs_get D sss v = None" "sid = home D (length sss) v"
  shows "abs_get D (add_string sss sid v) v = Some (mk_sym sid (length (sss ! sid)))"
proof -
  have "sid < length sss" using home_less [OF assms(1,2)] assms(4) by simp
  moreover have "abs_find sss sid v = None" "\<not> v = []" "\<not> (length v = 1 \<and> unat (v ! 0) < 128)"
    using assms(3,4) by (auto simp: abs_get_def split: if_splits)
  ultimately show ?thesis
    using assms(4) by (auto simp: abs_get_def abs_find_def add_string_def find_index_append)
qed

lemma answer_ok_grow:
  "length sss = 2 ^ k \<Longrightarrow> k \<le> 7 \<Longrightarrow> answer_ok D sss e \<Longrightarrow> answer_ok D (add_string sss t w) e"
  by (auto simp: answer_ok_def abs_get_grow abs_resolve_grow split: event.splits reply.splits option.splits)

lemma place_ok_grow:
  "length sss = 2 ^ k \<Longrightarrow> k \<le> 7 \<Longrightarrow> place_ok D sss p \<Longrightarrow> place_ok D (add_string sss t w) p"
  by (auto simp: place_ok_def abs_get_grow abs_resolve_grow split: spec_pc.splits option.splits)

lemma spec_ok_new: "k \<le> 7 \<Longrightarrow> spec_ok D (spec_new (2 ^ k) n)"
  by (auto simp: spec_ok_def spec_new_def place_ok_def)

lemma spec_step_ok:
  assumes "spec_step D R a a'" "spec_ok D a"
  shows "spec_ok D a'"
proof -
  obtain k where k: "length (sp_strings a) = 2 ^ k" "k \<le> 7" using assms(2) by (auto simp: spec_ok_def)
  have pcs: "place_ok D (sp_strings a) p" if "p \<in> set (sp_pcs a)" for p using assms(2) that by (simp add: spec_ok_def)
  have upd: "\<forall>p \<in> set ((sp_pcs a)[i := q]). place_ok D (sp_strings a) p" if "place_ok D (sp_strings a) q" for i q
    using that pcs set_update_subset_insert [of "sp_pcs a" i q] by auto
  from assms(1) show ?thesis
  proof cases
    case (spec_call i x)
    have "place_ok D (sp_strings a) (called x)" by (cases x) (simp_all add: place_ok_def)
    then show ?thesis using assms(2) upd spec_call by (auto simp: spec_ok_def answer_ok_def)
  next
    case (spec_find i v y)
    then show ?thesis using assms(2) upd [of "SInterned v y" i] by (simp add: spec_ok_def place_ok_def)
  next
    case (spec_add i v sid)
    let ?q = "SInterned v (mk_sym sid (length (sp_strings a ! sid)))" and ?sss = "add_string (sp_strings a) sid v"
    have "place_ok D ?sss ?q" using abs_get_new [OF k spec_add(4,5)] by (simp add: place_ok_def)
    moreover have "\<forall>p \<in> set (sp_pcs a). place_ok D ?sss p" using pcs place_ok_grow [OF k] by blast
    ultimately have "\<forall>p \<in> set ((sp_pcs a)[i := ?q]). place_ok D ?sss p"
      using set_update_subset_insert [of "sp_pcs a" i ?q] by blast
    moreover have "\<forall>e \<in> set (sp_trace a). answer_ok D ?sss e"
      using assms(2) answer_ok_grow [OF k] by (fastforce simp: spec_ok_def)
    ultimately show ?thesis using k spec_add(1) by (auto simp: spec_ok_def)
  next
    case (spec_full i v sid)
    then show ?thesis using assms(2) upd [of SIdle i] by (auto simp: spec_ok_def place_ok_def answer_ok_def)
  next
    case (spec_interned i v y)
    then have "place_ok D (sp_strings a) (SInterned v y)" using pcs nth_mem by metis
    then show ?thesis using assms(2) upd [of SIdle i] spec_interned by (auto simp: spec_ok_def place_ok_def answer_ok_def)
  next
    case (spec_get i v)
    let ?q = "SGot v (abs_get D (sp_strings a) v)"
    have "place_ok D (sp_strings a) ?q" by (auto simp: place_ok_def split: option.splits)
    then show ?thesis using assms(2) upd spec_get by (simp add: spec_ok_def)
  next
    case (spec_got i v r)
    then have "place_ok D (sp_strings a) (SGot v r)" using pcs nth_mem by metis
    then show ?thesis using assms(2) upd [of SIdle i] spec_got
      by (auto simp: spec_ok_def place_ok_def answer_ok_def split: option.splits)
  next
    case (spec_resolve i y)
    let ?q = "SResolved y (abs_resolve (sp_strings a) y)"
    have "place_ok D (sp_strings a) ?q" by (auto simp: place_ok_def split: option.splits)
    then show ?thesis using assms(2) upd spec_resolve by (simp add: spec_ok_def)
  next
    case (spec_resolved i y r)
    then have "place_ok D (sp_strings a) (SResolved y r)" using pcs nth_mem by metis
    then show ?thesis using assms(2) upd [of SIdle i] spec_resolved
      by (auto simp: spec_ok_def place_ok_def answer_ok_def split: option.splits)
  qed
qed

text \<open>Once a string is in, every later answer about its symbol is the string, and about the string its symbol.\<close>

definition settled :: "'t deps \<Rightarrow> symbol \<Rightarrow> str \<Rightarrow> spec \<Rightarrow> bool" where
  "settled D y v a \<longleftrightarrow> (\<exists>k \<le> 7. length (sp_strings a) = 2 ^ k) \<and>
     abs_get D (sp_strings a) v = Some y \<and> abs_resolve (sp_strings a) y = Some v \<and>
     (\<forall>r. SResolved y r \<in> set (sp_pcs a) \<longrightarrow> r = Some v) \<and> (\<forall>r. SGot v r \<in> set (sp_pcs a) \<longrightarrow> r = Some y)"

definition settled_events :: "symbol \<Rightarrow> str \<Rightarrow> event list \<Rightarrow> bool" where
  "settled_events y v es \<longleftrightarrow> (\<forall>i r. Replied i (RResolve y r) \<in> set es \<longrightarrow> r = Some v) \<and>
     (\<forall>i r. Replied i (RGet v r) \<in> set es \<longrightarrow> r = Some y)"

lemma spec_step_settled:
  assumes "spec_step D R a a'" "settled D y v a"
  shows "settled D y v a' \<and> (\<exists>new. sp_trace a' = sp_trace a @ new \<and> settled_events y v new)"
proof -
  obtain k where k: "length (sp_strings a) = 2 ^ k" "k \<le> 7" using assms(2) by (auto simp: settled_def)
  have pcs: "SResolved y r \<in> set (sp_pcs a) \<Longrightarrow> r = Some v" "SGot v q \<in> set (sp_pcs a) \<Longrightarrow> q = Some y" for r q
    using assms(2) unfolding settled_def by blast+
  have keep: "SResolved y r \<in> set ((sp_pcs a)[i := p]) \<Longrightarrow> p = SResolved y r \<or> r = Some v"
      "SGot v q \<in> set ((sp_pcs a)[i := p]) \<Longrightarrow> p = SGot v q \<or> q = Some y" for i r q p
    using pcs set_update_subset_insert [of "sp_pcs a" i p] by blast+
  have strings: "abs_get D (sp_strings a) v = Some y" "abs_resolve (sp_strings a) y = Some v"
    using assms(2) by (simp_all add: settled_def)
  from assms(1) show ?thesis
  proof cases
    case (spec_call i x)
    then show ?thesis using assms(2) keep [of _ i "called x"] by (cases x) (auto simp: settled_def settled_events_def)
  next
    case (spec_add i w sid)
    then show ?thesis
      using k strings keep [of _ i "SInterned w (mk_sym sid (length (sp_strings a ! sid)))"] abs_resolve_grow abs_get_grow [OF k]
      by (auto simp: settled_def settled_events_def)
  next
    case (spec_got i w r)
    then have "SGot w r \<in> set (sp_pcs a)" by (metis nth_mem)
    then show ?thesis using assms(2) pcs keep [of _ i SIdle] spec_got by (auto simp: settled_def settled_events_def)
  next
    case (spec_resolved i z r)
    then have "SResolved z r \<in> set (sp_pcs a)" by (metis nth_mem)
    then show ?thesis using assms(2) pcs keep [of _ i SIdle] spec_resolved by (auto simp: settled_def settled_events_def)
  next
    case (spec_find i w z)
    then show ?thesis using assms(2) keep [of _ i "SInterned w z"] by (auto simp: settled_def settled_events_def)
  next
    case (spec_full i w sid)
    then show ?thesis using assms(2) keep [of _ i SIdle] by (auto simp: settled_def settled_events_def)
  next
    case (spec_interned i w z)
    then show ?thesis using assms(2) keep [of _ i SIdle] by (auto simp: settled_def settled_events_def)
  next
    case (spec_get i w)
    then show ?thesis using assms(2) strings keep [of _ i "SGot w (abs_get D (sp_strings a) w)"] by (auto simp: settled_def settled_events_def)
  next
    case (spec_resolve i z)
    then show ?thesis using assms(2) strings keep [of _ i "SResolved z (abs_resolve (sp_strings a) z)"] by (auto simp: settled_def settled_events_def)
  qed
qed

lemma spec_run_settled:
  assumes "(spec_step D R)\<^sup>*\<^sup>* a a'" "settled D y v a"
  shows "settled D y v a' \<and> (\<exists>new. sp_trace a' = sp_trace a @ new \<and> settled_events y v new)"
  using assms(1)
proof (induction rule: rtranclp_induct)
  case base
  show ?case using assms(2) by (simp add: settled_events_def)
next
  case (step b c)
  then obtain n1 where n1: "settled D y v b" "sp_trace b = sp_trace a @ n1" "settled_events y v n1" by blast
  from spec_step_settled [OF step.hyps(2) this(1)] obtain n2 where
      "settled D y v c" "sp_trace c = sp_trace b @ n2" "settled_events y v n2"
    by blast
  then show ?case using n1 by (intro conjI exI [of _ "n1 @ n2"]) (auto simp: settled_events_def)
qed

end
