(* ===== verification/Threads_Steps.thy ===== *)
theory Threads_Steps
  imports Interner_Atomic
begin

unbundle bit_operations_syntax

text \<open>
  What the single steps of \<open>Interner_Threads\<close> do to the parts of an interner: arrays between two
  pushes, the two halves of an allocation, and records written behind the cursor of a region.
\<close>

section \<open>Arrays that are being extended\<close>

text \<open>
  The array on the way from one push to the next: the chunk for the next slot may be there
  already, and the length may count it already.
\<close>

definition extending :: "string_array \<Rightarrow> string_array \<Rightarrow> bool" where
  "extending A A' \<longleftrightarrow> (\<exists>B. (B = A \<or> chunks A (arr_len A div 4096) = None \<and> B = add_chunk A (arr_len A div 4096)) \<and>
     (A' = B \<or> A' = B\<lparr>arr_len := arr_len A + 1\<rparr>))"

lemma extending_refl: "extending A A"
  by (auto simp: extending_def)

lemma extending_slots:
  assumes rep: "arr_rep A os" and ext: "extending A A'"
  shows "i < length os \<Longrightarrow> i < arr_len A' \<and> (\<exists>p. chunks A' (i div 4096) = Some p \<and> chunk_heap A' p (i mod 4096) = os ! i)"
    and "length os \<le> i \<Longrightarrow> chunks A' (i div 4096) = Some p \<Longrightarrow> chunk_heap A' p (i mod 4096) = 0"
proof -
  obtain B where B: "B = A \<or> chunks A (arr_len A div 4096) = None \<and> B = add_chunk A (arr_len A div 4096)"
      "A' = B \<or> A' = B\<lparr>arr_len := arr_len A + 1\<rparr>"
    using ext by (auto simp: extending_def)
  have "arr_rep B os" using B(1) rep arr_rep_add_chunk(1) [OF rep] by blast
  moreover have "arr_len B = length os" "arr_len A = length os" using calculation rep by (simp_all add: arr_rep_def)
  ultimately show "i < length os \<Longrightarrow> i < arr_len A' \<and> (\<exists>p. chunks A' (i div 4096) = Some p \<and> chunk_heap A' p (i mod 4096) = os ! i)"
      and "length os \<le> i \<Longrightarrow> chunks A' (i div 4096) = Some p \<Longrightarrow> chunk_heap A' p (i mod 4096) = 0"
    using B(2) by (auto simp: arr_rep_def slots_clear_def)
qed

text \<open>What a thread knows of an array stays true: lengths grow, chunk pointers stay.\<close>

definition arr_le :: "string_array \<Rightarrow> string_array \<Rightarrow> bool" where
  "arr_le A B \<longleftrightarrow> arr_len A \<le> arr_len B \<and> (\<forall>c p. chunks A c = Some p \<longrightarrow> chunks B c = Some p)"

lemma arr_le_steps:
  "arr_le A A" "arr_le A (A\<lparr>arr_len := arr_len A + 1\<rparr>)" "chunks A c = None \<Longrightarrow> arr_le A (add_chunk A c)"
  "arr_le A (push_store A idx p off)"
  by (auto simp: arr_le_def add_chunk_def push_store_def)

section \<open>The allocator in steps\<close>

lemma alloc_write_shape:
  "alloc_write P sid v = (Inr (off, cur), P') \<Longrightarrow> P' = P\<lparr>pmem := pmem P'\<rparr>"
  by (auto simp: alloc_write_def Let_def split: if_splits)

lemma alloc_write_ok:
  assumes "pool_inv P" "sid < length (cursors P)" "\<not> poisoned (cursors P ! sid)"
    "length v < 2 ^ 32 - 7" "fits P sid v"
  shows "\<exists>off cur. alloc_write P sid v = (Inr (off, cur), P\<lparr>pmem := pmem (stored P sid v)\<rparr>) \<and>
     unat off = region_base P sid + cursor_of P sid \<and>
     (cursors P ! sid)\<lparr>cvalue := cur\<rparr> = cursors (stored P sid v) ! sid"
proof -
  obtain off where off: "pool_alloc P sid v = (Inr off, stored P sid v)"
      "unat off = region_base P sid + cursor_of P sid"
    using pool_alloc_ok [OF assms] by blast
  obtain r P' where w: "alloc_write P sid v = (r, P')" by (cases "alloc_write P sid v")
  with off(1) obtain cur where r: "r = Inr (off, cur)" "alloc_commit P' sid cur = stored P sid v"
    by (cases r) (auto simp: pool_alloc_steps)
  have P': "P' = P\<lparr>pmem := pmem P'\<rparr>" using w r(1) by (simp add: alloc_write_shape)
  have "pmem P' = pmem (stored P sid v)" using arg_cong [OF r(2), of pmem] by (simp add: alloc_commit_def)
  moreover have "cursors P' = cursors P" by (subst P') simp
  moreover from this have "(cursors P ! sid)\<lparr>cvalue := cur\<rparr> = cursors (stored P sid v) ! sid"
    using arg_cong [OF r(2), of cursors] assms(2) by (simp add: alloc_commit_def flip: r(2))
  ultimately show ?thesis using w r P' off(2) by (intro exI [of _ off] exI [of _ cur]) simp
qed

lemma alloc_write_full:
  assumes "pool_inv P" "sid < length (cursors P)" "length v < 2 ^ 32 - 7"
    "poisoned (cursors P ! sid) \<or> \<not> fits P sid v"
  shows "alloc_write P sid v = (Inl (PoolExhausted sid), if poisoned (cursors P ! sid) then P else poison P sid)"
  using pool_alloc_full [OF assms] by (cases "alloc_write P sid v") (auto simp: pool_alloc_steps split: sum.splits)

section \<open>Records in memory\<close>

lemma regions_apart:
  fixes r :: nat
  assumes "t \<noteq> sid" "4 + t * r \<le> a" "a + n \<le> 4 + t * r + r" "b + m \<le> 4 + sid * r + r" "4 + sid * r \<le> b"
  shows "a + n \<le> b \<or> b + m \<le> a"
proof (cases "t < sid")
  case True
  then have "(t + 1) * r \<le> sid * r" by (intro mult_le_mono1) simp
  then show ?thesis using assms by simp
next
  case False
  then have "(sid + 1) * r \<le> t * r" using assms(1) by (intro mult_le_mono1) simp
  then show ?thesis using assms by simp
qed

lemma record_other_region:
  assumes "t \<noteq> sid" "region_base P t \<le> off" "off + rec_size (length w) \<le> region_base P t + unat (region_size P)"
    "fits P sid v" "record_at (pmem P) off w"
  shows "record_at (pmem (stored P sid v)) off w"
  using assms regions_apart [of t sid "unat (region_size P)" off "rec_size (length w)"
      "region_base P sid + cursor_of P sid" "rec_size (length v)"]
  by (intro record_at_stored) (auto simp: region_base_def fits_def)

text \<open>Writing a record behind the cursor changes nothing that is represented.\<close>

abbreviation written :: "memory_pool \<Rightarrow> nat \<Rightarrow> str \<Rightarrow> memory_pool" where
  "written P sid v \<equiv> P\<lparr>pmem := pmem (stored P sid v)\<rparr>"

lemma written_simps [simp]:
  "region_base (written P sid v) = region_base P" "cursor_of (written P sid v) = cursor_of P"
  "fits (written P sid v) = fits P"
  by (auto simp: region_base_def cursor_of_def fits_def fun_eq_iff)

lemma shard_rep_written:
  assumes "pool_inv P" "t < length (cursors P)" "shard_rep D n P t sh ss" "fits P sid v"
  shows "shard_rep D n (written P sid v) t sh ss"
proof -
  have cur: "cursor_of P t = total_size ss" using assms(3) by (simp add: shard_rep_def)
  then have le: "total_size ss \<le> unat (region_size P)" using pool_inv_cursor [OF assms(1,2)] by simp
  have "record_at (pmem (stored P sid v)) (layout (region_base P t) ss ! i) (ss ! i)" if i: "i < length ss" for i
  proof -
    note b = layout_bounds [OF i, of "region_base P t"]
    have rec: "record_at (pmem P) (layout (region_base P t) ss ! i) (ss ! i)" using assms(3) i by (simp add: shard_rep_def)
    show ?thesis
    proof (cases "t = sid")
      case True
      then show ?thesis using rec b cur by (intro record_at_stored) auto
    next
      case False
      then show ?thesis using rec b le assms(4) by (intro record_other_region [of t]) auto
    qed
  qed
  then show ?thesis using assms(3) by (simp add: shard_rep_def)
qed

lemma pool_inv_written: "pool_inv P \<Longrightarrow> pool_inv (written P sid v)"
  by (simp add: pool_inv_def)

lemma interner_rep_written:
  assumes rep: "interner_rep D J sss" and f: "fits (ipool J) sid v"
  shows "interner_rep D (J\<lparr>ipool := written (ipool J) sid v\<rparr>) sss"
proof -
  let ?P = "ipool J"
  have inv: "pool_inv ?P" using rep by (simp add: interner_rep_def)
  have "mem_read (pmem (stored ?P sid v)) 0 4 = mem_read (pmem ?P) 0 4"
    by (rule stored_frame) (simp add: region_base_def)
  moreover have "shard_rep D (length sss) (written ?P sid v) t (shards J ! t) (sss ! t)" if "t < length sss" for t
    using shard_rep_written [OF inv shard_repD(2,1) [OF rep that] f] .
  ultimately show ?thesis using rep pool_inv_written [OF inv] by (simp add: interner_rep_def)
qed

text \<open>A record that is there already is not changed by writing it.\<close>

lemma mem_write_same:
  assumes "mem_read m a (length bs) = bs"
  shows "mem_write m a bs = m"
proof (rule ext)
  fix x
  have "bs ! (x - a) = m x" if "a \<le> x" "x < a + length bs"
  proof -
    have "mem_read m a (length bs) ! (x - a) = m x" using that by (subst nth_mem_read) auto
    then show ?thesis by (simp only: assms)
  qed
  then show "mem_write m a bs x = m x" by (simp add: mem_write_def)
qed

lemma stored_again:
  assumes "record_at (pmem P) (region_base P sid + cursor_of P sid) v" "length v < 2 ^ 32 - 7"
  shows "pmem (stored P sid v) = pmem P"
  using assms mem_write_same by (simp add: stored_def arena.put_record_def record_at_def)

end
