(* ===== verification/Threads_Locks.thy ===== *)
theory Threads_Locks
  imports Threads_Steps
begin

unbundle bit_operations_syntax

text \<open>
  The locks of the machine of \<open>Interner_Threads\<close>: a guard is held exactly by the threads whose
  place says so, and every step keeps it that way.
\<close>

section \<open>Locks\<close>

text \<open>The shards whose guards a thread holds at its place; \<open>n\<close> is the number of shards.\<close>

definition holds_read :: "'t deps \<Rightarrow> nat \<Rightarrow> nat \<Rightarrow> pc \<Rightarrow> bool" where
  "holds_read D n sid p = (case p of
       Lookup v \<Rightarrow> home D n v = sid | GetLookup v \<Rightarrow> home D n v = sid | GetStore v _ _ \<Rightarrow> home D n v = sid | _ \<Rightarrow> False)"

definition holds_write :: "'t deps \<Rightarrow> nat \<Rightarrow> nat \<Rightarrow> pc \<Rightarrow> bool" where
  "holds_write D n sid p = (case p of
       Check v \<Rightarrow> home D n v = sid | Alloc v \<Rightarrow> home D n v = sid | Commit v _ _ \<Rightarrow> home D n v = sid
     | PushLen v _ \<Rightarrow> home D n v = sid | PushLoad v _ _ \<Rightarrow> home D n v = sid | PushExchange v _ _ \<Rightarrow> home D n v = sid
     | PushStore v _ _ _ \<Rightarrow> home D n v = sid | Publish v _ _ \<Rightarrow> home D n v = sid | _ \<Rightarrow> False)"

definition locks_ok :: "'t deps \<Rightarrow> nat \<Rightarrow> (nat \<Rightarrow> lock) \<Rightarrow> thread list \<Rightarrow> bool" where
  "locks_ok D n L ts \<longleftrightarrow> (\<forall>sid i.
     (lk_writer (L sid) = Some i \<longleftrightarrow> i < length ts \<and> holds_write D n sid (th_pc (ts ! i))) \<and>
     (i \<in> lk_readers (L sid) \<longleftrightarrow> i < length ts \<and> holds_read D n sid (th_pc (ts ! i))) \<and>
     (lk_writer (L sid) \<noteq> None \<longrightarrow> lk_readers (L sid) = {}))"

text \<open>Where the writer of a shard is.\<close>

definition stage :: "(nat \<Rightarrow> lock) \<Rightarrow> thread list \<Rightarrow> nat \<Rightarrow> pc" where
  "stage L ts sid = (case lk_writer (L sid) of None \<Rightarrow> Idle | Some i \<Rightarrow> th_pc (ts ! i))"

lemma holds_simps [simp]:
  "\<not> holds_read D n sid Idle" "\<not> holds_write D n sid Idle"
  "\<not> holds_read D n sid (ReadLock v)" "\<not> holds_write D n sid (ReadLock v)"
  "holds_read D n sid (Lookup v) \<longleftrightarrow> home D n v = sid" "\<not> holds_write D n sid (Lookup v)"
  "\<not> holds_read D n sid (WriteLock v)" "\<not> holds_write D n sid (WriteLock v)"
  "\<not> holds_read D n sid (Check v)" "holds_write D n sid (Check v) \<longleftrightarrow> home D n v = sid"
  "\<not> holds_read D n sid (Alloc v)" "holds_write D n sid (Alloc v) \<longleftrightarrow> home D n v = sid"
  "\<not> holds_read D n sid (Commit v off cur)" "holds_write D n sid (Commit v off cur) \<longleftrightarrow> home D n v = sid"
  "\<not> holds_read D n sid (PushLen v off)" "holds_write D n sid (PushLen v off) \<longleftrightarrow> home D n v = sid"
  "\<not> holds_read D n sid (PushLoad v off idx)" "holds_write D n sid (PushLoad v off idx) \<longleftrightarrow> home D n v = sid"
  "\<not> holds_read D n sid (PushExchange v off idx)" "holds_write D n sid (PushExchange v off idx) \<longleftrightarrow> home D n v = sid"
  "\<not> holds_read D n sid (PushStore v off idx q)" "holds_write D n sid (PushStore v off idx q) \<longleftrightarrow> home D n v = sid"
  "\<not> holds_read D n sid (Publish v off idx)" "holds_write D n sid (Publish v off idx) \<longleftrightarrow> home D n v = sid"
  "\<not> holds_read D n sid (CacheStore v t y)" "\<not> holds_write D n sid (CacheStore v t y)"
  "\<not> holds_read D n sid (ReadLen y)" "\<not> holds_write D n sid (ReadLen y)"
  "\<not> holds_read D n sid (ReadChunk y)" "\<not> holds_write D n sid (ReadChunk y)"
  "\<not> holds_read D n sid (ReadSlot y q)" "\<not> holds_write D n sid (ReadSlot y q)"
  "\<not> holds_read D n sid (GetLock v)" "\<not> holds_write D n sid (GetLock v)"
  "holds_read D n sid (GetLookup v) \<longleftrightarrow> home D n v = sid" "\<not> holds_write D n sid (GetLookup v)"
  "holds_read D n sid (GetStore v t y) \<longleftrightarrow> home D n v = sid" "\<not> holds_write D n sid (GetStore v t y)"
  by (simp_all add: holds_read_def holds_write_def)

lemma locks_okD:
  assumes "locks_ok D n L ts"
  shows "lk_writer (L sid) = Some i \<longleftrightarrow> i < length ts \<and> holds_write D n sid (th_pc (ts ! i))"
    "i \<in> lk_readers (L sid) \<longleftrightarrow> i < length ts \<and> holds_read D n sid (th_pc (ts ! i))"
    "lk_writer (L sid) \<noteq> None \<Longrightarrow> lk_readers (L sid) = {}"
  using assms unfolding locks_ok_def by blast+

lemma stage_step:
  assumes ok: "locks_ok D n L ts" "locks_ok D n L' (ts[i := \<lparr>th_pc = p', th_cache = c'\<rparr>])"
    and i: "i < length ts" "th_pc (ts ! i) = p"
  shows "stage L' (ts[i := \<lparr>th_pc = p', th_cache = c'\<rparr>]) sid =
     (if holds_write D n sid p' then p' else if holds_write D n sid p then Idle else stage L ts sid)"
proof -
  note w = locks_okD(1) [OF ok(1), of sid] and w' = locks_okD(1) [OF ok(2), of sid]
  consider "holds_write D n sid p'" | "\<not> holds_write D n sid p'" "holds_write D n sid p"
    | "\<not> holds_write D n sid p'" "\<not> holds_write D n sid p" by blast
  then show ?thesis
  proof cases
    case 1
    then have "lk_writer (L' sid) = Some i" using w' [of i] i by simp
    then show ?thesis using 1 i by (simp add: stage_def)
  next
    case 2
    then have "lk_writer (L sid) = Some i" using w [of i] i by simp
    then have "lk_writer (L' sid) \<noteq> Some j" for j using w [of j] w' [of j] 2 i by (cases "j = i") auto
    then have "lk_writer (L' sid) = None" by (cases "lk_writer (L' sid)") auto
    then show ?thesis using 2 by (simp add: stage_def)
  next
    case 3
    have "lk_writer (L' sid) = Some j \<longleftrightarrow> lk_writer (L sid) = Some j" for j
      using w [of j] w' [of j] 3 i by (cases "j = i") auto
    then have eq: "lk_writer (L' sid) = lk_writer (L sid)" by (metis option.exhaust)
    show ?thesis
    proof (cases "lk_writer (L sid)")
      case None
      then show ?thesis using 3 eq by (simp add: stage_def)
    next
      case (Some j)
      then have "j \<noteq> i" using w [of j] 3 i by auto
      then show ?thesis using 3 eq Some by (simp add: stage_def)
    qed
  qed
qed

text \<open>Every step of a thread keeps the locks in order.\<close>

lemma locks_step:
  assumes ok: "locks_ok D n L ts" and i: "i < length ts" "ts ! i = \<lparr>th_pc = p, th_cache = c\<rparr>"
    and act: "act D i I L c p = Some (I', L', c', p', r)" and sh: "\<And>v. shard_of I (hash_of D v) = home D n v"
  shows "locks_ok D n L' (ts[i := \<lparr>th_pc = p', th_cache = c'\<rparr>])"
proof -
  have pcs: "th_pc (ts[i := \<lparr>th_pc = p', th_cache = c'\<rparr>] ! j) = (if j = i then p' else th_pc (ts ! j))" for j
    using i(1) by (simp add: nth_list_update)
  have same: "locks_ok D n L (ts[i := \<lparr>th_pc = p', th_cache = c'\<rparr>])"
    if "\<And>sid. holds_write D n sid p' = holds_write D n sid p" "\<And>sid. holds_read D n sid p' = holds_read D n sid p"
    using ok i that unfolding locks_ok_def length_list_update pcs by auto
  have read_in: "locks_ok D n (read_acquire i sid L) (ts[i := \<lparr>th_pc = p', th_cache = c'\<rparr>])"
    if p: "p = ReadLock v \<and> p' = Lookup v \<or> p = GetLock v \<and> p' = GetLookup v" "home D n v = sid" "lk_writer (L sid) = None" for v sid
  proof -
    have "\<not> (j < length ts \<and> holds_write D n sid (th_pc (ts ! j)))" for j using locks_okD(1) [OF ok, of sid j] p(3) by simp
    then show ?thesis using ok i p unfolding locks_ok_def length_list_update pcs read_acquire_def by auto
  qed
  have read_out: "locks_ok D n (read_release i sid L) (ts[i := \<lparr>th_pc = p', th_cache = c'\<rparr>])"
    if "p = Lookup v \<or> p = GetLookup v \<or> p = GetStore v t y" "home D n v = sid" "\<And>sid. \<not> holds_write D n sid p'" "\<And>sid. \<not> holds_read D n sid p'" for v sid t y
    using ok i that unfolding locks_ok_def length_list_update pcs read_release_def by auto
  have write_in: "locks_ok D n (write_acquire i sid L) (ts[i := \<lparr>th_pc = p', th_cache = c'\<rparr>])"
    if p: "p = WriteLock v" "p' = Check v" "home D n v = sid" "lk_writer (L sid) = None" "lk_readers (L sid) = {}" for v sid
  proof -
    have "\<not> (j < length ts \<and> holds_write D n sid (th_pc (ts ! j)))" for j using locks_okD(1) [OF ok, of sid j] p(4) by simp
    then show ?thesis using ok i p unfolding locks_ok_def length_list_update pcs write_acquire_def by auto
  qed
  have write_out: "locks_ok D n (write_release sid L) (ts[i := \<lparr>th_pc = p', th_cache = c'\<rparr>])"
    if p: "\<And>t. holds_write D n t p \<longleftrightarrow> sid = t" "\<And>t. \<not> holds_read D n t p"
      "\<And>t. \<not> holds_write D n t p'" "\<And>t. \<not> holds_read D n t p'" for sid
  proof -
    have w: "lk_writer (L sid) = Some i" using locks_okD(1) [OF ok, of sid i] i p(1) by simp
    then have "j < length ts \<and> holds_write D n sid (th_pc (ts ! j)) \<Longrightarrow> j = i" for j
      using locks_okD(1) [OF ok, of sid j] by simp
    then show ?thesis
      using ok i p unfolding locks_ok_def length_list_update pcs write_release_def by auto
  qed
  show ?thesis
  proof (cases p)
    case Idle
    then show ?thesis using act by simp
  next
    case (ReadLock v)
    then show ?thesis using act read_in [of v] by (auto simp: Let_def sh split: if_splits)
  next
    case (Lookup v)
    then show ?thesis using act read_out [of v] by (auto simp: Let_def sh split: sum.splits option.splits)
  next
    case (GetLock v)
    then show ?thesis using act read_in [of v] by (auto simp: Let_def sh split: if_splits)
  next
    case (GetLookup v)
    then show ?thesis using act read_out [of v] same by (auto simp: Let_def sh split: sum.splits option.splits)
  next
    case (GetStore v t y)
    then show ?thesis using act read_out [of v t y] by (auto simp: Let_def sh)
  next
    case (WriteLock v)
    then show ?thesis using act write_in [of v] by (auto simp: Let_def sh split: if_splits)
  next
    case (Check v)
    then show ?thesis using act write_out [of "home D n v"] same
      by (auto simp: Let_def sh split: sum.splits option.splits)
  next
    case (Alloc v)
    then show ?thesis using act write_out [of "home D n v"] same by (auto simp: Let_def sh split: sum.splits prod.splits)
  next
    case (PushLoad v off idx)
    then show ?thesis using act write_out [of "home D n v"] same by (auto simp: Let_def sh split: sum.splits option.splits)
  next
    case (Publish v off idx)
    then show ?thesis using act write_out [of "home D n v"] by (auto simp: Let_def sh split: sum.splits)
  qed (use act same in \<open>auto simp: Let_def sh split: sum.splits option.splits prod.splits if_splits\<close>)
qed

lemma locks_start:
  assumes ok: "locks_ok D n L ts" and i: "i < length ts" "th_pc (ts ! i) = Idle"
    and start: "start D I c x = (p, r)"
  shows "locks_ok D n L (ts[i := \<lparr>th_pc = p, th_cache = c'\<rparr>])"
proof -
  have "p = Idle \<or> (\<exists>v. p = ReadLock v) \<or> (\<exists>v. p = GetLock v) \<or> (\<exists>y. p = ReadLen y)"
    using start by (cases x) (auto split: option.splits sum.splits if_splits)
  then show ?thesis using ok i unfolding locks_ok_def length_list_update
    by (auto simp: nth_list_update)
qed

end
