(* ===== verification/Threads_Inv.thy ===== *)
theory Threads_Inv
  imports Threads_Locks
begin

unbundle bit_operations_syntax

text \<open>
  The invariant of the machine of \<open>Interner_Threads\<close>.  Beside the interner \<open>I\<close> that the threads
  share stands the interner \<open>J\<close> in which every insertion has happened as a whole, at the moment
  its offset is stored into the shard's array.  \<open>I\<close> is \<open>J\<close> but for the shards whose write lock is
  held, and there the place of the holder says how far it has come.
\<close>

section \<open>Shards on the way\<close>

definition next_cursor :: "shard_cursor \<Rightarrow> str \<Rightarrow> shard_cursor" where
  "next_cursor cur v = cur\<lparr>cvalue := cvalue cur + padded_record_size (word_of_nat (length v))\<rparr>"

lemma cursors_stored:
  "sid < length (cursors P) \<Longrightarrow> cursors (stored P sid v) ! t = (if t = sid then next_cursor (cursors P ! sid) v else cursors P ! t)"
  by (simp add: stored_def next_cursor_def nth_list_update)

text \<open>A string that is about to be added to a shard; its record is written.\<close>

definition pending :: "'t deps \<Rightarrow> nat \<Rightarrow> memory_pool \<Rightarrow> str list \<Rightarrow> nat \<Rightarrow> str \<Rightarrow> u32 \<Rightarrow> bool" where
  "pending D n P ss sid v off \<longleftrightarrow> v \<notin> set ss \<and> value_ok v \<and> static_symbol v = None \<and> home D n v = sid \<and>
     \<not> poisoned (cursors P ! sid) \<and> fits P sid v \<and> unat off = region_base P sid + cursor_of P sid \<and>
     record_at (pmem P) (unat off) v"

text \<open>
  How the shared shard \<open>is\<close> and cursor \<open>ic\<close> differ from those of \<open>J\<close> while the writer is at
  place \<open>p\<close>; \<open>ss\<close> are the strings of the shard in \<open>J\<close>.
\<close>

definition shard_stage ::
  "'t deps \<Rightarrow> nat \<Rightarrow> 't interner \<Rightarrow> 't interner \<Rightarrow> str list \<Rightarrow> nat \<Rightarrow> pc \<Rightarrow> bool" where
  "shard_stage D n J I ss sid p =
     (let js = shards J ! sid; sh = shards I ! sid; jc = cursors (ipool J) ! sid; ic = cursors (ipool I) ! sid;
          A = strings js
      in case p of
        Alloc v \<Rightarrow> sh = js \<and> ic = jc \<and> v \<notin> set ss
      | Commit v off cur \<Rightarrow> sh = js \<and> ic = jc \<and> pending D n (ipool J) ss sid v off \<and> jc\<lparr>cvalue := cur\<rparr> = next_cursor jc v
      | PushLen v off \<Rightarrow> sh = js \<and> ic = next_cursor jc v \<and> pending D n (ipool J) ss sid v off
      | PushLoad v off idx \<Rightarrow> sh = js\<lparr>strings := A\<lparr>arr_len := arr_len A + 1\<rparr>\<rparr> \<and> idx = arr_len A \<and>
          ic = next_cursor jc v \<and> pending D n (ipool J) ss sid v off
      | PushExchange v off idx \<Rightarrow> sh = js\<lparr>strings := A\<lparr>arr_len := arr_len A + 1\<rparr>\<rparr> \<and> idx = arr_len A \<and>
          chunks A (idx div 4096) = None \<and> ic = next_cursor jc v \<and> pending D n (ipool J) ss sid v off
      | PushStore v off idx q \<Rightarrow>
          (\<exists>B. (B = A \<and> chunks A (idx div 4096) = Some q \<or>
                chunks A (idx div 4096) = None \<and> B = add_chunk A (idx div 4096) \<and> q = next_chunk A) \<and>
             sh = js\<lparr>strings := B\<lparr>arr_len := arr_len A + 1\<rparr>\<rparr>) \<and> idx = arr_len A \<and>
          ic = next_cursor jc v \<and> pending D n (ipool J) ss sid v off
      | Publish v off idx \<Rightarrow> js = sh\<lparr>entries := ht_insert_unique D (entries sh) (hash_of D v)
            (hash_of D v, prefix8 v, mk_sym sid idx)\<rparr> \<and> ic = jc \<and> idx < length ss \<and> ss ! idx = v \<and>
          unat off = layout (region_base (ipool J) sid) ss ! idx
      | _ \<Rightarrow> sh = js \<and> ic = jc)"

lemma shard_stage_idle: "shard_stage D n J I ss sid Idle \<longleftrightarrow> shards I ! sid = shards J ! sid \<and> cursors (ipool I) ! sid = cursors (ipool J) ! sid"
  by (simp add: shard_stage_def Let_def)

lemma shard_stage_frame:
  assumes "shard_stage D n J I ss sid p" "shards J' ! sid = shards J ! sid" "shards I' ! sid = shards I ! sid"
    "cursors (ipool J') ! sid = cursors (ipool J) ! sid" "cursors (ipool I') ! sid = cursors (ipool I) ! sid"
    "region_size (ipool J') = region_size (ipool J)"
    "\<And>v off. pending D n (ipool J) ss sid v off \<Longrightarrow> record_at (pmem (ipool J')) (unat off) v"
  shows "shard_stage D n J' I' ss sid p"
proof -
  have base: "region_base (ipool J') = region_base (ipool J)" using assms(6) by (simp add: region_base_def fun_eq_iff)
  have "pending D n (ipool J') ss sid v off" if "pending D n (ipool J) ss sid v off" for v off
    using assms(7) [OF that] that assms(4,6) base by (auto simp: pending_def fits_def cursor_of_def)
  then show ?thesis using assms(1-5) base by (simp add: shard_stage_def Let_def split: pc.splits)
qed

text \<open>Lock-free readers see an array of \<open>J\<close> that is being extended; the poison marks agree.\<close>

lemma shard_stage_reads:
  assumes "shard_stage D n J I ss sid p"
  shows "extending (strings (shards J ! sid)) (strings (shards I ! sid))"
    "poisoned (cursors (ipool I) ! sid) = poisoned (cursors (ipool J) ! sid)"
  using assms by (auto simp: shard_stage_def Let_def extending_def next_cursor_def split: pc.splits)

section \<open>Threads\<close>

definition wok :: "str set \<Rightarrow> str \<Rightarrow> bool" where
  "wok W v \<longleftrightarrow> v \<in> W \<and> value_ok v \<and> static_symbol v = None"

text \<open>The text and the symbol that a lookup has found.\<close>

definition found_text :: "'t deps \<Rightarrow> 't interner \<Rightarrow> str list list \<Rightarrow> str \<Rightarrow> str_ref \<Rightarrow> symbol \<Rightarrow> bool" where
  "found_text D J sss v t y \<longleftrightarrow> (let sid = home D (length sss) v in
     \<exists>k < length (sss ! sid). sss ! sid ! k = v \<and> y = mk_sym sid k \<and> t = (text_addr J sss sid k, v))"

definition place_of :: "'t deps \<Rightarrow> str set \<Rightarrow> 't interner \<Rightarrow> str list list \<Rightarrow> 't interner \<Rightarrow> pc \<Rightarrow> bool" where
  "place_of D W J sss I p = (let n = length sss in case p of
       Idle \<Rightarrow> True
     | ReadLock v \<Rightarrow> wok W v | Lookup v \<Rightarrow> wok W v | WriteLock v \<Rightarrow> wok W v | Check v \<Rightarrow> wok W v | Alloc v \<Rightarrow> wok W v
     | Commit v _ _ \<Rightarrow> wok W v | PushLen v _ \<Rightarrow> wok W v | PushLoad v _ _ \<Rightarrow> wok W v | PushExchange v _ _ \<Rightarrow> wok W v
     | PushStore v _ _ _ \<Rightarrow> wok W v | Publish v _ _ \<Rightarrow> wok W v
     | CacheStore v t y \<Rightarrow> wok W v \<and> found_text D J sss v t y
     | GetLock v \<Rightarrow> wok W v | GetLookup v \<Rightarrow> wok W v | GetStore v t y \<Rightarrow> wok W v \<and> found_text D J sss v t y
     | ReadLen y \<Rightarrow> shard_id y \<noteq> 255 \<and> shard_id y < n
     | ReadChunk y \<Rightarrow> shard_id y \<noteq> 255 \<and> shard_id y < n \<and> index y < arr_len (strings (shards I ! shard_id y))
     | ReadSlot y q \<Rightarrow> shard_id y \<noteq> 255 \<and> shard_id y < n \<and>
         chunks (strings (shards I ! shard_id y)) (index y div 4096) = Some q)"

definition thread_ok :: "'t deps \<Rightarrow> str set \<Rightarrow> 't interner \<Rightarrow> str list list \<Rightarrow> 't interner \<Rightarrow> thread \<Rightarrow> bool" where
  "thread_ok D W J sss I th \<longleftrightarrow> cache_ok D J sss (th_cache th) \<and> place_of D W J sss I (th_pc th)"

text \<open>What the threads know survives when the arrays and the strings grow.\<close>

definition arrays_le :: "nat \<Rightarrow> 't interner \<Rightarrow> 't interner \<Rightarrow> bool" where
  "arrays_le n I I' \<longleftrightarrow> (\<forall>sid < n. arr_le (strings (shards I ! sid)) (strings (shards I' ! sid)))"

lemma place_of_arrays: "place_of D W J sss I p \<Longrightarrow> arrays_le (length sss) I I' \<Longrightarrow> place_of D W J sss I' p"
  by (auto simp: place_of_def Let_def arrays_le_def arr_le_def split: pc.splits)

lemma thread_ok_same:
  assumes "thread_ok D W J sss I th" "arrays_le (length sss) I I'" "interner_id J' = interner_id J"
    "region_size (ipool J') = region_size (ipool J)"
  shows "thread_ok D W J' sss I' th"
proof -
  have "region_base (ipool J') = region_base (ipool J)" using assms(4) by (simp add: region_base_def fun_eq_iff)
  then have "text_addr J' = text_addr J" by (simp add: text_addr_def fun_eq_iff)
  then have "place_of D W J' sss I' = place_of D W J sss I'" "cache_ok D J' sss = cache_ok D J sss"
    using assms(3) unfolding place_of_def found_text_def cache_ok_def by presburger+
  then show ?thesis using assms(1) place_of_arrays [OF _ assms(2)] by (simp add: thread_ok_def)
qed

lemma found_text_grow:
  assumes "found_text D J sss w t y" "home D (length sss) w < length sss" "ipool J' = stored (ipool J) sid v"
  shows "found_text D J' (add_string sss sid v) w t y"
proof -
  let ?t = "home D (length sss) w"
  from assms(1) obtain k where k: "k < length (sss ! ?t)" "sss ! ?t ! k = w" "y = mk_sym ?t k" "t = (text_addr J sss ?t k, w)"
    by (auto simp: found_text_def Let_def)
  then show ?thesis
    using add_string_old [OF assms(2) k(1), of sid v] text_addr_old [OF assms(2) k(1) assms(3)]
    by (auto simp: found_text_def Let_def intro!: exI [of _ k])
qed

lemma thread_ok_grow:
  assumes "thread_ok D W J sss I th" "arrays_le (length sss) I I'" "interner_id J' = interner_id J"
    "ipool J' = stored (ipool J) sid v" "\<And>w. home D (length sss) w < length sss"
  shows "thread_ok D W J' (add_string sss sid v) I' th"
proof -
  have place: "place_of D W J sss I' (th_pc th)" and cache: "cache_ok D J sss (th_cache th)"
    using assms(1) place_of_arrays [OF _ assms(2)] by (auto simp: thread_ok_def)
  have "place_of D W J' (add_string sss sid v) I' (th_pc th)"
    using place found_text_grow [OF _ assms(5,4)] by (cases "th_pc th") (simp_all add: place_of_def Let_def)
  then show ?thesis using cache_ok_grow [OF cache assms(4,3)] by (simp add: thread_ok_def)
qed

section \<open>The invariant\<close>

text \<open>The strings that the threads intern: no two of them are confused by the caches.\<close>

definition apart :: "'t deps \<Rightarrow> str set \<Rightarrow> bool" where
  "apart D W \<longleftrightarrow> (\<forall>v \<in> W. \<forall>w \<in> W. 8 < length w \<and> length w = length v \<and> prefix8 w = prefix8 v \<and>
     (ucast (hash_of D w) :: u32) = ucast (hash_of D v) \<longrightarrow> w = v)"

definition base_ok :: "'t deps \<Rightarrow> str set \<Rightarrow> 't interner \<Rightarrow> str list list \<Rightarrow> bool" where
  "base_ok D W J sss \<longleftrightarrow> interner_rep D J sss \<and> 4 \<le> length sss \<and> arena_sized (ipool J) \<and>
     (\<forall>ss \<in> set sss. set ss \<subseteq> W)"

definition shape_ok :: "'t interner \<Rightarrow> 't interner \<Rightarrow> bool" where
  "shape_ok J I \<longleftrightarrow> interner_id I = interner_id J \<and> shard_mask I = shard_mask J \<and>
     length (shards I) = length (shards J) \<and> length (cursors (ipool I)) = length (cursors (ipool J)) \<and>
     pmem (ipool I) = pmem (ipool J) \<and> region_size (ipool I) = region_size (ipool J) \<and>
     header_size (ipool I) = header_size (ipool J) \<and> capacity (ipool I) = capacity (ipool J)"

definition conc_ok :: "'t deps \<Rightarrow> str set \<Rightarrow> 't interner \<Rightarrow> str list list \<Rightarrow> 't machine \<Rightarrow> bool" where
  "conc_ok D W J sss s \<longleftrightarrow> base_ok D W J sss \<and> shape_ok J (m_interner s) \<and>
     locks_ok D (length sss) (m_locks s) (m_threads s) \<and>
     (\<forall>sid < length sss. shard_stage D (length sss) J (m_interner s) (sss ! sid) sid (stage (m_locks s) (m_threads s) sid)) \<and>
     (\<forall>th \<in> set (m_threads s). thread_ok D W J sss (m_interner s) th)"

lemma base_okD:
  assumes "base_ok D W J sss"
  shows "interner_rep D J sss" "4 \<le> length sss" "arena_sized (ipool J)"
    "pool_inv (ipool J)" "home D (length sss) v < length sss"
    "sid < length sss \<Longrightarrow> set (sss ! sid) \<subseteq> W"
    "sid < length sss \<Longrightarrow> shard_rep D (length sss) (ipool J) sid (shards J ! sid) (sss ! sid)"
    "length (shards J) = length sss" "length (cursors (ipool J)) = length sss"
  using assms shard_of_home(2) [of D J sss v] shard_repD(1) [of D J sss sid] unfolding base_ok_def
  by (auto simp: interner_rep_def)

lemma base_ok_apart: "base_ok D W J sss \<Longrightarrow> apart D W \<Longrightarrow> v \<in> W \<Longrightarrow> no_cache_alias D sss v"
  unfolding base_ok_def apart_def no_cache_alias_def by blast

text \<open>The interner that all threads see finds the same shard for a string.\<close>

lemma shape_home: "base_ok D W J sss \<Longrightarrow> shape_ok J I \<Longrightarrow> shard_of I (hash_of D v) = home D (length sss) v"
  using shard_of_home(1) [OF base_okD(1)] by (simp add: shape_ok_def shard_of_def)

end
