(* ===== verification/Threads_Sim.thy ===== *)
theory Threads_Sim
  imports Threads_Inv
begin

unbundle bit_operations_syntax

text \<open>
  The machine of \<open>Interner_Threads\<close> refines the atomic interner of \<open>Interner_Atomic\<close>: every step
  of a thread keeps the invariant of \<open>Threads_Inv\<close> and is answered by at most three steps of the
  atomic interner.  An insertion takes effect when its offset is stored into the shard's array.
\<close>

section \<open>The abstraction\<close>

fun spec_of :: "'t deps \<Rightarrow> nat \<Rightarrow> pc \<Rightarrow> spec_pc" where
  "spec_of D n Idle = SIdle"
| "spec_of D n (ReadLock v) = SIntern v"
| "spec_of D n (Lookup v) = SIntern v"
| "spec_of D n (WriteLock v) = SIntern v"
| "spec_of D n (Check v) = SIntern v"
| "spec_of D n (Alloc v) = SIntern v"
| "spec_of D n (Commit v off cur) = SIntern v"
| "spec_of D n (PushLen v off) = SIntern v"
| "spec_of D n (PushLoad v off idx) = SIntern v"
| "spec_of D n (PushExchange v off idx) = SIntern v"
| "spec_of D n (PushStore v off idx q) = SIntern v"
| "spec_of D n (Publish v off idx) = SInterned v (mk_sym (home D n v) idx)"
| "spec_of D n (CacheStore v t y) = SInterned v y"
| "spec_of D n (ReadLen y) = SResolve y"
| "spec_of D n (ReadChunk y) = SResolve y"
| "spec_of D n (ReadSlot y q) = SResolve y"
| "spec_of D n (GetLock v) = SGet v"
| "spec_of D n (GetLookup v) = SGet v"
| "spec_of D n (GetStore v t y) = SGet v"

definition closed :: "memory_pool \<Rightarrow> nat set" where
  "closed P = {sid. sid < length (cursors P) \<and> poisoned (cursors P ! sid)}"

definition spec_abs :: "'t deps \<Rightarrow> str list list \<Rightarrow> 't machine \<Rightarrow> spec" where
  "spec_abs D sss s = \<lparr>sp_strings = sss, sp_closed = closed (ipool (m_interner s)),
     sp_pcs = map (\<lambda>th. spec_of D (length sss) (th_pc th)) (m_threads s), sp_trace = m_trace s\<rparr>"

definition rel :: "'t deps \<Rightarrow> str set \<Rightarrow> nat \<Rightarrow> 't machine \<Rightarrow> spec \<Rightarrow> bool" where
  "rel D W R s a \<longleftrightarrow> hashbrown_ok D \<and> apart D W \<and>
     (\<exists>J sss. conc_ok D W J sss s \<and> unat (region_size (ipool J)) = R \<and> a = spec_abs D sss s)"

text \<open>The machine after thread \<open>i\<close> has moved.\<close>

definition moved :: "'t machine \<Rightarrow> nat \<Rightarrow> 't interner \<Rightarrow> (nat \<Rightarrow> lock) \<Rightarrow> pc \<Rightarrow> local_cache \<Rightarrow> event list \<Rightarrow> 't machine" where
  "moved s i I L p c es = \<lparr>m_interner = I, m_locks = L, m_threads = (m_threads s)[i := \<lparr>th_pc = p, th_cache = c\<rparr>],
     m_trace = m_trace s @ es\<rparr>"

lemma moved_simps [simp]:
  "m_interner (moved s i I L p c es) = I" "m_locks (moved s i I L p c es) = L"
  "m_threads (moved s i I L p c es) = (m_threads s)[i := \<lparr>th_pc = p, th_cache = c\<rparr>]"
  "m_trace (moved s i I L p c es) = m_trace s @ es"
  by (simp_all add: moved_def)

text \<open>What it means that a move is simulated.\<close>

definition simulated :: "'t deps \<Rightarrow> str set \<Rightarrow> 't interner \<Rightarrow> str list list \<Rightarrow> 't machine \<Rightarrow> 't machine \<Rightarrow> bool" where
  "simulated D W J sss s s' \<longleftrightarrow> (\<exists>J' sss'. conc_ok D W J' sss' s' \<and> region_size (ipool J') = region_size (ipool J) \<and>
     (spec_step D (unat (region_size (ipool J))))\<^sup>*\<^sup>* (spec_abs D sss s) (spec_abs D sss' s'))"

lemma spec_abs_moved:
  "spec_abs D sss (moved s i I L p c es) = \<lparr>sp_strings = sss, sp_closed = closed (ipool I),
     sp_pcs = (map (\<lambda>th. spec_of D (length sss) (th_pc th)) (m_threads s))[i := spec_of D (length sss) p],
     sp_trace = m_trace s @ es\<rparr>"
  by (simp add: spec_abs_def moved_def map_update)

lemma spec_abs_pc:
  "i < length (m_threads s) \<Longrightarrow> th_pc (m_threads s ! i) = p \<Longrightarrow>
   i < length (sp_pcs (spec_abs D sss s)) \<and> sp_pcs (spec_abs D sss s) ! i = spec_of D (length sss) p"
  by (simp add: spec_abs_def)

lemma spec_abs_stutter:
  assumes "i < length (m_threads s)" "th_pc (m_threads s ! i) = p" "spec_of D (length sss) q = spec_of D (length sss) p"
    "closed (ipool I) = closed (ipool (m_interner s))"
  shows "spec_abs D sss (moved s i I L q c []) = spec_abs D sss s"
  using assms by (simp add: spec_abs_def map_update list_update_same_conv)

section \<open>Keeping the invariant\<close>

text \<open>
  A thread that works on the shard \<open>t\<close> moves: what has to be shown is what concerns this shard and
  this thread.
\<close>

lemma conc_move:
  assumes ok: "conc_ok D W J sss s" and i: "i < length (m_threads s)" "m_threads s ! i = \<lparr>th_pc = p, th_cache = c\<rparr>"
    and act: "act D i (m_interner s) (m_locks s) c p = Some (I', L', c', p', r)"
    and base: "base_ok D W J' sss'" and shape: "shape_ok J' I'" and len: "length sss' = length sss"
    and size: "region_size (ipool J') = region_size (ipool J)"
    and holds: "\<And>sid. holds_write D (length sss) sid p \<Longrightarrow> sid = t" "\<And>sid. holds_write D (length sss) sid p' \<Longrightarrow> sid = t"
    and others: "\<And>sid. sid < length sss \<Longrightarrow> sid \<noteq> t \<Longrightarrow> shards J' ! sid = shards J ! sid \<and>
        shards I' ! sid = shards (m_interner s) ! sid \<and> cursors (ipool J') ! sid = cursors (ipool J) ! sid \<and>
        cursors (ipool I') ! sid = cursors (ipool (m_interner s)) ! sid \<and> sss' ! sid = sss ! sid"
    and recs: "\<And>sid v off. sid < length sss \<Longrightarrow> sid \<noteq> t \<Longrightarrow> pending D (length sss) (ipool J) (sss ! sid) sid v off \<Longrightarrow>
        record_at (pmem (ipool J')) (unat off) v"
    and here: "t < length sss \<Longrightarrow> shard_stage D (length sss) J' I' (sss' ! t) t
        (if holds_write D (length sss) t p' then p' else if holds_write D (length sss) t p then Idle
         else stage (m_locks s) (m_threads s) t)"
    and threads: "\<And>th. thread_ok D W J sss (m_interner s) th \<Longrightarrow> thread_ok D W J' sss' I' th"
    and self: "thread_ok D W J' sss' I' \<lparr>th_pc = p', th_cache = c'\<rparr>"
  shows "conc_ok D W J' sss' (moved s i I' L' p' c' es)"
proof -
  note okD = ok [unfolded conc_ok_def]
  have pc: "th_pc (m_threads s ! i) = p" using i(2) by simp
  have locks: "locks_ok D (length sss) L' ((m_threads s)[i := \<lparr>th_pc = p', th_cache = c'\<rparr>])"
    using okD locks_step [OF _ i act] shape_home by blast
  have lk: "locks_ok D (length sss) (m_locks s) (m_threads s)" using okD by simp
  note st = stage_step [OF lk locks i(1) pc]
  have "shard_stage D (length sss) J' I' (sss' ! sid) sid (stage L' ((m_threads s)[i := \<lparr>th_pc = p', th_cache = c'\<rparr>]) sid)"
    if sid: "sid < length sss" for sid
  proof (cases "sid = t")
    case True
    then show ?thesis using here sid by (simp only: st)
  next
    case False
    then have "stage L' ((m_threads s)[i := \<lparr>th_pc = p', th_cache = c'\<rparr>]) sid = stage (m_locks s) (m_threads s) sid"
      using st [of sid] holds [of sid] by auto
    moreover have "shard_stage D (length sss) J (m_interner s) (sss ! sid) sid (stage (m_locks s) (m_threads s) sid)"
      using okD sid by blast
    ultimately show ?thesis
      using shard_stage_frame [OF _ _ _ _ _ size recs [OF sid False]] others [OF sid False] by auto
  qed
  moreover have "thread_ok D W J' sss' I' th" if "th \<in> set ((m_threads s)[i := \<lparr>th_pc = p', th_cache = c'\<rparr>])" for th
    using that set_update_subset_insert [of "m_threads s" i] okD threads self by blast
  ultimately show ?thesis using base shape locks len by (simp add: conc_ok_def)
qed

text \<open>The writer of a shard is at the place that its shard's stage names.\<close>

lemma stage_here:
  assumes "conc_ok D W J sss s" "i < length (m_threads s)" "th_pc (m_threads s ! i) = p"
    "holds_write D (length sss) sid p" "sid < length sss"
  shows "shard_stage D (length sss) J (m_interner s) (sss ! sid) sid p"
proof -
  have "lk_writer (m_locks s sid) = Some i" using assms locks_okD(1) unfolding conc_ok_def by blast
  then have "stage (m_locks s) (m_threads s) sid = p" using assms(3) by (simp add: stage_def)
  then show ?thesis using assms(1,5) unfolding conc_ok_def by metis
qed

lemma stage_unlocked:
  assumes "conc_ok D W J sss s" "lk_writer (m_locks s sid) = None" "sid < length sss"
  shows "shards (m_interner s) ! sid = shards J ! sid" "cursors (ipool (m_interner s)) ! sid = cursors (ipool J) ! sid"
proof -
  have "stage (m_locks s) (m_threads s) sid = Idle" using assms(2) by (simp add: stage_def)
  moreover have "shard_stage D (length sss) J (m_interner s) (sss ! sid) sid (stage (m_locks s) (m_threads s) sid)"
    using assms(1,3) unfolding conc_ok_def by blast
  ultimately have "shards (m_interner s) ! sid = shards J ! sid \<and> cursors (ipool (m_interner s)) ! sid = cursors (ipool J) ! sid"
    by (simp add: shard_stage_idle)
  then show "shards (m_interner s) ! sid = shards J ! sid" "cursors (ipool (m_interner s)) ! sid = cursors (ipool J) ! sid"
    by simp_all
qed

section \<open>Reads of the shared interner\<close>

lemma shared_reads:
  assumes "shape_ok J I"
  shows "cache_lookup c I = cache_lookup c J" "cache_store c I = cache_store c J"
proof -
  have eqs: "pmem (ipool I) = pmem (ipool J)" "interner_id I = interner_id J" using assms by (simp_all add: shape_ok_def)
  show "cache_lookup c I = cache_lookup c J" "cache_store c I = cache_store c J"
    by (intro ext, unfold cache_lookup_def eqs, rule refl) (intro ext, unfold cache_store_def eqs, rule refl)
qed

lemma shard_reads:
  assumes "shape_ok J I" "shards I ! sid = shards J ! sid"
  shows "shard_get I sid = shard_get J sid" "shard_get_unchecked I sid = shard_get_unchecked J sid"
    "find_entry D I sid = find_entry D J sid" "read_lookup D I sid = read_lookup D J sid"
proof -
  have mem: "pmem (ipool I) = pmem (ipool J)" using assms(1) by (simp add: shape_ok_def)
  show get: "shard_get I sid = shard_get J sid" by (intro ext) (unfold shard_get_def mem assms(2), rule refl)
  show un: "shard_get_unchecked I sid = shard_get_unchecked J sid"
    by (intro ext) (unfold shard_get_unchecked_def mem assms(2), rule refl)
  show "find_entry D I sid = find_entry D J sid" by (intro ext) (unfold find_entry_def get assms(2), rule refl)
  show "read_lookup D I sid = read_lookup D J sid"
    by (intro ext) (unfold read_lookup_def find_entry_unchecked_def get un assms(2), rule refl)
qed

text \<open>A thread inside an array of a shard sees the strings that are stored, and nothing behind them.\<close>

lemma lock_free_reads:
  assumes ok: "conc_ok D W J sss s" and sid: "sid < length sss"
  shows "arr_len (strings (shards (m_interner s) ! sid)) \<le> 2 ^ 24"
    "i < length (sss ! sid) \<Longrightarrow> i < arr_len (strings (shards (m_interner s) ! sid))"
    "i < length (sss ! sid) \<Longrightarrow> chunks (strings (shards (m_interner s) ! sid)) (i div 4096) \<noteq> None"
    "chunks (strings (shards (m_interner s) ! sid)) (i div 4096) = Some q \<Longrightarrow>
      map_option snd (get_from_chunk (strings (shards (m_interner s) ! sid)) q (i mod 4096) (pmem (ipool (m_interner s)))) =
      (if i < length (sss ! sid) then Some (sss ! sid ! i) else None)"
proof -
  let ?I = "m_interner s" and ?ss = "sss ! sid" and ?P = "ipool J"
  let ?A = "strings (shards ?I ! sid)" and ?B = "strings (shards J ! sid)" and ?b = "region_base ?P sid"
  have base: "base_ok D W J sss" and shape: "shape_ok J ?I" using ok by (simp_all add: conc_ok_def)
  note rep = base_okD(7) [OF base sid]
  have arr: "arr_rep ?B (map word_of_nat (layout ?b ?ss))" and len: "length ?ss < 2 ^ 24"
    using rep by (simp_all add: shard_rep_def)
  have ext: "extending ?B ?A" using ok sid shard_stage_reads(1) unfolding conc_ok_def by blast
  note slots = extending_slots [OF arr ext]
  show "arr_len ?A \<le> 2 ^ 24"
    using ext arr len by (auto simp: extending_def arr_rep_def add_chunk_def)
  show "i < length ?ss \<Longrightarrow> i < arr_len ?A" "i < length ?ss \<Longrightarrow> chunks ?A (i div 4096) \<noteq> None"
    using slots(1) [of i] by auto
  assume q: "chunks ?A (i div 4096) = Some q"
  show "map_option snd (get_from_chunk ?A q (i mod 4096) (pmem (ipool ?I))) = (if i < length ?ss then Some (?ss ! i) else None)"
  proof (cases "i < length ?ss")
    case True
    note off = rep_offset [OF base_okD(4) [OF base] _ rep True]
    have cur: "sid < length (cursors ?P)" using sid base_okD(9) [OF base] by simp
    have "chunk_heap ?A q (i mod 4096) = word_of_nat (layout ?b ?ss ! i)" using slots(1) [of i] True q by auto
    moreover have "(word_of_nat (layout ?b ?ss ! i) :: u32) \<noteq> 0" using off(1,2) [OF cur] by (metis unsigned_0)
    moreover have "read_record (pmem ?P) (layout ?b ?ss ! i) = (layout ?b ?ss ! i + 4, ?ss ! i)"
      using rep True by (intro read_record_at) (auto simp: shard_rep_def value_ok_def dest!: bspec [OF _ nth_mem])
    moreover have "pmem (ipool ?I) = pmem ?P" using shape by (simp add: shape_ok_def)
    ultimately show ?thesis using True off(1) [OF cur] by (simp add: get_from_chunk_def)
  next
    case False
    then show ?thesis using slots(2) [of i q] q by (simp add: get_from_chunk_def)
  qed
qed

section \<open>Steps that change no shard\<close>

text \<open>The shared interner stays as it is, and so does the one with whole insertions.\<close>

lemma move_reading:
  assumes ok: "conc_ok D W J sss s" and i: "i < length (m_threads s)" "m_threads s ! i = \<lparr>th_pc = p, th_cache = c\<rparr>"
    and act: "act D i (m_interner s) (m_locks s) c p = Some (m_interner s, L', c', p', r)"
    and holds: "\<And>sid. holds_write D (length sss) sid p \<Longrightarrow> sid = t" "\<And>sid. holds_write D (length sss) sid p' \<Longrightarrow> sid = t"
    and here: "t < length sss \<Longrightarrow> holds_write D (length sss) t p \<or> holds_write D (length sss) t p' \<Longrightarrow>
       shard_stage D (length sss) J (m_interner s) (sss ! t) t (if holds_write D (length sss) t p' then p' else Idle)"
    and self: "cache_ok D J sss c'" "place_of D W J sss (m_interner s) p'"
  shows "conc_ok D W J sss (moved s i (m_interner s) L' p' c' es)"
proof (rule conc_move [OF ok i act])
  show "base_ok D W J sss" "shape_ok J (m_interner s)" using ok by (simp_all add: conc_ok_def)
  show "holds_write D (length sss) sid p \<Longrightarrow> sid = t" "holds_write D (length sss) sid p' \<Longrightarrow> sid = t" for sid
    by (fact holds)+
  show "pending D (length sss) (ipool J) (sss ! sid) sid v off \<Longrightarrow> record_at (pmem (ipool J)) (unat off) v" for sid v off
    unfolding pending_def by blast
  assume t: "t < length sss"
  then have "shard_stage D (length sss) J (m_interner s) (sss ! t) t (stage (m_locks s) (m_threads s) t)"
    using ok by (simp add: conc_ok_def)
  then show "shard_stage D (length sss) J (m_interner s) (sss ! t) t
        (if holds_write D (length sss) t p' then p' else if holds_write D (length sss) t p then Idle
         else stage (m_locks s) (m_threads s) t)"
    using here [OF t] by (cases "holds_write D (length sss) t p'"; cases "holds_write D (length sss) t p") simp_all
qed (use self in \<open>simp_all add: thread_ok_def\<close>)

text \<open>The three ways in which the atomic interner answers such a step.\<close>

lemma sim_stutter:
  assumes "conc_ok D W J' sss (moved s i I L p' c' [])" "region_size (ipool J') = region_size (ipool J)"
    "i < length (m_threads s)" "th_pc (m_threads s ! i) = p"
    "spec_of D (length sss) p' = spec_of D (length sss) p" "closed (ipool I) = closed (ipool (m_interner s))"
  shows "simulated D W J sss s (moved s i I L p' c' [])"
proof -
  have "spec_abs D sss (moved s i I L p' c' []) = spec_abs D sss s" using assms(3-6) by (rule spec_abs_stutter)
  then have "(spec_step D (unat (region_size (ipool J))))\<^sup>*\<^sup>* (spec_abs D sss s) (spec_abs D sss (moved s i I L p' c' []))" by simp
  then show ?thesis using assms(1,2) unfolding simulated_def by blast
qed

lemma sim_steps:
  assumes "conc_ok D W J' sss' s'" "region_size (ipool J') = region_size (ipool J)"
    "(spec_step D (unat (region_size (ipool J))))\<^sup>*\<^sup>* (spec_abs D sss s) a" "a = spec_abs D sss' s'"
  shows "simulated D W J sss s s'"
  using assms unfolding simulated_def by blast

lemma sim_find:
  assumes "conc_ok D W J sss (moved s i (m_interner s) L p' c' [])" "i < length (m_threads s)" "th_pc (m_threads s ! i) = p"
    "spec_of D (length sss) p = SIntern v" "spec_of D (length sss) p' = SInterned v y" "abs_get D sss v = Some y"
  shows "simulated D W J sss s (moved s i (m_interner s) L p' c' [])"
proof (rule sim_steps [OF assms(1) refl r_into_rtranclp])
  note pc = spec_abs_pc [OF assms(2,3), of D sss, unfolded assms(4)]
  have "abs_get D (sp_strings (spec_abs D sss s)) v = Some y" using assms(6) by (simp add: spec_abs_def)
  with pc show "spec_step D (unat (region_size (ipool J))) (spec_abs D sss s)
      ((spec_abs D sss s)\<lparr>sp_pcs := (sp_pcs (spec_abs D sss s))[i := SInterned v y]\<rparr>)" by (blast intro: spec_find)
qed (use assms(5) in \<open>simp add: spec_abs_def map_update\<close>)

text \<open>The answers of the atomic interner.\<close>

definition answered :: "'t deps \<Rightarrow> str list list \<Rightarrow> call \<Rightarrow> reply \<Rightarrow> bool" where
  "answered D sss x a \<longleftrightarrow> (case x of
       Intern v \<Rightarrow> \<exists>y. a = RIntern v y \<and> abs_get D sss v = Some y
     | Get v \<Rightarrow> a = RGet v (abs_get D sss v)
     | Resolve y \<Rightarrow> a = RResolve y (abs_resolve sss y))"

lemma spec_answers:
  assumes i: "i < length (sp_pcs b)" "sp_pcs b ! i = called x" and a: "answered D (sp_strings b) x a"
  shows "(spec_step D R)\<^sup>*\<^sup>* b (b\<lparr>sp_pcs := (sp_pcs b)[i := SIdle], sp_trace := sp_trace b @ [Replied i a]\<rparr>)"
proof -
  let ?e = "b\<lparr>sp_pcs := (sp_pcs b)[i := SIdle], sp_trace := sp_trace b @ [Replied i a]\<rparr>"
  have two: "(spec_step D R)\<^sup>*\<^sup>* b ?e" if "spec_step D R b (b\<lparr>sp_pcs := (sp_pcs b)[i := p]\<rparr>)"
    "spec_step D R (b\<lparr>sp_pcs := (sp_pcs b)[i := p]\<rparr>) ?e" for p
    using that by (meson converse_rtranclp_into_rtranclp r_into_rtranclp)
  let ?m = "\<lambda>p. b\<lparr>sp_pcs := (sp_pcs b)[i := p]\<rparr>"
  show ?thesis
  proof (cases x)
    case (Intern v)
    then obtain y where y: "a = RIntern v y" "abs_get D (sp_strings b) v = Some y" using a by (auto simp: answered_def)
    show ?thesis
      by (rule two [of "SInterned v y"])
        (use i y Intern spec_find [of i b v D y R] spec_interned [of i "?m (SInterned v y)" v y] in simp_all)
  next
    case (Get v)
    let ?r = "abs_get D (sp_strings b) v"
    show ?thesis
      by (rule two [of "SGot v ?r"])
        (use i a Get spec_get [of i b v D R] spec_got [of i "?m (SGot v ?r)" v ?r] in \<open>simp_all add: answered_def\<close>)
  next
    case (Resolve y)
    let ?r = "abs_resolve (sp_strings b) y"
    show ?thesis
      by (rule two [of "SResolved y ?r"])
        (use i a Resolve spec_resolve [of i b y D R] spec_resolved [of i "?m (SResolved y ?r)" y ?r] in \<open>simp_all add: answered_def\<close>)
  qed
qed

lemma sim_answered:
  assumes "conc_ok D W J sss (moved s i (m_interner s) L Idle c' [Replied i a])" "i < length (m_threads s)"
    "th_pc (m_threads s ! i) = p" "spec_of D (length sss) p = called x" "answered D sss x a"
  shows "simulated D W J sss s (moved s i (m_interner s) L Idle c' [Replied i a])"
proof (rule sim_steps [OF assms(1) refl spec_answers])
  show "i < length (sp_pcs (spec_abs D sss s))" "sp_pcs (spec_abs D sss s) ! i = called x"
    using spec_abs_pc [OF assms(2,3), of D sss] assms(4) by simp_all
  show "answered D (sp_strings (spec_abs D sss s)) x a" using assms(5) by (simp add: spec_abs_def)
qed (simp add: spec_abs_def map_update)

text \<open>What the invariant says about a thread that moves.\<close>

lemma conc_okD:
  assumes "conc_ok D W J sss s"
  shows "base_ok D W J sss" "shape_ok J (m_interner s)" "interner_rep D J sss"
    "shard_of (m_interner s) (hash_of D v) = home D (length sss) v" "home D (length sss) v < length sss"
    "i < length (m_threads s) \<Longrightarrow> m_threads s ! i = \<lparr>th_pc = p, th_cache = c\<rparr> \<Longrightarrow> cache_ok D J sss c"
    "i < length (m_threads s) \<Longrightarrow> m_threads s ! i = \<lparr>th_pc = p, th_cache = c\<rparr> \<Longrightarrow> place_of D W J sss (m_interner s) p"
    "locks_ok D (length sss) (m_locks s) (m_threads s)"
proof -
  show b: "base_ok D W J sss" and s: "shape_ok J (m_interner s)" and "locks_ok D (length sss) (m_locks s) (m_threads s)"
    using assms by (simp_all add: conc_ok_def)
  show "interner_rep D J sss" "home D (length sss) v < length sss" by (rule base_okD [OF b])+
  show "shard_of (m_interner s) (hash_of D v) = home D (length sss) v" by (rule shape_home [OF b s])
  assume "i < length (m_threads s)" "m_threads s ! i = \<lparr>th_pc = p, th_cache = c\<rparr>"
  then have "thread_ok D W J sss (m_interner s) \<lparr>th_pc = p, th_cache = c\<rparr>"
    using assms unfolding conc_ok_def by (metis nth_mem)
  then show "cache_ok D J sss c" "place_of D W J sss (m_interner s) p" by (simp_all add: thread_ok_def)
qed

text \<open>The string that a lookup under a lock finds is the string's symbol.\<close>

lemma found:
  assumes "conc_ok D W J sss s" "sid = home D (length sss) v" "static_symbol v = None"
    "find_index (\<lambda>w. w = v) (sss ! sid) = Some k"
  shows "abs_get D sss v = Some (mk_sym sid k)" "k < length (sss ! sid)" "sss ! sid ! k = v"
  using assms find_index_SomeD [OF assms(4)] by (auto simp: abs_get_dynamic abs_find_def)

end
