(* ===== verification/Threads_Insert.thy ===== *)
theory Threads_Insert
  imports Threads_Sim
begin

unbundle bit_operations_syntax

text \<open>
  The steps of an insertion, from the allocation to the release of the shard's write lock, answered
  by the atomic interner.  The writer changes its own shard; the threads that resolve symbols read
  the shard's array all the while.
\<close>

section \<open>Preparing and publishing\<close>

lemma set_strings_shape:
  "shape_ok J I \<Longrightarrow> shape_ok J (set_strings I t A)" "ipool (set_strings I t A) = ipool I"
  "sid \<noteq> t \<Longrightarrow> shards (set_strings I t A) ! sid = shards I ! sid"
  "t < length (shards I) \<Longrightarrow> shards (set_strings I t A) ! t = (shards I ! t)\<lparr>strings := A\<rparr>"
  by (simp_all add: shape_ok_def set_strings_def set_shard_def)

lemma arr_le_refl: "arr_le A A"
  by (rule arr_le_steps)

text \<open>A step of the writer that the atomic interner does not see.\<close>

lemma sim_writing:
  assumes ok: "conc_ok D W J sss s" and i: "i < length (m_threads s)" "m_threads s ! i = \<lparr>th_pc = p, th_cache = c\<rparr>"
    and act: "act D i (m_interner s) (m_locks s) c p = Some (I', L', c, p', None)"
    and t: "t < length sss" "\<And>sid. holds_write D (length sss) sid p \<longleftrightarrow> t = sid" "\<And>sid. holds_write D (length sss) sid p' \<Longrightarrow> t = sid"
    and shape: "shape_ok J I'" and others: "\<And>sid. sid \<noteq> t \<Longrightarrow> shards I' ! sid = shards (m_interner s) ! sid \<and>
        cursors (ipool I') ! sid = cursors (ipool (m_interner s)) ! sid"
    and le: "arr_le (strings (shards (m_interner s) ! t)) (strings (shards I' ! t))"
    and here: "shard_stage D (length sss) J I' (sss ! t) t (if holds_write D (length sss) t p' then p' else Idle)"
    and self: "place_of D W J sss I' p'" "spec_of D (length sss) p' = spec_of D (length sss) p"
  shows "simulated D W J sss s (moved s i I' L' p' c (replied i None))"
proof -
  note okD = conc_okD [OF ok]
  have le': "arrays_le (length sss) (m_interner s) I'"
    unfolding arrays_le_def
  proof (intro allI impI)
    fix sid
    show "arr_le (strings (shards (m_interner s) ! sid)) (strings (shards I' ! sid))"
      using le others [of sid] arr_le_refl by (cases "sid = t") simp_all
  qed
  have conc: "conc_ok D W J sss (moved s i I' L' p' c (replied i None))"
  proof (rule conc_move [OF ok i act okD(1) shape refl refl])
    show "sid = t" if "holds_write D (length sss) sid p" for sid using that t(2) by metis
    show "sid = t" if "holds_write D (length sss) sid p'" for sid using that t(3) by metis
    show "record_at (pmem (ipool J)) (unat off) v" if "pending D (length sss) (ipool J) (sss ! sid) sid v off" for sid v off
      using that unfolding pending_def by blast
    show "shard_stage D (length sss) J I' (sss ! t) t
        (if holds_write D (length sss) t p' then p' else if holds_write D (length sss) t p then Idle
         else stage (m_locks s) (m_threads s) t)"
      using here t(2) by (cases "holds_write D (length sss) t p'") simp_all
    show "thread_ok D W J sss I' th" if "thread_ok D W J sss (m_interner s) th" for th
      by (rule thread_ok_same [OF that le' refl refl])
    show "thread_ok D W J sss I' \<lparr>th_pc = p', th_cache = c\<rparr>" using okD(6) [OF i] self(1) by (simp add: thread_ok_def)
  qed (use others in auto)
  moreover have "closed (ipool I') = closed (ipool (m_interner s))"
  proof -
    have "poisoned (cursors (ipool I') ! sid) = poisoned (cursors (ipool J) ! sid)"
      "poisoned (cursors (ipool (m_interner s)) ! sid) = poisoned (cursors (ipool J) ! sid)" if "sid < length sss" for sid
      using shard_stage_reads(2) that ok conc unfolding conc_ok_def moved_simps by blast+
    moreover have "length (cursors (ipool I')) = length sss" "length (cursors (ipool (m_interner s))) = length sss"
      using shape okD(2) base_okD(9) [OF okD(1)] by (simp_all add: shape_ok_def)
    ultimately show ?thesis by (auto simp: closed_def)
  qed
  ultimately show ?thesis
    using i self(2) sim_stutter [of D W J sss s i I' L' p' c J p] by (simp add: replied_def)
qed

lemma writer_stage:
  assumes "conc_ok D W J sss s" "i < length (m_threads s)" "m_threads s ! i = \<lparr>th_pc = p, th_cache = c\<rparr>"
    "holds_write D (length sss) (home D (length sss) v) p"
  shows "shard_stage D (length sss) J (m_interner s) (sss ! home D (length sss) v) (home D (length sss) v) p"
  using assms conc_okD(5) [OF assms(1)] by (intro stage_here [OF assms(1,2)]) simp_all

lemma sim_commit:
  assumes ok: "conc_ok D W J sss s" and i: "i < length (m_threads s)" "m_threads s ! i = \<lparr>th_pc = Commit v off cur, th_cache = c\<rparr>"
    and act: "act D i (m_interner s) (m_locks s) c (Commit v off cur) = Some (I', L', c', p', r)"
  shows "simulated D W J sss s (moved s i I' L' p' c' (replied i r))"
proof -
  let ?t = "home D (length sss) v" and ?I = "m_interner s"
  note okD = conc_okD [OF ok]
  have t: "?t < length (cursors (ipool ?I))" using okD(5) base_okD(9) [OF okD(1)] okD(2) by (simp add: shape_ok_def)
  have st: "I' = ?I\<lparr>ipool := alloc_commit (ipool ?I) ?t cur\<rparr>" "L' = m_locks s" "c' = c" "p' = PushLen v off" "r = None"
    using act by (simp_all add: okD(4) Let_def)
  have stage: "shard_stage D (length sss) J ?I (sss ! ?t) ?t (Commit v off cur)"
    using i by (intro writer_stage [OF ok i]) simp
  then have "shard_stage D (length sss) J I' (sss ! ?t) ?t (PushLen v off)"
    using t by (simp add: shard_stage_def Let_def st alloc_commit_def)
  moreover have "act D i ?I (m_locks s) c (Commit v off cur) = Some (I', L', c, p', None)" using act st(3,5) by simp
  ultimately show ?thesis unfolding st(3,5)
    using okD(2,5) okD(7) [OF i]
    by (intro sim_writing [OF ok i, where t = ?t])
      (simp_all add: st place_of_def shape_ok_def alloc_commit_def arr_le_refl Let_def)
qed

lemma sim_push_len:
  assumes ok: "conc_ok D W J sss s" and i: "i < length (m_threads s)" "m_threads s ! i = \<lparr>th_pc = PushLen v off, th_cache = c\<rparr>"
    and act: "act D i (m_interner s) (m_locks s) c (PushLen v off) = Some (I', L', c', p', r)"
  shows "simulated D W J sss s (moved s i I' L' p' c' (replied i r))"
proof -
  let ?t = "home D (length sss) v" and ?I = "m_interner s"
  let ?A = "strings (shards ?I ! ?t)"
  note okD = conc_okD [OF ok]
  have t: "?t < length (shards ?I)" using okD(5) base_okD(8) [OF okD(1)] okD(2) by (simp add: shape_ok_def)
  have st: "I' = set_strings ?I ?t (?A\<lparr>arr_len := arr_len ?A + 1\<rparr>)" "L' = m_locks s" "c' = c" "p' = PushLoad v off (arr_len ?A)" "r = None"
    using act by (simp_all add: okD(4) Let_def push_len_def)
  have stage: "shard_stage D (length sss) J ?I (sss ! ?t) ?t (PushLen v off)"
    using i by (intro writer_stage [OF ok i]) simp
  then have "shard_stage D (length sss) J I' (sss ! ?t) ?t p'"
    using t by (simp add: shard_stage_def Let_def st set_strings_shape)
  moreover have "act D i ?I (m_locks s) c (PushLen v off) = Some (I', L', c, p', None)" using act st(3,5) by simp
  ultimately show ?thesis unfolding st(3,5)
    using okD(2,5) okD(7) [OF i] t
    by (intro sim_writing [OF ok i, where t = ?t])
      (simp_all add: st place_of_def set_strings_shape arr_le_def Let_def)
qed

lemma sim_push_load:
  assumes ok: "conc_ok D W J sss s" and i: "i < length (m_threads s)" "m_threads s ! i = \<lparr>th_pc = PushLoad v off idx, th_cache = c\<rparr>"
    and act: "act D i (m_interner s) (m_locks s) c (PushLoad v off idx) = Some (I', L', c', p', r)"
  shows "simulated D W J sss s (moved s i I' L' p' c' (replied i r))"
proof -
  let ?t = "home D (length sss) v" and ?I = "m_interner s"
  let ?A = "strings (shards J ! ?t)"
  note okD = conc_okD [OF ok]
  have stage: "shard_stage D (length sss) J ?I (sss ! ?t) ?t (PushLoad v off idx)"
    using i by (intro writer_stage [OF ok i]) simp
  have "arr_len ?A < 2 ^ 24" using base_okD(7) [OF okD(1) okD(5)] by (simp add: shard_rep_def arr_rep_def)
  then have "idx div 4096 < 4096" using stage by (simp add: shard_stage_def Let_def less_mult_imp_div_less)
  then have load: "push_load (strings (shards ?I ! ?t)) idx = Inr (chunks ?A (idx div 4096))"
    using stage by (simp add: push_load_def shard_stage_def Let_def drop_bit_12)
  have st: "I' = ?I" "L' = m_locks s" "c' = c" "r = None"
      "p' = (case chunks ?A (idx div 4096) of None \<Rightarrow> PushExchange v off idx | Some q \<Rightarrow> PushStore v off idx q)"
    using act load by (simp_all add: okD(4) Let_def split: option.splits)
  have "shard_stage D (length sss) J ?I (sss ! ?t) ?t p'"
    using stage by (cases "chunks ?A (idx div 4096)") (simp_all add: shard_stage_def Let_def st(5))
  moreover have "act D i ?I (m_locks s) c (PushLoad v off idx) = Some (I', L', c, p', None)" using act st(3,4) by simp
  ultimately show ?thesis unfolding st(3,4)
    using okD(2,5) okD(7) [OF i]
    by (intro sim_writing [OF ok i, where t = ?t])
      (simp_all add: st place_of_def arr_le_refl Let_def split: option.splits)
qed

lemma sim_push_exchange:
  assumes ok: "conc_ok D W J sss s" and i: "i < length (m_threads s)" "m_threads s ! i = \<lparr>th_pc = PushExchange v off idx, th_cache = c\<rparr>"
    and act: "act D i (m_interner s) (m_locks s) c (PushExchange v off idx) = Some (I', L', c', p', r)"
  shows "simulated D W J sss s (moved s i I' L' p' c' (replied i r))"
proof -
  let ?t = "home D (length sss) v" and ?I = "m_interner s"
  let ?A = "strings (shards J ! ?t)" and ?B = "strings (shards ?I ! ?t)"
  note okD = conc_okD [OF ok]
  have t: "?t < length (shards ?I)" using okD(5) base_okD(8) [OF okD(1)] okD(2) by (simp add: shape_ok_def)
  have stage: "shard_stage D (length sss) J ?I (sss ! ?t) ?t (PushExchange v off idx)"
    using i by (intro writer_stage [OF ok i]) simp
  then have B: "?B = ?A\<lparr>arr_len := arr_len ?A + 1\<rparr>" "chunks ?B (idx div 4096) = None" by (auto simp: shard_stage_def Let_def)
  then have st: "I' = set_strings ?I ?t (add_chunk ?B (idx div 4096))" "L' = m_locks s" "c' = c" "r = None"
      "p' = PushStore v off idx (next_chunk ?A)"
    using act by (simp_all add: okD(4) Let_def push_exchange_def drop_bit_12)
  have "add_chunk ?B (idx div 4096) = (add_chunk ?A (idx div 4096))\<lparr>arr_len := arr_len ?A + 1\<rparr>"
    by (simp add: B add_chunk_def)
  then have "shard_stage D (length sss) J I' (sss ! ?t) ?t p'"
    using stage t B by (simp add: shard_stage_def Let_def st set_strings_shape)
  moreover have "arr_le ?B (strings (shards I' ! ?t))" using t arr_le_steps(3) [OF B(2)] by (simp add: st(1) set_strings_shape)
  moreover have "act D i ?I (m_locks s) c (PushExchange v off idx) = Some (I', L', c, p', None)" using act st(3,4) by simp
  ultimately show ?thesis unfolding st(3,4)
    using okD(2,5) okD(7) [OF i]
    by (intro sim_writing [OF ok i, where t = ?t]) (simp_all add: st place_of_def set_strings_shape Let_def)
qed

lemma sim_publish:
  assumes ok: "conc_ok D W J sss s" and i: "i < length (m_threads s)" "m_threads s ! i = \<lparr>th_pc = Publish v off idx, th_cache = c\<rparr>"
    and act: "act D i (m_interner s) (m_locks s) c (Publish v off idx) = Some (I', L', c', p', r)"
  shows "simulated D W J sss s (moved s i I' L' p' c' (replied i r))"
proof -
  let ?t = "home D (length sss) v" and ?I = "m_interner s"
  let ?ss = "sss ! ?t" and ?sh = "shards ?I ! ?t"
  note okD = conc_okD [OF ok]
  have t: "?t < length (shards ?I)" using okD(5) base_okD(8) [OF okD(1)] okD(2) by (simp add: shape_ok_def)
  have stage: "shard_stage D (length sss) J ?I ?ss ?t (Publish v off idx)"
    using i by (intro writer_stage [OF ok i]) simp
  then have idx: "idx < length ?ss" "?ss ! idx = v" "unat off = layout (region_base (ipool J) ?t) ?ss ! idx"
    and js: "shards J ! ?t = ?sh\<lparr>entries := ht_insert_unique D (entries ?sh) (hash_of D v) (hash_of D v, prefix8 v, mk_sym ?t idx)\<rparr>"
    by (auto simp: shard_stage_def Let_def)
  note rep = base_okD(7) [OF okD(1,5), of v]
  have "idx < 2 ^ 24 - 1" using rep idx(1) by (simp add: shard_rep_def)
  then have sym: "symbol_new (word_of_nat ?t) idx = Inr (mk_sym ?t idx)" by (rule symbol_new_mk_sym)
  have "pmem (ipool ?I) = pmem (ipool J)" using okD(2) by (simp add: shape_ok_def)
  moreover have "record_at (pmem (ipool J)) (unat off) v" using rep idx by (auto simp: shard_rep_def)
  ultimately have body: "mem_read (pmem (ipool ?I)) (unat off + 4) (length v) = v" by (simp add: record_at_def)
  have st: "I' = set_shard ?I ?t (shards J ! ?t)" "c' = c" "r = None"
      "p' = CacheStore v (unat off + 4, v) (mk_sym ?t idx)"
    using act by (simp_all add: okD(4) Let_def sym body js)
  have "shard_stage D (length sss) J I' ?ss ?t Idle"
    using stage t by (simp add: shard_stage_def Let_def st(1) set_shard_def)
  moreover have "act D i ?I (m_locks s) c (Publish v off idx) = Some (I', L', c, p', None)" using act st(2,3) by simp
  moreover have "wok W v" using okD(7) [OF i] by (simp add: place_of_def Let_def)
  moreover have "place_of D W J sss I' p'"
    using idx \<open>wok W v\<close> by (auto simp: place_of_def found_text_def Let_def st(4) text_addr_def)
  moreover have "arr_le (strings ?sh) (strings (shards I' ! ?t))"
    using t by (simp add: st(1) set_shard_def js arr_le_refl)
  ultimately show ?thesis unfolding st(2,3)
    using okD(2,5)
    by (intro sim_writing [OF ok i, where t = ?t])
      (simp_all add: st(1,4) shape_ok_def set_shard_def)
qed

section \<open>The allocation\<close>

lemma alloc_write_cong:
  assumes "cursors P ! sid = cursors Q ! sid" "length (cursors P) = length (cursors Q)" "region_size P = region_size Q"
    "header_size P = header_size Q" "pmem P = pmem Q"
  shows "alloc_write Q sid v = (Inr x, Q\<lparr>pmem := m\<rparr>) \<Longrightarrow> alloc_write P sid v = (Inr x, P\<lparr>pmem := m\<rparr>)"
    "sid < length (cursors Q) \<Longrightarrow>
     alloc_write Q sid v = (Inl (PoolExhausted sid), if poisoned (cursors Q ! sid) then Q else poison Q sid) \<Longrightarrow>
     alloc_write P sid v = (Inl (PoolExhausted sid), if poisoned (cursors Q ! sid) then P else poison P sid)"
proof -
  have upd: "Q\<lparr>pmem := m'\<rparr> = Q\<lparr>pmem := m\<rparr> \<Longrightarrow> m' = m" for m' by (cases Q) simp
  show "alloc_write Q sid v = (Inr x, Q\<lparr>pmem := m\<rparr>) \<Longrightarrow> alloc_write P sid v = (Inr x, P\<lparr>pmem := m\<rparr>)"
    using assms upd by (auto simp: alloc_write_def Let_def split: if_splits)
  show "sid < length (cursors Q) \<Longrightarrow>
     alloc_write Q sid v = (Inl (PoolExhausted sid), if poisoned (cursors Q ! sid) then Q else poison Q sid) \<Longrightarrow>
     alloc_write P sid v = (Inl (PoolExhausted sid), if poisoned (cursors Q ! sid) then P else poison P sid)"
    using assms by (auto simp: alloc_write_def Let_def split: if_splits)
qed

text \<open>A record that is about to be published stays in place when another shard's record is written.\<close>

lemma pending_written:
  assumes "pending D n P ss sid w off" "fits P t v" "sid \<noteq> t"
  shows "record_at (pmem (stored P t v)) (unat off) w"
  using assms by (intro record_other_region [of sid t P]) (auto simp: pending_def fits_def)

lemma base_ok_written:
  assumes "base_ok D W J sss" "fits (ipool J) sid v"
  shows "base_ok D W (J\<lparr>ipool := written (ipool J) sid v\<rparr>) sss"
  using assms interner_rep_written by (auto simp: base_ok_def arena_sized_def)

lemma base_ok_poison:
  assumes "base_ok D W J sss" "sid < length sss"
  shows "base_ok D W (J\<lparr>ipool := poison (ipool J) sid\<rparr>) sss"
  using assms interner_rep_poison by (auto simp: base_ok_def arena_sized_def)

lemma closed_poison: "sid < length (cursors P) \<Longrightarrow> closed (poison P sid) = insert sid (closed P)"
  by (auto simp: closed_def poison_def nth_list_update)

lemma poison_cursors:
  "cursors (poison P sid) ! t = (if t = sid \<and> sid < length (cursors P) then (cursors P ! sid)\<lparr>poisoned := True\<rparr> else cursors P ! t)"
  by (cases "sid < length (cursors P)") (simp_all add: poison_def list_update_beyond)

lemma room_iff:
  assumes ok: "conc_ok D W J sss s" and t: "t < length sss"
    and cur: "cursors (ipool (m_interner s)) ! t = cursors (ipool J) ! t"
  shows "room (unat (region_size (ipool J))) (spec_abs D sss s) t v \<longleftrightarrow> \<not> poisoned (cursors (ipool J) ! t) \<and> fits (ipool J) t v"
proof -
  note okD = conc_okD [OF ok]
  have "cursor_of (ipool J) t = total_size (sss ! t)" using base_okD(7) [OF okD(1) t] by (simp add: shard_rep_def)
  moreover have "t < length (cursors (ipool (m_interner s)))" using t base_okD(9) [OF okD(1)] okD(2) by (simp add: shape_ok_def)
  ultimately show ?thesis using cur by (simp add: room_def spec_abs_def closed_def fits_def)
qed

lemma sim_alloc:
  assumes ok: "conc_ok D W J sss s" and i: "i < length (m_threads s)" "m_threads s ! i = \<lparr>th_pc = Alloc v, th_cache = c\<rparr>"
    and act: "act D i (m_interner s) (m_locks s) c (Alloc v) = Some (I', L', c', p', r)"
  shows "simulated D W J sss s (moved s i I' L' p' c' (replied i r))"
proof -
  let ?t = "home D (length sss) v" and ?I = "m_interner s"
  let ?P = "ipool J" and ?Q = "ipool ?I"
  note okD = conc_okD [OF ok]
  have wok: "wok W v" using okD(7) [OF i] by (simp add: place_of_def Let_def)
  then have len: "length v < 2 ^ 32 - 7" by (simp add: wok_def value_ok_def)
  have stage: "shard_stage D (length sss) J ?I (sss ! ?t) ?t (Alloc v)" using i by (intro writer_stage [OF ok i]) simp
  then have here: "shards ?I ! ?t = shards J ! ?t" "cursors ?Q ! ?t = cursors ?P ! ?t" "v \<notin> set (sss ! ?t)"
    by (simp_all add: shard_stage_def Let_def)
  have t: "?t < length (cursors ?P)" using okD(5) base_okD(9) [OF okD(1)] by simp
  have shape: "length (cursors ?Q) = length (cursors ?P)" "region_size ?Q = region_size ?P" "header_size ?Q = header_size ?P"
      "pmem ?Q = pmem ?P" using okD(2) by (simp_all add: shape_ok_def)
  have le: "arrays_le (length sss) ?I I0" if "shards I0 = shards ?I" for I0 :: "'a interner"
    using that arr_le_refl by (simp add: arrays_le_def)
  note cong = alloc_write_cong [OF here(2) shape]
  show ?thesis
  proof (cases "\<not> poisoned (cursors ?P ! ?t) \<and> fits ?P ?t v")
    case True
    obtain off cur where w: "alloc_write ?P ?t v = (Inr (off, cur), written ?P ?t v)"
        "unat off = region_base ?P ?t + cursor_of ?P ?t"
        "(cursors ?P ! ?t)\<lparr>cvalue := cur\<rparr> = cursors (stored ?P ?t v) ! ?t"
      using alloc_write_ok [OF base_okD(4) [OF okD(1)] t _ len, of] True by blast
    let ?J = "J\<lparr>ipool := written ?P ?t v\<rparr>"
    have st: "I' = ?I\<lparr>ipool := ?Q\<lparr>pmem := pmem (stored ?P ?t v)\<rparr>\<rparr>" "c' = c" "p' = Commit v off cur" "r = None"
      using act cong(1) [OF w(1)] by (simp_all add: okD(4) Let_def)
    have pend: "pending D (length sss) (written ?P ?t v) (sss ! ?t) ?t v off"
      using True here(3) wok w(2) stored_reads [OF len, of ?P ?t] by (simp add: pending_def wok_def record_at_def)
    have conc: "conc_ok D W ?J sss (moved s i I' L' p' c' es)" for es
    proof (rule conc_move [OF ok i act, where t = ?t])
      show "base_ok D W ?J sss" using True by (intro base_ok_written [OF okD(1)]) simp
      show "shape_ok ?J I'" using okD(2) by (simp add: shape_ok_def st)
      show "record_at (pmem (ipool ?J)) (unat off) w"
        if "sid \<noteq> ?t" "pending D (length sss) ?P (sss ! sid) sid w off" for sid w off
        using pending_written [OF that(2) _ that(1)] True by simp
      show "thread_ok D W ?J sss I' th" if "thread_ok D W J sss ?I th" for th
        using that by (rule thread_ok_same) (simp_all add: le st)
      show "thread_ok D W ?J sss I' \<lparr>th_pc = p', th_cache = c'\<rparr>"
        by (rule thread_ok_same [of _ _ J _ ?I]) (use okD(6) [OF i] wok le in \<open>simp_all add: st thread_ok_def place_of_def Let_def\<close>)
      show "shard_stage D (length sss) ?J I' (sss ! ?t) ?t (if holds_write D (length sss) ?t p' then p'
          else if holds_write D (length sss) ?t (Alloc v) then Idle else stage (m_locks s) (m_threads s) ?t)"
        using here pend w(3) cursors_stored [OF t] by (simp add: st(1,3) shard_stage_def Let_def)
    qed (simp_all add: st)
    then show ?thesis
      using i st sim_stutter [of D W ?J sss s i I' L' p' c' J "Alloc v"] by (simp add: replied_def closed_def)
  next
    case False
    define J' where "J' = (if poisoned (cursors ?P ! ?t) then J else J\<lparr>ipool := poison ?P ?t\<rparr>)"
    have w: "alloc_write ?P ?t v = (Inl (PoolExhausted ?t), if poisoned (cursors ?P ! ?t) then ?P else poison ?P ?t)"
      using False by (intro alloc_write_full [OF base_okD(4) [OF okD(1)] t len]) blast
    have st: "I' = (if poisoned (cursors ?P ! ?t) then ?I else ?I\<lparr>ipool := poison ?Q ?t\<rparr>)" "c' = c" "p' = Idle"
        "r = Some (RPanic (PoolExhausted ?t))"
      using act cong(2) [OF t w] by (simp_all add: okD(4) Let_def split: if_splits)
    have J': "region_size (ipool J') = region_size ?P" "interner_id J' = interner_id J" "shards J' = shards J"
        "pmem (ipool J') = pmem ?P" "shards I' = shards ?I"
      by (simp_all add: J'_def st(1))
    have conc: "conc_ok D W J' sss (moved s i I' L' p' c' es)" for es
    proof (rule conc_move [OF ok i act, where t = ?t])
      show "base_ok D W J' sss" using okD(1) base_ok_poison [OF okD(1,5)] by (simp add: J'_def)
      show "shape_ok J' I'" using okD(2) by (simp add: shape_ok_def st J'_def)
      show "record_at (pmem (ipool J')) (unat off) w" if "pending D (length sss) ?P (sss ! sid) sid w off" for sid w off
        using that unfolding pending_def J' by blast
      show "thread_ok D W J' sss I' th" if "thread_ok D W J sss ?I th" for th
        by (rule thread_ok_same [OF that le J'(2,1)]) (simp add: J')
      show "thread_ok D W J' sss I' \<lparr>th_pc = p', th_cache = c'\<rparr>"
        by (rule thread_ok_same [of _ _ J _ ?I, OF _ le J'(2,1)]) (use okD(6) [OF i] in \<open>simp_all add: J' st thread_ok_def place_of_def\<close>)
      show "shard_stage D (length sss) J' I' (sss ! ?t) ?t (if holds_write D (length sss) ?t p' then p'
          else if holds_write D (length sss) ?t (Alloc v) then Idle else stage (m_locks s) (m_threads s) ?t)"
        using here t shape(1) by (simp add: st(1,3) J'_def shard_stage_def poison_cursors)
    qed (simp_all add: st J' poison_cursors J'_def)
    have cl: "closed (ipool I') = insert ?t (closed ?Q)"
    proof (cases "poisoned (cursors ?P ! ?t)")
      case True
      then have "?t \<in> closed ?Q" using t shape(1) here(2) by (simp add: closed_def)
      then show ?thesis using True by (simp add: st(1) insert_absorb)
    next
      case False
      then show ?thesis using t shape(1) closed_poison [of ?t ?Q] by (simp add: st(1))
    qed
    let ?a = "spec_abs D sss s" and ?R = "unat (region_size ?P)"
    have "abs_get D (sp_strings ?a) v = None"
      using here(3) wok by (simp add: spec_abs_def abs_get_dynamic wok_def abs_find_None)
    moreover have "\<not> room ?R ?a ?t v" using room_iff [OF ok okD(5) here(2)] False by blast
    moreover have "sp_strings ?a = sss" by (simp add: spec_abs_def)
    moreover have "i < length (sp_pcs ?a) \<and> sp_pcs ?a ! i = SIntern v" using spec_abs_pc [OF i(1), of "Alloc v" D sss] i(2) by simp
    ultimately have "spec_step D ?R ?a (?a\<lparr>sp_closed := insert ?t (sp_closed ?a), sp_pcs := (sp_pcs ?a)[i := SIdle],
        sp_trace := sp_trace ?a @ [Replied i (RPanic (PoolExhausted ?t))]\<rparr>)"
      by (intro spec_full) simp_all
    then show ?thesis
      by (rule sim_steps [OF conc J'(1) r_into_rtranclp]) (simp add: spec_abs_def map_update cl st(3,4) replied_def)
  qed
qed

section \<open>The insertion\<close>

lemma insert_new_parts:
  assumes "insert_new D J sid h pre v = (Inr (off, y), J')"
  shows "sid < length (shards J) \<Longrightarrow> shards J' ! sid = (shards J ! sid)\<lparr>strings := snd (array_push (strings (shards J ! sid)) off),
       entries := ht_insert_unique D (entries (shards J ! sid)) h (h, pre, y)\<rparr>"
    "t \<noteq> sid \<Longrightarrow> shards J' ! t = shards J ! t" "shard_mask J' = shard_mask J" "length (shards J') = length (shards J)"
  using assms by (auto simp: insert_new_def Let_def set_shard_def split: prod.splits sum.splits)

text \<open>Storing the offset ends the push that the other steps have prepared.\<close>

lemma push_store_ends:
  assumes A: "arr_len A < 2 ^ 24"
    and B: "B = A \<and> chunks A (arr_len A div 4096) = Some q \<or>
       chunks A (arr_len A div 4096) = None \<and> B = add_chunk A (arr_len A div 4096) \<and> q = next_chunk A"
  shows "snd (array_push A off) = push_store (B\<lparr>arr_len := arr_len A + 1\<rparr>) (arr_len A) q off"
proof -
  have "arr_len A div 4096 < 4096" using A by (simp add: less_mult_imp_div_less)
  moreover have "add_chunk (A\<lparr>arr_len := arr_len A + 1\<rparr>) c = (add_chunk A c)\<lparr>arr_len := arr_len A + 1\<rparr>" for c
    by (simp add: add_chunk_def)
  ultimately show ?thesis
    using B by (auto simp: array_push_steps push_len_def push_load_def push_exchange_def drop_bit_12)
qed

lemma sim_push_store:
  assumes ok: "conc_ok D W J sss s" and D: "hashbrown_ok D"
    and i: "i < length (m_threads s)" "m_threads s ! i = \<lparr>th_pc = PushStore v off idx q, th_cache = c\<rparr>"
    and act: "act D i (m_interner s) (m_locks s) c (PushStore v off idx q) = Some (I', L', c', p', r)"
  shows "simulated D W J sss s (moved s i I' L' p' c' (replied i r))"
proof -
  let ?t = "home D (length sss) v" and ?I = "m_interner s" and ?P = "ipool J"
  let ?A = "strings (shards J ! ?t)" and ?ss = "sss ! ?t" and ?sss = "add_string sss (home D (length sss) v) v"
  note okD = conc_okD [OF ok]
  note rep = base_okD(7) [OF okD(1,5), of v]
  have wok: "wok W v" using okD(7) [OF i] by (simp add: place_of_def Let_def)
  have stage: "shard_stage D (length sss) J ?I ?ss ?t (PushStore v off idx q)" using i by (intro writer_stage [OF ok i]) simp
  then have pend: "pending D (length sss) ?P ?ss ?t v off" and idx: "idx = arr_len ?A"
    and ic: "cursors (ipool ?I) ! ?t = next_cursor (cursors ?P ! ?t) v"
    by (auto simp: shard_stage_def Let_def)
  obtain B where B: "B = ?A \<and> chunks ?A (arr_len ?A div 4096) = Some q \<or>
        chunks ?A (arr_len ?A div 4096) = None \<and> B = add_chunk ?A (arr_len ?A div 4096) \<and> q = next_chunk ?A"
      "shards ?I ! ?t = (shards J ! ?t)\<lparr>strings := B\<lparr>arr_len := arr_len ?A + 1\<rparr>\<rparr>"
    using stage by (auto simp: shard_stage_def Let_def)
  have v: "value_ok v" "static_symbol v = None" "v \<notin> set ?ss" "\<not> poisoned (cursors ?P ! ?t)" "fits ?P ?t v"
      "unat off = region_base ?P ?t + cursor_of ?P ?t" "record_at (pmem ?P) (region_base ?P ?t + cursor_of ?P ?t) v"
      "length v < 2 ^ 32 - 7"
    using pend by (auto simp: pending_def value_ok_def)
  have A: "arr_rep ?A (map word_of_nat (layout (region_base ?P ?t) ?ss))" "arr_len ?A = length ?ss" "cursor_of ?P ?t = total_size ?ss"
    using rep by (simp_all add: shard_rep_def arr_rep_def)
  have room: "length ?ss < 2 ^ 24 - 1"
    using room_of_sized [OF okD(3) base_okD(3,2) [OF okD(1)] okD(5) v(5)] dynamic_length [OF v(1,2)] by blast
  obtain off' J' where J': "insert_new D J ?t (hash_of D v) (prefix8 v) v = (Inr (off', mk_sym ?t (length ?ss)), J')"
      "interner_rep D J' ?sss" "interner_id J' = interner_id J" "ipool J' = stored ?P ?t v"
      "unat off' = region_base ?P ?t + total_size ?ss"
    using insert_new_rep [OF D okD(3) v(1,2) refl v(3-5) room] by blast
  have "unat off' = unat off" using J'(5) v(6) A(3) by simp
  then have "off' = off" by (rule unsigned_word_eqI)
  note parts = insert_new_parts [OF J'(1) [unfolded this]]
  have t: "?t < length (shards J)" "?t < length (shards ?I)" "?t < length (cursors ?P)"
    using okD(5) base_okD(8,9) [OF okD(1)] okD(2) by (simp_all add: shape_ok_def)
  let ?A' = "push_store (B\<lparr>arr_len := arr_len ?A + 1\<rparr>) (arr_len ?A) q off"
  have push: "snd (array_push ?A off) = ?A'" using room A(2) by (intro push_store_ends [OF _ B(1)]) simp
  have st: "I' = set_strings ?I ?t ?A'" "L' = m_locks s" "c' = c" "p' = Publish v off (length ?ss)" "r = None"
    using act by (simp_all add: okD(4) Let_def B(2) idx A(2))
  have le: "arrays_le (length sss) ?I I'"
    unfolding arrays_le_def
  proof (intro allI impI)
    fix sid
    show "arr_le (strings (shards ?I ! sid)) (strings (shards I' ! sid))"
      using t B(2) arr_le_steps(1,4) by (cases "sid = ?t") (simp_all add: st(1) set_strings_shape)
  qed
  have mem: "pmem (stored ?P ?t v) = pmem ?P" by (rule stored_again [OF v(7,8)])
  have conc: "conc_ok D W J' ?sss (moved s i I' L' p' c' (replied i r))"
  proof (rule conc_move [OF ok i act, where t = ?t])
    have "set ss \<subseteq> W" if "ss \<in> set ?sss" for ss
    proof -
      have "ss \<in> insert (?ss @ [v]) (set sss)" using that set_update_subset_insert unfolding add_string_def by fastforce
      moreover have "set ?ss \<subseteq> W" "\<forall>ss \<in> set sss. set ss \<subseteq> W"
        using base_okD(6) [OF okD(1,5)] okD(1) by (simp_all add: base_ok_def)
      ultimately show ?thesis using wok by (auto simp: wok_def)
    qed
    then show "base_ok D W J' ?sss" using okD(1) J'(2,4) by (simp add: base_ok_def arena_sized_def)
    show "shape_ok J' I'" using okD(2) parts(3,4) J'(3,4) mem by (simp add: st(1) set_strings_shape shape_ok_def set_strings_def set_shard_def)
    show "record_at (pmem (ipool J')) (unat off0) w" if "pending D (length sss) ?P (sss ! sid) sid w off0" for sid w off0
      using that unfolding pending_def J'(4) mem by blast
    show "thread_ok D W J' ?sss I' th" if "thread_ok D W J sss ?I th" for th
      by (rule thread_ok_grow [OF that le J'(3,4) okD(5)])
    then show "thread_ok D W J' ?sss I' \<lparr>th_pc = p', th_cache = c'\<rparr>"
      using thread_ok_grow [OF _ le J'(3,4) okD(5), of W "\<lparr>th_pc = Idle, th_cache = c\<rparr>"] okD(6) [OF i] wok
      by (simp add: thread_ok_def place_of_def st Let_def)
    have "layout (region_base ?P ?t) (?ss @ [v]) ! length ?ss = unat off"
      using v(6) A(3) by (simp add: layout_append nth_append)
    then show "shard_stage D (length sss) J' I' (?sss ! ?t) ?t (if holds_write D (length sss) ?t p' then p'
        else if holds_write D (length sss) ?t (PushStore v off idx q) then Idle else stage (m_locks s) (m_threads s) ?t)"
      using parts(1) [OF t(1)] t okD(5) ic cursors_stored [OF t(3)] B(2)
      by (simp add: st(1,4) shard_stage_def Let_def set_strings_shape push J'(4) add_string_def)
  qed (use parts(2) J'(4) okD(5) cursors_stored [OF t(3)] in \<open>simp_all add: st set_strings_shape add_string_def\<close>)
  let ?a = "spec_abs D sss s" and ?R = "unat (region_size ?P)"
  have "sp_strings ?a = sss" by (simp add: spec_abs_def)
  moreover have "abs_get D (sp_strings ?a) v = None" using v(2,3) by (simp add: spec_abs_def abs_get_dynamic abs_find_None)
  moreover have "room ?R ?a ?t v"
  proof -
    have "poisoned (cursors (ipool ?I) ! ?t) = poisoned (cursors ?P ! ?t)" using ic by (simp add: next_cursor_def)
    then show ?thesis using v(4,5) A(3) by (simp add: room_def spec_abs_def closed_def fits_def)
  qed
  moreover have "i < length (sp_pcs ?a) \<and> sp_pcs ?a ! i = SIntern v"
    using spec_abs_pc [OF i(1), of "PushStore v off idx q" D sss] i(2) by simp
  ultimately have "spec_step D ?R ?a (?a\<lparr>sp_strings := ?sss, sp_pcs := (sp_pcs ?a)[i := SInterned v (mk_sym ?t (length ?ss))]\<rparr>)"
    using spec_add [of i ?a v D ?t ?R] by simp
  moreover have "region_size (ipool J') = region_size ?P" by (simp add: J'(4))
  ultimately show ?thesis
    by (intro sim_steps [OF conc _ r_into_rtranclp]) (simp_all add: spec_abs_def map_update st replied_def set_strings_shape)
qed

end
