(* ===== verification/Threads_Reads.thy ===== *)
theory Threads_Reads
  imports Threads_Sim
begin

unbundle bit_operations_syntax

text \<open>
  The steps of a thread that change no shard, answered by the atomic interner: looking a string up
  under a lock, storing into the thread's own cache, \<open>get\<close>, and the lock-free reads of \<open>resolve\<close>.
\<close>

text \<open>Under a read lock the shard is as it was after the last insertion.\<close>

lemma read_locked:
  assumes ok: "conc_ok D W J sss s" and i: "i < length (m_threads s)" "th_pc (m_threads s ! i) = p"
    and p: "holds_read D (length sss) sid p" and sid: "sid < length sss"
  shows "shards (m_interner s) ! sid = shards J ! sid"
proof -
  have "i \<in> lk_readers (m_locks s sid)" using locks_okD(2) [OF conc_okD(8) [OF ok]] i p by simp
  then have "lk_writer (m_locks s sid) = None" using locks_okD(3) [OF conc_okD(8) [OF ok], of sid] by blast
  then show ?thesis using stage_unlocked(1) [OF ok _ sid] by blast
qed

section \<open>Interning\<close>

lemma sim_read_lock:
  assumes ok: "conc_ok D W J sss s" and i: "i < length (m_threads s)" "m_threads s ! i = \<lparr>th_pc = ReadLock v, th_cache = c\<rparr>"
    and act: "act D i (m_interner s) (m_locks s) c (ReadLock v) = Some (I', L', c', p', r)"
  shows "simulated D W J sss s (moved s i I' L' p' c' (replied i r))"
proof -
  have st: "I' = m_interner s" "c' = c" "p' = Lookup v" "r = None" using act by (auto simp: Let_def split: if_splits)
  have "conc_ok D W J sss (moved s i (m_interner s) L' p' c' [])"
    by (rule move_reading [OF ok i act [unfolded st(1)], where t = "home D (length sss) v"])
      (use conc_okD(6,7) [OF ok i] in \<open>auto simp: st place_of_def Let_def\<close>)
  then show ?thesis using i st by (simp add: replied_def sim_stutter)
qed

lemma sim_write_lock:
  assumes ok: "conc_ok D W J sss s" and i: "i < length (m_threads s)" "m_threads s ! i = \<lparr>th_pc = WriteLock v, th_cache = c\<rparr>"
    and act: "act D i (m_interner s) (m_locks s) c (WriteLock v) = Some (I', L', c', p', r)"
  shows "simulated D W J sss s (moved s i I' L' p' c' (replied i r))"
proof -
  let ?t = "home D (length sss) v"
  have st: "I' = m_interner s" "c' = c" "p' = Check v" "r = None" "lk_writer (m_locks s ?t) = None"
    using act conc_okD(4) [OF ok, of v] by (auto simp: Let_def split: if_splits)
  have "conc_ok D W J sss (moved s i (m_interner s) L' p' c' [])"
    by (rule move_reading [OF ok i act [unfolded st(1)], where t = ?t])
      (use conc_okD(6,7) [OF ok i] stage_unlocked [OF ok st(5)] in
        \<open>auto simp: st place_of_def Let_def shard_stage_def\<close>)
  then show ?thesis using i st by (simp add: replied_def sim_stutter)
qed

lemma sim_lookup:
  assumes ok: "conc_ok D W J sss s" and D: "hashbrown_ok D"
    and i: "i < length (m_threads s)" "m_threads s ! i = \<lparr>th_pc = Lookup v, th_cache = c\<rparr>"
    and act: "act D i (m_interner s) (m_locks s) c (Lookup v) = Some (I', L', c', p', r)"
  shows "simulated D W J sss s (moved s i I' L' p' c' (replied i r))"
proof -
  let ?t = "home D (length sss) v" and ?I = "m_interner s"
  note okD = conc_okD [OF ok]
  have t: "?t < length sss" by (rule okD(5))
  have wok: "wok W v" using okD(7) [OF i] by (simp add: place_of_def Let_def)
  have "shards ?I ! ?t = shards J ! ?t" using read_locked [OF ok i(1), of "Lookup v" ?t] i(2) t by simp
  then have look: "read_lookup D ?I ?t (hash_of D v) (prefix8 v) v = Inr (map_option (\<lambda>k. ((text_addr J sss ?t k, v), mk_sym ?t k))
      (find_index (\<lambda>w. w = v) (sss ! ?t)))"
    using shard_reads(4) [OF okD(2)] read_lookup_rep [OF D okD(3) t] by metis
  show ?thesis
  proof (cases "find_index (\<lambda>w. w = v) (sss ! ?t)")
    case None
    then have st: "I' = ?I" "c' = c" "p' = WriteLock v" "r = None" using act look by (simp_all add: Let_def okD(4))
    have "conc_ok D W J sss (moved s i ?I L' p' c' [])"
      by (rule move_reading [OF ok i act [unfolded st(1)]])
        (use okD(6) [OF i] wok in \<open>auto simp: st place_of_def Let_def\<close>)
    then show ?thesis using i st by (simp add: replied_def sim_stutter)
  next
    case (Some k)
    then have st: "I' = ?I" "c' = c" "p' = CacheStore v (text_addr J sss ?t k, v) (mk_sym ?t k)" "r = None"
      using act look by (simp_all add: Let_def okD(4))
    note f = found [OF ok refl _ Some]
    have "conc_ok D W J sss (moved s i ?I L' p' c' [])"
      by (rule move_reading [OF ok i act [unfolded st(1)]])
        (use okD(6) [OF i] wok f in \<open>auto simp: st place_of_def found_text_def Let_def wok_def\<close>)
    then show ?thesis
      using i st f(1) wok sim_find [of D W J sss s i L' p' c' "Lookup v" v "mk_sym ?t k"]
      by (simp add: replied_def wok_def)
  qed
qed

lemma sim_check:
  assumes ok: "conc_ok D W J sss s" and D: "hashbrown_ok D"
    and i: "i < length (m_threads s)" "m_threads s ! i = \<lparr>th_pc = Check v, th_cache = c\<rparr>"
    and act: "act D i (m_interner s) (m_locks s) c (Check v) = Some (I', L', c', p', r)"
  shows "simulated D W J sss s (moved s i I' L' p' c' (replied i r))"
proof -
  let ?t = "home D (length sss) v" and ?I = "m_interner s"
  note okD = conc_okD [OF ok]
  have t: "?t < length sss" by (rule okD(5))
  have wok: "wok W v" using okD(7) [OF i] by (simp add: place_of_def Let_def)
  have stage: "shard_stage D (length sss) J ?I (sss ! ?t) ?t (Check v)"
    using i by (intro stage_here [OF ok i(1) _ _ t]) simp_all
  then have sh: "shards ?I ! ?t = shards J ! ?t" by (simp add: shard_stage_def Let_def)
  have look: "find_entry D ?I ?t (hash_of D v) (prefix8 v) v =
      map_option (\<lambda>k. (hash_of D v, prefix8 v, mk_sym ?t k)) (find_index (\<lambda>w. w = v) (sss ! ?t))"
    using shard_reads(3) [OF okD(2) sh] find_checked [OF D okD(3) t] by metis
  show ?thesis
  proof (cases "find_index (\<lambda>w. w = v) (sss ! ?t)")
    case None
    then have st: "I' = ?I" "c' = c" "p' = Alloc v" "r = None" using act look by (simp_all add: Let_def okD(4))
    have "v \<notin> set (sss ! ?t)" using None by (auto simp: find_index_None)
    then have "shard_stage D (length sss) J ?I (sss ! ?t) ?t (Alloc v)"
      using stage by (simp add: shard_stage_def Let_def)
    then have "conc_ok D W J sss (moved s i ?I L' p' c' [])"
      by (intro move_reading [OF ok i act [unfolded st(1)], where t = ?t])
        (use okD(6) [OF i] wok in \<open>simp_all add: st place_of_def Let_def\<close>)
    then show ?thesis using i st by (simp add: replied_def sim_stutter)
  next
    case (Some k)
    note f = found [OF ok refl _ Some]
    have wf: "static_symbol v = None" using wok by (simp add: wok_def)
    note e = entry_test(1) [OF okD(3) t f(2) [OF wf]]
    have "shard_get_unchecked ?I ?t k = Inr (Some (text_addr J sss ?t k, v))"
      using shard_reads(2) [OF okD(2) sh] shard_get_unchecked_rep [OF okD(3) t f(2) [OF wf]] shard_get_rep [OF okD(3) t, of k]
        f(2,3) [OF wf] by (simp add: text_addr_def)
    then have st: "I' = ?I" "c' = c" "p' = CacheStore v (text_addr J sss ?t k, v) (mk_sym ?t k)" "r = None"
      using act look Some e by (simp_all add: Let_def okD(4))
    have "shard_stage D (length sss) J ?I (sss ! ?t) ?t Idle" using stage by (simp add: shard_stage_def Let_def)
    then have "conc_ok D W J sss (moved s i ?I L' p' c' [])"
      by (intro move_reading [OF ok i act [unfolded st(1)], where t = ?t])
        (use okD(6) [OF i] wok f [OF wf] in \<open>auto simp: st place_of_def found_text_def Let_def\<close>)
    then show ?thesis
      using i st f(1) [OF wf] sim_find [of D W J sss s i L' p' c' "Check v" v "mk_sym ?t k"] by (simp add: replied_def)
  qed
qed

lemma sim_cache_store:
  assumes ok: "conc_ok D W J sss s"
    and i: "i < length (m_threads s)" "m_threads s ! i = \<lparr>th_pc = CacheStore v t y, th_cache = c\<rparr>"
    and act: "act D i (m_interner s) (m_locks s) c (CacheStore v t y) = Some (I', L', c', p', r)"
  shows "simulated D W J sss s (moved s i I' L' p' c' (replied i r))"
proof -
  let ?t = "home D (length sss) v" and ?I = "m_interner s" and ?R = "unat (region_size (ipool J))" and ?a = "spec_abs D sss s"
  note okD = conc_okD [OF ok]
  have st: "I' = ?I" "c' = cache_store c ?I (hash_of D v) (prefix8 v) v (text_offset t) y" "p' = Idle" "r = Some (RIntern v y)"
    using act by auto
  obtain k where k: "k < length (sss ! ?t)" "sss ! ?t ! k = v" "y = mk_sym ?t k" "t = (text_addr J sss ?t k, v)"
    using okD(7) [OF i] by (auto simp: place_of_def found_text_def Let_def)
  have "cache_ok D J sss c'"
    using cache_store_ok [OF okD(6) [OF i] okD(5) k(1,2)] shared_reads(2) [OF okD(2)] k st(2) by simp
  then have conc: "conc_ok D W J sss (moved s i ?I L' p' c' (replied i r))"
    by (intro move_reading [OF ok i act [unfolded st(1)]]) (auto simp: st(3) place_of_def)
  have "i < length (sp_pcs ?a) \<and> sp_pcs ?a ! i = SInterned v y"
    using spec_abs_pc [OF i(1), of "CacheStore v t y" D sss] i(2) by simp
  then have "spec_step D ?R ?a (?a\<lparr>sp_pcs := (sp_pcs ?a)[i := SIdle], sp_trace := sp_trace ?a @ [Replied i (RIntern v y)]\<rparr>)"
    by (blast intro: spec_interned)
  with conc show ?thesis unfolding st(1)
    by (rule sim_steps [OF _ refl r_into_rtranclp]) (simp add: spec_abs_def map_update st replied_def)
qed

section \<open>Looking up and resolving\<close>

text \<open>A step of a thread that only reads: it goes on, or answers as the atomic interner does now.\<close>

lemma sim_reading:
  assumes ok: "conc_ok D W J sss s" and i: "i < length (m_threads s)" "m_threads s ! i = \<lparr>th_pc = p, th_cache = c\<rparr>"
    and act: "act D i (m_interner s) (m_locks s) c p = Some (I', L', c', p', r)"
    and p: "spec_of D (length sss) p = called x" and x: "\<And>v. x \<noteq> Intern v"
    and step: "I' = m_interner s \<and> cache_ok D J sss c' \<and>
      (r = None \<and> spec_of D (length sss) p' = called x \<and> place_of D W J sss (m_interner s) p' \<or>
       (\<exists>a. r = Some a \<and> answered D sss x a) \<and> p' = Idle)"
  shows "simulated D W J sss s (moved s i I' L' p' c' (replied i r))"
proof -
  have st: "I' = m_interner s" using step by auto
  have "(\<exists>v. x = Get v) \<or> (\<exists>y. x = Resolve y)" using x by (cases x) auto
  then have no: "\<not> holds_write D n sid q" if "spec_of D n q = called x" for n sid q using that by (cases q) auto
  have "place_of D W J sss (m_interner s) p'" "\<And>sid. \<not> holds_write D (length sss) sid p'"
    using step no by (auto simp: place_of_def)
  then have conc: "conc_ok D W J sss (moved s i (m_interner s) L' p' c' es)" for es
    using step no [OF p] by (intro move_reading [OF ok i act [unfolded st]]) auto
  from step consider "r = None" "spec_of D (length sss) p' = called x" | a where "r = Some a" "answered D sss x a" "p' = Idle"
    by blast
  then show ?thesis
  proof cases
    case 1
    then show ?thesis
      using conc i p st sim_stutter [of D W J sss s i "m_interner s" L' p' c' J p] by (simp add: replied_def)
  next
    case (2 a)
    then show ?thesis using conc i p st sim_answered [of D W J sss s i L' c' a p x] by (simp add: replied_def)
  qed
qed

lemma sim_get_lock:
  assumes ok: "conc_ok D W J sss s" and i: "i < length (m_threads s)" "m_threads s ! i = \<lparr>th_pc = GetLock v, th_cache = c\<rparr>"
    and act: "act D i (m_interner s) (m_locks s) c (GetLock v) = Some (I', L', c', p', r)"
  shows "simulated D W J sss s (moved s i I' L' p' c' (replied i r))"
  by (rule sim_reading [OF ok i act, of "Get v"])
    (use act conc_okD(6,7) [OF ok i] in \<open>auto simp: place_of_def Let_def split: if_splits\<close>)

lemma sim_get_lookup:
  assumes ok: "conc_ok D W J sss s" and D: "hashbrown_ok D"
    and i: "i < length (m_threads s)" "m_threads s ! i = \<lparr>th_pc = GetLookup v, th_cache = c\<rparr>"
    and act: "act D i (m_interner s) (m_locks s) c (GetLookup v) = Some (I', L', c', p', r)"
  shows "simulated D W J sss s (moved s i I' L' p' c' (replied i r))"
proof (rule sim_reading [OF ok i act, of "Get v"])
  let ?t = "home D (length sss) v" and ?I = "m_interner s"
  note okD = conc_okD [OF ok]
  have t: "?t < length sss" by (rule okD(5))
  have wok: "wok W v" using okD(7) [OF i] by (simp add: place_of_def Let_def)
  have sh: "shards ?I ! ?t = shards J ! ?t" using read_locked [OF ok i(1), of "GetLookup v" ?t] i(2) t by simp
  have look: "find_entry D ?I ?t (hash_of D v) (prefix8 v) v =
      map_option (\<lambda>k. (hash_of D v, prefix8 v, mk_sym ?t k)) (find_index (\<lambda>w. w = v) (sss ! ?t))"
    using shard_reads(3) [OF okD(2) sh] find_checked [OF D okD(3) t] by metis
  have get: "abs_get D sss v = map_option (mk_sym ?t) (find_index (\<lambda>w. w = v) (sss ! ?t))"
    using wok by (simp add: wok_def abs_get_dynamic abs_find_def)
  show "I' = m_interner s \<and> cache_ok D J sss c' \<and>
      (r = None \<and> spec_of D (length sss) p' = called (Get v) \<and> place_of D W J sss (m_interner s) p' \<or>
       (\<exists>a. r = Some a \<and> answered D sss (Get v) a) \<and> p' = Idle)"
  proof (cases "find_index (\<lambda>w. w = v) (sss ! ?t)")
    case None
    then show ?thesis using act look get okD(6) [OF i] by (auto simp: okD(4) Let_def answered_def)
  next
    case (Some k)
    have wf: "static_symbol v = None" using wok by (simp add: wok_def)
    note f = found [OF ok refl wf Some]
    have "shard_get ?I ?t k = Inr (Some (text_addr J sss ?t k, v))"
      using shard_reads(1) [OF okD(2) sh] shard_get_rep [OF okD(3) t, of k] f(2,3) by (simp add: text_addr_def)
    then show ?thesis
      using act look Some f okD(6) [OF i] wok entry_test(1) [OF okD(3) t f(2)]
      by (auto simp: okD(4) Let_def place_of_def found_text_def)
  qed
qed simp_all

lemma sim_get_store:
  assumes ok: "conc_ok D W J sss s"
    and i: "i < length (m_threads s)" "m_threads s ! i = \<lparr>th_pc = GetStore v t y, th_cache = c\<rparr>"
    and act: "act D i (m_interner s) (m_locks s) c (GetStore v t y) = Some (I', L', c', p', r)"
  shows "simulated D W J sss s (moved s i I' L' p' c' (replied i r))"
proof (rule sim_reading [OF ok i act, of "Get v"])
  let ?t = "home D (length sss) v"
  note okD = conc_okD [OF ok]
  obtain k where k: "k < length (sss ! ?t)" "sss ! ?t ! k = v" "y = mk_sym ?t k" "t = (text_addr J sss ?t k, v)"
    using okD(7) [OF i] by (auto simp: place_of_def found_text_def Let_def)
  have "static_symbol v = None" using okD(7) [OF i] by (simp add: place_of_def wok_def Let_def)
  then have "abs_get D sss v = Some y" using home_unique(4) [OF okD(3,5) k(1)] k(2,3) by (simp add: abs_get_dynamic abs_find_def)
  moreover have "cache_ok D J sss c'"
    using cache_store_ok [OF okD(6) [OF i] okD(5) k(1,2)] shared_reads(2) [OF okD(2)] k act by auto
  ultimately show "I' = m_interner s \<and> cache_ok D J sss c' \<and>
      (r = None \<and> spec_of D (length sss) p' = called (Get v) \<and> place_of D W J sss (m_interner s) p' \<or>
       (\<exists>a. r = Some a \<and> answered D sss (Get v) a) \<and> p' = Idle)"
    using act by (auto simp: answered_def)
qed simp_all

lemma sim_resolve_steps:
  assumes ok: "conc_ok D W J sss s" and i: "i < length (m_threads s)" "m_threads s ! i = \<lparr>th_pc = p, th_cache = c\<rparr>"
    and act: "act D i (m_interner s) (m_locks s) c p = Some (I', L', c', p', r)"
    and p: "p = ReadLen y \<or> p = ReadChunk y \<or> p = ReadSlot y q"
  shows "simulated D W J sss s (moved s i I' L' p' c' (replied i r))"
proof (rule sim_reading [OF ok i act, of "Resolve y"])
  let ?A = "strings (shards (m_interner s) ! shard_id y)" and ?i = "index y"
  have y: "shard_id y \<noteq> 255" "shard_id y < length sss" using conc_okD(7) [OF ok i] p by (auto simp: place_of_def Let_def)
  then have res: "abs_resolve sss y = (if ?i < length (sss ! shard_id y) then Some (sss ! shard_id y ! ?i) else None)"
    by (simp add: abs_resolve_def)
  note cache = conc_okD(6) [OF ok i]
  note lf = lock_free_reads [OF ok y(2)]
  show "spec_of D (length sss) p = called (Resolve y)" using p by auto
  from p consider "p = ReadLen y" | "p = ReadChunk y" | "p = ReadSlot y q" by blast
  then show "I' = m_interner s \<and> cache_ok D J sss c' \<and>
      (r = None \<and> spec_of D (length sss) p' = called (Resolve y) \<and> place_of D W J sss (m_interner s) p' \<or>
       (\<exists>a. r = Some a \<and> answered D sss (Resolve y) a) \<and> p' = Idle)"
  proof cases
    case 1
    then show ?thesis using act y res lf(2) [of ?i] cache by (auto simp: place_of_def answered_def Let_def split: if_splits)
  next
    case 2
    have "?i < arr_len ?A" using 2 conc_okD(7) [OF ok i] by (simp add: place_of_def Let_def)
    then have "?i div 4096 < 4096" using lf(1) by (simp add: less_mult_imp_div_less)
    then show ?thesis
      using 2 act y res lf(3) [of ?i] cache
      by (auto simp: place_of_def answered_def Let_def load_chunk_def drop_bit_12 split: option.splits)
  next
    case 3
    then have "chunks ?A (?i div 4096) = Some q" using conc_okD(7) [OF ok i] by (simp add: place_of_def Let_def)
    then show ?thesis using 3 act res lf(4) [of ?i q] cache by (auto simp: and_4095 answered_def)
  qed
qed simp_all

end
