(* ===== verification/Threads_Refine.thy ===== *)
theory Threads_Refine
  imports Threads_Insert Threads_Reads
begin

unbundle bit_operations_syntax

text \<open>
  The machine of \<open>Interner_Threads\<close>, whole: every step is answered by the atomic interner, a new
  interner starts as the empty one, and no thread waits for ever.
\<close>

section \<open>Starting a call\<close>

lemma conc_start:
  assumes ok: "conc_ok D W J sss s" and i: "i < length (m_threads s)" "m_threads s ! i = \<lparr>th_pc = Idle, th_cache = c\<rparr>"
    and start: "start D (m_interner s) c x = (p, r)" and self: "place_of D W J sss (m_interner s) p"
  shows "conc_ok D W J sss (moved s i (m_interner s) (m_locks s) p c es)"
proof -
  note okD = conc_okD [OF ok]
  have pc: "th_pc (m_threads s ! i) = Idle" using i(2) by simp
  have no: "\<not> holds_write D n sid p" for n sid
    using start by (cases x) (auto split: option.splits sum.splits if_splits)
  have locks: "locks_ok D (length sss) (m_locks s) ((m_threads s)[i := \<lparr>th_pc = p, th_cache = c\<rparr>])"
    by (rule locks_start [OF okD(8) i(1) pc start])
  have "stage (m_locks s) ((m_threads s)[i := \<lparr>th_pc = p, th_cache = c\<rparr>]) sid = stage (m_locks s) (m_threads s) sid" for sid
    using stage_step [OF okD(8) locks i(1) pc] no by simp
  moreover have "thread_ok D W J sss (m_interner s) th" if "th \<in> set ((m_threads s)[i := \<lparr>th_pc = p, th_cache = c\<rparr>])" for th
  proof -
    have "thread_ok D W J sss (m_interner s) \<lparr>th_pc = p, th_cache = c\<rparr>" using okD(6) [OF i] self by (simp add: thread_ok_def)
    then show ?thesis
      using that ok set_update_subset_insert [of "m_threads s" i] unfolding conc_ok_def by blast
  qed
  ultimately show ?thesis using ok locks by (simp add: conc_ok_def)
qed

text \<open>A call is either under way, or answered at once as the atomic interner answers it.\<close>

text \<open>The probe of a thread's own cache before it takes a lock.\<close>

lemma probe:
  assumes ok: "conc_ok D W J sss s" and ap: "apart D W" and c: "cache_ok D J sss c"
    and v: "v \<in> W" "value_ok v" "static_symbol v = None"
  obtains "cache_lookup c (m_interner s) (hash_of D v) (prefix8 v) v = Inr None"
      "shard_of (m_interner s) (hash_of D v) < length (shards (m_interner s))"
  | y where "cache_lookup c (m_interner s) (hash_of D v) (prefix8 v) v = Inr (Some y)" "abs_get D sss v = Some y"
proof -
  let ?t = "home D (length sss) v"
  note okD = conc_okD [OF ok]
  have "length (shards (m_interner s)) = length sss" using okD(2) base_okD(8) [OF okD(1)] by (simp add: shape_ok_def)
  then have t: "shard_of (m_interner s) (hash_of D v) < length (shards (m_interner s))" using okD(4,5) by simp
  from cache_lookup_rep [OF okD(3) c base_ok_apart [OF okD(1) ap v(1)] v(2,3) refl]
  consider "cache_lookup c J (hash_of D v) (prefix8 v) v = Inr None"
    | k where "find_index (\<lambda>w. w = v) (sss ! ?t) = Some k" "cache_lookup c J (hash_of D v) (prefix8 v) v = Inr (Some (mk_sym ?t k))"
    by blast
  then show thesis
  proof cases
    case 1
    then show thesis using that(1) t shared_reads(1) [OF okD(2)] by simp
  next
    case 2
    then show thesis using that(2) found(1) [OF ok refl v(3) 2(1)] shared_reads(1) [OF okD(2)] by simp
  qed
qed

lemma start_answers:
  assumes ok: "conc_ok D W J sss s" and ap: "apart D W" and c: "cache_ok D J sss c"
    and x: "\<And>v. x = Intern v \<or> x = Get v \<Longrightarrow> v \<in> W \<and> value_ok v" and start: "start D (m_interner s) c x = (p, r)"
  shows "r = None \<and> spec_of D (length sss) p = called x \<and> place_of D W J sss (m_interner s) p \<or>
    p = Idle \<and> (\<exists>a. r = Some a \<and> answered D sss x a)"
proof -
  have static: "\<exists>y. b = Inr y \<and> abs_get D sss v = Some y" if st: "static_symbol v = Some b" for v b
  proof -
    obtain y where "b = Inr y" using st by (auto simp: static_symbol_abs split: if_splits)
    then show ?thesis using abs_get_static [OF st] by blast
  qed
  show ?thesis
  proof (cases x)
    case (Resolve y)
    have "length (shards (m_interner s)) = length sss"
      using conc_okD(1,2) [OF ok] base_okD(8) by (metis shape_ok_def)
    moreover have "length sss \<le> 128" using interner_rep_count(2) [OF conc_okD(3) [OF ok]] .
    ultimately show ?thesis
      using start Resolve
      by (auto simp: answered_def abs_resolve_def place_of_def STATIC_SHARD_ID_def ASCII_STRINGS_nth split: if_splits)
  next
    case (Intern v)
    then have v: "v \<in> W" "value_ok v" using x by auto
    show ?thesis
    proof (cases "static_symbol v")
      case (Some b)
      then show ?thesis using start Intern static [OF Some] by (auto simp: answered_def)
    next
      case None
      show ?thesis
        by (rule probe [OF ok ap c v None]) (use start Intern None v in \<open>auto simp: place_of_def wok_def answered_def\<close>)
    qed
  next
    case (Get v)
    then have v: "v \<in> W" "value_ok v" using x by auto
    show ?thesis
    proof (cases "static_symbol v")
      case (Some b)
      then show ?thesis using start Get static [OF Some] by (auto simp: answered_def)
    next
      case None
      show ?thesis
        by (rule probe [OF ok ap c v None]) (use start Get None v in \<open>auto simp: place_of_def wok_def answered_def\<close>)
    qed
  qed
qed

lemma sim_call:
  assumes ok: "conc_ok D W J sss s" and ap: "apart D W"
    and i: "i < length (m_threads s)" "m_threads s ! i = \<lparr>th_pc = Idle, th_cache = c\<rparr>"
    and x: "\<And>v. x = Intern v \<or> x = Get v \<Longrightarrow> v \<in> W \<and> value_ok v" and start: "start D (m_interner s) c x = (p, r)"
  shows "simulated D W J sss s (moved s i (m_interner s) (m_locks s) p c ([Called i x] @ replied i r))"
proof -
  let ?a = "spec_abs D sss s" and ?R = "unat (region_size (ipool J))"
  note answers = start_answers [OF ok ap conc_okD(6) [OF ok i] x start]
  then have "place_of D W J sss (m_interner s) p" by (auto simp: place_of_def)
  then have conc: "conc_ok D W J sss (moved s i (m_interner s) (m_locks s) p c ([Called i x] @ replied i r))"
    by (rule conc_start [OF ok i start])
  have pc: "i < length (sp_pcs ?a)" "sp_pcs ?a ! i = SIdle" using spec_abs_pc [OF i(1), of Idle D sss] i(2) by simp_all
  define b where "b = ?a\<lparr>sp_pcs := (sp_pcs ?a)[i := called x], sp_trace := sp_trace ?a @ [Called i x]\<rparr>"
  have call: "spec_step D ?R ?a b" unfolding b_def using pc by (rule spec_call)
  have b: "i < length (sp_pcs b)" "sp_pcs b ! i = called x" "sp_strings b = sss"
    using pc by (simp_all add: b_def) (simp add: spec_abs_def)
  show ?thesis
  proof (cases r)
    case None
    then have "b = spec_abs D sss (moved s i (m_interner s) (m_locks s) p c ([Called i x] @ replied i r))"
      using answers by (simp add: b_def spec_abs_def map_update replied_def)
    then show ?thesis using conc call by (intro sim_steps [OF conc refl r_into_rtranclp])
  next
    case (Some z)
    then have p: "p = Idle" and z: "answered D sss x z" using answers by auto
    have "(spec_step D ?R)\<^sup>*\<^sup>* ?a (b\<lparr>sp_pcs := (sp_pcs b)[i := SIdle], sp_trace := sp_trace b @ [Replied i z]\<rparr>)"
      using call spec_answers [OF b(1,2)] z b(3) by (intro converse_rtranclp_into_rtranclp [of _ ?a b]) simp_all
    then show ?thesis
      by (rule sim_steps [OF conc refl]) (simp add: b_def spec_abs_def map_update p Some replied_def)
  qed
qed

section \<open>Every step\<close>

lemma sim_act:
  assumes ok: "conc_ok D W J sss s" and D: "hashbrown_ok D"
    and i: "i < length (m_threads s)" "m_threads s ! i = \<lparr>th_pc = p, th_cache = c\<rparr>"
    and act: "act D i (m_interner s) (m_locks s) c p = Some (I', L', c', p', r)"
  shows "simulated D W J sss s (moved s i I' L' p' c' (replied i r))"
proof (cases p)
  case Idle
  then show ?thesis using act by simp
next
  case (ReadLock v)
  then show ?thesis using sim_read_lock [OF ok i(1)] i(2) act by simp
next
  case (Lookup v)
  then show ?thesis using sim_lookup [OF ok D i(1)] i(2) act by metis
next
  case (WriteLock v)
  then show ?thesis using sim_write_lock [OF ok i(1)] i(2) act by metis
next
  case (Check v)
  then show ?thesis using sim_check [OF ok D i(1)] i(2) act by metis
next
  case (Alloc v)
  then show ?thesis using sim_alloc [OF ok i(1)] i(2) act by metis
next
  case (Commit v off cur)
  then show ?thesis using sim_commit [OF ok i(1)] i(2) act by metis
next
  case (PushLen v off)
  then show ?thesis using sim_push_len [OF ok i(1)] i(2) act by metis
next
  case (PushLoad v off idx)
  then show ?thesis using sim_push_load [OF ok i(1)] i(2) act by metis
next
  case (PushExchange v off idx)
  then show ?thesis using sim_push_exchange [OF ok i(1)] i(2) act by metis
next
  case (PushStore v off idx q)
  then show ?thesis using sim_push_store [OF ok D i(1)] i(2) act by metis
next
  case (Publish v off idx)
  then show ?thesis using sim_publish [OF ok i(1)] i(2) act by metis
next
  case (CacheStore v t y)
  then show ?thesis using sim_cache_store [OF ok i(1)] i(2) act by metis
next
  case (ReadLen y)
  then show ?thesis using sim_resolve_steps [OF ok i act] by blast
next
  case (ReadChunk y)
  then show ?thesis using sim_resolve_steps [OF ok i act] by blast
next
  case (GetLock v)
  then show ?thesis using sim_get_lock [OF ok i(1)] i(2) act by metis
next
  case (GetLookup v)
  then show ?thesis using sim_get_lookup [OF ok D i(1)] i(2) act by metis
next
  case (GetStore v t y)
  then show ?thesis using sim_get_store [OF ok i(1)] i(2) act by metis
next
  case (ReadSlot y q)
  then show ?thesis using sim_resolve_steps [OF ok i act] by blast
qed

lemma proceed_moved:
  assumes "proceed D i s = Some s'"
  obtains I L c p r where "i < length (m_threads s)"
    "act D i (m_interner s) (m_locks s) (th_cache (m_threads s ! i)) (th_pc (m_threads s ! i)) = Some (I, L, c, p, r)"
    "s' = moved s i I L p c (replied i r)"
  using assms by (auto simp: proceed_def Let_def moved_def split: if_splits option.splits)

lemma set_pc: "th\<lparr>th_pc := p\<rparr> = \<lparr>th_pc = p, th_cache = th_cache th\<rparr>"
  by (cases th) simp

lemma invoke_moved:
  assumes "invoke D i x s = Some s'"
  obtains p r where "i < length (m_threads s)" "th_pc (m_threads s ! i) = Idle"
    "start D (m_interner s) (th_cache (m_threads s ! i)) x = (p, r)"
    "s' = moved s i (m_interner s) (m_locks s) p (th_cache (m_threads s ! i)) ([Called i x] @ replied i r)"
  using assms by (cases s) (auto simp: invoke_def Let_def moved_def set_pc split: if_splits prod.splits)

lemma step_simulated:
  assumes "step D W s s'" "conc_ok D W J sss s" "hashbrown_ok D" "apart D W"
  shows "simulated D W J sss s s'"
proof -
  have th: "m_threads s ! i = \<lparr>th_pc = th_pc (m_threads s ! i), th_cache = th_cache (m_threads s ! i)\<rparr>" for i by simp
  have call: "simulated D W J sss s s'" if inv: "invoke D i x s = Some s'" and x: "\<And>v. x = Intern v \<or> x = Get v \<Longrightarrow> v \<in> W \<and> value_ok v" for i x
  proof -
    from inv obtain p r where m: "i < length (m_threads s)" "th_pc (m_threads s ! i) = Idle"
        "start D (m_interner s) (th_cache (m_threads s ! i)) x = (p, r)"
        "s' = moved s i (m_interner s) (m_locks s) p (th_cache (m_threads s ! i)) ([Called i x] @ replied i r)"
      by (rule invoke_moved)
    have "m_threads s ! i = \<lparr>th_pc = Idle, th_cache = th_cache (m_threads s ! i)\<rparr>" using m(2) by simp
    then show ?thesis unfolding m(4) by (rule sim_call [OF assms(2,4) m(1) _ x m(3)])
  qed
  from assms(1) show ?thesis
  proof cases
    case (step_intern v i)
    then show ?thesis using call [of i "Intern v"] by simp
  next
    case (step_get v i)
    then show ?thesis using call [of i "Get v"] by simp
  next
    case (step_resolve i y)
    then show ?thesis using call [of i "Resolve y"] by simp
  next
    case (step_proceed i)
    then obtain I L c p r where m: "i < length (m_threads s)"
        "act D i (m_interner s) (m_locks s) (th_cache (m_threads s ! i)) (th_pc (m_threads s ! i)) = Some (I, L, c, p, r)"
        "s' = moved s i I L p c (replied i r)"
      by (rule proceed_moved)
    then show ?thesis using sim_act [OF assms(2,3) m(1) th m(2)] by simp
  qed
qed

interpretation threads: simulation "step D W" "spec_step D R" "rel D W R" for D W R
proof
  fix s a s'
  assume rel: "rel D W R s a" and st: "step D W s s'"
  then obtain J sss where J: "conc_ok D W J sss s" "unat (region_size (ipool J)) = R" "a = spec_abs D sss s"
      and D: "hashbrown_ok D" "apart D W"
    by (auto simp: rel_def)
  have "simulated D W J sss s s'" by (rule step_simulated [OF st J(1) D])
  then show "\<exists>a'. (spec_step D R)\<^sup>*\<^sup>* a a' \<and> rel D W R s' a'"
    using J D unfolding simulated_def rel_def by metis
qed

section \<open>The start\<close>

lemma machine_new_rel:
  assumes D: "hashbrown_ok D" "apart D W" and new: "with_capacity_and_shards D k symbols count = (Inr I, k')" "k \<noteq> 0"
    and n: "4 \<le> next_power_of_two (clamp 1 128 count)"
  shows "rel D W (unat (region_size (ipool I))) (machine_new I m) (spec_new (next_power_of_two (clamp 1 128 count)) m)"
proof -
  let ?n = "next_power_of_two (clamp 1 128 count)"
  let ?sss = "replicate ?n []"
  have I: "interner_rep D I ?sss" "pool_healthy (ipool I)"
    using interner_rep_new [OF D(1) new(2), of symbols count] new(1) by auto
  have base: "base_ok D W I ?sss"
    using I n by (simp add: base_ok_def pool_healthy_def)
  have "conc_ok D W I ?sss (machine_new I m)"
    using base cache_ok_cold [OF I(1)]
    by (auto simp: conc_ok_def shape_ok_def machine_new_def locks_ok_def stage_def shard_stage_idle thread_ok_def place_of_def)
  moreover have "spec_abs D ?sss (machine_new I m) = spec_new ?n m"
    using I(1,2) by (auto simp: spec_abs_def spec_new_def machine_new_def closed_def pool_healthy_def)
  ultimately show ?thesis using D unfolding rel_def by metis
qed

end
