(* ===== verification/Threads_Live.thy ===== *)
theory Threads_Live
  imports Threads_Refine
begin

unbundle bit_operations_syntax

text \<open>
  Progress of the machine of \<open>Interner_Threads\<close>: a thread that is inside a call can only wait for a
  lock whose holder is not waiting itself, every step brings its thread closer to the end of its
  call, and the end of a call is its reply.
\<close>

section \<open>Every step is one of few\<close>

fun rank :: "pc \<Rightarrow> nat" where
  "rank Idle = 0"
| "rank (ReadLock v) = 12"
| "rank (Lookup v) = 11"
| "rank (WriteLock v) = 10"
| "rank (Check v) = 9"
| "rank (Alloc v) = 8"
| "rank (Commit v off cur) = 7"
| "rank (PushLen v off) = 6"
| "rank (PushLoad v off idx) = 5"
| "rank (PushExchange v off idx) = 4"
| "rank (PushStore v off idx q) = 3"
| "rank (Publish v off idx) = 2"
| "rank (CacheStore v t y) = 1"
| "rank (ReadLen y) = 3"
| "rank (ReadChunk y) = 2"
| "rank (ReadSlot y q) = 1"
| "rank (GetLock v) = 3"
| "rank (GetLookup v) = 2"
| "rank (GetStore v t y) = 1"

definition steps_left :: "'t machine \<Rightarrow> nat" where
  "steps_left s = sum_list (map (\<lambda>th. rank (th_pc th)) (m_threads s))"

lemma act_rank: "act D i I L c p = Some (I', L', c', p', r) \<Longrightarrow> rank p' < rank p"
  by (cases p) (auto simp: Let_def split: if_splits sum.splits option.splits prod.splits)

lemma act_replies: "act D i I L c p = Some (I', L', c', p', r) \<Longrightarrow> r = None \<longleftrightarrow> p' \<noteq> Idle"
  by (cases p) (auto simp: Let_def split: if_splits sum.splits option.splits prod.splits)

lemma start_replies: "start D I c x = (p, r) \<Longrightarrow> r = None \<longleftrightarrow> p \<noteq> Idle"
  by (cases x) (auto split: if_splits sum.splits option.splits)

lemma sum_list_update_less:
  fixes f :: "'a \<Rightarrow> nat"
  shows "i < length xs \<Longrightarrow> f y < f (xs ! i) \<Longrightarrow> sum_list (map f (xs[i := y])) < sum_list (map f xs)"
  by (induction xs arbitrary: i) (auto split: nat.splits)

lemma proceed_steps_left:
  assumes "proceed D i s = Some s'"
  shows "steps_left s' < steps_left s" "length (m_threads s') = length (m_threads s)"
proof -
  from assms obtain I L c p r where m: "i < length (m_threads s)"
      "act D i (m_interner s) (m_locks s) (th_cache (m_threads s ! i)) (th_pc (m_threads s ! i)) = Some (I, L, c, p, r)"
      "s' = moved s i I L p c (replied i r)"
    by (rule proceed_moved)
  show "steps_left s' < steps_left s" unfolding steps_left_def m(3) moved_simps
    using act_rank [OF m(2)] m(1) by (intro sum_list_update_less) simp_all
  show "length (m_threads s') = length (m_threads s)" using m(3) by simp
qed

abbreviation proceeds :: "'t deps \<Rightarrow> 't machine \<Rightarrow> 't machine \<Rightarrow> bool" where
  "proceeds D s s' \<equiv> \<exists>i. proceed D i s = Some s'"

lemma proceeds_steps_left: "(proceeds D ^^ k) s s' \<Longrightarrow> steps_left s' + k \<le> steps_left s"
proof (induction k arbitrary: s')
  case 0
  then show ?case by simp
next
  case (Suc k)
  then obtain s1 where s1: "(proceeds D ^^ k) s s1" "proceeds D s1 s'" by auto
  then show ?case using Suc.IH [OF s1(1)] proceed_steps_left(1) by fastforce
qed

lemma rank_le: "rank p \<le> 12"
  by (cases p) simp_all

lemma steps_left_le: "steps_left s \<le> 12 * length (m_threads s)"
proof -
  have "sum_list (map (\<lambda>th. rank (th_pc th)) ts) \<le> 12 * length ts" for ts
    by (induction ts) (use rank_le in \<open>auto intro: add_mono\<close>)
  then show ?thesis by (simp add: steps_left_def)
qed

section \<open>No deadlock\<close>

lemma act_waits:
  assumes "act D i I L c p = None" "p \<noteq> Idle"
  obtains v where "p = ReadLock v" "lk_writer (L (shard_of I (hash_of D v))) \<noteq> None"
  | v where "p = GetLock v" "lk_writer (L (shard_of I (hash_of D v))) \<noteq> None"
  | v where "p = WriteLock v" "lk_writer (L (shard_of I (hash_of D v))) \<noteq> None \<or> lk_readers (L (shard_of I (hash_of D v))) \<noteq> {}"
  using assms by (cases p) (auto simp: Let_def split: if_splits sum.splits option.splits prod.splits)

lemma some_proceeds:
  assumes locks: "locks_ok D n (m_locks s) (m_threads s)" and i: "i < length (m_threads s)" "th_pc (m_threads s ! i) \<noteq> Idle"
  shows "\<exists>j s'. proceed D j s = Some s'"
proof (rule ccontr)
  assume "\<not> ?thesis"
  then have stuck: "act D j (m_interner s) (m_locks s) (th_cache (m_threads s ! j)) (th_pc (m_threads s ! j)) = None"
    if "j < length (m_threads s)" for j
    using that by (fastforce simp: proceed_def Let_def split: option.splits)
  have no: "\<not> holds_write D n sid (th_pc (m_threads s ! j)) \<and> \<not> holds_read D n sid (th_pc (m_threads s ! j))"
    if "j < length (m_threads s)" for j sid
  proof (cases "th_pc (m_threads s ! j) = Idle")
    case False
    with stuck [OF that] show ?thesis by (rule act_waits) simp_all
  qed simp
  have "lk_writer (m_locks s sid) = None" for sid
    using locks_okD(1) [OF locks, of sid] no by (cases "lk_writer (m_locks s sid)") auto
  moreover have "lk_readers (m_locks s sid) = {}" for sid
    using locks_okD(2) [OF locks] no by blast
  ultimately show False using stuck [OF i(1)] i(2) act_waits by metis
qed

section \<open>Calls and replies\<close>

definition calls :: "nat \<Rightarrow> event list \<Rightarrow> nat" where
  "calls i es = length (filter (\<lambda>e. case e of Called j x \<Rightarrow> j = i | _ \<Rightarrow> False) es)"

definition replies :: "nat \<Rightarrow> event list \<Rightarrow> nat" where
  "replies i es = length (filter (\<lambda>e. case e of Replied j a \<Rightarrow> j = i | _ \<Rightarrow> False) es)"

lemma calls_replies_simps [simp]:
  "calls i [] = 0" "calls i (es @ fs) = calls i es + calls i fs" "calls i [Called j x] = (if j = i then 1 else 0)"
  "calls i (Called j x # es) = (if j = i then 1 else 0) + calls i es"
  "replies i [] = 0" "replies i (es @ fs) = replies i es + replies i fs" "replies i (Called j x # es) = replies i es"
  "calls i (replied j r) = 0" "replies i (replied j r) = (if j = i \<and> r \<noteq> None then 1 else 0)"
  by (auto simp: calls_def replies_def replied_def split: option.splits)

text \<open>A thread has one unanswered call if it is inside a call, and none otherwise.\<close>

definition answered_calls :: "'t machine \<Rightarrow> bool" where
  "answered_calls s \<longleftrightarrow> (\<forall>i < length (m_threads s).
     calls i (m_trace s) = replies i (m_trace s) + (if th_pc (m_threads s ! i) = Idle then 0 else 1))"

lemma answered_step:
  assumes "step D W s s'" "answered_calls s"
  shows "answered_calls s'"
proof -
  have call: "answered_calls s'" if inv: "invoke D i x s = Some s'" for i x
  proof -
    from inv obtain p r where m: "i < length (m_threads s)" "th_pc (m_threads s ! i) = Idle"
        "start D (m_interner s) (th_cache (m_threads s ! i)) x = (p, r)"
        "s' = moved s i (m_interner s) (m_locks s) p (th_cache (m_threads s ! i)) ([Called i x] @ replied i r)"
      by (rule invoke_moved)
    then show ?thesis using assms(2) start_replies [OF m(3)] by (auto simp: answered_calls_def nth_list_update)
  qed
  from assms(1) show ?thesis
  proof cases
    case (step_proceed i)
    then obtain I L c p r where m: "i < length (m_threads s)"
        "act D i (m_interner s) (m_locks s) (th_cache (m_threads s ! i)) (th_pc (m_threads s ! i)) = Some (I, L, c, p, r)"
        "s' = moved s i I L p c (replied i r)"
      by (rule proceed_moved)
    moreover have "th_pc (m_threads s ! i) \<noteq> Idle" using m(2) by auto
    ultimately show ?thesis using assms(2) act_replies [OF m(2)] by (auto simp: answered_calls_def nth_list_update)
  qed (use call in blast)+
qed

lemma answered_run: "(step D W)\<^sup>*\<^sup>* s s' \<Longrightarrow> answered_calls s \<Longrightarrow> answered_calls s'"
  by (induction rule: rtranclp_induct) (use answered_step in blast)+

lemma answered_new: "answered_calls (machine_new I n)"
  by (simp add: answered_calls_def machine_new_def)

lemma proceeds_step: "(proceeds D)\<^sup>*\<^sup>* s s' \<Longrightarrow> (step D W)\<^sup>*\<^sup>* s s'"
proof (induction rule: rtranclp_induct)
  case (step s1 s2)
  then show ?case using step_proceed rtranclp.rtrancl_into_rtrancl by metis
qed simp

lemma step_length: "step D W s s' \<Longrightarrow> length (m_threads s') = length (m_threads s)"
  by (erule step.cases) (auto elim!: invoke_moved dest: proceed_steps_left(2))

lemma run_length: "(step D W)\<^sup>*\<^sup>* s s' \<Longrightarrow> length (m_threads s') = length (m_threads s)"
  by (induction rule: rtranclp_induct) (simp_all add: step_length)

end
