(* ===== verification/Threads_Props.thy ===== *)
theory Threads_Props
  imports Threads_Solo Threads_Live Interner_Props
begin

unbundle bit_operations_syntax

text \<open>
  Properties of the interner under threads, each with a run on the small interner of
  \<open>Interner_Props\<close>.
\<close>

section \<open>A thread alone\<close>

abbreviation proceed_run :: "'t deps \<Rightarrow> nat \<Rightarrow> 't machine \<Rightarrow> 't machine \<Rightarrow> bool" where
  "proceed_run D i \<equiv> (\<lambda>s s'. proceed D i s = Some s')\<^sup>*\<^sup>*"

lemma solo_call:
  assumes i: "i < length (m_threads s)" "m_threads s ! i = \<lparr>th_pc = Idle, th_cache = c\<rparr>" "m_locks s = no_locks"
    and st: "start D (m_interner s) c x = (p, r)"
    and ends: "case r of Some z \<Rightarrow> p = Idle \<and> z = a \<and> I' = m_interner s \<and> c' = c
      | None \<Rightarrow> ends D i (m_interner s) no_locks c p I' no_locks c' a"
  shows "\<exists>s1. invoke D i x s = Some s1 \<and> proceed_run D i s1
    \<lparr>m_interner = I', m_locks = no_locks, m_threads = (m_threads s)[i := \<lparr>th_pc = Idle, th_cache = c'\<rparr>],
     m_trace = m_trace s @ [Called i x, Replied i a]\<rparr>"
proof -
  have inv: "invoke D i x s = Some (s\<lparr>m_threads := (m_threads s)[i := \<lparr>th_pc = p, th_cache = c\<rparr>],
      m_trace := m_trace s @ [Called i x] @ replied i r\<rparr>)"
    using st i by (simp add: invoke_def)
  show ?thesis
  proof (cases r)
    case None
    then show ?thesis
      using inv ends ends_proceeds [of D i "m_interner s" no_locks c p I' no_locks c' a "m_threads s" "m_trace s @ [Called i x]"] i(1,3)
      by (cases s) (simp add: replied_def)
  next
    case (Some z)
    then show ?thesis using inv ends i(3) by (cases s) (auto simp: replied_def)
  qed
qed

lemma solo_intern:
  assumes "i < length (m_threads s)" "m_threads s ! i = \<lparr>th_pc = Idle, th_cache = c\<rparr>" "m_locks s = no_locks"
    "get_or_intern D (m_interner s) c v = (q, I', c')"
  shows "\<exists>s1. invoke D i (Intern v) s = Some s1 \<and> proceed_run D i s1
    \<lparr>m_interner = I', m_locks = no_locks, m_threads = (m_threads s)[i := \<lparr>th_pc = Idle, th_cache = c'\<rparr>],
     m_trace = m_trace s @ [Called i (Intern v), Replied i (reply_of v q)]\<rparr>"
proof (cases "start D (m_interner s) c (Intern v)")
  case (Pair p r)
  show ?thesis by (rule solo_call [OF assms(1-3) Pair ends_intern [OF Pair assms(4)]])
qed

lemma solo_get:
  assumes "i < length (m_threads s)" "m_threads s ! i = \<lparr>th_pc = Idle, th_cache = c\<rparr>" "m_locks s = no_locks"
    "get_symbol_of D (m_interner s) c v = (q, c')"
  shows "\<exists>s1. invoke D i (Get v) s = Some s1 \<and> proceed_run D i s1
    \<lparr>m_interner = m_interner s, m_locks = no_locks, m_threads = (m_threads s)[i := \<lparr>th_pc = Idle, th_cache = c'\<rparr>],
     m_trace = m_trace s @ [Called i (Get v), Replied i (case q of Inl e \<Rightarrow> RPanic e | Inr a \<Rightarrow> RGet v a)]\<rparr>"
proof (cases "start D (m_interner s) c (Get v)")
  case (Pair p r)
  show ?thesis
    by (rule solo_call [OF assms(1-3) Pair]) (use ends_get [OF Pair assms(4) refl, of i] in \<open>simp split: option.splits\<close>)
qed

lemma solo_resolve:
  assumes "i < length (m_threads s)" "m_threads s ! i = \<lparr>th_pc = Idle, th_cache = c\<rparr>" "m_locks s = no_locks"
  shows "\<exists>s1. invoke D i (Resolve y) s = Some s1 \<and> proceed_run D i s1
    \<lparr>m_interner = m_interner s, m_locks = no_locks, m_threads = m_threads s,
     m_trace = m_trace s @ [Called i (Resolve y),
       Replied i (case resolve (m_interner s) y of Inl e \<Rightarrow> RPanic e | Inr a \<Rightarrow> RResolve y a)]\<rparr>"
proof (cases "start D (m_interner s) c (Resolve y)")
  case (Pair p r)
  have "(m_threads s)[i := \<lparr>th_pc = Idle, th_cache = c\<rparr>] = m_threads s" by (simp flip: assms(2))
  then show ?thesis
    using solo_call [OF assms Pair, of "m_interner s" c "case resolve (m_interner s) y of Inl e \<Rightarrow> RPanic e | Inr a \<Rightarrow> RResolve y a"]
      ends_resolve [OF Pair, of i]
    by (auto split: option.splits)
qed

text \<open>
  C16: a thread that runs alone computes, in single steps, what the sequential model computes in
  one: the answer, the interner and the thread's cache of \<open>get_or_intern\<close> and \<open>get\<close>, panics
  included, and the answer of \<open>resolve\<close>; it ends outside all locks.
\<close>

theorem solo_run:
  assumes "i < length (m_threads s)" "th_pc (m_threads s ! i) = Idle" "m_locks s = no_locks"
    "th_cache (m_threads s ! i) = c"
  shows "(get_or_intern D (m_interner s) c v = (q, I', c') \<longrightarrow>
      (\<exists>s1. invoke D i (Intern v) s = Some s1 \<and> (\<lambda>s s'. proceed D i s = Some s')\<^sup>*\<^sup>* s1
        \<lparr>m_interner = I', m_locks = no_locks, m_threads = (m_threads s)[i := \<lparr>th_pc = Idle, th_cache = c'\<rparr>],
         m_trace = m_trace s @ [Called i (Intern v), Replied i (reply_of v q)]\<rparr>)) \<and>
    (get_symbol_of D (m_interner s) c v = (g, d) \<longrightarrow>
      (\<exists>s1. invoke D i (Get v) s = Some s1 \<and> (\<lambda>s s'. proceed D i s = Some s')\<^sup>*\<^sup>* s1
        \<lparr>m_interner = m_interner s, m_locks = no_locks, m_threads = (m_threads s)[i := \<lparr>th_pc = Idle, th_cache = d\<rparr>],
         m_trace = m_trace s @ [Called i (Get v), Replied i (case g of Inl e \<Rightarrow> RPanic e | Inr a \<Rightarrow> RGet v a)]\<rparr>)) \<and>
    (\<exists>s1. invoke D i (Resolve y) s = Some s1 \<and> (\<lambda>s s'. proceed D i s = Some s')\<^sup>*\<^sup>* s1
        \<lparr>m_interner = m_interner s, m_locks = no_locks, m_threads = m_threads s,
         m_trace = m_trace s @ [Called i (Resolve y),
           Replied i (case resolve (m_interner s) y of Inl e \<Rightarrow> RPanic e | Inr a \<Rightarrow> RResolve y a)]\<rparr>)"
proof -
  have idle: "m_threads s ! i = \<lparr>th_pc = Idle, th_cache = c\<rparr>" using assms(2,4) by simp
  show ?thesis using solo_intern [OF assms(1) idle assms(3)] solo_get [OF assms(1) idle assms(3)] solo_resolve [OF assms(1) idle assms(3)] by blast
qed

theorem solo_run_witness:
  "\<exists>s1 s2. invoke demo_D 0 (Intern hello) (machine_new fresh_I 2) = Some s1 \<and>
     (\<lambda>s s'. proceed demo_D 0 s = Some s')\<^sup>*\<^sup>* s1 s2 \<and> m_interner s2 = hello_I \<and>
     m_trace s2 = [Called 0 (Intern hello), Replied 0 (RIntern hello hello_y)]"
proof -
  let ?s = "machine_new fresh_I 2"
  have "0 < length (m_threads ?s)" "th_pc (m_threads ?s ! 0) = Idle" "m_locks ?s = no_locks"
      "th_cache (m_threads ?s ! 0) = local_cache_new" "m_interner ?s = fresh_I" "m_trace ?s = []"
    by (simp_all add: machine_new_def no_locks_def)
  with solo_run [OF this(1-4), of demo_D hello "Inr hello_y" hello_I hello_c] hello_I_run
  show ?thesis by (fastforce simp: reply_of_def)
qed

section \<open>Several threads\<close>

lemma machine_run_rel:
  assumes "hashbrown_ok D" "apart D W" "with_capacity_and_shards D k symbols count = (Inr I, k')" "k \<noteq> 0"
    "4 \<le> next_power_of_two (clamp 1 128 count)" "(step D W)\<^sup>*\<^sup>* (machine_new I n) s"
  shows "\<exists>a. (spec_step D (unat (region_size (ipool I))))\<^sup>*\<^sup>* (spec_new (next_power_of_two (clamp 1 128 count)) n) a \<and>
    rel D W (unat (region_size (ipool I))) s a"
  using threads.run [OF assms(6) machine_new_rel [OF assms(1-5)]] by blast

lemma spec_run_ok: "(spec_step D R)\<^sup>*\<^sup>* a a' \<Longrightarrow> spec_ok D a \<Longrightarrow> spec_ok D a'"
  by (induction rule: rtranclp_induct) (use spec_step_ok in blast)+

lemma rel_trace: "rel D W R s a \<Longrightarrow> sp_trace a = m_trace s"
  by (auto simp: rel_def spec_abs_def)

lemma spec_of_not_done: "spec_of D n p \<noteq> SResolved y r" "spec_of D n p \<noteq> SGot v g"
  by (cases p; simp)+

text \<open>A symbol that was returned belongs to its string from then on.\<close>

lemma rel_settled:
  assumes "rel D W R s a" "abs_get D (sp_strings a) v = Some y"
  shows "settled D y v a"
proof -
  obtain J sss where J: "conc_ok D W J sss s" "a = spec_abs D sss s" using assms(1) by (auto simp: rel_def)
  then have "abs_resolve sss y = Some v" "\<exists>k \<le> 7. length sss = 2 ^ k"
    using abs_resolve_get [OF conc_okD(3) [OF J(1)]] conc_okD(3) [OF J(1)] assms(2)
    by (simp_all add: spec_abs_def interner_rep_def)
  then show ?thesis using J(2) assms(2) by (auto simp: settled_def spec_abs_def spec_of_not_done [symmetric])
qed

text \<open>Thread 0 interns \<open>hello\<close>; then thread 1 resolves the symbol.\<close>

lemma proceed_run_steps: "invoke D i x s = Some s1 \<Longrightarrow> (\<And>v. x = Intern v \<or> x = Get v \<Longrightarrow> v \<in> W \<and> value_ok v) \<Longrightarrow> proceed_run D i s1 s2 \<Longrightarrow>
    (step D W)\<^sup>*\<^sup>* s s2"
proof -
  assume inv: "invoke D i x s = Some s1" "\<And>v. x = Intern v \<or> x = Get v \<Longrightarrow> v \<in> W \<and> value_ok v" and run: "proceed_run D i s1 s2"
  have "step D W s s1" using inv by (cases x) (auto intro: step_intern step_get step_resolve)
  moreover from run have "(step D W)\<^sup>*\<^sup>* s1 s2"
  proof (induction rule: rtranclp_induct)
    case (step a b)
    then show ?case using step_proceed rtranclp.rtrancl_into_rtrancl by metis
  qed simp
  ultimately show ?thesis by (rule converse_rtranclp_into_rtranclp)
qed

definition demo_run :: "((u64 \<times> entry) list machine \<times> (u64 \<times> entry) list machine) \<Rightarrow> bool" where
  "demo_run x \<longleftrightarrow> (step demo_D {hello})\<^sup>*\<^sup>* (machine_new fresh_I 2) (fst x) \<and> (step demo_D {hello})\<^sup>*\<^sup>* (fst x) (snd x) \<and>
     m_trace (fst x) = [Called 0 (Intern hello), Replied 0 (RIntern hello hello_y)] \<and>
     m_trace (snd x) = m_trace (fst x) @ [Called 1 (Resolve hello_y), Replied 1 (RResolve hello_y (Some hello))]"

lemma demo_run_exists: "\<exists>x. demo_run x"
proof -
  let ?s = "machine_new fresh_I 2"
  let ?t = "\<lparr>m_interner = hello_I, m_locks = no_locks,
      m_threads = [\<lparr>th_pc = Idle, th_cache = hello_c\<rparr>, \<lparr>th_pc = Idle, th_cache = local_cache_new\<rparr>],
      m_trace = [Called 0 (Intern hello), Replied 0 (RIntern hello hello_y)]\<rparr>"
  let ?u = "?t\<lparr>m_trace := m_trace ?t @ [Called 1 (Resolve hello_y), Replied 1 (RResolve hello_y (Some hello))]\<rparr>"
  have s: "m_threads ?s = [\<lparr>th_pc = Idle, th_cache = local_cache_new\<rparr>, \<lparr>th_pc = Idle, th_cache = local_cache_new\<rparr>]"
      "m_locks ?s = no_locks" "m_interner ?s = fresh_I" "m_trace ?s = []"
    by (simp_all add: machine_new_def no_locks_def numeral_2_eq_2)
  obtain s1 where "invoke demo_D 0 (Intern hello) ?s = Some s1" "proceed_run demo_D 0 s1 ?t"
    using solo_intern [of 0 ?s local_cache_new demo_D hello "Inr hello_y" hello_I hello_c] hello_I_run by (auto simp: s reply_of_def)
  then have "(step demo_D {hello})\<^sup>*\<^sup>* ?s ?t" using hello_ok(1) by (intro proceed_run_steps) auto
  moreover obtain s2 where "invoke demo_D 1 (Resolve hello_y) ?t = Some s2" "proceed_run demo_D 1 s2 ?u"
    using solo_resolve [of 1 ?t local_cache_new demo_D hello_y] hello_resolves(1) by auto
  then have "(step demo_D {hello})\<^sup>*\<^sup>* ?t ?u" by (intro proceed_run_steps) auto
  ultimately have "demo_run (?t, ?u)" by (simp add: demo_run_def)
  then show ?thesis by blast
qed

lemma demo_threads:
  "apart demo_D {hello}" "with_capacity_and_shards demo_D 1 0 16 = (Inr fresh_I, 2)" "next_power_of_two (clamp 1 128 16) = 16"
proof -
  show "apart demo_D {hello}" by (simp add: apart_def)
  show "with_capacity_and_shards demo_D 1 0 16 = (Inr fresh_I, 2)"
    using fresh_I_new by (simp add: interner_new_def DEFAULT_SHARD_COUNT_def)
  show "next_power_of_two (clamp 1 128 16) = 16" using next_power_of_two_pow [of 4] by (simp add: clamp_def)
qed

text \<open>
  C3: whatever the schedule, the calls and replies of threads that share a new interner (of at
  least four shards) are those of the atomic interner, in which every call takes effect in one step
  between its invocation and its reply: \<open>get_or_intern\<close>, \<open>get\<close> and \<open>resolve\<close> are linearizable.
  The strings that are interned are distinguished by length, first eight bytes and low hash half.
\<close>

theorem threads_linearizable:
  assumes "hashbrown_ok D" "apart D W" "with_capacity_and_shards D k symbols count = (Inr I, k')" "k \<noteq> 0"
    "4 \<le> next_power_of_two (clamp 1 128 count)" "(step D W)\<^sup>*\<^sup>* (machine_new I n) s"
  shows "\<exists>a. (spec_step D (unat (region_size (ipool I))))\<^sup>*\<^sup>* (spec_new (next_power_of_two (clamp 1 128 count)) n) a \<and>
    sp_trace a = m_trace s"
  using machine_run_rel [OF assms] rel_trace by metis

theorem threads_linearizable_witness:
  "\<exists>a. (spec_step demo_D (unat (region_size (ipool fresh_I))))\<^sup>*\<^sup>* (spec_new 16 2) a \<and>
     sp_trace a = [Called 0 (Intern hello), Replied 0 (RIntern hello hello_y)]"
proof -
  obtain s s' where d: "demo_run (s, s')" using demo_run_exists by force
  then have run: "(step demo_D {hello})\<^sup>*\<^sup>* (machine_new fresh_I 2) s" by (simp add: demo_run_def)
  show ?thesis
    using threads_linearizable [OF demo_D_ok demo_threads(1,2) _ _ run] demo_threads(3) d by (simp add: demo_run_def)
qed

text \<open>
  C8: under any schedule, two symbols that threads were given are equal exactly if their strings
  are; the only panic is an exhausted region; and once a thread was given the symbol of a string,
  every later answer to any thread is this string for the symbol, and this symbol for the string.
\<close>

theorem threads_agree:
  assumes "hashbrown_ok D" "apart D W" "with_capacity_and_shards D k symbols count = (Inr I, k')" "k \<noteq> 0"
    "4 \<le> next_power_of_two (clamp 1 128 count)" "(step D W)\<^sup>*\<^sup>* (machine_new I n) s"
    "Replied i (RIntern v y) \<in> set (m_trace s)"
  shows "(\<forall>j w z. Replied j (RIntern w z) \<in> set (m_trace s) \<or> Replied j (RGet w (Some z)) \<in> set (m_trace s) \<longrightarrow> (y = z \<longleftrightarrow> v = w)) \<and>
    (\<forall>j p. Replied j (RPanic p) \<in> set (m_trace s) \<longrightarrow> (\<exists>sid. p = PoolExhausted sid)) \<and>
    (\<forall>s'. (step D W)\<^sup>*\<^sup>* s s' \<longrightarrow> (\<exists>new. m_trace s' = m_trace s @ new \<and>
      (\<forall>j r. Replied j (RResolve y r) \<in> set new \<longrightarrow> r = Some v) \<and>
      (\<forall>j r. Replied j (RGet v r) \<in> set new \<longrightarrow> r = Some y)))"
proof -
  let ?R = "unat (region_size (ipool I))" and ?n = "next_power_of_two (clamp 1 128 count)"
  obtain a where a: "(spec_step D ?R)\<^sup>*\<^sup>* (spec_new ?n n) a" "rel D W ?R s a" using machine_run_rel [OF assms(1-6)] by blast
  obtain e where "e \<le> 7" "?n = 2 ^ e" using shard_count_pow by blast
  then have "spec_ok D a" using spec_run_ok [OF a(1)] spec_ok_new by metis
  then have ans: "answer_ok D (sp_strings a) ev" if "ev \<in> set (m_trace s)" for ev
    using that rel_trace [OF a(2)] by (simp add: spec_ok_def)
  have get: "abs_get D (sp_strings a) w = Some z"
    if "Replied j (RIntern w z) \<in> set (m_trace s) \<or> Replied j (RGet w (Some z)) \<in> set (m_trace s)" for j w z
    using that ans by (auto simp: answer_ok_def dest: ans)
  have v: "abs_get D (sp_strings a) v = Some y" using get assms(7) by blast
  have settled: "settled D y v a" using rel_settled [OF a(2) v] .
  have "y = z \<longleftrightarrow> v = w"
    if "Replied j (RIntern w z) \<in> set (m_trace s) \<or> Replied j (RGet w (Some z)) \<in> set (m_trace s)" for j w z
    using get [OF that] v settled rel_settled [OF a(2) get [OF that]] by (auto simp: settled_def)
  moreover have "\<exists>sid. p = PoolExhausted sid" if "Replied j (RPanic p) \<in> set (m_trace s)" for j p
    using ans [OF that] by (simp add: answer_ok_def)
  moreover have "\<exists>new. m_trace s' = m_trace s @ new \<and> (\<forall>j r. Replied j (RResolve y r) \<in> set new \<longrightarrow> r = Some v) \<and>
      (\<forall>j r. Replied j (RGet v r) \<in> set new \<longrightarrow> r = Some y)"
    if run: "(step D W)\<^sup>*\<^sup>* s s'" for s'
  proof -
    obtain b where b: "(spec_step D ?R)\<^sup>*\<^sup>* a b" "rel D W ?R s' b" using threads.run [OF run a(2)] by blast
    show ?thesis
      using spec_run_settled [OF b(1) settled] rel_trace [OF a(2)] rel_trace [OF b(2)] by (auto simp: settled_events_def)
  qed
  ultimately show ?thesis by blast
qed

theorem threads_agree_witness:
  "\<exists>s s' new. (step demo_D {hello})\<^sup>*\<^sup>* (machine_new fresh_I 2) s \<and> (step demo_D {hello})\<^sup>*\<^sup>* s s' \<and>
     m_trace s' = m_trace s @ new \<and> Replied 1 (RResolve hello_y (Some hello)) \<in> set new \<and>
     (\<forall>j r. Replied j (RResolve hello_y r) \<in> set new \<longrightarrow> r = Some hello)"
proof -
  obtain s s' where d: "demo_run (s, s')" using demo_run_exists by force
  then have run: "(step demo_D {hello})\<^sup>*\<^sup>* (machine_new fresh_I 2) s" "(step demo_D {hello})\<^sup>*\<^sup>* s s'"
    and tr: "Replied 0 (RIntern hello hello_y) \<in> set (m_trace s)"
      "m_trace s' = m_trace s @ [Called 1 (Resolve hello_y), Replied 1 (RResolve hello_y (Some hello))]"
    by (simp_all add: demo_run_def)
  obtain new where new: "m_trace s' = m_trace s @ new" "\<forall>j r. Replied j (RResolve hello_y r) \<in> set new \<longrightarrow> r = Some hello"
    using threads_agree [OF demo_D_ok demo_threads(1,2) _ _ run(1) tr(1)] demo_threads(3) run(2) by auto
  moreover have "Replied 1 (RResolve hello_y (Some hello)) \<in> set new" using new(1) tr(2) by auto
  ultimately show ?thesis using run by blast
qed

text \<open>
  C12: no deadlock and no endless call: from every state that threads can reach, at most twelve
  steps per thread can follow before the threads start new calls; when no thread can go on, all are
  idle, and every call that was made has been answered.
\<close>

theorem threads_progress:
  assumes "hashbrown_ok D" "apart D W" "with_capacity_and_shards D k symbols count = (Inr I, k')" "k \<noteq> 0"
    "4 \<le> next_power_of_two (clamp 1 128 count)" "(step D W)\<^sup>*\<^sup>* (machine_new I n) s"
  shows "(\<forall>m s'. (proceeds D ^^ m) s s' \<longrightarrow> m \<le> 12 * n) \<and>
    (\<forall>s'. (proceeds D)\<^sup>*\<^sup>* s s' \<longrightarrow> (\<forall>i. proceed D i s' = None) \<longrightarrow>
      (\<forall>i < n. th_pc (m_threads s' ! i) = Idle \<and> calls i (m_trace s') = replies i (m_trace s')))"
proof -
  have len: "length (m_threads s) = n" using run_length [OF assms(6)] by (simp add: machine_new_def)
  have "m \<le> 12 * n" if "(proceeds D ^^ m) s s'" for m s' using proceeds_steps_left [OF that] steps_left_le [of s] len by simp
  moreover have "\<forall>i < n. th_pc (m_threads s' ! i) = Idle \<and> calls i (m_trace s') = replies i (m_trace s')"
    if run: "(proceeds D)\<^sup>*\<^sup>* s s'" and stuck: "\<forall>i. proceed D i s' = None" for s'
  proof -
    have run': "(step D W)\<^sup>*\<^sup>* (machine_new I n) s'" using assms(6) proceeds_step [OF run] by (rule rtranclp_trans)
    obtain J sss where "conc_ok D W J sss s'" using machine_run_rel [OF assms(1-5) run'] by (auto simp: rel_def)
    then have idle: "th_pc (m_threads s' ! i) = Idle" if "i < length (m_threads s')" for i
      using some_proceeds [OF conc_okD(8) that] stuck by force
    have "length (m_threads s') = n" using run_length [OF run'] by (simp add: machine_new_def)
    moreover have "answered_calls s'" by (rule answered_run [OF run' answered_new])
    ultimately show ?thesis using idle by (simp add: answered_calls_def)
  qed
  ultimately show ?thesis by blast
qed

theorem threads_progress_witness:
  "\<exists>s. invoke demo_D 0 (Intern hello) (machine_new fresh_I 2) = Some s \<and>
     (\<forall>m s'. (proceeds demo_D ^^ m) s s' \<longrightarrow> m \<le> 24) \<and>
     (\<forall>s'. (proceeds demo_D)\<^sup>*\<^sup>* s s' \<longrightarrow> (\<forall>i. proceed demo_D i s' = None) \<longrightarrow>
       calls 0 (m_trace s') = replies 0 (m_trace s'))"
proof -
  let ?s = "machine_new fresh_I 2"
  obtain s where s: "invoke demo_D 0 (Intern hello) ?s = Some s"
    using solo_intern [of 0 ?s local_cache_new demo_D hello "Inr hello_y" hello_I hello_c] hello_I_run
    by (auto simp: machine_new_def no_locks_def)
  then have run: "(step demo_D {hello})\<^sup>*\<^sup>* ?s s" using hello_ok(1) by (intro r_into_rtranclp step_intern) simp_all
  show ?thesis
    using threads_progress [OF demo_D_ok demo_threads(1,2) _ _ run] demo_threads(3) s by auto
qed

end
