(* ===== verification/Storage_Props.thy ===== *)
theory Storage_Props
  imports Interner_Cache
begin

unbundle bit_operations_syntax

text \<open>
  Properties of the layers under the interner: packed symbols, the arena, the array of
  offsets with its thread-local pointer memo, and the key of short strings.
\<close>

section \<open>Symbols\<close>

text \<open>
  \<open>Symbol::new\<close> accepts an index exactly when it is below \<open>2 ^ 24 - 1\<close>; the symbol
  it then builds is non-zero, gives both fields back, and survives \<open>into_raw\<close> and
  \<open>from_raw\<close>.  No other pair of fields is packed into it.
\<close>

theorem symbol_pack:
  "if i < 2 ^ 24 - 1
   then \<exists>y. symbol_new s i = Inr y \<and> shard_id y = unat s \<and> index y = i \<and> from_raw (into_raw y) = Some y \<and>
     (\<forall>t j. symbol_new t j = Inr y \<longleftrightarrow> t = s \<and> j = i)
   else symbol_new s i = Inl SymbolIndexOverflow"
proof (cases "i < 2 ^ 24 - 1")
  case True
  then obtain y where y: "symbol_new s i = Inr y" using symbol_new_ok by blast
  then have "symbol_new t j = Inr y \<longleftrightarrow> t = s \<and> j = i" for t j
    using symbol_new_inj [OF y, of t j] by auto
  then show ?thesis using True y symbol_new_fields [OF y] from_raw_into_raw [of y] by auto
qed (simp add: symbol_new_def)

section \<open>The arena\<close>

text \<open>
  C25: allocation, on every branch.  On a pool that satisfies the layout invariant a record
  that fits is written inside the region of its shard, reads back as its length and its bytes,
  advances only that cursor, and changes no byte outside the record; the returned offset is
  four-byte aligned and the invariant holds again.  A record that does not fit, or a
  poisoned shard, is refused, and the bytes of the arena stay as they were.
\<close>

theorem pool_alloc_spec:
  assumes "pool_inv P" "sid < length (cursors P)" "length v < 2 ^ 32 - 7"
  shows "if fits P sid v \<and> \<not> poisoned (cursors P ! sid)
    then \<exists>off P'. pool_alloc P sid v = (Inr off, P') \<and> pool_inv P' \<and> unat off mod 4 = 0 \<and>
      region_base P sid \<le> unat off \<and> unat off + rec_size (length v) \<le> region_base P sid + unat (region_size P) \<and>
      mem_read (pmem P') (unat off) 4 = le32 (word_of_nat (length v)) \<and>
      mem_read (pmem P') (unat off + 4) (length v) = v \<and>
      (\<forall>t. cursor_of P' t = (if t = sid then cursor_of P sid + rec_size (length v) else cursor_of P t)) \<and>
      (\<forall>a n. a + n \<le> unat off \<or> unat off + rec_size (length v) \<le> a \<longrightarrow>
         mem_read (pmem P') a n = mem_read (pmem P) a n)
    else \<exists>P'. pool_alloc P sid v = (Inl (PoolExhausted sid), P') \<and> pmem P' = pmem P \<and> pool_inv P'"
proof (cases "fits P sid v \<and> \<not> poisoned (cursors P ! sid)")
  case True
  then have f: "fits P sid v" by simp
  obtain off where off: "pool_alloc P sid v = (Inr off, stored P sid v)"
      "unat off = region_base P sid + cursor_of P sid"
    using pool_alloc_ok [OF assms(1,2) _ assms(3)] True by blast
  have "cursor_of P sid mod 4 = 0" "unat (region_size P) mod 4 = 0"
    using assms(1,2) by (simp_all add: pool_inv_def cursor_of_def)
  then have "unat off mod 4 = 0" by (simp add: off(2) region_base_def mod_eq_0_iff_dvd)
  moreover have "mem_read (pmem (stored P sid v)) a n = mem_read (pmem P) a n"
    if "a + n \<le> unat off \<or> unat off + rec_size (length v) \<le> a" for a n
    using that rec_size_bounds(1) [of "length v"] by (intro stored_frame) (auto simp: off(2))
  ultimately show ?thesis
    using True off stored_reads [OF assms(3), of P sid] pool_inv_stored [OF assms f]
      cursor_stored [OF assms f] f by (auto simp: fits_def)
next
  case False
  then show ?thesis
    using pool_alloc_full [OF assms] assms(1,2) pool_inv_poison by auto
qed

theorem pool_alloc_spec_witness:
  "\<exists>off P'. pool_alloc (ipool fresh_I) 3 hello = (Inr off, P') \<and> mem_read (pmem P') (unat off + 4) 5 = hello"
proof -
  have "pool_inv (ipool fresh_I)" "length (cursors (ipool fresh_I)) = 16"
    using fresh_I_rep by (simp_all add: interner_rep_def)
  moreover from this have "\<not> poisoned (cursors (ipool fresh_I) ! 3)"
    using fresh_I_healthy by (simp add: pool_healthy_def)
  ultimately show ?thesis
    using pool_alloc_spec [of "ipool fresh_I" 3 hello] hello_fits [of 3] hello_ok(2) by auto
qed

section \<open>The array of offsets\<close>

text \<open>
  The array after a push holds the old offsets at their indices and the new one behind
  them, for every thread: whatever chunk pointer the thread's \<open>LAST_CHUNK\<close> memo holds from
  before the push, a read goes to the right slot and leaves the memo right.
\<close>

theorem array_push_get:
  assumes "arr_rep A os" "length os < 2 ^ 24" "memo_ok A memo" "off \<noteq> 0"
  shows "\<exists>B. array_push A off = (Inr (length os), B) \<and> arr_rep B (os @ [off]) \<and>
    fst (array_get B memo (length os) m) = Inr (Some (read_record m (unat off))) \<and>
    (\<forall>i < length os. fst (array_get B memo i m) = fst (array_get A None i m)) \<and>
    (\<forall>i > length os. fst (array_get B memo i m) = Inr None) \<and>
    (\<forall>i. memo_ok B (snd (array_get B memo i m)))"
proof -
  note push = array_push_rep [OF assms(1,2), where off = off]
  obtain B where B: "array_push A off = (Inr (length os), B)" "arr_rep B (os @ [off])" "memo_ok B memo"
    using push assms(3) by (cases "array_push A off") auto
  have "memo_ok B (snd (array_get B memo i m))" for i
    using B(3) load_chunk_transparent(2) [OF B(3)]
    by (auto simp: array_get_def Let_def split: sum.splits option.splits prod.splits) (metis snd_conv)+
  then show ?thesis
    using B assms(2,4) array_get_rep [OF B(2) _ B(3)] array_get_rep [OF assms(1) _ memo_ok_None]
    by (intro exI [of _ B]) (auto simp: nth_append)
qed

theorem array_push_get_witness:
  "\<exists>B. array_push (string_array_new 1 0) 8 = (Inr 0, B) \<and>
     fst (array_get B None 0 (\<lambda>_. 0)) = Inr (Some (read_record (\<lambda>_. 0) 8))"
  using array_push_get [OF arr_rep_new [of 1 0] _ memo_ok_None, of 8 "\<lambda>_. 0"] by auto

section \<open>Short strings\<close>

text \<open>
  For the strings whose cached key is compared without looking at the text, two to
  eight bytes long, the key \<open>prefix8\<close> determines the string.
\<close>

lemma prefix8_exact:
  assumes "length v = length w" "2 \<le> length v" "length v \<le> 8"
  shows "prefix8 v = prefix8 w \<longleftrightarrow> v = w"
  using prefix8_inj [OF assms] by blast

lemma prefix8_exact_witness: "prefix8 hello = prefix8 world \<longleftrightarrow> hello = world"
  by (rule prefix8_exact) (simp_all add: hello_def world_def lit_def)

text \<open>
  The function \<open>offset_of\<close> of a dynamic symbol that resolves is the arena offset of the record that
  holds its text.
\<close>

lemma offset_of_reads:
  assumes "interner_rep D I sss" "resolve I y = Inr (Some v)" "shard_id y \<noteq> 255"
  shows "\<exists>off. offset_of I y = Inr (Some off) \<and> read_record (pmem (ipool I)) (unat off) = (unat off + 4, v)"
proof -
  have "abs_resolve sss y = Some v" using assms(2) by (simp add: resolve_rep [OF assms(1)])
  then have "shard_id y < length sss" "index y < length (sss ! shard_id y)" "sss ! shard_id y ! index y = v"
    using assms(3) by (auto simp: abs_resolve_def split: if_splits)
  then show ?thesis using offset_of_rep [OF assms(1)] by blast
qed

lemma offset_of_reads_witness:
  "\<exists>off. offset_of hello_I hello_y = Inr (Some off) \<and>
     read_record (pmem (ipool hello_I)) (unat off) = (unat off + 4, hello)"
  by (rule offset_of_reads [OF hello_I_rep hello_resolves])

text \<open>
  In a release build \<open>offset_of\<close> panics on a raw symbol whose low 24 bits are zero, although such a symbol
  is a non-zero word that \<open>from_raw\<close> accepts and \<open>resolve\<close> answers with nothing: the
  index wraps to the largest \<open>usize\<close> and the chunk table is indexed out of bounds.
\<close>

lemma offset_of_zero_index:
  assumes "interner_rep D I sss" "shard_id y < length sss" "into_raw y AND INDEX_MASK = 0"
  shows "offset_of I y = Inl IndexOutOfBounds \<and> resolve I y = Inr None"
proof -
  have i: "index y = USIZE_MAX" using assms(3) by (rule index_of_zero_low)
  have n: "length (shards I) = length sss" "length sss \<le> 128"
    using assms(1) interner_rep_count [OF assms(1)] by (simp_all add: interner_rep_def)
  have "length (sss ! shard_id y) < 2 ^ 24"
    using shard_repD(1) [OF assms(1,2)] by (simp add: shard_rep_def)
  then have "abs_resolve sss y = None"
    using i assms(2) n(2) by (simp add: abs_resolve_def USIZE_MAX_def)
  moreover have "\<not> drop_bit 12 USIZE_MAX < (4096 :: nat)" by (simp add: drop_bit_12 USIZE_MAX_def)
  ultimately show ?thesis
    using assms(2) n(1) i by (simp add: offset_of_def Let_def load_chunk_def resolve_rep [OF assms(1)])
qed

lemma offset_of_zero_index_witness: "offset_of fresh_I (Symbol 0x01000000) = Inl IndexOutOfBounds"
  using offset_of_zero_index [OF fresh_I_rep, of "Symbol 0x01000000"]
  by (simp add: shard_id_def INDEX_MASK_def)

lemma index_bound: "into_raw y AND INDEX_MASK \<noteq> 0 \<Longrightarrow> index y < 2 ^ 24"
  using word_and_le1 [of "into_raw y" "INDEX_MASK"]
  by (simp add: index_def INDEX_MASK_def word_le_nat_alt Let_def unat_eq_0)

lemma offset_of_beyond:
  assumes rep: "interner_rep D I sss" and s: "shard_id y < length sss" "length (sss ! shard_id y) \<le> index y"
    and low: "into_raw y AND INDEX_MASK \<noteq> 0"
  shows "offset_of I y = Inr None"
proof -
  let ?A = "strings (shards I ! shard_id y)" and ?i = "index y"
  have "arr_len ?A = length (sss ! shard_id y)" "slots_clear ?A"
    using shard_repD(1) [OF rep s(1)] by (simp_all add: shard_rep_def arr_rep_def)
  then have clear: "chunks ?A (?i div 4096) = Some p \<Longrightarrow> chunk_heap ?A p (?i mod 4096) = 0" for p
    using s(2) by (simp add: slots_clear_def)
  have "?i div 4096 < 4096" using index_bound [OF low] by (simp add: less_mult_imp_div_less)
  moreover have "\<not> length (shards I) \<le> shard_id y" using rep s(1) by (simp add: interner_rep_def)
  ultimately show ?thesis
    using clear by (auto simp: offset_of_def Let_def drop_bit_12 and_4095 load_chunk_def split: option.split)
qed

text \<open>
  C38: what \<open>offset_of\<close> returns for every raw symbol.  For a shard number that the interner does
  not have, the one of the static symbols included, it is nothing.  In an existing shard, a
  symbol that resolves gives the arena offset of the record that holds its text, and one that
  does not resolve gives nothing; but one whose low 24 bits are zero, which \<open>resolve\<close> answers with
  nothing, makes it panic in a release build: the index wraps to the largest \<open>usize\<close> and
  the chunk table is indexed out of bounds.
\<close>

theorem offset_of_correct:
  assumes "interner_rep D I sss"
  shows "if length (shards I) \<le> shard_id y then offset_of I y = Inr None
    else if into_raw y AND INDEX_MASK = 0 then offset_of I y = Inl IndexOutOfBounds \<and> resolve I y = Inr None
    else case resolve I y of
        Inr (Some v) \<Rightarrow> \<exists>off. offset_of I y = Inr (Some off) \<and>
          read_record (pmem (ipool I)) (unat off) = (unat off + 4, v)
      | Inr None \<Rightarrow> offset_of I y = Inr None
      | Inl _ \<Rightarrow> False"
proof (cases "shard_id y < length sss")
  case True
  have n: "length (shards I) = length sss" "length sss \<le> 128"
    using assms interner_rep_count [OF assms] by (simp_all add: interner_rep_def)
  then have "abs_resolve sss y = (if index y < length (sss ! shard_id y) then Some (sss ! shard_id y ! index y) else None)"
    using True by (simp add: abs_resolve_def)
  then show ?thesis
    using True n offset_of_zero_index [OF assms True] offset_of_rep [OF assms True] offset_of_beyond [OF assms True]
    by (simp add: resolve_rep [OF assms])
qed (use assms in \<open>simp add: offset_of_def interner_rep_def\<close>)

theorem offset_of_correct_witness:
  "(\<exists>off. offset_of hello_I hello_y = Inr (Some off) \<and>
     read_record (pmem (ipool hello_I)) (unat off) = (unat off + 4, hello)) \<and>
   offset_of fresh_I (Symbol 0x01000000) = Inl IndexOutOfBounds \<and> offset_of fresh_I (Symbol 0x10000000) = Inr None"
proof -
  have n: "length (shards fresh_I) = 16" "length (shards hello_I) = 16" "shard_id hello_y < 16"
    using fresh_I_rep hello_I_rep hello_home [of hello]
    by (simp_all add: interner_rep_def hello_s_def hello_y_eq mk_sym_fields)
  show ?thesis
    using offset_of_correct [OF hello_I_rep, of hello_y] hello_resolves n(3)
      offset_of_correct [OF fresh_I_rep, of "Symbol 0x01000000"] offset_of_correct [OF fresh_I_rep, of "Symbol 0x10000000"]
    by (simp add: n(1,2) shard_id_def INDEX_MASK_def split: if_splits)
qed

section \<open>Offsets into the byte image\<close>

lemma length_imgs: "list_all2 is_img imgs vs \<Longrightarrow> length (concat imgs) = total_size vs"
  by (induction rule: list_all2_induct) (simp_all add: is_img_def)

lemma image_record:
  assumes imgs: "list_all2 is_img imgs vs" and k: "k < length vs" and v: "length (vs ! k) < 2 ^ 32"
    and u: "utf8_valid (vs ! k)" and off: "unat off = 4 + total_size (take k vs)" and h: "length hdr = 4"
  shows "resolve_raw_offset (hdr @ concat imgs) off = Some (vs ! k)"
proof -
  have kl: "k < length imgs" using k imgs by (simp add: list_all2_lengthD)
  let ?img = "imgs ! k" and ?pre = "hdr @ concat (take k imgs)" and ?v = "vs ! k"
  have img: "is_img ?img ?v" using imgs kl by (rule list_all2_nthD)
  have split: "hdr @ concat imgs = ?pre @ ?img @ concat (drop (Suc k) imgs)"
    using id_take_nth_drop [OF kl] by (metis append.assoc concat.simps(2) concat_append)
  have pre: "length ?pre = unat off"
    using length_imgs [OF list_all2_takeI [OF imgs, of k]] h off by simp
  note l = rec_size_bounds(1) [of "length ?v"]
  have hdr: "sub_slice (hdr @ concat imgs) (unat off) 4 = le32 (word_of_nat (length ?v))"
    using img l by (simp only: split flip: pre) (simp add: sub_slice_def is_img_def)
  have body: "sub_slice (hdr @ concat imgs) (unat off + 4) (length ?v) = ?v"
    using img l by (simp only: split flip: pre) (simp add: sub_slice_def is_img_def)
  have n: "unat (word_of_nat (length ?v) :: u32) = length ?v" using v by (simp add: unat_of_nat)
  have fit: "unat off + 4 + length ?v \<le> length (hdr @ concat imgs)"
    using img l by (simp only: split flip: pre) (simp add: is_img_def)
  have "unat off \<noteq> 0" using off by simp
  then show ?thesis
    using hdr body fit u by (simp add: resolve_raw_offset_def Let_def n)
qed

lemma shard0_record:
  assumes rep: "interner_rep D I sss" and i: "i < length (sss ! 0)"
    and off: "unat off = 4 + total_size (take i (sss ! 0))"
  shows "resolve_raw_offset (interner_bytes I) off = Some (sss ! 0 ! i)"
proof -
  obtain imgs where imgs: "interner_bytes I = le32 (word_of_nat (length sss)) @ concat imgs"
      "list_all2 is_img imgs (concat sss)"
    using bytes_of_rep [OF rep] by blast
  have n: "0 < length sss" using interner_rep_count [OF rep] by simp
  then have "concat sss = sss ! 0 @ concat (tl sss)" by (cases sss) auto
  then have k: "i < length (concat sss)" "concat sss ! i = sss ! 0 ! i"
      "take i (concat sss) = take i (sss ! 0)"
    using i by (simp_all add: nth_append)
  have "value_ok (sss ! 0 ! i)" using home_unique(2) [OF rep n i] .
  then show ?thesis
    using image_record [OF imgs(2) k(1)] k off by (simp add: imgs(1) value_ok_def)
qed

text \<open>
  For a symbol of shard 0, \<open>resolve_raw_offset\<close> applied to the byte image and to
  \<open>offset_of\<close> of the symbol gives the symbol's string.  (The image drops the unused tail of
  every region, so the statement does not extend to the other shards.)
\<close>

lemma raw_offset_shard0:
  assumes "interner_rep D I sss" "resolve I y = Inr (Some v)" "shard_id y = 0"
  shows "\<exists>off. offset_of I y = Inr (Some off) \<and> resolve_raw_offset (interner_bytes I) off = Some v"
proof -
  have "abs_resolve sss y = Some v" using assms(2) by (simp add: resolve_rep [OF assms(1)])
  then have s: "0 < length sss" "index y < length (sss ! 0)" "sss ! 0 ! index y = v"
    using assms(3) by (auto simp: abs_resolve_def split: if_splits)
  have "layout (region_base (ipool I) 0) (sss ! 0) ! index y = 4 + total_size (take (index y) (sss ! 0))"
    using s(2) by (simp add: layout_nth region_base_def)
  then obtain off where "offset_of I y = Inr (Some off)" "unat off = 4 + total_size (take (index y) (sss ! 0))"
    using offset_of_at [OF assms(1), of y] s assms(3) by auto
  then show ?thesis using shard0_record [OF assms(1) s(2)] s(3) by auto
qed

lemma raw_offset_shard0_witness:
  "\<exists>I c off. get_or_intern demo_D fresh_I local_cache_new text_a = (Inr (mk_sym 0 0), I, c) \<and>
     offset_of I (mk_sym 0 0) = Inr (Some off) \<and> resolve_raw_offset (interner_bytes I) off = Some text_a"
proof -
  obtain I c where I: "get_or_intern demo_D fresh_I local_cache_new text_a = (Inr (mk_sym 0 0), I, c)"
      "interner_rep demo_D I (add_string (replicate 16 []) 0 text_a)"
    using run_a by blast
  have "shard_id (mk_sym 0 0) = 0" "index (mk_sym 0 0) = 0" by (simp_all add: mk_sym_fields)
  moreover from this have "resolve I (mk_sym 0 0) = Inr (Some text_a)"
    by (simp add: resolve_rep [OF I(2)] abs_resolve_def add_string_def)
  ultimately show ?thesis using raw_offset_shard0 [OF I(2)] I(1) by blast
qed

text \<open>
  For a symbol of any other shard the same composition finds nothing, as long as the
  whole image is no longer than one region: \<open>offset_of\<close> counts the unused bytes of the
  regions before it, the image does not hold them.
\<close>

lemma raw_offset_other_shards:
  assumes "interner_rep D I sss" "resolve I y = Inr (Some v)" "shard_id y \<notin> {0, 255}"
    "length (interner_bytes I) \<le> unat (region_size (ipool I))"
  shows "\<exists>off. offset_of I y = Inr (Some off) \<and> resolve_raw_offset (interner_bytes I) off = None"
proof -
  have "abs_resolve sss y = Some v" using assms(2) by (simp add: resolve_rep [OF assms(1)])
  then have s: "shard_id y < length sss" "index y < length (sss ! shard_id y)"
    using assms(3) by (auto simp: abs_resolve_def split: if_splits)
  obtain off where off: "offset_of I y = Inr (Some off)"
      "unat off = layout (region_base (ipool I) (shard_id y)) (sss ! shard_id y) ! index y"
    using offset_of_at [OF assms(1) s] by blast
  have "unat (region_size (ipool I)) \<le> shard_id y * unat (region_size (ipool I))" using assms(3) by simp
  also have "\<dots> < unat off" using s(2) by (simp add: off(2) layout_nth region_base_def)
  finally show ?thesis using off(1) assms(4) by (simp add: resolve_raw_offset_def)
qed

lemma hello_home_eq: "home demo_D 16 hello = 12"
  by (simp add: home_def hello_def hash_of_def prefix8_def lit_def of_le32_def)

lemma hello_image: "length (interner_bytes hello_I) \<le> unat (region_size (ipool hello_I))"
proof -
  obtain imgs where imgs: "interner_bytes hello_I = le32 (word_of_nat (length hello_s)) @ concat imgs"
      "list_all2 is_img imgs (concat hello_s)"
    using bytes_of_rep [OF hello_I_rep] by blast
  have "concat hello_s = [hello]"
    by (simp only: hello_s_def add_string_def hello_home_eq) (simp add: numeral_eq_Suc)
  then have "length (interner_bytes hello_I) = 16"
    using imgs length_imgs [OF imgs(2)] hello_ok(2) by (simp add: rec_size_def)
  moreover have "unat (region_size (ipool hello_I)) = 4 * ((2 ^ 29 - 4) div 16 div 4)"
    using fresh_I_healthy fresh_I_rep
    by (simp add: hello_I_pool pool_healthy_def arena_sized_def interner_rep_def)
  ultimately show ?thesis by simp
qed

text \<open>
  C39: \<open>resolve_raw_offset\<close> of the byte image at \<open>offset_of\<close> of a symbol.  For a symbol of
  shard 0 it gives the symbol's string.  For a symbol of any other shard it gives nothing, as long
  as the whole image is no longer than one region: the image drops the unused tail of every region,
  the offset counts it.
\<close>

theorem raw_offset_lookup:
  assumes "interner_rep D I sss" "resolve I y = Inr (Some v)" "shard_id y \<noteq> 255"
    "length (interner_bytes I) \<le> unat (region_size (ipool I))"
  shows "\<exists>off. offset_of I y = Inr (Some off) \<and>
    resolve_raw_offset (interner_bytes I) off = (if shard_id y = 0 then Some v else None)"
  using raw_offset_shard0 [OF assms(1,2)] raw_offset_other_shards [OF assms(1,2) _ assms(4)] assms(3) by auto

theorem raw_offset_lookup_witness:
  "\<exists>off. offset_of hello_I hello_y = Inr (Some off) \<and> resolve_raw_offset (interner_bytes hello_I) off = None"
proof -
  have "shard_id hello_y = 12" by (simp add: hello_y_eq hello_home_eq mk_sym_fields)
  then show ?thesis using raw_offset_lookup [OF hello_I_rep hello_resolves(1) _ hello_image] by simp
qed

end
