(* ===== verification/Results.thy ===== *)
theory Results
  imports Prelude
begin

text \<open>
  Code that may fail, in sequence: binding of sum-valued results, checked indexing and
  slicing, fallible filters, and the binary search of \<open>core::slice\<close>.
\<close>

named_theorems res_simps \<open>steps of sum-valued code\<close>

section \<open>Sequencing\<close>

definition sum_bind :: "'e + 'a \<Rightarrow> ('a \<Rightarrow> 'e + 'b) \<Rightarrow> 'e + 'b" where
  "sum_bind r f = (case r of Inl e \<Rightarrow> Inl e | Inr x \<Rightarrow> f x)"

lemma sum_bind_simps [simp, res_simps]:
  "sum_bind (Inl e) f = Inl e" "sum_bind (Inr x) f = f x"
  by (simp_all add: sum_bind_def)

lemma sum_bind_Inr: "sum_bind r f = Inr y \<longleftrightarrow> (\<exists>x. r = Inr x \<and> f x = Inr y)"
  by (cases r) auto

lemma sum_bind_assoc: "sum_bind (sum_bind r f) g = sum_bind r (\<lambda>x. sum_bind (f x) g)"
  by (cases r) auto

text \<open>\<open>xs[i]\<close> and \<open>&xs[a..a + n]\<close>, with their bounds checks.\<close>

definition nth_res :: "'a list \<Rightarrow> nat \<Rightarrow> 'a res" where
  "nth_res xs i = (if i < length xs then Inr (xs ! i) else Inl IndexOutOfBounds)"

definition slice_res :: "'a list \<Rightarrow> nat \<Rightarrow> nat \<Rightarrow> 'a list res" where
  "slice_res xs a n = (if a + n \<le> length xs then Inr (sub_slice xs a n) else Inl IndexOutOfBounds)"

lemma nth_res_in [simp, res_simps]: "i < length xs \<Longrightarrow> nth_res xs i = Inr (xs ! i)"
  by (simp add: nth_res_def)

lemma slice_res_in [simp, res_simps]: "a + n \<le> length xs \<Longrightarrow> slice_res xs a n = Inr (sub_slice xs a n)"
  by (simp add: slice_res_def)

text \<open>\<open>expect\<close> and \<open>unwrap\<close> on an option.\<close>

definition expect :: "'a option \<Rightarrow> 'a res" where
  "expect x = (case x of None \<Rightarrow> Inl UnwrapNone | Some y \<Rightarrow> Inr y)"

lemma expect_simps [simp, res_simps]: "expect None = Inl UnwrapNone" "expect (Some y) = Inr y"
  by (simp_all add: expect_def)

fun filter_res :: "('a \<Rightarrow> 'e + bool) \<Rightarrow> 'a list \<Rightarrow> 'e + 'a list" where
  "filter_res p [] = Inr []"
| "filter_res p (x # xs) =
     sum_bind (p x) (\<lambda>b. sum_bind (filter_res p xs) (\<lambda>ys. Inr (if b then x # ys else ys)))"

lemma filter_res_total: "(\<And>x. x \<in> set xs \<Longrightarrow> p x = Inr (q x)) \<Longrightarrow> filter_res p xs = Inr (filter q xs)"
  by (induction xs) auto

fun map_res :: "('a \<Rightarrow> 'e + 'b) \<Rightarrow> 'a list \<Rightarrow> 'e + 'b list" where
  "map_res f [] = Inr []"
| "map_res f (x # xs) = sum_bind (f x) (\<lambda>y. sum_bind (map_res f xs) (\<lambda>ys. Inr (y # ys)))"

lemma map_res_total: "(\<And>x. x \<in> set xs \<Longrightarrow> f x = Inr (g x)) \<Longrightarrow> map_res f xs = Inr (map g xs)"
  by (induction xs) auto

fun fold_res :: "('a \<Rightarrow> 's \<Rightarrow> 'e + 's) \<Rightarrow> 'a list \<Rightarrow> 's \<Rightarrow> 'e + 's" where
  "fold_res f [] s = Inr s"
| "fold_res f (x # xs) s = sum_bind (f x s) (fold_res f xs)"

lemma fold_res_total:
  "(\<And>x s. x \<in> set xs \<Longrightarrow> f x s = Inr (g x s)) \<Longrightarrow> fold_res f xs s = Inr (fold g xs s)"
  by (induction xs arbitrary: s) auto

lemma fold_res_append: "fold_res f (xs @ ys) s = sum_bind (fold_res f xs s) (fold_res f ys)"
  by (induction xs arbitrary: s) (auto simp: sum_bind_def split: sum.splits)

section \<open>Binary search\<close>

text \<open>
  \<open>[T]::binary_search_by_key\<close>: the window \<open>[base, base + sz)\<close> is halved until one
  element is left, which is then tested.  \<open>key\<close> is the key of the element at an index; it may
  panic.
\<close>

function bsearch_loop :: "(nat \<Rightarrow> 'k::linorder res) \<Rightarrow> 'k \<Rightarrow> nat \<Rightarrow> nat \<Rightarrow> nat res" where
  "bsearch_loop key x sz base =
     (if sz \<le> 1 then Inr base
      else
        let half = sz div 2; mid = base + half in
        sum_bind (key mid) (\<lambda>k. bsearch_loop key x (sz - half) (if k > x then base else mid)))"
  by pat_completeness auto
termination
  by (relation "measure (\<lambda>(_, _, sz, _). sz)") auto

declare bsearch_loop.simps [simp del]

definition binary_search_by_key :: "(nat \<Rightarrow> 'k::linorder res) \<Rightarrow> 'k \<Rightarrow> nat \<Rightarrow> nat option res" where
  "binary_search_by_key key x len =
     (if len = 0 then Inr None
      else
        sum_bind (bsearch_loop key x len 0) (\<lambda>base.
        sum_bind (key base) (\<lambda>k. Inr (if k = x then Some base else None))))"

lemma bsearch_loop_finds:
  assumes key: "\<And>i. i < n \<Longrightarrow> key i = Inr (f i)" and mono: "\<And>i j. i \<le> j \<Longrightarrow> j < n \<Longrightarrow> f i \<le> f j"
    and win: "base + sz \<le> n" "0 < sz"
  shows "\<exists>b. bsearch_loop key x sz base = Inr b \<and> base \<le> b \<and> b < base + sz \<and>
    (\<forall>i. base \<le> i \<longrightarrow> i < base + sz \<longrightarrow> f i = x \<longrightarrow> f b = x)"
  using win
proof (induction sz arbitrary: base rule: less_induct)
  case (less sz)
  show ?case
  proof (cases "sz \<le> 1")
    case True
    then have "sz = 1" using less.prems by simp
    then show ?thesis by (subst bsearch_loop.simps) (auto dest: le_less_Suc_eq)
  next
    case False
    let ?half = "sz div 2" let ?mid = "base + ?half"
    let ?b = "if f ?mid > x then base else ?mid"
    have h: "0 < ?half" "?half < sz" "?mid < n" using False less.prems by auto
    have step: "bsearch_loop key x sz base = bsearch_loop key x (sz - ?half) ?b"
      using False h(3) by (subst bsearch_loop.simps) (simp add: key Let_def not_le)
    have "?b + (sz - ?half) \<le> n" using less.prems by auto
    then obtain b where b: "bsearch_loop key x (sz - ?half) ?b = Inr b" "?b \<le> b" "b < ?b + (sz - ?half)"
        "\<And>i. ?b \<le> i \<Longrightarrow> i < ?b + (sz - ?half) \<Longrightarrow> f i = x \<Longrightarrow> f b = x"
      using less.IH [of "sz - ?half" ?b] h by auto
    have "f b = x" if i: "base \<le> i" "i < base + sz" "f i = x" for i
    proof (cases "f ?mid > x")
      case True
      have "i < ?mid" using mono [of ?mid i] i True less.prems by (auto simp: not_less [symmetric])
      then show ?thesis using b(4) [of i] True i h by auto
    next
      case False
      show ?thesis
      proof (cases "i < ?mid")
        case True
        then have "f ?mid = x" using mono [of i ?mid] h(3) i(3) False by auto
        then show ?thesis using b(4) [of ?mid] False h by auto
      next
        case ge: False
        then show ?thesis using b(4) [of i] False i by auto
      qed
    qed
    moreover have "base \<le> b" "b < base + sz" using b(2,3) h by (auto split: if_splits)
    ultimately show ?thesis using step b(1) by auto
  qed
qed

text \<open>On keys in ascending order the search finds an equal key whenever there is one.\<close>

lemma binary_search_spec:
  assumes key: "\<And>i. i < n \<Longrightarrow> key i = Inr (f i)" and mono: "\<And>i j. i \<le> j \<Longrightarrow> j < n \<Longrightarrow> f i \<le> f j"
  shows "\<exists>r. binary_search_by_key key x n = Inr r \<and>
    (case r of Some i \<Rightarrow> i < n \<and> f i = x | None \<Rightarrow> \<forall>i < n. f i \<noteq> x)"
proof (cases "n = 0")
  case False
  then obtain b where b: "bsearch_loop key x n 0 = Inr b" "b < n"
      "\<forall>i. i < n \<longrightarrow> f i = x \<longrightarrow> f b = x"
    using bsearch_loop_finds [of n key f 0 n x] key mono by auto
  then show ?thesis using False key [OF b(2)] by (auto simp: binary_search_by_key_def)
qed (simp add: binary_search_by_key_def)

end
