(* ===== verification/Schema.thy ===== *)
theory Schema
  imports Results Interner_Correct
begin

unbundle bit_operations_syntax

text \<open>
  \<open>core/schema.rs\<close> without its byte format: the data of a database schema, the accessors of
  tables and columns, the lookups by name, and the two table classifications.  A
  \<open>TableRef\<close> is the schema together with a table index, a \<open>ColumnRef\<close> the schema with
  a column index; the schema is an argument here and the index the reference.  Lookups of
  strings go through the interner and the string cache of the calling thread, which is an
  argument and part of the result.
\<close>

section \<open>Data\<close>

datatype action = NoAction | Cascade | SetNull | SetDefault | Restrict

datatype value_type =
    VNull | VBool | VInt | VFloat | VDecimal | VText | VBlob | VJson | VUuid | VTimestamp
  | VTimestampTz | VDate | VTime | VTimeTz | VCustom symbol | VBoolArray | VIntArray
  | VFloatArray | VDecimalArray | VTextArray

record foreign_key =
  fk_constraint_name :: symbol
  fk_namespace :: symbol
  fk_table :: u16
  fk_column :: u16
  fk_on_update :: action
  fk_on_delete :: action

type_synonym column_flags = u8

record pool_range =
  pr_start :: u32
  pr_len :: u16

record column =
  col_name :: symbol
  col_data_type :: value_type
  col_default_value :: "symbol option"
  col_flags :: column_flags
  col_constraints :: pool_range
  col_foreign_keys :: pool_range

record table_meta =
  tm_name :: symbol
  tm_columns_start :: u32
  tm_columns_len :: u16
  tm_primary_key :: "u16 option"
  tm_fk_start :: u32
  tm_fk_len :: u16

record 't database_schema =
  ds_tables :: "table_meta list"
  ds_by_name :: "u16 list"
  ds_columns :: "column list"
  ds_column_names :: "symbol list"
  ds_constraint_pool :: "symbol list"
  ds_foreign_key_pool :: "foreign_key list"
  ds_hash :: "u8 list"
  ds_interner :: "'t interner"

section \<open>Actions, types, flags\<close>

definition action_of_u8 :: "u8 \<Rightarrow> action res" where
  "action_of_u8 b =
     (if b = 0 then Inr NoAction else if b = 1 then Inr Cascade else if b = 2 then Inr SetNull
      else if b = 3 then Inr SetDefault else if b = 4 then Inr Restrict else Inl Unreachable)"

definition action_of_u16 :: "u16 \<Rightarrow> action res" where
  "action_of_u16 w = action_of_u8 (ucast w)"

fun action_to_u8 :: "action \<Rightarrow> u8" where
  "action_to_u8 NoAction = 0"
| "action_to_u8 Cascade = 1"
| "action_to_u8 SetNull = 2"
| "action_to_u8 SetDefault = 3"
| "action_to_u8 Restrict = 4"

fun action_to_u16 :: "action \<Rightarrow> u16" where
  "action_to_u16 NoAction = 0"
| "action_to_u16 Cascade = 1"
| "action_to_u16 SetNull = 2"
| "action_to_u16 SetDefault = 3"
| "action_to_u16 Restrict = 4"

fun action_display :: "action \<Rightarrow> str" where
  "action_display NoAction = lit ''NO ACTION''"
| "action_display Cascade = lit ''CASCADE''"
| "action_display SetNull = lit ''SET NULL''"
| "action_display SetDefault = lit ''SET DEFAULT''"
| "action_display Restrict = lit ''RESTRICT''"

fun value_type_to_u8 :: "value_type \<Rightarrow> u8" where
  "value_type_to_u8 VNull = 0"
| "value_type_to_u8 VBool = 1"
| "value_type_to_u8 VInt = 2"
| "value_type_to_u8 VFloat = 3"
| "value_type_to_u8 VDecimal = 4"
| "value_type_to_u8 VText = 5"
| "value_type_to_u8 VBlob = 6"
| "value_type_to_u8 VJson = 7"
| "value_type_to_u8 VUuid = 8"
| "value_type_to_u8 VTimestamp = 9"
| "value_type_to_u8 VTimestampTz = 10"
| "value_type_to_u8 VDate = 11"
| "value_type_to_u8 VTime = 12"
| "value_type_to_u8 VTimeTz = 13"
| "value_type_to_u8 (VCustom y) = 14"
| "value_type_to_u8 VBoolArray = 15"
| "value_type_to_u8 VIntArray = 16"
| "value_type_to_u8 VFloatArray = 17"
| "value_type_to_u8 VDecimalArray = 18"
| "value_type_to_u8 VTextArray = 19"

definition NULLABLE :: column_flags where "NULLABLE = 1"
definition PRIMARY_KEY :: column_flags where "PRIMARY_KEY = push_bit 1 1"
definition UNIQUE :: column_flags where "UNIQUE = push_bit 2 1"

definition flags_contains :: "column_flags \<Rightarrow> column_flags \<Rightarrow> bool" where
  "flags_contains a b \<longleftrightarrow> a AND b = b"

definition flags_with :: "column_flags \<Rightarrow> column_flags \<Rightarrow> column_flags" where
  "flags_with a b = a OR b"

definition flags_set :: "column_flags \<Rightarrow> column_flags \<Rightarrow> bool \<Rightarrow> column_flags" where
  "flags_set a b enabled = (if enabled then a OR b else a AND NOT b)"

definition is_nullable :: "column \<Rightarrow> bool" where
  "is_nullable c = flags_contains (col_flags c) NULLABLE"

definition is_primary_key :: "column \<Rightarrow> bool" where
  "is_primary_key c = flags_contains (col_flags c) PRIMARY_KEY"

definition is_unique :: "column \<Rightarrow> bool" where
  "is_unique c = flags_contains (col_flags c) UNIQUE"

section \<open>Strings of the schema\<close>

definition resolve_symbol :: "'t database_schema \<Rightarrow> symbol \<Rightarrow> str option res" where
  "resolve_symbol S y = resolve (ds_interner S) y"

definition get_symbol ::
  "'t deps \<Rightarrow> 't database_schema \<Rightarrow> local_cache \<Rightarrow> str \<Rightarrow> symbol option res \<times> local_cache" where
  "get_symbol D S lc v = get_symbol_of D (ds_interner S) lc v"

section \<open>Tables\<close>

definition table_at :: "'t database_schema \<Rightarrow> nat \<Rightarrow> u16 option" where
  "table_at S i = (if i < length (ds_tables S) then Some (word_of_nat i) else None)"

text \<open>\<open>0..self.tables.len() as u16\<close>: the number of tables is truncated to 16 bits.\<close>

definition tables :: "'t database_schema \<Rightarrow> u16 list" where
  "tables S = map word_of_nat [0..<unat (word_of_nat (length (ds_tables S)) :: u16)]"

definition schema_len :: "'t database_schema \<Rightarrow> nat" where
  "schema_len S = length (ds_tables S)"

definition schema_is_empty :: "'t database_schema \<Rightarrow> bool" where
  "schema_is_empty S = (ds_tables S = [])"

definition table_by_symbol :: "'t database_schema \<Rightarrow> symbol \<Rightarrow> u16 option res" where
  "table_by_symbol S y =
     sum_bind
       (binary_search_by_key
          (\<lambda>k. sum_bind (nth_res (ds_by_name S) k) (\<lambda>i.
               sum_bind (nth_res (ds_tables S) (unat i)) (\<lambda>t. Inr (tm_name t))))
          y (length (ds_by_name S)))
       (\<lambda>r. case r of
          None \<Rightarrow> Inr None
        | Some slot \<Rightarrow> sum_bind (nth_res (ds_by_name S) slot) (\<lambda>i. Inr (table_at S (unat i))))"

definition table_of ::
  "'t deps \<Rightarrow> 't database_schema \<Rightarrow> local_cache \<Rightarrow> str \<Rightarrow> u16 option res \<times> local_cache" where
  "table_of D S lc name = (case get_symbol D S lc name of (r, lc') \<Rightarrow>
     (sum_bind r (\<lambda>r. case r of
        None \<Rightarrow> Inr None
      | Some y \<Rightarrow> table_by_symbol S y), lc'))"

definition table_meta_at :: "'t database_schema \<Rightarrow> u16 \<Rightarrow> table_meta res" where
  "table_meta_at S t = nth_res (ds_tables S) (unat t)"

definition table_name :: "'t database_schema \<Rightarrow> u16 \<Rightarrow> str res" where
  "table_name S t =
     sum_bind (table_meta_at S t) (\<lambda>m. sum_bind (resolve (ds_interner S) (tm_name m)) expect)"

definition columns_range :: "'t database_schema \<Rightarrow> u16 \<Rightarrow> (nat \<times> nat) res" where
  "columns_range S t =
     sum_bind (table_meta_at S t) (\<lambda>m. Inr (unat (tm_columns_start m), unat (tm_columns_len m)))"

text \<open>The columns of a table, as indices into the column array.\<close>

definition table_columns :: "'t database_schema \<Rightarrow> u16 \<Rightarrow> nat list res" where
  "table_columns S t = sum_bind (columns_range S t) (\<lambda>(start, n). Inr [start..<start + n])"

definition column_names :: "'t database_schema \<Rightarrow> u16 \<Rightarrow> symbol list res" where
  "column_names S t = sum_bind (columns_range S t) (\<lambda>(start, n). slice_res (ds_column_names S) start n)"

definition position :: "'t database_schema \<Rightarrow> u16 \<Rightarrow> symbol \<Rightarrow> nat option res" where
  "position S t name = sum_bind (column_names S t) (\<lambda>cs. Inr (find_index (\<lambda>c. c = name) cs))"

definition column_by_symbol :: "'t database_schema \<Rightarrow> u16 \<Rightarrow> symbol \<Rightarrow> nat option res" where
  "column_by_symbol S t name =
     sum_bind (position S t name) (\<lambda>r. case r of
        None \<Rightarrow> Inr None
      | Some local_index \<Rightarrow>
          sum_bind (columns_range S t) (\<lambda>(start, _). Inr (Some (start + local_index))))"

definition column_of ::
  "'t deps \<Rightarrow> 't database_schema \<Rightarrow> local_cache \<Rightarrow> u16 \<Rightarrow> str \<Rightarrow> nat option res \<times> local_cache" where
  "column_of D S lc t name = (case get_symbol D S lc name of (r, lc') \<Rightarrow>
     (sum_bind r (\<lambda>r. case r of
        None \<Rightarrow> Inr None
      | Some y \<Rightarrow> column_by_symbol S t y), lc'))"

definition primary_key :: "'t database_schema \<Rightarrow> u16 \<Rightarrow> nat option res" where
  "primary_key S t =
     sum_bind (table_meta_at S t) (\<lambda>m.
     case tm_primary_key m of
       None \<Rightarrow> Inr None
     | Some i \<Rightarrow> sum_bind (columns_range S t) (\<lambda>(start, _). Inr (Some (start + unat i))))"

definition table_foreign_keys :: "'t database_schema \<Rightarrow> u16 \<Rightarrow> foreign_key list res" where
  "table_foreign_keys S t =
     sum_bind (table_meta_at S t) (\<lambda>m.
     slice_res (ds_foreign_key_pool S) (unat (tm_fk_start m)) (unat (tm_fk_len m)))"

definition referenced_table :: "foreign_key \<Rightarrow> u16" where
  "referenced_table fk = fk_table fk"

section \<open>Columns\<close>

definition column_meta :: "'t database_schema \<Rightarrow> nat \<Rightarrow> column res" where
  "column_meta S c = nth_res (ds_columns S) c"

definition column_name :: "'t database_schema \<Rightarrow> nat \<Rightarrow> str res" where
  "column_name S c =
     sum_bind (column_meta S c) (\<lambda>m. sum_bind (resolve (ds_interner S) (col_name m)) expect)"

definition column_constraints :: "'t database_schema \<Rightarrow> nat \<Rightarrow> symbol list res" where
  "column_constraints S c =
     sum_bind (column_meta S c) (\<lambda>m.
     slice_res (ds_constraint_pool S) (unat (pr_start (col_constraints m))) (unat (pr_len (col_constraints m))))"

definition column_foreign_keys :: "'t database_schema \<Rightarrow> nat \<Rightarrow> foreign_key list res" where
  "column_foreign_keys S c =
     sum_bind (column_meta S c) (\<lambda>m.
     slice_res (ds_foreign_key_pool S) (unat (pr_start (col_foreign_keys m)))
       (unat (pr_len (col_foreign_keys m))))"

section \<open>Classifications\<close>

definition independent_tables :: "'t database_schema \<Rightarrow> u16 list res" where
  "independent_tables S =
     filter_res (\<lambda>t. sum_bind (table_foreign_keys S t) (\<lambda>fks.
        Inr (list_all (\<lambda>fk. unat (fk_table fk) = unat t) fks))) (tables S)"

text \<open>The \<open>referenced\<close> array after the two nested loops of \<open>leaf_tables\<close>.\<close>

definition mark_referenced :: "nat \<Rightarrow> foreign_key \<Rightarrow> bool list \<Rightarrow> bool list res" where
  "mark_referenced i fk referenced =
     (if unat (fk_table fk) \<noteq> i then
        if unat (fk_table fk) < length referenced then Inr (referenced[unat (fk_table fk) := True])
        else Inl IndexOutOfBounds
      else Inr referenced)"

definition leaf_tables :: "'t database_schema \<Rightarrow> u16 list res" where
  "leaf_tables S =
     sum_bind
       (fold_res
          (\<lambda>(i, m) referenced.
             sum_bind (slice_res (ds_foreign_key_pool S) (unat (tm_fk_start m)) (unat (tm_fk_len m)))
               (\<lambda>fks. fold_res (mark_referenced i) fks referenced))
          (enumerate 0 (ds_tables S)) (replicate (length (ds_tables S)) False))
       (\<lambda>referenced. Inr (List.map_filter (\<lambda>(i, r). if \<not> r then table_at S i else None)
          (enumerate 0 referenced)))"

end
