(* ===== verification/Schema_Wf.thy ===== *)
theory Schema_Wf
  imports Schema
begin

unbundle bit_operations_syntax

text \<open>
  Well-formed schemas and what the accessors of \<open>Schema\<close> return on them: no accessor
  panics, the binary search over \<open>by_name\<close> finds every table, and the classifications are
  what their names say.
\<close>

section \<open>Well-formedness\<close>

definition table_wf :: "'t database_schema \<Rightarrow> table_meta \<Rightarrow> bool" where
  "table_wf S m \<longleftrightarrow>
     unat (tm_columns_start m) + unat (tm_columns_len m) \<le> length (ds_columns S) \<and>
     unat (tm_fk_start m) + unat (tm_fk_len m) \<le> length (ds_foreign_key_pool S) \<and>
     (\<forall>i. tm_primary_key m = Some i \<longrightarrow> unat i < unat (tm_columns_len m))"

definition column_wf :: "'t database_schema \<Rightarrow> column \<Rightarrow> bool" where
  "column_wf S c \<longleftrightarrow>
     unat (pr_start (col_constraints c)) + unat (pr_len (col_constraints c)) \<le> length (ds_constraint_pool S) \<and>
     unat (pr_start (col_foreign_keys c)) + unat (pr_len (col_foreign_keys c)) \<le> length (ds_foreign_key_pool S)"

definition fk_wf :: "'t database_schema \<Rightarrow> foreign_key \<Rightarrow> bool" where
  "fk_wf S fk \<longleftrightarrow> unat (fk_table fk) < length (ds_tables S) \<and>
     unat (fk_column fk) < unat (tm_columns_len (ds_tables S ! unat (fk_table fk)))"

text \<open>\<open>by_name\<close> lists every table once, in ascending order of the name symbols.\<close>

definition by_name_wf :: "'t database_schema \<Rightarrow> bool" where
  "by_name_wf S \<longleftrightarrow>
     set (map unat (ds_by_name S)) = {..<length (ds_tables S)} \<and>
     sorted (map (\<lambda>i. tm_name (ds_tables S ! unat i)) (ds_by_name S))"

definition schema_wf :: "'t database_schema \<Rightarrow> bool" where
  "schema_wf S \<longleftrightarrow>
     length (ds_tables S) < 2 ^ 16 \<and> distinct (map tm_name (ds_tables S)) \<and> by_name_wf S \<and>
     ds_column_names S = map col_name (ds_columns S) \<and>
     (\<forall>m \<in> set (ds_tables S). table_wf S m) \<and> (\<forall>c \<in> set (ds_columns S). column_wf S c) \<and>
     (\<forall>fk \<in> set (ds_foreign_key_pool S). fk_wf S fk)"

lemma schema_wf_table:
  "schema_wf S \<Longrightarrow> unat t < length (ds_tables S) \<Longrightarrow> table_wf S (ds_tables S ! unat t)"
  by (simp add: schema_wf_def)

lemma schema_wf_name_inj:
  "schema_wf S \<Longrightarrow> i < length (ds_tables S) \<Longrightarrow> j < length (ds_tables S) \<Longrightarrow>
     tm_name (ds_tables S ! i) = tm_name (ds_tables S ! j) \<longleftrightarrow> i = j"
  using nth_eq_iff_index_eq [of "map tm_name (ds_tables S)" i j] by (simp add: schema_wf_def)

lemma tables_wf: "length (ds_tables S) < 2 ^ 16 \<Longrightarrow> tables S = map word_of_nat [0..<length (ds_tables S)]"
  by (simp add: tables_def unat_of_nat)

lemma set_tables_wf: "length (ds_tables S) < 2 ^ 16 \<Longrightarrow> t \<in> set (tables S) \<longleftrightarrow> unat t < length (ds_tables S)"
proof -
  assume n: "length (ds_tables S) < 2 ^ 16"
  have "t = word_of_nat (unat t)" by simp
  moreover have "unat (word_of_nat i :: u16) = i" if "i < length (ds_tables S)" for i
    using that n by (intro unat_word_of_nat_small) simp
  moreover have "t \<in> set (tables S) \<longleftrightarrow> (\<exists>i < length (ds_tables S). t = word_of_nat i)"
    by (auto simp: tables_wf [OF n])
  ultimately show ?thesis by metis
qed

section \<open>Lookups\<close>

text \<open>The binary search over an index of the tables in ascending order of their names.\<close>

lemma by_name_search:
  assumes set: "set (map unat b) = {..<length ts}" and sorted: "sorted (map (\<lambda>i. tm_name (ts ! unat i)) b)"
  shows "\<exists>r. binary_search_by_key
      (\<lambda>k. sum_bind (nth_res b k) (\<lambda>i. sum_bind (nth_res ts (unat i)) (\<lambda>t. Inr (tm_name t)))) y (length b) = Inr r \<and>
    (case r of
       Some k \<Rightarrow> k < length b \<and> unat (b ! k) < length ts \<and> tm_name (ts ! unat (b ! k)) = y
     | None \<Rightarrow> \<forall>i < length ts. tm_name (ts ! i) \<noteq> y)"
proof -
  let ?f = "\<lambda>k. tm_name (ts ! unat (b ! k))"
  let ?key = "\<lambda>k. sum_bind (nth_res b k) (\<lambda>i. sum_bind (nth_res ts (unat i)) (\<lambda>t. Inr (tm_name t)))"
  have in_range: "unat (b ! k) < length ts" if "k < length b" for k
  proof -
    have "unat (b ! k) \<in> set (map unat b)" using that by simp
    then show ?thesis by (simp only: set lessThan_iff)
  qed
  have key: "?key k = Inr (?f k)" if "k < length b" for k
    using that in_range [OF that] by simp
  have mono: "?f i \<le> ?f j" if "i \<le> j" "j < length b" for i j
    using sorted_nth_mono [OF sorted, of i j] that by simp
  obtain r where r: "binary_search_by_key ?key y (length b) = Inr r"
      "case r of Some i \<Rightarrow> i < length b \<and> ?f i = y | None \<Rightarrow> \<forall>i < length b. ?f i \<noteq> y"
    using binary_search_spec [of "length b" ?key ?f y, OF key mono] by blast
  have "\<exists>k < length b. unat (b ! k) = i" if "i < length ts" for i
  proof -
    have "i \<in> set (map unat b)" using set that by simp
    then show ?thesis by (auto simp: in_set_conv_nth)
  qed
  then have "case r of
       Some k \<Rightarrow> k < length b \<and> unat (b ! k) < length ts \<and> tm_name (ts ! unat (b ! k)) = y
     | None \<Rightarrow> \<forall>i < length ts. tm_name (ts ! i) \<noteq> y"
    using r(2) in_range by (fastforce split: option.splits)
  then show ?thesis using r(1) by blast
qed

lemma table_by_symbol_spec:
  assumes wf: "schema_wf S"
  shows "\<exists>r. table_by_symbol S y = Inr r \<and>
    (\<forall>t. r = Some t \<longleftrightarrow> unat t < length (ds_tables S) \<and> tm_name (ds_tables S ! unat t) = y)"
proof -
  let ?n = "length (ds_tables S)" and ?b = "ds_by_name S"
  let ?key = "\<lambda>k. sum_bind (nth_res ?b k) (\<lambda>i.
               sum_bind (nth_res (ds_tables S) (unat i)) (\<lambda>t. Inr (tm_name t)))"
  obtain r where r: "binary_search_by_key ?key y (length ?b) = Inr r"
      "case r of Some k \<Rightarrow> k < length ?b \<and> unat (?b ! k) < ?n \<and> tm_name (ds_tables S ! unat (?b ! k)) = y
       | None \<Rightarrow> \<forall>i < ?n. tm_name (ds_tables S ! i) \<noteq> y"
    using by_name_search [of ?b "ds_tables S" y] wf by (auto simp: schema_wf_def by_name_wf_def)
  show ?thesis
  proof (cases r)
    case None
    then show ?thesis using r by (simp add: table_by_symbol_def)
  next
    case (Some k)
    then have k: "k < length ?b" "unat (?b ! k) < ?n" "tm_name (ds_tables S ! unat (?b ! k)) = y" using r(2) by auto
    have "table_by_symbol S y = Inr (Some (?b ! k))"
      using r(1) Some k by (simp add: table_by_symbol_def table_at_def)
    moreover have "?b ! k = t \<longleftrightarrow> unat t < ?n \<and> tm_name (ds_tables S ! unat t) = y" for t
    proof -
      have "?b ! k = t \<longleftrightarrow> unat (?b ! k) = unat t" using word_unat_eqI by blast
      then show ?thesis using schema_wf_name_inj [OF wf k(2), of "unat t"] k(2,3) by metis
    qed
    ultimately show ?thesis by auto
  qed
qed

lemma columns_of_table:
  assumes wf: "schema_wf S" and t: "unat t < length (ds_tables S)"
  defines "m \<equiv> ds_tables S ! unat t"
  shows "columns_range S t = Inr (unat (tm_columns_start m), unat (tm_columns_len m))"
    "column_names S t = Inr (map col_name (sub_slice (ds_columns S) (unat (tm_columns_start m))
       (unat (tm_columns_len m))))"
  using schema_wf_table [OF wf t] wf t
  by (simp_all add: columns_range_def column_names_def table_meta_at_def m_def table_wf_def schema_wf_def
      sub_slice_def take_map drop_map)

lemma column_by_symbol_spec:
  assumes wf: "schema_wf S" and t: "unat t < length (ds_tables S)"
  defines "cs \<equiv> [unat (tm_columns_start (ds_tables S ! unat t))..<
      unat (tm_columns_start (ds_tables S ! unat t)) + unat (tm_columns_len (ds_tables S ! unat t))]"
  shows "table_columns S t = Inr cs"
    and "\<exists>r. column_by_symbol S t y = Inr r \<and>
      (case r of Some c \<Rightarrow> c \<in> set cs \<and> col_name (ds_columns S ! c) = y
       | None \<Rightarrow> \<forall>c \<in> set cs. col_name (ds_columns S ! c) \<noteq> y)"
proof -
  let ?m = "ds_tables S ! unat t"
  let ?a = "unat (tm_columns_start ?m)" and ?n = "unat (tm_columns_len ?m)"
  note cn = columns_of_table [OF wf t]
  show "table_columns S t = Inr cs" by (simp add: table_columns_def cn cs_def)
  have len: "?a + ?n \<le> length (ds_columns S)"
    using schema_wf_table [OF wf t] by (simp add: table_wf_def)
  let ?names = "map col_name (sub_slice (ds_columns S) ?a ?n)"
  have names: "length ?names = ?n" "\<And>i. i < ?n \<Longrightarrow> ?names ! i = col_name (ds_columns S ! (?a + i))"
    using len by (simp_all add: nth_sub_slice)
  show "\<exists>r. column_by_symbol S t y = Inr r \<and>
      (case r of Some c \<Rightarrow> c \<in> set cs \<and> col_name (ds_columns S ! c) = y
       | None \<Rightarrow> \<forall>c \<in> set cs. col_name (ds_columns S ! c) \<noteq> y)"
  proof (cases "find_index (\<lambda>c. c = y) ?names")
    case None
    have "col_name (ds_columns S ! c) \<noteq> y" if "c \<in> set cs" for c
    proof -
      have "c - ?a < ?n" "?a + (c - ?a) = c" using that by (auto simp: cs_def)
      then have "col_name (ds_columns S ! c) \<in> set ?names" using names by (metis nth_mem)
      then show ?thesis using None by (auto simp: find_index_None)
    qed
    then show ?thesis using None by (simp add: column_by_symbol_def position_def cn)
  next
    case (Some i)
    then have "i < ?n" "col_name (ds_columns S ! (?a + i)) = y"
      using find_index_SomeD [OF Some] names by auto
    then show ?thesis using Some by (simp add: column_by_symbol_def position_def cn cs_def)
  qed
qed

section \<open>Foreign keys and classifications\<close>

text \<open>The foreign keys of a table, as the slice of the pool its entry names.\<close>

definition fks_of :: "'t database_schema \<Rightarrow> nat \<Rightarrow> foreign_key list" where
  "fks_of S i = sub_slice (ds_foreign_key_pool S) (unat (tm_fk_start (ds_tables S ! i)))
     (unat (tm_fk_len (ds_tables S ! i)))"

lemma fks_of_wf:
  assumes "schema_wf S" "i < length (ds_tables S)" "fk \<in> set (fks_of S i)"
  shows "fk_wf S fk"
  using assms in_set_dropD in_set_takeD by (fastforce simp: schema_wf_def fks_of_def sub_slice_def)

lemma table_foreign_keys_wf:
  "schema_wf S \<Longrightarrow> unat t < length (ds_tables S) \<Longrightarrow> table_foreign_keys S t = Inr (fks_of S (unat t))"
  using schema_wf_table [of S t]
  by (simp add: table_foreign_keys_def table_meta_at_def fks_of_def table_wf_def)

text \<open>Table \<open>i\<close> has a foreign key to another table \<open>j\<close>.\<close>

definition references :: "'t database_schema \<Rightarrow> nat \<Rightarrow> nat \<Rightarrow> bool" where
  "references S i j \<longleftrightarrow> i < length (ds_tables S) \<and> i \<noteq> j \<and> (\<exists>fk \<in> set (fks_of S i). unat (fk_table fk) = j)"

lemma independent_tables_spec:
  assumes wf: "schema_wf S"
  shows "independent_tables S = Inr (filter (\<lambda>t. \<forall>j. \<not> references S (unat t) j) (tables S))"
proof -
  have n: "length (ds_tables S) < 2 ^ 16" using wf by (simp add: schema_wf_def)
  have "sum_bind (table_foreign_keys S t) (\<lambda>fks. Inr (list_all (\<lambda>fk. unat (fk_table fk) = unat t) fks)) =
      Inr (\<forall>j. \<not> references S (unat t) j)" if "t \<in> set (tables S)" for t
  proof -
    have t: "unat t < length (ds_tables S)" using that set_tables_wf [OF n] by simp
    then have "(\<forall>j. \<not> references S (unat t) j) \<longleftrightarrow>
        (\<forall>fk \<in> set (fks_of S (unat t)). unat (fk_table fk) = unat t)"
      unfolding references_def by metis
    then show ?thesis using table_foreign_keys_wf [OF wf t] by (simp add: list_all_iff)
  qed
  then show ?thesis unfolding independent_tables_def by (intro filter_res_total) auto
qed

lemma mark_fold:
  assumes "\<And>fk. fk \<in> set fks \<Longrightarrow> unat (fk_table fk) < length r"
  shows "\<exists>r'. fold_res (mark_referenced i) fks r = Inr r' \<and> length r' = length r \<and>
    (\<forall>j < length r. r' ! j \<longleftrightarrow> r ! j \<or> i \<noteq> j \<and> (\<exists>fk \<in> set fks. unat (fk_table fk) = j))"
  using assms
proof (induction fks arbitrary: r)
  case (Cons fk fks)
  define r1 where "r1 = (if unat (fk_table fk) \<noteq> i then r[unat (fk_table fk) := True] else r)"
  have len: "length r1 = length r" by (simp add: r1_def)
  have "mark_referenced i fk r = Inr r1" using Cons.prems [of fk] by (simp add: mark_referenced_def r1_def)
  moreover obtain r' where r': "fold_res (mark_referenced i) fks r1 = Inr r'" "length r' = length r"
      "\<forall>j < length r. r' ! j \<longleftrightarrow> r1 ! j \<or> i \<noteq> j \<and> (\<exists>fk \<in> set fks. unat (fk_table fk) = j)"
    using Cons.IH [of r1] Cons.prems len by auto
  moreover have "r1 ! j \<longleftrightarrow> r ! j \<or> i \<noteq> j \<and> unat (fk_table fk) = j" if "j < length r" for j
    using that Cons.prems [of fk] by (auto simp: r1_def nth_list_update split: if_splits)
  ultimately show ?case by (intro exI [of _ r']) auto
qed simp

lemma leaf_fold:
  assumes wf: "schema_wf S" and k: "k \<le> length (ds_tables S)"
  shows "\<exists>r. fold_res
          (\<lambda>(i, m) referenced.
             sum_bind (slice_res (ds_foreign_key_pool S) (unat (tm_fk_start m)) (unat (tm_fk_len m)))
               (\<lambda>fks. fold_res (mark_referenced i) fks referenced))
          (enumerate 0 (take k (ds_tables S))) (replicate (length (ds_tables S)) False) = Inr r \<and>
    length r = length (ds_tables S) \<and>
    (\<forall>j < length (ds_tables S). r ! j \<longleftrightarrow> (\<exists>i < k. references S i j))"
  using k
proof (induction k)
  case (Suc k)
  let ?n = "length (ds_tables S)"
  let ?step = "\<lambda>(i, m) referenced.
      sum_bind (slice_res (ds_foreign_key_pool S) (unat (tm_fk_start m)) (unat (tm_fk_len m)))
        (\<lambda>fks. fold_res (mark_referenced i) fks referenced)"
  obtain r where r: "fold_res ?step (enumerate 0 (take k (ds_tables S))) (replicate ?n False) = Inr r"
      "length r = ?n" "\<forall>j < ?n. r ! j \<longleftrightarrow> (\<exists>i < k. references S i j)"
    using Suc by auto
  have k: "k < ?n" using Suc.prems by simp
  then have split: "enumerate 0 (take (Suc k) (ds_tables S)) =
      enumerate 0 (take k (ds_tables S)) @ [(k, ds_tables S ! k)]"
    by (simp add: take_Suc_conv_app_nth enumerate_append_eq)
  have "table_wf S (ds_tables S ! k)" using wf k by (simp add: schema_wf_def)
  then have slice: "slice_res (ds_foreign_key_pool S) (unat (tm_fk_start (ds_tables S ! k)))
      (unat (tm_fk_len (ds_tables S ! k))) = Inr (fks_of S k)"
    by (simp add: table_wf_def fks_of_def)
  obtain r' where r': "fold_res (mark_referenced k) (fks_of S k) r = Inr r'" "length r' = length r"
      "\<forall>j < length r. r' ! j \<longleftrightarrow> r ! j \<or> k \<noteq> j \<and> (\<exists>fk \<in> set (fks_of S k). unat (fk_table fk) = j)"
    using mark_fold [of "fks_of S k" r k] fks_of_wf [OF wf k] r(2) by (auto simp: fk_wf_def)
  have "r' ! j \<longleftrightarrow> (\<exists>i < Suc k. references S i j)" if "j < ?n" for j
    using r' r(2,3) that k by (auto simp: less_Suc_eq references_def)
  then show ?case
    using r r' split slice by (intro exI [of _ r']) (simp add: fold_res_append)
qed simp

lemma map_filter_enumerate:
  "List.map_filter (\<lambda>(i, r). if \<not> r then f i else None) (enumerate 0 rs) =
     List.map_filter f (filter (\<lambda>i. \<not> rs ! i) [0..<length rs])"
proof -
  have "enumerate 0 rs = map (\<lambda>i. (i, rs ! i)) [0..<length rs]"
    by (rule nth_equalityI) (simp_all add: nth_enumerate_eq)
  then show ?thesis
    by (simp add: List.map_filter_def comp_def filter_map) (auto intro!: map_cong filter_cong)
qed

lemma map_filter_all: "(\<And>x. x \<in> set xs \<Longrightarrow> f x = Some (g x)) \<Longrightarrow> List.map_filter f xs = map g xs"
  by (induction xs) (simp_all add: List.map_filter_def)

lemma leaf_tables_spec:
  assumes wf: "schema_wf S"
  shows "leaf_tables S = Inr (filter (\<lambda>t. \<forall>i. \<not> references S i (unat t)) (tables S))"
proof -
  let ?n = "length (ds_tables S)"
  have n: "?n < 2 ^ 16" using wf by (simp add: schema_wf_def)
  obtain r where r: "leaf_tables S = Inr (List.map_filter (\<lambda>(i, r). if \<not> r then table_at S i else None) (enumerate 0 r))"
      "length r = ?n" "\<forall>j < ?n. r ! j \<longleftrightarrow> (\<exists>i < ?n. references S i j)"
    using leaf_fold [OF wf order.refl] by (auto simp: leaf_tables_def)
  have u: "unat (word_of_nat i :: u16) = i" if "i < ?n" for i
    using that n by (intro unat_word_of_nat_small) simp
  have leafs: "filter (\<lambda>i. \<not> r ! i) [0..<?n] = filter (\<lambda>j. \<forall>i. \<not> references S i j) [0..<?n]"
    using r(3) by (intro filter_cong) (auto simp: references_def)
  have "List.map_filter (table_at S) (filter (\<lambda>i. \<not> r ! i) [0..<?n]) =
      map word_of_nat (filter (\<lambda>i. \<not> r ! i) [0..<?n])"
    by (rule map_filter_all) (simp add: table_at_def)
  moreover have "map word_of_nat (filter (\<lambda>j. \<forall>i. \<not> references S i j) [0..<?n]) =
      filter (\<lambda>t. \<forall>i. \<not> references S i (unat t)) (tables S)"
    using u by (simp add: tables_wf [OF n] filter_map comp_def)
      (intro arg_cong [where f = "map word_of_nat"] filter_cong, auto)
  ultimately show ?thesis using r(1,2) leafs by (simp add: map_filter_enumerate)
qed

end
