(* ===== verification/Topo_Sort.thy ===== *)
theory Topo_Sort
  imports Results
begin

text \<open>
  The table ordering inside \<open>DatabaseSchemaBuilder::build\<close> (\<open>core/schema_builder.rs\<close>):
  Kahn's algorithm over the graph of foreign keys, with the tables on cycles appended in index
  order.  \<open>graph ! u\<close> lists the tables that reference \<open>u\<close>, once per foreign key;
  \<open>in_degree\<close> counts the foreign keys of a table that are not yet accounted for.
\<close>

section \<open>The loop\<close>

text \<open>The body of the inner loop, for one edge into \<open>v\<close>.\<close>

definition relax :: "nat \<Rightarrow> int list \<times> nat list \<Rightarrow> (int list \<times> nat list) res" where
  "relax v st = (case st of (in_degree, queue) \<Rightarrow>
     sum_bind (nth_res in_degree v) (\<lambda>d.
     Inr (in_degree[v := d - 1], if d - 1 = 0 then queue @ [v] else queue)))"

definition positive :: "int list \<Rightarrow> nat" where
  "positive ds = length (filter (\<lambda>d. 0 < d) ds)"

lemma positive_update:
  "v < length ds \<Longrightarrow> positive (ds[v := d]) + (if 0 < ds ! v then 1 else 0) = positive ds + (if 0 < d then 1 else 0)"
proof (induction ds arbitrary: v)
  case (Cons x xs)
  then show ?case by (cases v) (auto simp: positive_def)
qed simp

lemma relax_measure:
  "relax v (deg, q) = Inr (deg', q') \<Longrightarrow> positive deg' + length q' \<le> positive deg + length q"
  using positive_update [of v deg "deg ! v - 1"]
  by (auto simp: relax_def nth_res_def split: if_splits)

lemma relax_fold_measure:
  "fold_res relax vs (deg, q) = Inr (deg', q') \<Longrightarrow> positive deg' + length q' \<le> positive deg + length q"
proof (induction vs arbitrary: deg q)
  case (Cons v vs)
  then obtain deg1 q1 where "relax v (deg, q) = Inr (deg1, q1)" "fold_res relax vs (deg1, q1) = Inr (deg', q')"
    by (auto simp: sum_bind_Inr)
  then show ?case using Cons.IH relax_measure by (meson order.trans)
qed simp

function topo_loop :: "nat list list \<Rightarrow> int list \<Rightarrow> nat list \<Rightarrow> nat list \<Rightarrow> nat list res" where
  "topo_loop graph in_degree [] out = Inr out"
| "topo_loop graph in_degree (u # queue) out =
     (case nth_res graph u of
        Inl e \<Rightarrow> Inl e
      | Inr vs \<Rightarrow>
          (case fold_res relax vs (in_degree, queue) of
             Inl e \<Rightarrow> Inl e
           | Inr (in_degree', queue') \<Rightarrow> topo_loop graph in_degree' queue' (out @ [u])))"
  by pat_completeness auto
termination
  by (relation "measure (\<lambda>(_, deg, queue, _). positive deg + length queue)")
    (auto dest: relax_fold_measure)

text \<open>The initial queue, and the tables that were never reached, in index order.\<close>

definition topo_sort :: "nat list list \<Rightarrow> int list \<Rightarrow> nat \<Rightarrow> nat list res" where
  "topo_sort graph in_degree n =
     sum_bind (filter_res (\<lambda>i. sum_bind (nth_res in_degree i) (\<lambda>d. Inr (d = 0))) [0..<n]) (\<lambda>queue.
     sum_bind (topo_loop graph in_degree queue []) (\<lambda>out.
     Inr (if length out < n then out @ filter (\<lambda>i. i \<notin> set out) [0..<n] else out)))"

section \<open>One step\<close>

lemma relax_fold:
  assumes "\<forall>v \<in> set vs. v < length deg"
  shows "\<exists>deg' ps. fold_res relax vs (deg, q) = Inr (deg', q @ ps) \<and> length deg' = length deg \<and>
    (\<forall>v < length deg. deg' ! v = deg ! v - int (count_list vs v)) \<and> distinct ps \<and>
    set ps = {v. v < length deg \<and> 0 < deg ! v \<and> deg ! v \<le> int (count_list vs v)}"
  using assms
proof (induction vs arbitrary: deg q)
  case (Cons x xs)
  let ?d = "deg ! x - 1" and ?p = "if deg ! x = 1 then [x] else []"
  let ?deg = "deg[x := ?d]"
  have x: "x < length deg" using Cons.prems by simp
  then have step: "relax x (deg, q) = Inr (?deg, q @ ?p)" by (simp add: relax_def)
  obtain deg' ps where IH: "fold_res relax xs (?deg, q @ ?p) = Inr (deg', (q @ ?p) @ ps)" "length deg' = length deg"
      "\<forall>v < length deg. deg' ! v = ?deg ! v - int (count_list xs v)" "distinct ps"
      "set ps = {v. v < length deg \<and> 0 < ?deg ! v \<and> ?deg ! v \<le> int (count_list xs v)}"
    using Cons.IH [of ?deg "q @ ?p"] Cons.prems by auto
  have "x \<notin> set ps" if "deg ! x = 1" using IH(5) that x by simp
  then have "distinct (?p @ ps)" using IH(4) by simp
  moreover have "set (?p @ ps) = {v. v < length deg \<and> 0 < deg ! v \<and> deg ! v \<le> int (count_list (x # xs) v)}"
  proof (rule set_eqI)
    fix v
    show "v \<in> set (?p @ ps) \<longleftrightarrow> v \<in> {v. v < length deg \<and> 0 < deg ! v \<and> deg ! v \<le> int (count_list (x # xs) v)}"
      unfolding set_append IH(5) using x by (cases "v = x") (simp_all, arith?)
  qed
  moreover have "\<forall>v < length deg. deg' ! v = deg ! v - int (count_list (x # xs) v)"
    using IH(3) x by (auto simp: nth_list_update)
  ultimately show ?case
    using step IH(1,2) by (intro exI [of _ deg'] exI [of _ "?p @ ps"]) simp
qed simp

section \<open>The invariant\<close>

text \<open>\<open>u\<close> must come before \<open>v\<close>.\<close>

definition edge :: "nat list list \<Rightarrow> nat \<Rightarrow> nat \<Rightarrow> bool" where
  "edge graph u v \<longleftrightarrow> u < length graph \<and> v \<in> set (graph ! u)"

text \<open>Every element of the list comes after all its predecessors.\<close>

definition ordered :: "nat list list \<Rightarrow> nat list \<Rightarrow> bool" where
  "ordered graph xs \<longleftrightarrow> (\<forall>k < length xs. \<forall>u. edge graph u (xs ! k) \<longrightarrow> u \<in> set (take k xs))"

definition pending :: "nat list list \<Rightarrow> nat set \<Rightarrow> nat \<Rightarrow> int" where
  "pending graph seen v = (\<Sum>u \<in> {..<length graph} - seen. int (count_list (graph ! u) v))"

definition graph_ok :: "nat list list \<Rightarrow> bool" where
  "graph_ok graph \<longleftrightarrow> (\<forall>vs \<in> set graph. \<forall>v \<in> set vs. v < length graph)"

definition kahn_inv :: "nat list list \<Rightarrow> int list \<Rightarrow> nat list \<Rightarrow> nat list \<Rightarrow> bool" where
  "kahn_inv graph deg queue out \<longleftrightarrow>
     length deg = length graph \<and> distinct (out @ queue) \<and> set (out @ queue) \<subseteq> {..<length graph} \<and>
     (\<forall>v < length graph. deg ! v = pending graph (set out) v) \<and>
     (\<forall>v < length graph. v \<in> set (out @ queue) \<longleftrightarrow> deg ! v = 0) \<and>
     ordered graph (out @ queue)"

lemma pending_0:
  "v < length graph \<Longrightarrow> pending graph seen v = 0 \<longleftrightarrow> (\<forall>u. edge graph u v \<longrightarrow> u \<in> seen)"
  unfolding pending_def edge_def
  by (subst sum_nonneg_eq_0_iff) (auto simp: count_list_0_iff)

lemma pending_nonneg: "0 \<le> pending graph seen v"
  by (simp add: pending_def sum_nonneg)

lemma pending_insert:
  assumes "u < length graph" "u \<notin> seen"
  shows "pending graph (insert u seen) v = pending graph seen v - int (count_list (graph ! u) v)"
proof -
  let ?A = "{..<length graph} - seen"
  have "sum f (?A - {u}) = sum f ?A - f u" for f :: "nat \<Rightarrow> int"
    using assms by (subst sum_diff1) auto
  moreover have "{..<length graph} - insert u seen = ?A - {u}" by blast
  ultimately show ?thesis by (simp add: pending_def)
qed

lemma ordered_append:
  assumes "ordered graph xs" "\<And>v u. v \<in> set ys \<Longrightarrow> edge graph u v \<Longrightarrow> u \<in> set xs"
  shows "ordered graph (xs @ ys)"
  unfolding ordered_def
proof (intro allI impI)
  fix k u assume k: "k < length (xs @ ys)" and e: "edge graph u ((xs @ ys) ! k)"
  show "u \<in> set (take k (xs @ ys))"
  proof (cases "k < length xs")
    case True
    then show ?thesis using assms(1) e by (simp add: ordered_def nth_append)
  next
    case False
    then have "(xs @ ys) ! k \<in> set ys" using k by (simp add: nth_append)
    then have "u \<in> set xs" using assms(2) e by blast
    then show ?thesis using False by simp
  qed
qed

lemma kahn_step:
  assumes inv: "kahn_inv graph deg (u # queue) out" and ok: "graph_ok graph"
  shows "\<exists>deg' queue'. nth_res graph u = Inr (graph ! u) \<and>
    fold_res relax (graph ! u) (deg, queue) = Inr (deg', queue') \<and>
    kahn_inv graph deg' queue' (out @ [u])"
proof -
  have u: "u < length graph" "u \<notin> set out" "u \<notin> set queue" and len: "length deg = length graph"
    using inv by (auto simp: kahn_inv_def)
  have "\<forall>v \<in> set (graph ! u). v < length deg" using ok u(1) len nth_mem unfolding graph_ok_def by metis
  then obtain deg' ps where f: "fold_res relax (graph ! u) (deg, queue) = Inr (deg', queue @ ps)"
      "length deg' = length deg" "\<forall>v < length deg. deg' ! v = deg ! v - int (count_list (graph ! u) v)"
      "distinct ps" "set ps = {v. v < length deg \<and> 0 < deg ! v \<and> deg ! v \<le> int (count_list (graph ! u) v)}"
    using relax_fold by blast
  have d: "deg ! v = pending graph (set out) v" "v \<in> set (out @ u # queue) \<longleftrightarrow> deg ! v = 0"
    if "v < length graph" for v
    using inv that unfolding kahn_inv_def by blast+
  have d': "deg' ! v = pending graph (set (out @ [u])) v" if "v < length graph" for v
    using f(3) d(1) [OF that] that len pending_insert [OF u(1,2)] by simp
  have nn: "0 \<le> deg' ! v" "0 \<le> deg ! v" if "v < length graph" for v
    using d(1) d' pending_nonneg that by simp_all
  have ps: "v \<in> set ps \<longleftrightarrow> deg ! v \<noteq> 0 \<and> deg' ! v = 0" if "v < length graph" for v
    using f(3,5) nn [OF that] that len by force
  have mem: "v \<in> set ((out @ [u]) @ queue @ ps) \<longleftrightarrow> deg' ! v = 0" if v: "v < length graph" for v
  proof -
    have "deg ! v = 0 \<Longrightarrow> deg' ! v = 0" using f(3) nn(1) [OF v] v len by (smt (verit) of_nat_0_le_iff)
    then show ?thesis using d(2) [OF v] ps [OF v] by auto
  qed
  have sub: "set ps \<subseteq> {..<length graph}" using f(5) len by auto
  have disj: "set ps \<inter> set (out @ u # queue) = {}"
    using d(2) ps sub by blast
  have ord: "ordered graph ((out @ u # queue) @ ps)"
  proof (rule ordered_append)
    show "ordered graph (out @ u # queue)" using inv by (simp add: kahn_inv_def)
    fix v w assume v: "v \<in> set ps" "edge graph w v"
    then have "v < length graph" using sub by auto
    then have "w \<in> set (out @ [u])" using ps d' pending_0 v by metis
    then show "w \<in> set (out @ u # queue)" by auto
  qed
  have "kahn_inv graph deg' (queue @ ps) (out @ [u])"
    unfolding kahn_inv_def
    using inv f(2,4) len d' mem sub disj ord by (auto simp: kahn_inv_def)
  then show ?thesis using f(1) u(1) by auto
qed

lemma topo_loop_inv:
  assumes "kahn_inv graph deg queue out" "graph_ok graph"
  shows "\<exists>deg' res. topo_loop graph deg queue out = Inr res \<and> kahn_inv graph deg' [] res"
  using assms
proof (induction graph deg queue out rule: topo_loop.induct)
  case (1 graph deg out)
  then show ?case by auto
next
  case (2 graph deg u queue out)
  obtain deg' queue' where st: "nth_res graph u = Inr (graph ! u)"
      "fold_res relax (graph ! u) (deg, queue) = Inr (deg', queue')" "kahn_inv graph deg' queue' (out @ [u])"
    using kahn_step [OF "2.prems"] by blast
  show ?case using "2.IH" [OF st(1,2) refl st(3) "2.prems"(2)] st(1,2) by simp
qed

section \<open>The result\<close>

lemma topo_sort_spec:
  assumes ok: "graph_ok graph" and n: "length graph = n" "length deg = n"
    and deg: "\<And>v. v < n \<Longrightarrow> deg ! v = pending graph {} v"
  shows "\<exists>xs. topo_sort graph deg n = Inr xs \<and> distinct xs \<and> set xs = {..<n} \<and>
    (acyclic {(u, v). edge graph u v} \<longrightarrow> ordered graph xs)"
proof -
  let ?queue = "filter (\<lambda>i. deg ! i = 0) [0..<n]"
  have q: "filter_res (\<lambda>i. sum_bind (nth_res deg i) (\<lambda>d. Inr (d = 0))) [0..<n] = Inr ?queue"
    by (rule filter_res_total) (simp add: n)
  have "ordered graph ?queue"
    using ordered_append [of graph "[]" ?queue] deg pending_0 n(1) by (fastforce simp: ordered_def)
  then have inv: "kahn_inv graph deg ?queue []"
    using deg n by (auto simp: kahn_inv_def)
  obtain deg' res where res: "topo_loop graph deg ?queue [] = Inr res" "kahn_inv graph deg' [] res"
    using topo_loop_inv [OF inv ok] by blast
  have r: "distinct res" "set res \<subseteq> {..<n}" "ordered graph res"
      "\<And>v. v < n \<Longrightarrow> v \<in> set res \<longleftrightarrow> (\<forall>u. edge graph u v \<longrightarrow> u \<in> set res)"
    using res(2) n pending_0 by (auto simp: kahn_inv_def)
  let ?rest = "filter (\<lambda>i. i \<notin> set res) [0..<n]"
  have all: "length res < n \<or> set res = {..<n}"
    using r(1,2) card_subset_eq [of "{..<n}" "set res"] distinct_card [OF r(1)] card_mono [OF _ r(2)]
    by (metis card_lessThan finite_lessThan nat_less_le)
  let ?xs = "if length res < n then res @ ?rest else res"
  have "topo_sort graph deg n = Inr ?xs"
    using res(1) by (simp add: topo_sort_def q)
  moreover have "distinct ?xs" using r(1) by auto
  moreover have "set ?xs = {..<n}" using all r(2) by auto
  moreover have "ordered graph ?xs" if ac: "acyclic {(u, v). edge graph u v}"
  proof -
    have "{(u, v). edge graph u v} \<subseteq> {..<n} \<times> {..<n}"
      using ok n(1) by (auto simp: edge_def graph_ok_def)
    then have "finite {(u, v). edge graph u v}" by (rule finite_subset) simp
    then have wf: "wf {(u, v). edge graph u v}" using ac by (rule finite_acyclic_wf)
    have "v < n \<longrightarrow> v \<in> set res" for v
      using wf
    proof (induction v rule: wf_induct_rule)
      case (less v)
      have "u \<in> set res" if "edge graph u v" for u
        using less [of u] that n(1) by (simp add: edge_def)
      then show ?case using r(4) by blast
    qed
    then have "?rest = []" by simp
    then show ?thesis using r(3) by simp
  qed
  ultimately show ?thesis by blast
qed

end
