(* ===== verification/Schema_Builder.thy ===== *)
theory Schema_Builder
  imports Schema_Wf Topo_Sort
begin

unbundle bit_operations_syntax

text \<open>
  \<open>DatabaseSchemaBuilder\<close> of \<open>core/schema_builder.rs\<close>: rows of the catalog query are
  added one by one, grouped by table; \<open>build\<close> resolves the foreign keys, orders the tables
  and rewrites all indices.  The builder runs on one thread; the thread's string cache is a
  field of the state here.
\<close>

section \<open>State\<close>

record raw_foreign_key =
  rf_constraint_name :: str
  rf_namespace :: str
  rf_referenced_table :: str
  rf_referenced_column :: str
  rf_on_update :: action
  rf_on_delete :: action

record unresolved_fk =
  uf_pool_index :: nat
  uf_source_table_idx :: nat
  uf_ref_table_sym :: symbol
  uf_ref_column_sym :: symbol

record 't schema_builder =
  sb_interner :: "'t interner"
  sb_cache :: local_cache
  sb_tables :: "table_meta list"
  sb_columns :: "column list"
  sb_column_names :: "symbol list"
  sb_constraint_pool :: "symbol list"
  sb_foreign_key_pool :: "foreign_key list"
  sb_current_table :: "symbol option"
  sb_cols_start :: u32
  sb_fk_start :: u32
  sb_pk :: "u16 option"
  sb_unresolved :: "unresolved_fk list"

text \<open>One row of the catalog query, the arguments of \<open>add_row\<close>.\<close>

record raw_row =
  rr_table_name :: str
  rr_column_name :: str
  rr_data_type :: str
  rr_nullable :: bool
  rr_is_primary :: bool
  rr_is_unique :: bool
  rr_default_expr :: "str option"
  rr_foreign_keys :: "raw_foreign_key list"
  rr_check_defs :: "str list"
  rr_domain_checks :: "str list"

definition builder_with_capacity ::
  "'t deps \<Rightarrow> u32 \<Rightarrow> local_cache \<Rightarrow> nat \<Rightarrow> nat \<Rightarrow> 't schema_builder res" where
  "builder_with_capacity D next_id c tables_cap columns_cap =
     sum_bind (fst (with_capacity D next_id (columns_cap + tables_cap))) (\<lambda>I.
     Inr \<lparr>sb_interner = I, sb_cache = c, sb_tables = [], sb_columns = [], sb_column_names = [],
          sb_constraint_pool = [], sb_foreign_key_pool = [], sb_current_table = None, sb_cols_start = 0,
          sb_fk_start = 0, sb_pk = None, sb_unresolved = []\<rparr>)"

section \<open>Adding rows\<close>

text \<open>\<open>self.interner.get_or_intern(v)\<close>\<close>

definition intern :: "'t deps \<Rightarrow> 't schema_builder \<Rightarrow> str \<Rightarrow> (symbol \<times> 't schema_builder) res" where
  "intern D B v = (case get_or_intern D (sb_interner B) (sb_cache B) v of
       (Inl e, _, _) \<Rightarrow> Inl e
     | (Inr y, I, c) \<Rightarrow> Inr (y, B\<lparr>sb_interner := I, sb_cache := c\<rparr>))"

definition finish_table :: "'t schema_builder \<Rightarrow> 't schema_builder" where
  "finish_table B = (case sb_current_table B of
       None \<Rightarrow> B
     | Some name \<Rightarrow>
         B\<lparr>sb_tables := sb_tables B @
           [\<lparr>tm_name = name, tm_columns_start = sb_cols_start B,
             tm_columns_len = ucast (word_of_nat (length (sb_columns B)) - sb_cols_start B),
             tm_primary_key = sb_pk B, tm_fk_start = sb_fk_start B,
             tm_fk_len = ucast (word_of_nat (length (sb_foreign_key_pool B)) - sb_fk_start B)\<rparr>]\<rparr>)"

text \<open>The switch to another table at the start of \<open>add_row\<close>.\<close>

definition switch_table :: "'t schema_builder \<Rightarrow> symbol \<Rightarrow> 't schema_builder" where
  "switch_table B t_sym =
     (if Some t_sym \<noteq> sb_current_table B then
        (finish_table B)\<lparr>sb_current_table := Some t_sym,
           sb_cols_start := word_of_nat (length (sb_columns B)),
           sb_fk_start := word_of_nat (length (sb_foreign_key_pool B)), sb_pk := None\<rparr>
      else B)"

definition add_check :: "'t deps \<Rightarrow> str \<Rightarrow> 't schema_builder \<Rightarrow> 't schema_builder res" where
  "add_check D chk B =
     sum_bind (intern D B chk) (\<lambda>(y, B). Inr (B\<lparr>sb_constraint_pool := sb_constraint_pool B @ [y]\<rparr>))"

definition add_fk :: "'t deps \<Rightarrow> raw_foreign_key \<Rightarrow> 't schema_builder \<Rightarrow> 't schema_builder res" where
  "add_fk D fk B =
     sum_bind (intern D B (rf_constraint_name fk)) (\<lambda>(constraint_sym, B).
     sum_bind (intern D B (rf_namespace fk)) (\<lambda>(ns_sym, B).
     sum_bind (intern D B (rf_referenced_table fk)) (\<lambda>(ref_table_sym, B).
     sum_bind (intern D B (rf_referenced_column fk)) (\<lambda>(ref_column_sym, B).
     Inr (B\<lparr>
       sb_foreign_key_pool := sb_foreign_key_pool B @
         [\<lparr>fk_constraint_name = constraint_sym, fk_namespace = ns_sym, fk_table = 0, fk_column = 0,
           fk_on_update = rf_on_update fk, fk_on_delete = rf_on_delete fk\<rparr>],
       sb_unresolved := sb_unresolved B @
         [\<lparr>uf_pool_index = length (sb_foreign_key_pool B), uf_source_table_idx = length (sb_tables B),
           uf_ref_table_sym = ref_table_sym, uf_ref_column_sym = ref_column_sym\<rparr>]\<rparr>)))))"

text \<open>The \<open>match\<close> on the type name; \<open>None\<close> is its last arm.\<close>

definition builtin_type :: "str \<Rightarrow> value_type option" where
  "builtin_type s =
     (if s \<in> {lit ''boolean'', lit ''bool''} then Some VBool
      else if s \<in> {lit ''smallint'', lit ''integer'', lit ''bigint'', lit ''int2'', lit ''int4'', lit ''int8'',
          lit ''serial'', lit ''bigserial'', lit ''smallserial'', lit ''oid''} then Some VInt
      else if s \<in> {lit ''real'', lit ''double precision'', lit ''float4'', lit ''float8''} then Some VFloat
      else if s \<in> {lit ''numeric'', lit ''decimal''} then Some VDecimal
      else if s \<in> {lit ''text'', lit ''character varying'', lit ''varchar'', lit ''character'', lit ''char'',
          lit ''name'', lit ''bpchar''} then Some VText
      else if s = lit ''bytea'' then Some VBlob
      else if s \<in> {lit ''json'', lit ''jsonb''} then Some VJson
      else if s = lit ''uuid'' then Some VUuid
      else if s \<in> {lit ''timestamp without time zone'', lit ''timestamp''} then Some VTimestamp
      else if s \<in> {lit ''timestamp with time zone'', lit ''timestamptz''} then Some VTimestampTz
      else if s = lit ''date'' then Some VDate
      else if s \<in> {lit ''time without time zone'', lit ''time''} then Some VTime
      else if s \<in> {lit ''time with time zone'', lit ''timetz''} then Some VTimeTz
      else if s = lit ''_bool'' then Some VBoolArray
      else if s \<in> {lit ''_int2'', lit ''_int4'', lit ''_int8'', lit ''_oid''} then Some VIntArray
      else if s \<in> {lit ''_float4'', lit ''_float8''} then Some VFloatArray
      else if s = lit ''_numeric'' then Some VDecimalArray
      else if s \<in> {lit ''_text'', lit ''_varchar'', lit ''_bpchar'', lit ''_name''} then Some VTextArray
      else None)"

definition add_row :: "'t deps \<Rightarrow> raw_row \<Rightarrow> 't schema_builder \<Rightarrow> 't schema_builder res" where
  "add_row D r B0 =
     sum_bind (intern D B0 (rr_table_name r)) (\<lambda>(t_sym, B1).
     let B2 = switch_table B1 t_sym in
     sum_bind (intern D B2 (rr_column_name r)) (\<lambda>(col_sym, B3).
     let col_idx_in_table = word_of_nat (length (sb_columns B3) - unat (sb_cols_start B3)) :: u16;
         flags = flags_set (flags_set (flags_set 0 NULLABLE (rr_nullable r)) PRIMARY_KEY (rr_is_primary r))
           UNIQUE (rr_is_unique r);
         B4 = (if rr_is_primary r then B3\<lparr>sb_pk := Some col_idx_in_table\<rparr> else B3);
         constraints_start = word_of_nat (length (sb_constraint_pool B4)) :: u32
     in
     sum_bind (fold_res (add_check D) (rr_check_defs r @ rr_domain_checks r) B4) (\<lambda>B5.
     let constraints_len = ucast (word_of_nat (length (sb_constraint_pool B5)) - constraints_start) :: u16;
         fks_start = word_of_nat (length (sb_foreign_key_pool B5)) :: u32
     in
     sum_bind (fold_res (add_fk D) (rr_foreign_keys r) B5) (\<lambda>B6.
     let fks_len = ucast (word_of_nat (length (sb_foreign_key_pool B6)) - fks_start) :: u16 in
     sum_bind (case builtin_type (rr_data_type r) of
          Some t \<Rightarrow> Inr (t, B6)
        | None \<Rightarrow> sum_bind (intern D B6 (rr_data_type r)) (\<lambda>(y, B). Inr (VCustom y, B))) (\<lambda>(data_type, B7).
     sum_bind (case rr_default_expr r of
          None \<Rightarrow> Inr (None, B7)
        | Some d \<Rightarrow> sum_bind (intern D B7 d) (\<lambda>(y, B). Inr (Some y, B))) (\<lambda>(default_value, B8).
     Inr (B8\<lparr>
       sb_columns := sb_columns B8 @
         [\<lparr>col_name = col_sym, col_data_type = data_type, col_default_value = default_value, col_flags = flags,
           col_constraints = \<lparr>pr_start = constraints_start, pr_len = constraints_len\<rparr>,
           col_foreign_keys = \<lparr>pr_start = fks_start, pr_len = fks_len\<rparr>\<rparr>],
       sb_column_names := sb_column_names B8 @ [col_sym]\<rparr>)))))))"

section \<open>Building\<close>

text \<open>
  \<open>(0..n as u16)\<close> sorted by the tables' names.  The sort of the source is unstable; the
  order of tables with equal names is not specified there.
\<close>

definition sort_by_name :: "table_meta list \<Rightarrow> u16 list" where
  "sort_by_name ts =
     sort_key (\<lambda>i. tm_name (ts ! unat i)) (map word_of_nat [0..<unat (word_of_nat (length ts) :: u16)])"

type_synonym fk_info = "nat \<times> nat \<times> nat \<times> u16"

text \<open>Where a foreign key points to: \<open>(pool_index, source, referenced table, column)\<close>.\<close>

definition resolve_fk ::
  "'t schema_builder \<Rightarrow> u16 list \<Rightarrow> unresolved_fk \<Rightarrow> fk_info option res" where
  "resolve_fk B old_by_name uf =
     sum_bind
       (binary_search_by_key
          (\<lambda>k. sum_bind (nth_res old_by_name k) (\<lambda>i.
               sum_bind (nth_res (sb_tables B) (unat i)) (\<lambda>t. Inr (tm_name t))))
          (uf_ref_table_sym uf) (length old_by_name))
       (\<lambda>r. case r of
          None \<Rightarrow> Inr None
        | Some slot \<Rightarrow>
            sum_bind (nth_res old_by_name slot) (\<lambda>i.
            sum_bind (nth_res (sb_tables B) (unat i)) (\<lambda>m.
            sum_bind (slice_res (sb_column_names B) (unat (tm_columns_start m)) (unat (tm_columns_len m))) (\<lambda>names.
            case find_index (\<lambda>c. c = uf_ref_column_sym uf) names of
              None \<Rightarrow> Inr None
            | Some c \<Rightarrow> Inr (Some (uf_pool_index uf, uf_source_table_idx uf, unat i, word_of_nat c))))))"

text \<open>The loop over the unresolved keys: in-degrees, graph, resolved keys.\<close>

definition add_edge ::
  "'t schema_builder \<Rightarrow> u16 list \<Rightarrow> unresolved_fk \<Rightarrow> int list \<times> nat list list \<times> fk_info list \<Rightarrow>
     (int list \<times> nat list list \<times> fk_info list) res" where
  "add_edge B old_by_name uf st = (case st of (in_degree, graph, info) \<Rightarrow>
     sum_bind (resolve_fk B old_by_name uf) (\<lambda>r. case r of
        None \<Rightarrow> Inr st
      | Some (p, src, ref, c) \<Rightarrow>
          if ref \<noteq> src then
            sum_bind (nth_res graph ref) (\<lambda>vs.
            sum_bind (nth_res in_degree src) (\<lambda>d.
            Inr (in_degree[src := d + 1], graph[ref := vs @ [src]], info @ [(p, src, ref, c)])))
          else Inr (in_degree, graph, info @ [(p, src, ref, c)])))"

definition index_of_tables :: "nat list \<Rightarrow> nat \<Rightarrow> u16 list" where
  "index_of_tables order n =
     fold (\<lambda>(new_idx, old_idx) m. m[old_idx := word_of_nat new_idx]) (enumerate 0 order) (replicate n 0)"

text \<open>The loop that fills \<open>valid_fks\<close> and \<open>old_to_new_fk\<close>.\<close>

definition place_fk ::
  "foreign_key list \<Rightarrow> u16 list \<Rightarrow> fk_info \<Rightarrow> foreign_key list \<times> u32 option list \<Rightarrow>
     (foreign_key list \<times> u32 option list) res" where
  "place_fk pool old_to_new_table x st = (case (x, st) of ((p, src, ref, c), (valid, remap)) \<Rightarrow>
     sum_bind (nth_res pool p) (\<lambda>old_fk.
     sum_bind (nth_res old_to_new_table ref) (\<lambda>t.
     let valid' = valid @ [old_fk\<lparr>fk_table := t, fk_column := c\<rparr>] in
     sum_bind (nth_res remap p) (\<lambda>_.
     Inr (valid', remap[p := Some (word_of_nat (length valid' - 1))])))))"

text \<open>The scan of an old range: the first new index and how many keys survive.\<close>

definition scan_fk :: "u32 option list \<Rightarrow> nat \<Rightarrow> u32 \<times> u16 \<Rightarrow> (u32 \<times> u16) res" where
  "scan_fk remap i st = (case st of (new_start, new_len) \<Rightarrow>
     sum_bind (nth_res remap i) (\<lambda>r.
     Inr (case r of
          None \<Rightarrow> (new_start, new_len)
        | Some new_idx \<Rightarrow> (if new_start = - 1 then new_idx else new_start, new_len + 1))))"

definition remap_range :: "u32 option list \<Rightarrow> u32 \<Rightarrow> u16 \<Rightarrow> (u32 \<times> u16) res" where
  "remap_range remap start len =
     sum_bind (fold_res (scan_fk remap) [unat start..<unat start + unat len] (- 1, 0)) (\<lambda>(new_start, new_len).
     Inr (if new_len = 0 then 0 else new_start, new_len))"

definition remap_column :: "u32 option list \<Rightarrow> column \<Rightarrow> column res" where
  "remap_column remap c =
     sum_bind (remap_range remap (pr_start (col_foreign_keys c)) (pr_len (col_foreign_keys c))) (\<lambda>(s, n).
     Inr (c\<lparr>col_foreign_keys := \<lparr>pr_start = s, pr_len = n\<rparr>\<rparr>))"

definition remap_table :: "u32 option list \<Rightarrow> table_meta \<Rightarrow> table_meta res" where
  "remap_table remap t =
     sum_bind (remap_range remap (tm_fk_start t) (tm_fk_len t)) (\<lambda>(s, n).
     Inr (t\<lparr>tm_fk_start := s, tm_fk_len := n\<rparr>))"

definition build :: "'t schema_builder \<Rightarrow> u8 list \<Rightarrow> 't database_schema res" where
  "build B0 hash =
     (let B = finish_table B0;
          num_tables = length (sb_tables B);
          old_by_name = sort_by_name (sb_tables B)
      in
      sum_bind (fold_res (add_edge B old_by_name) (sb_unresolved B)
          (replicate num_tables 0, replicate num_tables [], [])) (\<lambda>(in_degree, graph, info).
      sum_bind (topo_sort graph in_degree num_tables) (\<lambda>order.
      let old_to_new_table = index_of_tables order num_tables in
      sum_bind (map_res (nth_res (sb_tables B)) order) (\<lambda>new_tables.
      let final_by_name = sort_by_name new_tables in
      sum_bind (fold_res (place_fk (sb_foreign_key_pool B) old_to_new_table) info
          ([], replicate (length (sb_foreign_key_pool B)) None)) (\<lambda>(valid_fks, old_to_new_fk).
      sum_bind (map_res (remap_column old_to_new_fk) (sb_columns B)) (\<lambda>columns.
      sum_bind (map_res (remap_table old_to_new_fk) new_tables) (\<lambda>ts.
      Inr \<lparr>ds_tables = ts, ds_by_name = final_by_name, ds_columns = columns,
           ds_column_names = sb_column_names B, ds_constraint_pool = sb_constraint_pool B,
           ds_foreign_key_pool = valid_fks, ds_hash = hash, ds_interner = sb_interner B\<rparr>)))))))"

end
