(* ===== verification/Builder_Inv.thy ===== *)
theory Builder_Inv
  imports Schema_Builder
begin

unbundle bit_operations_syntax

text \<open>
  The invariant of the schema builder between rows: every finished table names a range of
  columns and a range of foreign keys, a foreign key knows its place in the pool and its table,
  and the ranges of the columns lie inside the pools.
\<close>

section \<open>The invariant\<close>

abbreviation n_cols :: "'t schema_builder \<Rightarrow> nat" where "n_cols B \<equiv> length (sb_columns B)"
abbreviation n_fks :: "'t schema_builder \<Rightarrow> nat" where "n_fks B \<equiv> length (sb_foreign_key_pool B)"
abbreviation n_checks :: "'t schema_builder \<Rightarrow> nat" where "n_checks B \<equiv> length (sb_constraint_pool B)"
abbreviation source_of :: "'t schema_builder \<Rightarrow> nat \<Rightarrow> nat" where
  "source_of B i \<equiv> uf_source_table_idx (sb_unresolved B ! i)"

text \<open>The sizes for which the 16-bit and 32-bit counters of the format do not wrap.\<close>

definition builder_small :: "'t schema_builder \<Rightarrow> bool" where
  "builder_small B \<longleftrightarrow> n_cols B < 2 ^ 16 \<and> n_fks B < 2 ^ 16 \<and> n_checks B < 2 ^ 16"

definition range_ok :: "'t schema_builder \<Rightarrow> nat \<Rightarrow> table_meta \<Rightarrow> bool" where
  "range_ok B t m \<longleftrightarrow>
     unat (tm_columns_start m) + unat (tm_columns_len m) \<le> n_cols B \<and>
     unat (tm_fk_start m) + unat (tm_fk_len m) \<le> n_fks B \<and>
     (\<forall>i. tm_primary_key m = Some i \<longrightarrow> unat i < unat (tm_columns_len m)) \<and>
     (\<forall>i < n_fks B. source_of B i = t \<longleftrightarrow>
        unat (tm_fk_start m) \<le> i \<and> i < unat (tm_fk_start m) + unat (tm_fk_len m))"

definition col_range_ok :: "'t schema_builder \<Rightarrow> column \<Rightarrow> bool" where
  "col_range_ok B c \<longleftrightarrow>
     unat (pr_start (col_constraints c)) + unat (pr_len (col_constraints c)) \<le> n_checks B \<and>
     unat (pr_start (col_foreign_keys c)) + unat (pr_len (col_foreign_keys c)) \<le> n_fks B"

definition fks_known :: "'t schema_builder \<Rightarrow> nat \<Rightarrow> bool" where
  "fks_known B n \<longleftrightarrow> length (sb_unresolved B) = n_fks B \<and>
     (\<forall>i < n_fks B. uf_pool_index (sb_unresolved B ! i) = i \<and> source_of B i < n)"

text \<open>The builder with no row in progress, and the part about the current table.\<close>

definition finished_ok :: "'t schema_builder \<Rightarrow> bool" where
  "finished_ok B \<longleftrightarrow>
     sb_column_names B = map col_name (sb_columns B) \<and> (\<forall>c \<in> set (sb_columns B). col_range_ok B c) \<and>
     (\<forall>t < length (sb_tables B). range_ok B t (sb_tables B ! t))"

definition current_ok :: "'t schema_builder \<Rightarrow> bool" where
  "current_ok B \<longleftrightarrow>
     unat (sb_cols_start B) \<le> n_cols B \<and> unat (sb_fk_start B) \<le> n_fks B \<and> fks_known B (length (sb_tables B) + 1) \<and>
     (\<forall>i < n_fks B. source_of B i = length (sb_tables B) \<longleftrightarrow> unat (sb_fk_start B) \<le> i)"

definition pk_ok :: "'t schema_builder \<Rightarrow> bool" where
  "pk_ok B \<longleftrightarrow> (\<forall>i. sb_pk B = Some i \<longrightarrow> unat i < n_cols B - unat (sb_cols_start B))"

definition builder_inv :: "'t schema_builder \<Rightarrow> bool" where
  "builder_inv B \<longleftrightarrow> finished_ok B \<and>
     (case sb_current_table B of
        None \<Rightarrow> sb_tables B = [] \<and> n_fks B = 0 \<and> fks_known B 0
      | Some _ \<Rightarrow> current_ok B \<and> pk_ok B)"

lemmas builder_defs = range_ok_def col_range_ok_def fks_known_def finished_ok_def current_ok_def pk_ok_def

text \<open>All but the interner and the cache.\<close>

definition same_data :: "'t schema_builder \<Rightarrow> 't schema_builder \<Rightarrow> bool" where
  "same_data B B' \<longleftrightarrow> (\<exists>I c. B' = B\<lparr>sb_interner := I, sb_cache := c\<rparr>)"

lemma intern_same: "intern D B v = Inr (y, B') \<Longrightarrow> same_data B B'"
  by (auto simp: intern_def same_data_def split: prod.splits sum.splits)

lemma same_data_fields:
  assumes "same_data B B'"
  shows "sb_tables B' = sb_tables B" "sb_columns B' = sb_columns B"
    "sb_foreign_key_pool B' = sb_foreign_key_pool B" "sb_constraint_pool B' = sb_constraint_pool B"
    "sb_current_table B' = sb_current_table B" "sb_cols_start B' = sb_cols_start B" "sb_pk B' = sb_pk B"
    "sb_fk_start B' = sb_fk_start B" "sb_unresolved B' = sb_unresolved B"
    "sb_column_names B' = sb_column_names B"
  using assms unfolding same_data_def by (elim exE, simp)+

lemma same_data_inv:
  assumes "same_data B B'"
  shows "finished_ok B' = finished_ok B" "current_ok B' = current_ok B" "pk_ok B' = pk_ok B"
    "builder_inv B' = builder_inv B" "builder_small B' = builder_small B"
  by (simp_all only: builder_defs builder_inv_def builder_small_def same_data_fields [OF assms])

section \<open>Counters\<close>

lemma unat_u32_of: "n < 2 ^ 16 \<Longrightarrow> unat (word_of_nat n :: u32) = n"
  by (intro unat_word_of_nat_small) simp

lemma unat_len16:
  assumes "n < 2 ^ 16" "unat s \<le> n"
  shows "unat (ucast (word_of_nat n - s :: u32) :: u16) = n - unat s"
proof -
  have "unat (word_of_nat n :: u32) = n" using assms(1) by (rule unat_u32_of)
  then have "unat (word_of_nat n - s :: u32) = n - unat s"
    using assms(2) by (subst unat_sub_small) (simp_all add: word_le_nat_alt)
  moreover have "n - unat s < 2 ^ 16" using assms(1) by simp
  ultimately show ?thesis by (simp add: unsigned_ucast_eq take_bit_nat_eq_self)
qed

section \<open>Finishing a table\<close>

lemma finish_table_ok:
  assumes inv: "builder_inv B" and small: "builder_small B"
  shows "finished_ok (finish_table B)" "fks_known (finish_table B) (length (sb_tables (finish_table B)))"
proof -
  have "finished_ok (finish_table B) \<and> fks_known (finish_table B) (length (sb_tables (finish_table B)))"
  proof (cases "sb_current_table B")
    case None
    then show ?thesis using inv by (simp add: builder_inv_def finish_table_def)
  next
    case (Some name)
    then have ok: "finished_ok B" "current_ok B" "pk_ok B" using inv by (simp_all add: builder_inv_def)
    define m where "m = \<lparr>tm_name = name, tm_columns_start = sb_cols_start B,
             tm_columns_len = ucast (word_of_nat (n_cols B) - sb_cols_start B),
             tm_primary_key = sb_pk B, tm_fk_start = sb_fk_start B,
             tm_fk_len = ucast (word_of_nat (n_fks B) - sb_fk_start B)\<rparr>"
    have F: "finish_table B = B\<lparr>sb_tables := sb_tables B @ [m]\<rparr>" using Some by (simp add: finish_table_def m_def)
    have lens: "unat (tm_columns_len m) = n_cols B - unat (sb_cols_start B)"
        "unat (tm_fk_len m) = n_fks B - unat (sb_fk_start B)"
      using ok(2) small by (simp_all add: m_def unat_len16 current_ok_def builder_small_def)
    have le: "unat (sb_cols_start B) \<le> n_cols B" "unat (sb_fk_start B) \<le> n_fks B"
      using ok(2) by (simp_all add: current_ok_def)
    have "\<forall>i < n_fks B. source_of B i = length (sb_tables B) \<longleftrightarrow> unat (sb_fk_start B) \<le> i"
      using ok(2) by (simp add: current_ok_def)
    then have "range_ok B (length (sb_tables B)) m"
      using le lens ok(3) by (simp add: range_ok_def pk_ok_def) (simp add: m_def)
    then have "\<forall>t < length (sb_tables B @ [m]). range_ok B t ((sb_tables B @ [m]) ! t)"
      using ok(1) by (simp add: finished_ok_def nth_append less_Suc_eq)
    then have "finished_ok (finish_table B)"
      using ok(1) by (simp add: F finished_ok_def range_ok_def col_range_ok_def)
    moreover have "fks_known (finish_table B) (length (sb_tables (finish_table B)))"
      using ok(2) by (simp add: F current_ok_def fks_known_def)
    ultimately show ?thesis by blast
  qed
  then show "finished_ok (finish_table B)" "fks_known (finish_table B) (length (sb_tables (finish_table B)))"
    by blast+
qed

lemma finish_table_keeps [simp]:
  "sb_columns (finish_table B) = sb_columns B" "sb_foreign_key_pool (finish_table B) = sb_foreign_key_pool B"
  "sb_constraint_pool (finish_table B) = sb_constraint_pool B" "sb_unresolved (finish_table B) = sb_unresolved B"
  "sb_column_names (finish_table B) = sb_column_names B" "sb_interner (finish_table B) = sb_interner B"
  by (simp_all add: finish_table_def split: option.splits)

lemma switch_table_ok:
  assumes inv: "builder_inv B" and small: "builder_small B"
  shows "finished_ok (switch_table B y) \<and> current_ok (switch_table B y) \<and> pk_ok (switch_table B y) \<and>
    sb_current_table (switch_table B y) = Some y"
proof (cases "sb_current_table B = Some y")
  case True
  then show ?thesis using inv by (simp add: switch_table_def builder_inv_def)
next
  case False
  note fin = finish_table_ok [OF inv small]
  have "\<forall>i < n_fks B. source_of B i < length (sb_tables (finish_table B))"
    using fin(2) by (simp add: fks_known_def)
  then show ?thesis
    using fin False small unat_u32_of [of "n_cols B"] unat_u32_of [of "n_fks B"]
    by (auto simp: switch_table_def builder_defs builder_small_def)
qed

section \<open>Adding a row\<close>

definition grows :: "'t schema_builder \<Rightarrow> 't schema_builder \<Rightarrow> bool" where
  "grows B B' \<longleftrightarrow> n_cols B \<le> n_cols B' \<and> n_fks B \<le> n_fks B' \<and> n_checks B \<le> n_checks B'"

lemma grows_small: "grows B B' \<Longrightarrow> builder_small B' \<Longrightarrow> builder_small B"
  by (simp add: grows_def builder_small_def)

text \<open>The state while a row is being added: everything but the primary key.\<close>

definition mid_ok :: "'t schema_builder \<Rightarrow> bool" where
  "mid_ok B \<longleftrightarrow> finished_ok B \<and> current_ok B \<and> sb_current_table B \<noteq> None"

lemma mid_ok_same: "same_data B B' \<Longrightarrow> mid_ok B' = mid_ok B"
  by (simp add: mid_ok_def same_data_inv same_data_fields)

lemma add_check_eq:
  assumes "add_check D v B = Inr B'"
  shows "\<exists>y I c. B' = B\<lparr>sb_interner := I, sb_cache := c, sb_constraint_pool := sb_constraint_pool B @ [y]\<rparr>"
proof -
  from assms obtain y I c where
    "B' = B\<lparr>sb_interner := I, sb_cache := c, sb_constraint_pool := sb_constraint_pool B @ [y]\<rparr>"
    by (auto simp: add_check_def sum_bind_Inr same_data_def dest!: intern_same)
  then show ?thesis by blast
qed

lemma add_check_ok: "add_check D v B = Inr B' \<Longrightarrow> mid_ok B \<Longrightarrow> mid_ok B'"
  by (drule add_check_eq) (fastforce simp: mid_ok_def builder_defs)

lemma add_fk_eq:
  assumes "add_fk D fk B = Inr B'"
  shows "\<exists>I c f u. B' = B\<lparr>sb_interner := I, sb_cache := c, sb_foreign_key_pool := sb_foreign_key_pool B @ [f],
       sb_unresolved := sb_unresolved B @ [u]\<rparr> \<and>
     uf_pool_index u = n_fks B \<and> uf_source_table_idx u = length (sb_tables B)"
proof -
  from assms obtain I c f u where "B' = B\<lparr>sb_interner := I, sb_cache := c,
       sb_foreign_key_pool := sb_foreign_key_pool B @ [f], sb_unresolved := sb_unresolved B @ [u]\<rparr>"
      and "uf_pool_index u = n_fks B" "uf_source_table_idx u = length (sb_tables B)"
    by (auto simp: add_fk_def sum_bind_Inr same_data_def dest!: intern_same)
  then show ?thesis by blast
qed

lemma add_fk_ok:
  assumes "add_fk D fk B = Inr B'" "mid_ok B"
  shows "mid_ok B'"
proof -
  from add_fk_eq [OF assms(1)] obtain I c f u where B': "B' = B\<lparr>sb_interner := I, sb_cache := c,
       sb_foreign_key_pool := sb_foreign_key_pool B @ [f], sb_unresolved := sb_unresolved B @ [u]\<rparr>"
      and u: "uf_pool_index u = n_fks B" "uf_source_table_idx u = length (sb_tables B)"
    by blast
  have len: "length (sb_unresolved B) = n_fks B" using assms(2) by (simp add: mid_ok_def builder_defs)
  have src: "source_of B' i = (if i < n_fks B then source_of B i else length (sb_tables B))" if "i < Suc (n_fks B)" for i
    using that u len by (auto simp: B' nth_append less_Suc_eq)
  have pix: "uf_pool_index (sb_unresolved B' ! i) = i" if "i < Suc (n_fks B)" for i
    using that u len assms(2) by (auto simp: B' nth_append less_Suc_eq mid_ok_def builder_defs)
  have "range_ok B' t (sb_tables B ! t)" if "t < length (sb_tables B)" for t
    using assms(2) that src by (auto simp: range_ok_def mid_ok_def finished_ok_def B' less_Suc_eq)
  moreover have "current_ok B'"
    using assms(2) src pix len by (auto simp: current_ok_def fks_known_def mid_ok_def B' less_Suc_eq)
  ultimately show "mid_ok B'"
    using assms(2) by (fastforce simp: B' mid_ok_def finished_ok_def col_range_ok_def)
qed

section \<open>Whole rows\<close>

text \<open>What the parts of a row may change: the pools grow, the rest stays.\<close>

definition frame :: "'t schema_builder \<Rightarrow> 't schema_builder \<Rightarrow> bool" where
  "frame B B' \<longleftrightarrow> sb_columns B' = sb_columns B \<and> sb_column_names B' = sb_column_names B \<and> sb_pk B' = sb_pk B \<and>
     sb_cols_start B' = sb_cols_start B \<and> sb_tables B' = sb_tables B \<and> sb_current_table B' = sb_current_table B \<and>
     n_fks B \<le> n_fks B' \<and> n_checks B \<le> n_checks B'"

lemma frame_refl: "frame B B"
  by (simp add: frame_def)

lemma frame_trans: "frame B B' \<Longrightarrow> frame B' B'' \<Longrightarrow> frame B B''"
  by (simp add: frame_def)

lemma frame_grows: "frame B B' \<Longrightarrow> grows B B'"
  by (simp add: frame_def grows_def)

lemma same_frame: "same_data B B' \<Longrightarrow> frame B B'"
  by (simp add: frame_def same_data_fields)

lemma fold_frame:
  assumes "\<And>x B B'. f x B = Inr B' \<Longrightarrow> frame B B'"
  shows "fold_res f xs B = Inr B' \<Longrightarrow> frame B B'"
proof (induction xs arbitrary: B)
  case (Cons x xs)
  then obtain B1 where "f x B = Inr B1" "fold_res f xs B1 = Inr B'" by (auto simp: sum_bind_Inr)
  then show ?case using Cons.IH assms frame_trans by metis
qed (simp add: frame_refl)

lemma fold_mid:
  assumes "\<And>x B B'. f x B = Inr B' \<Longrightarrow> mid_ok B \<Longrightarrow> mid_ok B'"
  shows "fold_res f xs B = Inr B' \<Longrightarrow> mid_ok B \<Longrightarrow> mid_ok B'"
proof (induction xs arbitrary: B)
  case (Cons x xs)
  then obtain B1 where "f x B = Inr B1" "fold_res f xs B1 = Inr B'" by (auto simp: sum_bind_Inr)
  then show ?case using Cons assms by metis
qed simp

lemma add_checks_frame: "fold_res (add_check D) vs B = Inr B' \<Longrightarrow> frame B B'"
  by (rule fold_frame [of "add_check D"]) (auto simp: frame_def dest: add_check_eq)

lemma add_fks_frame: "fold_res (add_fk D) vs B = Inr B' \<Longrightarrow> frame B B'"
  by (rule fold_frame [of "add_fk D"]) (auto simp: frame_def dest: add_fk_eq)

lemma add_checks_mid: "fold_res (add_check D) vs B = Inr B' \<Longrightarrow> mid_ok B \<Longrightarrow> mid_ok B'"
  by (rule fold_mid [of "add_check D"]) (rule add_check_ok)

lemma add_fks_mid: "fold_res (add_fk D) vs B = Inr B' \<Longrightarrow> mid_ok B \<Longrightarrow> mid_ok B'"
  by (rule fold_mid [of "add_fk D"]) (rule add_fk_ok)

lemma set_pk_ok: "mid_ok (B\<lparr>sb_pk := p\<rparr>) = mid_ok B"
  by (simp add: mid_ok_def builder_defs)

lemma push_column_ok:
  assumes ok: "mid_ok B" and c: "col_range_ok B c"
    and pk: "\<forall>i. sb_pk B = Some i \<longrightarrow> unat i \<le> n_cols B - unat (sb_cols_start B)"
  shows "builder_inv (B\<lparr>sb_columns := sb_columns B @ [c], sb_column_names := sb_column_names B @ [col_name c]\<rparr>)"
    (is "builder_inv ?B")
proof -
  have fin: "finished_ok B" and cur: "current_ok B" and t: "sb_current_table B \<noteq> None"
    using ok by (simp_all add: mid_ok_def)
  have "range_ok ?B k (sb_tables ?B ! k)" if "k < length (sb_tables ?B)" for k
    using fin that by (simp add: finished_ok_def range_ok_def le_SucI)
  moreover have "\<forall>x \<in> set (sb_columns ?B). col_range_ok ?B x"
    using fin c by (simp add: finished_ok_def col_range_ok_def)
  ultimately have "finished_ok ?B" using fin by (simp add: finished_ok_def)
  moreover have "current_ok ?B" using cur by (simp add: current_ok_def fks_known_def)
  moreover have "unat (sb_cols_start B) \<le> n_cols B" using cur by (simp add: current_ok_def)
  then have "pk_ok ?B" using pk by (auto simp: pk_ok_def)
  ultimately show ?thesis using t by (auto simp: builder_inv_def)
qed

text \<open>A row that goes through keeps the invariant and lets the pools grow.\<close>

lemma switch_table_fields:
  "sb_columns (switch_table B y) = sb_columns B" "sb_foreign_key_pool (switch_table B y) = sb_foreign_key_pool B"
  "sb_constraint_pool (switch_table B y) = sb_constraint_pool B"
  by (simp_all add: switch_table_def)

lemma unat_idx16: "n < 2 ^ 16 \<Longrightarrow> unat (word_of_nat (n - k) :: u16) = n - k"
  by (intro unat_word_of_nat_small) simp

text \<open>
  The column of a row, from its symbols and the builders before and after the pools have grown,
  and the calls of \<open>add_row\<close> one by one.
\<close>

definition row_column ::
  "raw_row \<Rightarrow> symbol \<Rightarrow> value_type \<Rightarrow> symbol option \<Rightarrow> 't schema_builder \<Rightarrow> 't schema_builder \<Rightarrow> 't schema_builder \<Rightarrow> column" where
  "row_column r col_sym data_type default_value B3 B5 B6 =
       \<lparr>col_name = col_sym, col_data_type = data_type, col_default_value = default_value,
         col_flags = flags_set (flags_set (flags_set 0 NULLABLE (rr_nullable r)) PRIMARY_KEY (rr_is_primary r))
           UNIQUE (rr_is_unique r),
         col_constraints = \<lparr>pr_start = word_of_nat (n_checks B3),
           pr_len = ucast (word_of_nat (n_checks B5) - word_of_nat (n_checks B3) :: u32)\<rparr>,
         col_foreign_keys = \<lparr>pr_start = word_of_nat (n_fks B5),
           pr_len = ucast (word_of_nat (n_fks B6) - word_of_nat (n_fks B5) :: u32)\<rparr>\<rparr>"

lemma add_row_steps:
  assumes "add_row D r B0 = Inr B'"
  obtains t_sym col_sym data_type default_value B1 B3 B5 B6 B7 B8 where
    "intern D B0 (rr_table_name r) = Inr (t_sym, B1)"
    "intern D (switch_table B1 t_sym) (rr_column_name r) = Inr (col_sym, B3)"
    "fold_res (add_check D) (rr_check_defs r @ rr_domain_checks r)
       (if rr_is_primary r then B3\<lparr>sb_pk := Some (word_of_nat (n_cols B3 - unat (sb_cols_start B3)))\<rparr> else B3) = Inr B5"
    "fold_res (add_fk D) (rr_foreign_keys r) B5 = Inr B6"
    "(case builtin_type (rr_data_type r) of
          Some t \<Rightarrow> Inr (t, B6)
        | None \<Rightarrow> sum_bind (intern D B6 (rr_data_type r)) (\<lambda>(y, B). Inr (VCustom y, B))) = Inr (data_type, B7)"
    "(case rr_default_expr r of
          None \<Rightarrow> Inr (None, B7)
        | Some d \<Rightarrow> sum_bind (intern D B7 d) (\<lambda>(y, B). Inr (Some y, B))) = Inr (default_value, B8)"
    "B' = B8\<lparr>sb_columns := sb_columns B8 @ [row_column r col_sym data_type default_value B3 B5 B6],
       sb_column_names := sb_column_names B8 @ [col_sym]\<rparr>"
proof -
  from assms obtain t_sym B1 where s1: "intern D B0 (rr_table_name r) = Inr (t_sym, B1)"
    by (auto simp: add_row_def sum_bind_Inr)
  with assms obtain col_sym B3 where s3: "intern D (switch_table B1 t_sym) (rr_column_name r) = Inr (col_sym, B3)"
    by (auto simp: add_row_def sum_bind_Inr Let_def)
  let ?B4 = "if rr_is_primary r then B3\<lparr>sb_pk := Some (word_of_nat (n_cols B3 - unat (sb_cols_start B3)))\<rparr> else B3"
  have ck: "n_checks ?B4 = n_checks B3" by simp
  from assms obtain B5 where s5: "fold_res (add_check D) (rr_check_defs r @ rr_domain_checks r) ?B4 = Inr B5"
    by (auto simp: add_row_def sum_bind_Inr Let_def s1 s3)
  from assms obtain B6 where s6: "fold_res (add_fk D) (rr_foreign_keys r) B5 = Inr B6"
    by (auto simp: add_row_def sum_bind_Inr Let_def s1 s3 s5)
  from assms obtain data_type B7 where s7: "(case builtin_type (rr_data_type r) of
          Some t \<Rightarrow> Inr (t, B6)
        | None \<Rightarrow> sum_bind (intern D B6 (rr_data_type r)) (\<lambda>(y, B). Inr (VCustom y, B))) = Inr (data_type, B7)"
    by (auto simp: add_row_def sum_bind_Inr Let_def s1 s3 s5 s6)
  from assms obtain default_value B8 where s8: "(case rr_default_expr r of
          None \<Rightarrow> Inr (None, B7)
        | Some d \<Rightarrow> sum_bind (intern D B7 d) (\<lambda>(y, B). Inr (Some y, B))) = Inr (default_value, B8)"
    by (auto simp: add_row_def sum_bind_Inr Let_def s1 s3 s5 s6 s7)
  have "B' = B8\<lparr>sb_columns := sb_columns B8 @ [row_column r col_sym data_type default_value B3 B5 B6],
       sb_column_names := sb_column_names B8 @ [col_sym]\<rparr>"
    using assms by (simp add: add_row_def Let_def s1 s3 s5 s6 s7 s8 ck row_column_def)
  then show thesis using that [OF s1 s3 s5 s6 s7 s8] by blast
qed

lemma add_row_parts:
  assumes "add_row D r B0 = Inr B'"
  obtains t_sym B1 B3 B5 B6 B8 c where
    "same_data B0 B1" "same_data (switch_table B1 t_sym) B3"
    "fold_res (add_check D) (rr_check_defs r @ rr_domain_checks r)
       (if rr_is_primary r then B3\<lparr>sb_pk := Some (word_of_nat (n_cols B3 - unat (sb_cols_start B3)))\<rparr> else B3) = Inr B5"
    "fold_res (add_fk D) (rr_foreign_keys r) B5 = Inr B6" "frame B6 B8" "mid_ok B6 \<Longrightarrow> mid_ok B8"
    "sb_foreign_key_pool B8 = sb_foreign_key_pool B6" "sb_constraint_pool B8 = sb_constraint_pool B6"
    "intern D B0 (rr_table_name r) = Inr (t_sym, B1)"
    "col_constraints c = \<lparr>pr_start = word_of_nat (n_checks B3),
       pr_len = ucast (word_of_nat (n_checks B5) - word_of_nat (n_checks B3) :: u32)\<rparr>"
    "col_foreign_keys c = \<lparr>pr_start = word_of_nat (n_fks B5),
       pr_len = ucast (word_of_nat (n_fks B6) - word_of_nat (n_fks B5) :: u32)\<rparr>"
    "B' = B8\<lparr>sb_columns := sb_columns B8 @ [c], sb_column_names := sb_column_names B8 @ [col_name c]\<rparr>"
proof -
  obtain t_sym col_sym data_type default_value B1 B3 B5 B6 B7 B8 where
    s1: "intern D B0 (rr_table_name r) = Inr (t_sym, B1)"
    and s3: "intern D (switch_table B1 t_sym) (rr_column_name r) = Inr (col_sym, B3)"
    and s5: "fold_res (add_check D) (rr_check_defs r @ rr_domain_checks r)
       (if rr_is_primary r then B3\<lparr>sb_pk := Some (word_of_nat (n_cols B3 - unat (sb_cols_start B3)))\<rparr> else B3) = Inr B5"
    and s6: "fold_res (add_fk D) (rr_foreign_keys r) B5 = Inr B6"
    and s7: "(case builtin_type (rr_data_type r) of
          Some t \<Rightarrow> Inr (t, B6)
        | None \<Rightarrow> sum_bind (intern D B6 (rr_data_type r)) (\<lambda>(y, B). Inr (VCustom y, B))) = Inr (data_type, B7)"
    and s8: "(case rr_default_expr r of
          None \<Rightarrow> Inr (None, B7)
        | Some d \<Rightarrow> sum_bind (intern D B7 d) (\<lambda>(y, B). Inr (Some y, B))) = Inr (default_value, B8)"
    and B': "B' = B8\<lparr>sb_columns := sb_columns B8 @ [row_column r col_sym data_type default_value B3 B5 B6],
       sb_column_names := sb_column_names B8 @ [col_sym]\<rparr>"
    by (rule add_row_steps [OF assms])
  let ?c = "row_column r col_sym data_type default_value B3 B5 B6"
  have same: "same_data B B" for B :: "'a schema_builder"
    unfolding same_data_def by (intro exI [of _ "sb_interner B"] exI [of _ "sb_cache B"]) simp
  have d67: "same_data B6 B7" using s7 same by (auto simp: sum_bind_Inr split: option.splits dest: intern_same)
  have d78: "same_data B7 B8" using s8 same by (auto simp: sum_bind_Inr split: option.splits dest: intern_same)
  have mid: "mid_ok B6 \<Longrightarrow> mid_ok B8" by (simp add: mid_ok_same [OF d67] mid_ok_same [OF d78])
  have fr: "frame B6 B8" using d67 d78 same_frame frame_trans by blast
  have pools: "sb_foreign_key_pool B8 = sb_foreign_key_pool B6" "sb_constraint_pool B8 = sb_constraint_pool B6"
    using same_data_fields [OF d67] same_data_fields [OF d78] by simp_all
  have "B' = B8\<lparr>sb_columns := sb_columns B8 @ [?c], sb_column_names := sb_column_names B8 @ [col_name ?c]\<rparr>"
    using B' by (simp add: row_column_def)
  then show thesis
    by (intro that [OF intern_same [OF s1] intern_same [OF s3] s5 s6 fr mid pools s1, of ?c]) (simp_all add: row_column_def)
qed

text \<open>The numbers of elements along the way.\<close>

lemma add_row_counts:
  assumes "same_data B0 B1" "same_data (switch_table B1 y) B3"
    "fold_res (add_check D) cs (if p then B3\<lparr>sb_pk := k\<rparr> else B3) = Inr B5"
    "fold_res (add_fk D) fs B5 = Inr B6" "frame B6 B8" "sb_foreign_key_pool B8 = sb_foreign_key_pool B6"
  shows "n_cols B3 = n_cols B1" "n_fks B3 = n_fks B1" "n_checks B3 = n_checks B1"
    "n_cols B8 = n_cols B3" "n_checks B3 \<le> n_checks B5" "n_checks B5 \<le> n_checks B8"
    "n_fks B5 \<le> n_fks B6" "n_fks B6 = n_fks B8" "n_fks B3 \<le> n_fks B5" "grows B0 B8"
    "sb_pk B8 = (if p then k else sb_pk B3)" "sb_cols_start B8 = sb_cols_start B3"
proof -
  show n3: "n_cols B3 = n_cols B1" "n_fks B3 = n_fks B1" "n_checks B3 = n_checks B1"
    by (simp_all add: same_data_fields [OF assms(2)] switch_table_fields)
  have f1: "frame B0 B1" using assms(1) by (rule same_frame)
  note f5 = add_checks_frame [OF assms(3)] and f6 = add_fks_frame [OF assms(4)]
  show le: "n_cols B8 = n_cols B3" "n_checks B3 \<le> n_checks B5" "n_checks B5 \<le> n_checks B8"
      "n_fks B5 \<le> n_fks B6" "n_fks B6 = n_fks B8" "n_fks B3 \<le> n_fks B5"
      "sb_pk B8 = (if p then k else sb_pk B3)" "sb_cols_start B8 = sb_cols_start B3"
    using f5 f6 assms(5,6) by (auto simp: frame_def split: if_splits)
  show "grows B0 B8" using f1 n3 le by (simp add: grows_def frame_def)
qed

lemma add_row_grows: "add_row D r B0 = Inr B' \<Longrightarrow> grows B0 B'"
  by (erule add_row_parts, drule (4) add_row_counts(10)) (auto simp: grows_def)

lemma add_row_ok:
  assumes row: "add_row D r B0 = Inr B'" and inv: "builder_inv B0" and small: "builder_small B'"
  shows "builder_inv B'"
proof -
  obtain t_sym B1 B3 B5 B6 B8 c where d: "same_data B0 B1" "same_data (switch_table B1 t_sym) B3"
    and s5: "fold_res (add_check D) (rr_check_defs r @ rr_domain_checks r)
       (if rr_is_primary r then B3\<lparr>sb_pk := Some (word_of_nat (n_cols B3 - unat (sb_cols_start B3)))\<rparr> else B3) = Inr B5"
    and s6: "fold_res (add_fk D) (rr_foreign_keys r) B5 = Inr B6"
    and f8: "frame B6 B8" "mid_ok B6 \<Longrightarrow> mid_ok B8"
    and pools: "sb_foreign_key_pool B8 = sb_foreign_key_pool B6" "sb_constraint_pool B8 = sb_constraint_pool B6"
    and c: "col_constraints c = \<lparr>pr_start = word_of_nat (n_checks B3),
       pr_len = ucast (word_of_nat (n_checks B5) - word_of_nat (n_checks B3) :: u32)\<rparr>"
       "col_foreign_keys c = \<lparr>pr_start = word_of_nat (n_fks B5),
       pr_len = ucast (word_of_nat (n_fks B6) - word_of_nat (n_fks B5) :: u32)\<rparr>"
    and B': "B' = B8\<lparr>sb_columns := sb_columns B8 @ [c], sb_column_names := sb_column_names B8 @ [col_name c]\<rparr>"
    using add_row_parts [OF row] by metis
  let ?B4 = "if rr_is_primary r then B3\<lparr>sb_pk := Some (word_of_nat (n_cols B3 - unat (sb_cols_start B3)))\<rparr> else B3"
  note le = add_row_counts [OF d s5 s6 f8(1) pools(1)]
  have small8: "n_cols B8 < 2 ^ 16" "n_fks B8 < 2 ^ 16" "n_checks B8 < 2 ^ 16"
    using small by (simp_all add: B' builder_small_def)
  have "builder_small B1" using small8 le by (simp add: builder_small_def)
  moreover have "builder_inv B1" using inv by (simp add: same_data_inv [OF d(1)])
  ultimately have sw: "mid_ok B3" "pk_ok B3" "current_ok B3"
    using switch_table_ok [of B1 t_sym]
    by (simp_all add: mid_ok_def same_data_inv [OF d(2)] same_data_fields [OF d(2)])
  then have "mid_ok ?B4" by (simp add: set_pk_ok)
  then have mid: "mid_ok B8" using add_checks_mid [OF s5] add_fks_mid [OF s6] f8(2) by blast
  have cr: "col_range_ok B8 c"
    using le small8 by (simp add: col_range_ok_def c unat_u32_of unat_len16)
  have "\<forall>i. sb_pk B8 = Some i \<longrightarrow> unat i \<le> n_cols B8 - unat (sb_cols_start B8)"
    using sw(2) small8(1) by (auto simp: le(11,12) pk_ok_def le(4) unat_idx16)
  then show ?thesis using push_column_ok [OF mid cr] by (simp add: B')
qed

section \<open>All rows\<close>

lemma builder_inv_start:
  assumes "builder_with_capacity D next_id c tables_cap columns_cap = Inr B"
  shows "builder_inv B"
  using assms
  by (auto simp: builder_with_capacity_def sum_bind_Inr builder_inv_def finished_ok_def fks_known_def)

lemma add_rows_grows: "fold_res (add_row D) rs B0 = Inr B' \<Longrightarrow> grows B0 B'"
proof (induction rs arbitrary: B0)
  case (Cons r rs)
  then obtain B1 where "add_row D r B0 = Inr B1" "fold_res (add_row D) rs B1 = Inr B'" by (auto simp: sum_bind_Inr)
  then have "grows B0 B1" "grows B1 B'" using Cons.IH add_row_grows by blast+
  then show ?case by (simp add: grows_def)
qed (simp add: grows_def)

lemma add_rows_ok:
  "fold_res (add_row D) rs B0 = Inr B' \<Longrightarrow> builder_inv B0 \<Longrightarrow> builder_small B' \<Longrightarrow> builder_inv B'"
proof (induction rs arbitrary: B0)
  case (Cons r rs)
  then obtain B1 where B1: "add_row D r B0 = Inr B1" "fold_res (add_row D) rs B1 = Inr B'"
    by (auto simp: sum_bind_Inr)
  then have "builder_small B1" using Cons.prems add_rows_grows grows_small by blast
  then show ?case using Cons B1 add_row_ok by blast
qed simp

end
