(* ===== verification/Builder_Correct.thy ===== *)
theory Builder_Correct
  imports Builder_Inv
begin

unbundle bit_operations_syntax

text \<open>
  \<open>build\<close> on a builder that satisfies its invariant: it does not panic, the schema is well
  formed, the foreign keys are those that resolve, and referenced tables come first whenever the
  references have no cycle.
\<close>

section \<open>The index by name\<close>

lemma sort_by_name_ok:
  assumes "length ts < 2 ^ 16"
  shows "set (map unat (sort_by_name ts)) = {..<length ts}"
    "sorted (map (\<lambda>i. tm_name (ts ! unat i)) (sort_by_name ts))"
proof -
  have len: "unat (word_of_nat (length ts) :: u16) = length ts"
    using assms by (intro unat_word_of_nat_small) simp
  have "unat (word_of_nat i :: u16) = i" if "i < length ts" for i
    using that assms by (intro unat_word_of_nat_small) simp
  then have "(\<lambda>i. unat (word_of_nat i :: u16)) ` {0..<length ts} = {..<length ts}" by force
  then show "set (map unat (sort_by_name ts)) = {..<length ts}"
    by (simp add: sort_by_name_def len image_image)
  show "sorted (map (\<lambda>i. tm_name (ts ! unat i)) (sort_by_name ts))"
    unfolding sort_by_name_def by (rule sorted_sort_key)
qed

section \<open>Resolving foreign keys\<close>

text \<open>The builder after the last \<open>finish_table\<close>.\<close>

definition ready :: "'t schema_builder \<Rightarrow> bool" where
  "ready B \<longleftrightarrow> finished_ok B \<and> fks_known B (length (sb_tables B)) \<and> builder_small B \<and>
     length (sb_tables B) < 2 ^ 16 \<and> distinct (map tm_name (sb_tables B))"

text \<open>Column \<open>c\<close> of table \<open>i\<close> has the names a foreign key refers to.\<close>

definition points_to :: "'t schema_builder \<Rightarrow> unresolved_fk \<Rightarrow> nat \<Rightarrow> nat \<Rightarrow> bool" where
  "points_to B uf i c \<longleftrightarrow> i < length (sb_tables B) \<and> tm_name (sb_tables B ! i) = uf_ref_table_sym uf \<and>
     c < unat (tm_columns_len (sb_tables B ! i)) \<and>
     col_name (sb_columns B ! (unat (tm_columns_start (sb_tables B ! i)) + c)) = uf_ref_column_sym uf"

definition info_ok :: "'t schema_builder \<Rightarrow> unresolved_fk \<Rightarrow> fk_info \<Rightarrow> bool" where
  "info_ok B uf x \<longleftrightarrow> (case x of (p, src, ref, c) \<Rightarrow>
     p = uf_pool_index uf \<and> src = uf_source_table_idx uf \<and> points_to B uf ref (unat c))"

lemma ready_table:
  "ready B \<Longrightarrow> i < length (sb_tables B) \<Longrightarrow> range_ok B i (sb_tables B ! i)"
  by (simp add: ready_def finished_ok_def)

lemma ready_name_inj:
  "ready B \<Longrightarrow> i < length (sb_tables B) \<Longrightarrow> j < length (sb_tables B) \<Longrightarrow>
     tm_name (sb_tables B ! i) = tm_name (sb_tables B ! j) \<longleftrightarrow> i = j"
  using nth_eq_iff_index_eq [of "map tm_name (sb_tables B)" i j] by (simp add: ready_def)

lemma resolve_fk_ok:
  assumes rd: "ready B"
  shows "\<exists>r. resolve_fk B (sort_by_name (sb_tables B)) uf = Inr r \<and>
    (case r of Some x \<Rightarrow> info_ok B uf x | None \<Rightarrow> \<forall>i c. \<not> points_to B uf i c)"
proof -
  let ?ts = "sb_tables B" and ?b = "sort_by_name (sb_tables B)"
  let ?key = "\<lambda>k. sum_bind (nth_res ?b k) (\<lambda>i. sum_bind (nth_res ?ts (unat i)) (\<lambda>t. Inr (tm_name t)))"
  have n: "length ?ts < 2 ^ 16" using rd by (simp add: ready_def)
  obtain r where r: "binary_search_by_key ?key (uf_ref_table_sym uf) (length ?b) = Inr r"
      "case r of Some k \<Rightarrow> k < length ?b \<and> unat (?b ! k) < length ?ts \<and> tm_name (?ts ! unat (?b ! k)) = uf_ref_table_sym uf
       | None \<Rightarrow> \<forall>i < length ?ts. tm_name (?ts ! i) \<noteq> uf_ref_table_sym uf"
    using by_name_search [OF sort_by_name_ok [OF n]] by blast
  show ?thesis
  proof (cases r)
    case None
    then show ?thesis using r by (auto simp: resolve_fk_def points_to_def)
  next
    case (Some k)
    then have k: "k < length ?b" "unat (?b ! k) < length ?ts"
        "tm_name (?ts ! unat (?b ! k)) = uf_ref_table_sym uf"
      using r(2) by auto
    let ?m = "?ts ! unat (?b ! k)"
    let ?s = "unat (tm_columns_start ?m)" and ?l = "unat (tm_columns_len ?m)"
    let ?names = "sub_slice (sb_column_names B) ?s ?l"
    have rg: "?s + ?l \<le> n_cols B" using ready_table [OF rd k(2)] by (simp add: range_ok_def)
    have names: "sb_column_names B = map col_name (sb_columns B)" using rd by (simp add: ready_def finished_ok_def)
    have nth: "?names ! c = col_name (sb_columns B ! (?s + c))" if "c < ?l" for c
      using rg that by (simp add: names nth_sub_slice)
    have len: "length ?names = ?l" using rg by (simp add: names)
    have res: "resolve_fk B ?b uf = (case find_index (\<lambda>c. c = uf_ref_column_sym uf) ?names of
        None \<Rightarrow> Inr None
      | Some c \<Rightarrow> Inr (Some (uf_pool_index uf, uf_source_table_idx uf, unat (?b ! k), word_of_nat c)))"
      using r(1) Some k rg by (simp add: resolve_fk_def names)
    have only: "i = unat (?b ! k)" if "points_to B uf i c" for i c
      using that k ready_name_inj [OF rd, of i "unat (?b ! k)"] by (simp add: points_to_def)
    show ?thesis
    proof (cases "find_index (\<lambda>c. c = uf_ref_column_sym uf) ?names")
      case None
      then have no: "name \<noteq> uf_ref_column_sym uf" if "name \<in> set ?names" for name
        using that by (simp add: find_index_None)
      have "\<not> points_to B uf i c" for i c
      proof
        assume pt: "points_to B uf i c"
        then have "c < ?l" "col_name (sb_columns B ! (?s + c)) = uf_ref_column_sym uf"
          using only [OF pt] by (simp_all add: points_to_def)
        then show False using no nth [of c] nth_mem [of c ?names] len by metis
      qed
      then show ?thesis using res None by simp
    next
      case (Some c)
      then have c: "c < ?l" "?names ! c = uf_ref_column_sym uf" using find_index_SomeD [OF Some] len by auto
      have "?l < 2 ^ 16" using unsigned_less [of "tm_columns_len ?m"] by simp
      then have "unat (word_of_nat c :: u16) = c" using c(1) by (intro unat_word_of_nat_small) simp
      then have "info_ok B uf (uf_pool_index uf, uf_source_table_idx uf, unat (?b ! k), word_of_nat c)"
        using c nth k by (simp add: info_ok_def points_to_def)
      then show ?thesis using res Some by simp
    qed
  qed
qed

section \<open>The graph\<close>

definition resolved :: "'t schema_builder \<Rightarrow> unresolved_fk \<Rightarrow> fk_info option" where
  "resolved B uf = (case resolve_fk B (sort_by_name (sb_tables B)) uf of Inl _ \<Rightarrow> None | Inr r \<Rightarrow> r)"

definition infos :: "'t schema_builder \<Rightarrow> unresolved_fk list \<Rightarrow> fk_info list" where
  "infos B us = List.map_filter (resolved B) us"

lemma resolved_ok:
  assumes "ready B"
  shows "resolve_fk B (sort_by_name (sb_tables B)) uf = Inr (resolved B uf)"
    "resolved B uf = Some x \<Longrightarrow> info_ok B uf x" "resolved B uf = None \<Longrightarrow> \<not> points_to B uf i c"
  using resolve_fk_ok [OF assms, of uf] by (auto simp: resolved_def)

lemma infos_Nil [simp]: "infos B [] = []"
  by (simp add: infos_def List.map_filter_def)

lemma infos_append: "infos B (us @ vs) = infos B us @ infos B vs"
  by (simp add: infos_def List.map_filter_def)

lemma infos_Cons: "infos B (u # us) = (case resolved B u of None \<Rightarrow> infos B us | Some x \<Rightarrow> x # infos B us)"
  by (simp add: infos_def List.map_filter_def split: option.splits)

definition edges_inv :: "nat \<Rightarrow> int list \<times> nat list list \<times> fk_info list \<Rightarrow> bool" where
  "edges_inv n st \<longleftrightarrow> (case st of (deg, graph, info) \<Rightarrow>
     length deg = n \<and> length graph = n \<and> graph_ok graph \<and> (\<forall>v < n. deg ! v = pending graph {} v) \<and>
     (\<forall>u v. edge graph u v \<longleftrightarrow> u \<noteq> v \<and> (\<exists>p c. (p, v, u, c) \<in> set info)))"

lemma pending_add:
  assumes "r < length graph"
  shows "pending (graph[r := graph ! r @ [s]]) {} v = pending graph {} v + (if v = s then 1 else 0)"
proof -
  have split: "(\<Sum>u < length graph. f u) = f r + (\<Sum>u \<in> {..<length graph} - {r}. f u)" for f :: "nat \<Rightarrow> int"
    using assms by (simp add: sum.remove)
  have "(\<Sum>u \<in> {..<length graph} - {r}. int (count_list (graph[r := graph ! r @ [s]] ! u) v)) =
      (\<Sum>u \<in> {..<length graph} - {r}. int (count_list (graph ! u) v))"
    by (rule sum.cong) auto
  then show ?thesis using assms by (simp add: pending_def split)
qed

lemma graph_ok_add:
  "graph_ok graph \<Longrightarrow> r < length graph \<Longrightarrow> s < length graph \<Longrightarrow> graph_ok (graph[r := graph ! r @ [s]])"
  using nth_mem [of r graph] by (fastforce simp: graph_ok_def dest: set_update_subset_insert [THEN subsetD])

lemma edge_add:
  "r < length graph \<Longrightarrow> edge (graph[r := graph ! r @ [s]]) u v \<longleftrightarrow> edge graph u v \<or> u = r \<and> v = s"
  by (auto simp: edge_def nth_list_update)

lemma add_edge_ok:
  assumes rd: "ready B" and inv: "edges_inv (length (sb_tables B)) (deg, graph, info)"
    and src: "uf_source_table_idx uf < length (sb_tables B)"
  shows "\<exists>deg' graph'. add_edge B (sort_by_name (sb_tables B)) uf (deg, graph, info) =
      Inr (deg', graph', info @ infos B [uf]) \<and>
    edges_inv (length (sb_tables B)) (deg', graph', info @ infos B [uf])"
proof (cases "resolved B uf")
  case None
  then show ?thesis using inv resolved_ok(1) [OF rd, of uf] by (simp add: add_edge_def infos_Cons infos_def List.map_filter_def)
next
  case (Some x)
  obtain p s r c where x: "x = (p, s, r, c)" by (metis prod_cases4)
  have ok: "s = uf_source_table_idx uf" "r < length (sb_tables B)"
    using resolved_ok(2) [OF rd Some] by (simp_all add: x info_ok_def points_to_def)
  have i1: "infos B [uf] = [(p, s, r, c)]" using Some x by (simp add: infos_def List.map_filter_def)
  have e: "length deg = length (sb_tables B)" "length graph = length (sb_tables B)" "graph_ok graph"
      "\<forall>v < length (sb_tables B). deg ! v = pending graph {} v"
      "\<And>u v. edge graph u v \<longleftrightarrow> u \<noteq> v \<and> (\<exists>p c. (p, v, u, c) \<in> set info)"
    using inv unfolding edges_inv_def by auto
  show ?thesis
  proof (cases "r = s")
    case True
    have "add_edge B (sort_by_name (sb_tables B)) uf (deg, graph, info) = Inr (deg, graph, info @ infos B [uf])"
      using resolved_ok(1) [OF rd, of uf] Some True by (simp add: add_edge_def x i1)
    moreover have "edges_inv (length (sb_tables B)) (deg, graph, info @ infos B [uf])"
      using e True unfolding edges_inv_def i1 by auto
    ultimately show ?thesis by blast
  next
    case False
    let ?deg = "deg[s := deg ! s + 1]" and ?graph = "graph[r := graph ! r @ [s]]"
    have "add_edge B (sort_by_name (sb_tables B)) uf (deg, graph, info) = Inr (?deg, ?graph, info @ infos B [uf])"
      using resolved_ok(1) [OF rd, of uf] Some False e(1,2) ok src by (simp add: add_edge_def x i1)
    moreover have "graph_ok ?graph"
      using graph_ok_add [OF e(3), of r s] e(2) ok src by simp
    moreover have "?deg ! v = pending ?graph {} v" if "v < length (sb_tables B)" for v
      using e(1,2,4) ok that pending_add [of r graph s v] by (simp add: nth_list_update)
    moreover have "edge ?graph u v \<longleftrightarrow> u \<noteq> v \<and> (\<exists>p c. (p, v, u, c) \<in> set (info @ infos B [uf]))" for u v
      using edge_add [of r graph s u v] e(2,5) ok(2) False by (auto simp: i1)
    ultimately show ?thesis
      using e(1,2) by (intro exI [of _ ?deg] exI [of _ ?graph]) (simp add: edges_inv_def)
  qed
qed

lemma add_edges_ok:
  assumes rd: "ready B"
  shows "edges_inv (length (sb_tables B)) (deg, graph, info) \<Longrightarrow>
    \<forall>uf \<in> set us. uf_source_table_idx uf < length (sb_tables B) \<Longrightarrow>
    \<exists>deg' graph'. fold_res (add_edge B (sort_by_name (sb_tables B))) us (deg, graph, info) =
      Inr (deg', graph', info @ infos B us) \<and>
      edges_inv (length (sb_tables B)) (deg', graph', info @ infos B us)"
proof (induction us arbitrary: deg graph info)
  case Nil
  then show ?case by (simp add: infos_def List.map_filter_def)
next
  case (Cons uf us)
  obtain deg1 graph1 where s: "add_edge B (sort_by_name (sb_tables B)) uf (deg, graph, info) =
      Inr (deg1, graph1, info @ infos B [uf])" "edges_inv (length (sb_tables B)) (deg1, graph1, info @ infos B [uf])"
    using add_edge_ok [OF rd Cons.prems(1), of uf] Cons.prems(2) by auto
  show ?case
    using Cons.IH [OF s(2)] Cons.prems(2) s(1) infos_append [of B "[uf]" us] by simp
qed

section \<open>New indices of tables\<close>

lemma index_fold:
  "distinct xs \<Longrightarrow> set xs \<subseteq> {..<length m} \<Longrightarrow>
    (let m' = fold (\<lambda>(new_idx, old_idx) m. m[old_idx := word_of_nat new_idx]) (enumerate k xs) m in
     length m' = length m \<and> (\<forall>i < length xs. m' ! (xs ! i) = word_of_nat (k + i)) \<and>
     (\<forall>j < length m. j \<notin> set xs \<longrightarrow> m' ! j = m ! j))"
proof (induction xs arbitrary: k m)
  case (Cons x xs)
  note IH = Cons.IH [of "m[x := word_of_nat k]" "Suc k"]
  show ?case
    using IH Cons.prems by (auto simp: Let_def nth_Cons' nth_list_update)
qed simp

lemma index_of_tables_ok:
  assumes "distinct order" "set order = {..<n}"
  shows "length (index_of_tables order n) = n"
    "k < length order \<Longrightarrow> index_of_tables order n ! (order ! k) = word_of_nat k"
  using index_fold [of order "replicate n (0 :: u16)" 0] assms by (simp_all add: index_of_tables_def Let_def)

lemma order_length: "distinct order \<Longrightarrow> set order = {..<n} \<Longrightarrow> length order = n"
  by (metis card_lessThan distinct_card)

section \<open>New indices of foreign keys\<close>

text \<open>How many of the resolved keys lie below a position of the old pool.\<close>

definition below :: "fk_info list \<Rightarrow> nat \<Rightarrow> nat" where
  "below xs p = length (filter (\<lambda>x. fst x < p) xs)"

definition remap_ok :: "fk_info list \<Rightarrow> u32 option list \<Rightarrow> bool" where
  "remap_ok xs remap \<longleftrightarrow> (\<forall>p < length remap. remap ! p =
     (if p \<in> fst ` set xs then Some (word_of_nat (below xs p)) else None))"

definition ascending :: "fk_info list \<Rightarrow> bool" where
  "ascending xs \<longleftrightarrow> sorted_wrt (<) (map fst xs)"

definition new_fk :: "foreign_key list \<Rightarrow> u16 list \<Rightarrow> fk_info \<Rightarrow> foreign_key" where
  "new_fk pool old_to_new x = (case x of (p, src, ref, c) \<Rightarrow> (pool ! p)\<lparr>fk_table := old_to_new ! ref, fk_column := c\<rparr>)"

lemma below_all: "(\<And>x. x \<in> set xs \<Longrightarrow> fst x < p) \<Longrightarrow> below xs p = length xs"
  by (simp add: below_def)

lemma place_fks_ok:
  assumes "ascending xs" "\<forall>(p, src, ref, c) \<in> set xs. p < length pool \<and> ref < length otn"
  shows "\<exists>remap. fold_res (place_fk pool otn) xs ([], replicate (length pool) None) =
      Inr (map (new_fk pool otn) xs, remap) \<and> length remap = length pool \<and> remap_ok xs remap"
  using assms
proof (induction xs rule: rev_induct)
  case (snoc x xs)
  obtain p src ref c where x: "x = (p, src, ref, c)" by (metis prod_cases4)
  have asc: "ascending xs" "\<And>y. y \<in> set xs \<Longrightarrow> fst y < p"
    using snoc.prems(1) by (auto simp: ascending_def sorted_wrt_append x)
  obtain remap where r: "fold_res (place_fk pool otn) xs ([], replicate (length pool) None) =
      Inr (map (new_fk pool otn) xs, remap)" "length remap = length pool" "remap_ok xs remap"
    using snoc.IH [OF asc(1)] snoc.prems(2) by auto
  have p: "p < length pool" "ref < length otn" using snoc.prems(2) by (auto simp: x)
  let ?remap = "remap[p := Some (word_of_nat (length xs))]"
  have b: "below (xs @ [x]) q = below xs q" if "q \<le> p" for q
    using that by (simp add: below_def x)
  have nb: "q \<notin> fst ` set xs" if "p \<le> q" for q
    using asc(2) that by fastforce
  have "?remap ! q = (if q \<in> fst ` set (xs @ [x]) then Some (word_of_nat (below (xs @ [x]) q)) else None)"
    if q: "q < length remap" for q
  proof (cases "q = p")
    case True
    then show ?thesis using r(2) p(1) below_all [of xs p] asc(2) b by (simp add: x)
  next
    case False
    have "remap ! q = (if q \<in> fst ` set xs then Some (word_of_nat (below xs q)) else None)"
      using r(3) q by (simp add: remap_ok_def)
    moreover have "q \<notin> fst ` set xs \<or> below (xs @ [x]) q = below xs q"
      using b [of q] nb [of q] by linarith
    ultimately show ?thesis using False by (auto simp: x)
  qed
  then have "remap_ok (xs @ [x]) ?remap" by (simp add: remap_ok_def)
  moreover have "place_fk pool otn x (map (new_fk pool otn) xs, remap) = Inr (map (new_fk pool otn) (xs @ [x]), ?remap)"
    using p r(2) by (simp add: place_fk_def x new_fk_def)
  ultimately show ?case using r by (simp add: fold_res_append)
qed (simp add: remap_ok_def)

lemma below_Suc:
  "ascending xs \<Longrightarrow> below xs (Suc p) = below xs p + (if p \<in> fst ` set xs then 1 else 0)"
proof (induction xs)
  case (Cons x xs)
  have IH: "below xs (Suc p) = below xs p + (if p \<in> fst ` set xs then 1 else 0)"
    using Cons by (simp add: ascending_def)
  have "p \<notin> fst ` set xs" if "fst x = p" using Cons.prems that by (auto simp: ascending_def)
  then show ?case using IH by (auto simp: below_def less_Suc_eq)
qed (simp add: below_def)

lemma below_le: "below xs p \<le> length xs"
  by (simp add: below_def)

lemma below_mono: "p \<le> q \<Longrightarrow> below xs p \<le> below xs q"
  unfolding below_def by (induction xs) auto

text \<open>The keys of a range of the old pool form a range of the new one.\<close>

lemma scan_fks_ok:
  assumes asc: "ascending xs" and ok: "remap_ok xs remap" and small: "length xs < 2 ^ 16"
  shows "a + k \<le> length remap \<Longrightarrow>
    fold_res (scan_fk remap) [a..<a + k] (- 1, 0) =
      Inr (if below xs (a + k) = below xs a then - 1 else word_of_nat (below xs a),
           word_of_nat (below xs (a + k) - below xs a))"
proof (induction k)
  case (Suc k)
  let ?p = "a + k"
  have IH: "fold_res (scan_fk remap) [a..<?p] (- 1, 0) =
      Inr (if below xs ?p = below xs a then - 1 else word_of_nat (below xs a),
           word_of_nat (below xs ?p - below xs a))"
    using Suc by simp
  have le: "below xs a \<le> below xs ?p" by (rule below_mono) simp
  have nm: "(word_of_nat (below xs q) :: u32) \<noteq> - 1" for q
  proof -
    have "unat (word_of_nat (below xs q) :: u32) = below xs q"
      using below_le [of xs q] small by (intro unat_word_of_nat_small) simp
    then show ?thesis using below_le [of xs q] small by (auto simp: unsigned_minus_1_eq_mask mask_eq_exp_minus_1)
  qed
  have "remap ! ?p = (if ?p \<in> fst ` set xs then Some (word_of_nat (below xs ?p)) else None)"
    using ok Suc.prems by (simp add: remap_ok_def)
  moreover have "scan_fk remap ?p st = (case st of (new_start, new_len) \<Rightarrow>
      Inr (case remap ! ?p of None \<Rightarrow> (new_start, new_len)
           | Some new_idx \<Rightarrow> (if new_start = - 1 then new_idx else new_start, new_len + 1)))" for st
    using Suc.prems by (simp add: scan_fk_def)
  ultimately show ?case
    using IH le nm below_Suc [OF asc, of ?p]
    by (simp add: fold_res_append Suc_diff_le)
qed simp

lemma below_slice:
  assumes "ascending xs" "a \<le> b"
  shows "sub_slice xs (below xs a) (below xs b - below xs a) = filter (\<lambda>x. a \<le> fst x \<and> fst x < b) xs"
  using assms
proof (induction xs)
  case (Cons x xs)
  have asc: "ascending xs" "\<And>y. y \<in> set xs \<Longrightarrow> fst x < fst y" using Cons.prems by (auto simp: ascending_def)
  have IH: "take (below xs b - below xs a) (drop (below xs a) xs) = filter (\<lambda>x. a \<le> fst x \<and> fst x < b) xs"
    using Cons asc by (simp add: sub_slice_def)
  have none: "below xs k = 0" if "k \<le> fst x" for k
    using asc(2) that by (force simp: below_def filter_empty_conv)
  have cons: "below (x # xs) k = (if fst x < k then Suc (below xs k) else below xs k)" for k
    by (simp add: below_def)
  show ?case
    using IH none [of a] none [of b] Cons.prems(2) by (auto simp: sub_slice_def cons not_less)
qed (simp add: sub_slice_def)

lemma remap_range_ok:
  assumes asc: "ascending xs" and ok: "remap_ok xs remap" and small: "length xs < 2 ^ 16"
    and range: "unat s + unat n \<le> length remap"
  shows "\<exists>s' n'. remap_range remap s n = Inr (s', n') \<and> unat s' + unat n' \<le> length xs \<and>
    sub_slice xs (unat s') (unat n') = filter (\<lambda>x. unat s \<le> fst x \<and> fst x < unat s + unat n) xs"
proof -
  let ?a = "below xs (unat s)" and ?b = "below xs (unat s + unat n)"
  have ab: "?a \<le> ?b" by (rule below_mono) simp
  have lb: "?b < 2 ^ 16" using below_le [of xs "unat s + unat n"] small by simp
  have ua: "unat (word_of_nat ?a :: u32) = ?a" using ab lb by (intro unat_word_of_nat_small) simp
  have un: "unat (word_of_nat (?b - ?a) :: u16) = ?b - ?a" using lb by (intro unat_word_of_nat_small) simp
  have zero: "(word_of_nat (?b - ?a) :: u16) = 0 \<longleftrightarrow> ?b = ?a" 
    using ab unfolding unat_0_iff [symmetric] un by simp
  let ?s = "if ?b = ?a then 0 else word_of_nat ?a :: u32" and ?n = "word_of_nat (?b - ?a) :: u16"
  have res: "remap_range remap s n = Inr (?s, ?n)"
    using scan_fks_ok [OF asc ok small range] zero by (simp add: remap_range_def)
  have "unat ?s + unat ?n \<le> length xs" using ab ua un below_le [of xs "unat s + unat n"] by simp
  moreover have "sub_slice xs (unat ?s) (unat ?n) = filter (\<lambda>x. unat s \<le> fst x \<and> fst x < unat s + unat n) xs"
    using below_slice [OF asc, of "unat s" "unat s + unat n"] ua un by (cases "?b = ?a") (simp_all add: sub_slice_def)
  ultimately show ?thesis using res by blast
qed

section \<open>The resolved keys of a builder\<close>

lemma infos_ascending:
  assumes rd: "ready B"
  shows "\<forall>i < length us. uf_pool_index (us ! i) = i \<Longrightarrow>
    ascending (infos B us) \<and> (\<forall>x \<in> set (infos B us). fst x < length us \<and> (\<exists>uf \<in> set us. resolved B uf = Some x))"
proof (induction us rule: rev_induct)
  case (snoc u us)
  have "\<forall>i < length us. uf_pool_index (us ! i) = i"
    using snoc.prems by (metis length_append_singleton less_SucI nth_append)
  note IH = snoc.IH [OF this]
  have u: "uf_pool_index u = length us" using snoc.prems by (metis length_append_singleton lessI nth_append_length)
  show ?case
  proof (cases "resolved B u")
    case None
    then show ?thesis using IH by (auto simp: infos_append infos_Cons infos_def List.map_filter_def less_SucI)
  next
    case (Some x)
    then have one: "infos B [u] = [x]" by (simp add: infos_Cons)
    have "fst x = length us" using resolved_ok(2) [OF rd Some] u by (cases x) (simp add: info_ok_def)
    then show ?thesis using IH Some
      by (cases x) (auto simp: infos_append one ascending_def sorted_wrt_append less_SucI)
  qed
qed (simp add: ascending_def infos_def List.map_filter_def)

text \<open>Table \<open>v\<close> has a foreign key to another table \<open>u\<close>.\<close>

definition depends :: "'t schema_builder \<Rightarrow> nat \<Rightarrow> nat \<Rightarrow> bool" where
  "depends B u v \<longleftrightarrow> u \<noteq> v \<and>
     (\<exists>uf \<in> set (sb_unresolved B). uf_source_table_idx uf = v \<and> (\<exists>c. points_to B uf u c))"

abbreviation all_infos :: "'t schema_builder \<Rightarrow> fk_info list" where
  "all_infos B \<equiv> infos B (sb_unresolved B)"

lemma in_infos: "x \<in> set (infos B us) \<longleftrightarrow> (\<exists>uf \<in> set us. resolved B uf = Some x)"
  by (induction us) (auto simp: infos_Cons infos_def [of B "[]"] List.map_filter_def split: option.splits)

lemma depends_infos:
  assumes rd: "ready B"
  shows "depends B u v \<longleftrightarrow> u \<noteq> v \<and> (\<exists>p c. (p, v, u, c) \<in> set (all_infos B))"
proof -
  have "(\<exists>c. points_to B uf u c) \<longleftrightarrow> (\<exists>p s c. resolved B uf = Some (p, s, u, c))" for uf
  proof (cases "resolved B uf")
    case None
    then show ?thesis using resolved_ok(3) [OF rd] by simp
  next
    case (Some x)
    obtain p s r c where x: "x = (p, s, r, c)" by (metis prod_cases4)
    have pt: "points_to B uf r (unat c)" using resolved_ok(2) [OF rd Some] by (simp add: x info_ok_def)
    have "u = r" if "points_to B uf u c'" for c'
      using that pt ready_name_inj [OF rd, of u r] by (simp add: points_to_def)
    then show ?thesis using Some pt x by auto
  qed
  moreover have "s = uf_source_table_idx uf" if "resolved B uf = Some (p, s, r, c)" for uf p s r c
    using resolved_ok(2) [OF rd that] by (simp add: info_ok_def)
  ultimately show ?thesis unfolding depends_def in_infos by metis
qed

lemma map_res_rel:
  "(\<And>x. x \<in> set xs \<Longrightarrow> \<exists>y. f x = Inr y \<and> P x y) \<Longrightarrow> \<exists>ys. map_res f xs = Inr ys \<and> list_all2 P xs ys"
proof (induction xs)
  case (Cons x xs)
  obtain ys where "map_res f xs = Inr ys" "list_all2 P xs ys" using Cons by auto
  moreover obtain y where "f x = Inr y" "P x y" using Cons.prems by auto
  ultimately show ?case by simp
qed simp

section \<open>The schema\<close>

text \<open>What remapping does to a table and to a column.\<close>

definition table_rel :: "fk_info list \<Rightarrow> table_meta \<Rightarrow> table_meta \<Rightarrow> bool" where
  "table_rel xs t t' \<longleftrightarrow> t' = t\<lparr>tm_fk_start := tm_fk_start t', tm_fk_len := tm_fk_len t'\<rparr> \<and>
     unat (tm_fk_start t') + unat (tm_fk_len t') \<le> length xs \<and>
     sub_slice xs (unat (tm_fk_start t')) (unat (tm_fk_len t')) =
       filter (\<lambda>x. unat (tm_fk_start t) \<le> fst x \<and> fst x < unat (tm_fk_start t) + unat (tm_fk_len t)) xs"

definition column_rel :: "fk_info list \<Rightarrow> column \<Rightarrow> column \<Rightarrow> bool" where
  "column_rel xs c c' \<longleftrightarrow> c' = c\<lparr>col_foreign_keys := col_foreign_keys c'\<rparr> \<and>
     (let r = col_foreign_keys c; r' = col_foreign_keys c' in
      unat (pr_start r') + unat (pr_len r') \<le> length xs \<and>
      sub_slice xs (unat (pr_start r')) (unat (pr_len r')) =
        filter (\<lambda>x. unat (pr_start r) \<le> fst x \<and> fst x < unat (pr_start r) + unat (pr_len r)) xs)"

definition schema_of :: "'t schema_builder \<Rightarrow> nat list \<Rightarrow> u8 list \<Rightarrow> 't database_schema \<Rightarrow> bool" where
  "schema_of B order hash S \<longleftrightarrow>
     list_all2 (table_rel (all_infos B)) (map ((!) (sb_tables B)) order) (ds_tables S) \<and>
     ds_by_name S = sort_by_name (map ((!) (sb_tables B)) order) \<and>
     list_all2 (column_rel (all_infos B)) (sb_columns B) (ds_columns S) \<and>
     ds_column_names S = sb_column_names B \<and> ds_constraint_pool S = sb_constraint_pool B \<and>
     ds_foreign_key_pool S =
       map (new_fk (sb_foreign_key_pool B) (index_of_tables order (length (sb_tables B)))) (all_infos B) \<and>
     ds_hash S = hash \<and> ds_interner S = sb_interner B"

text \<open>The order of the tables: all of them, and referenced tables first if that is possible.\<close>

definition order_ok :: "'t schema_builder \<Rightarrow> nat list \<Rightarrow> bool" where
  "order_ok B order \<longleftrightarrow> distinct order \<and> set order = {..<length (sb_tables B)} \<and>
     (acyclic {(u, v). depends B u v} \<longrightarrow>
        (\<forall>k < length order. \<forall>u. depends B u (order ! k) \<longrightarrow> u \<in> set (take k order)))"

lemma all_infos_ok:
  assumes rd: "ready B"
  shows "ascending (all_infos B)" "length (all_infos B) < 2 ^ 16"
    "(p, src, ref, c) \<in> set (all_infos B) \<Longrightarrow>
       p < n_fks B \<and> src = source_of B p \<and> src < length (sb_tables B) \<and> ref < length (sb_tables B) \<and>
       unat c < unat (tm_columns_len (sb_tables B ! ref))"
proof -
  have kn: "length (sb_unresolved B) = n_fks B" "n_fks B < 2 ^ 16"
      "\<And>i. i < n_fks B \<Longrightarrow> uf_pool_index (sb_unresolved B ! i) = i \<and> source_of B i < length (sb_tables B)"
    using rd by (simp_all add: ready_def fks_known_def builder_small_def)
  note asc = infos_ascending [OF rd, of "sb_unresolved B"]
  show "ascending (all_infos B)" using asc kn by simp
  have "length (all_infos B) \<le> length (sb_unresolved B)"
    by (simp add: infos_def List.map_filter_def)
  then show "length (all_infos B) < 2 ^ 16" using kn by simp
  assume "(p, src, ref, c) \<in> set (all_infos B)"
  then obtain uf where uf: "uf \<in> set (sb_unresolved B)" "resolved B uf = Some (p, src, ref, c)"
    by (auto simp: in_infos)
  then obtain i where i: "i < n_fks B" "uf = sb_unresolved B ! i" using kn(1) by (metis in_set_conv_nth)
  have ok: "p = uf_pool_index uf" "src = uf_source_table_idx uf" "points_to B uf ref (unat c)"
    using resolved_ok(2) [OF rd uf(2)] by (simp_all add: info_ok_def)
  show "p < n_fks B \<and> src = source_of B p \<and> src < length (sb_tables B) \<and> ref < length (sb_tables B) \<and>
       unat c < unat (tm_columns_len (sb_tables B ! ref))"
    using ok kn(3) [OF i(1)] i by (simp add: points_to_def)
qed

lemma remap_table_rel:
  assumes "ascending xs" "remap_ok xs remap" "length xs < 2 ^ 16" "unat (tm_fk_start t) + unat (tm_fk_len t) \<le> length remap"
  shows "\<exists>t'. remap_table remap t = Inr t' \<and> table_rel xs t t'"
  using remap_range_ok [OF assms] by (auto simp: remap_table_def table_rel_def)

lemma remap_column_rel:
  assumes "ascending xs" "remap_ok xs remap" "length xs < 2 ^ 16"
    "unat (pr_start (col_foreign_keys c)) + unat (pr_len (col_foreign_keys c)) \<le> length remap"
  shows "\<exists>c'. remap_column remap c = Inr c' \<and> column_rel xs c c'"
  using remap_range_ok [OF assms] by (auto simp: remap_column_def column_rel_def)

lemma topo_ok:
  assumes rd: "ready B"
  shows "\<exists>deg graph order. fold_res (add_edge B (sort_by_name (sb_tables B))) (sb_unresolved B)
      (replicate (length (sb_tables B)) 0, replicate (length (sb_tables B)) [], []) = Inr (deg, graph, all_infos B) \<and>
    topo_sort graph deg (length (sb_tables B)) = Inr order \<and> order_ok B order"
proof -
  let ?n = "length (sb_tables B)"
  have start: "edges_inv ?n (replicate ?n 0, replicate ?n [], [])"
    by (auto simp: edges_inv_def graph_ok_def pending_def edge_def)
  have src: "\<forall>uf \<in> set (sb_unresolved B). uf_source_table_idx uf < ?n"
    using rd by (metis ready_def fks_known_def in_set_conv_nth)
  obtain deg graph where g: "fold_res (add_edge B (sort_by_name (sb_tables B))) (sb_unresolved B)
      (replicate ?n 0, replicate ?n [], []) = Inr (deg, graph, all_infos B)" "edges_inv ?n (deg, graph, all_infos B)"
    using add_edges_ok [OF rd start src] by auto
  have e: "edge graph u v \<longleftrightarrow> depends B u v" for u v
    using g(2) depends_infos [OF rd, of u v] by (simp add: edges_inv_def)
  obtain order where "topo_sort graph deg ?n = Inr order" "distinct order" "set order = {..<?n}"
      "acyclic {(u, v). edge graph u v} \<longrightarrow> ordered graph order"
    using topo_sort_spec [of graph ?n deg] g(2) by (auto simp: edges_inv_def)
  then show ?thesis using g(1) by (simp add: e order_ok_def ordered_def)
qed

lemma build_schema_of:
  assumes rd: "ready (finish_table B)"
  shows "\<exists>S order. build B hash = Inr S \<and> order_ok (finish_table B) order \<and> schema_of (finish_table B) order hash S"
proof -
  let ?B = "finish_table B" let ?n = "length (sb_tables ?B)" and ?xs = "all_infos ?B"
  obtain deg graph order where t: "fold_res (add_edge ?B (sort_by_name (sb_tables ?B))) (sb_unresolved ?B)
      (replicate ?n 0, replicate ?n [], []) = Inr (deg, graph, ?xs)"
      "topo_sort graph deg ?n = Inr order" "order_ok ?B order"
    using topo_ok [OF rd] by blast
  have ord: "distinct order" "set order = {..<?n}" using t(3) by (simp_all add: order_ok_def)
  let ?otn = "index_of_tables order ?n" and ?new = "map ((!) (sb_tables ?B)) order"
  have new: "map_res (nth_res (sb_tables ?B)) order = Inr ?new"
    using ord(2) by (intro map_res_total) auto
  note ok = all_infos_ok [OF rd]
  obtain remap where r: "fold_res (place_fk (sb_foreign_key_pool ?B) ?otn) ?xs
      ([], replicate (n_fks ?B) None) = Inr (map (new_fk (sb_foreign_key_pool ?B) ?otn) ?xs, remap)"
      "length remap = n_fks ?B" "remap_ok ?xs remap"
    using place_fks_ok [OF ok(1), of "sb_foreign_key_pool ?B" ?otn] ok(3) index_of_tables_ok(1) [OF ord] by fastforce
  have "unat (tm_fk_start m) + unat (tm_fk_len m) \<le> length remap" if "m \<in> set ?new" for m
    using that ord(2) ready_table [OF rd] r(2) by (auto simp: range_ok_def)
  then obtain ts where ts: "map_res (remap_table remap) ?new = Inr ts" "list_all2 (table_rel ?xs) ?new ts"
    using map_res_rel [of ?new "remap_table remap" "table_rel ?xs"] remap_table_rel [OF ok(1) r(3) ok(2)] by blast
  have "unat (pr_start (col_foreign_keys c)) + unat (pr_len (col_foreign_keys c)) \<le> length remap"
    if "c \<in> set (sb_columns ?B)" for c
    using that rd r(2) by (simp add: ready_def finished_ok_def col_range_ok_def)
  then obtain cs where cs: "map_res (remap_column remap) (sb_columns ?B) = Inr cs" "list_all2 (column_rel ?xs) (sb_columns ?B) cs"
    using map_res_rel [of "sb_columns ?B" "remap_column remap" "column_rel ?xs"] remap_column_rel [OF ok(1) r(3) ok(2)]
    by blast
  show ?thesis
    using t new r(1) ts cs by (simp add: build_def Let_def schema_of_def) (intro exI [of _ order], simp)
qed

section \<open>Well-formedness and order\<close>

lemma table_rel_fields:
  assumes "table_rel xs t t'"
  shows "tm_name t' = tm_name t" "tm_columns_start t' = tm_columns_start t" "tm_columns_len t' = tm_columns_len t"
    "tm_primary_key t' = tm_primary_key t"
proof -
  have *: "t' = t\<lparr>tm_fk_start := tm_fk_start t', tm_fk_len := tm_fk_len t'\<rparr>" using assms by (simp add: table_rel_def)
  show "tm_name t' = tm_name t" by (subst *) simp
  show "tm_columns_start t' = tm_columns_start t" by (subst *) simp
  show "tm_columns_len t' = tm_columns_len t" by (subst *) simp
  show "tm_primary_key t' = tm_primary_key t" by (subst *) simp
qed

lemma column_rel_fields:
  assumes "column_rel xs c c'"
  shows "col_name c' = col_name c" "col_constraints c' = col_constraints c"
proof -
  have *: "c' = c\<lparr>col_foreign_keys := col_foreign_keys c'\<rparr>" using assms by (simp add: column_rel_def)
  show "col_name c' = col_name c" by (subst *) simp
  show "col_constraints c' = col_constraints c" by (subst *) simp
qed

lemma schema_of_tables:
  assumes "schema_of B order hash S" "order_ok B order"
  shows "length (ds_tables S) = length (sb_tables B)" "length order = length (sb_tables B)"
    "k < length (sb_tables B) \<Longrightarrow> table_rel (all_infos B) (sb_tables B ! (order ! k)) (ds_tables S ! k)"
    "k < length (sb_tables B) \<Longrightarrow> order ! k < length (sb_tables B)"
proof -
  have l: "list_all2 (table_rel (all_infos B)) (map ((!) (sb_tables B)) order) (ds_tables S)"
    using assms by (simp add: schema_of_def)
  show len: "length order = length (sb_tables B)" using assms(2) order_length by (simp add: order_ok_def)
  then show "length (ds_tables S) = length (sb_tables B)" using list_all2_lengthD [OF l] by simp
  show "table_rel (all_infos B) (sb_tables B ! (order ! k)) (ds_tables S ! k)" if "k < length (sb_tables B)"
    using list_all2_nthD [OF l, of k] that len by simp
  show "order ! k < length (sb_tables B)" if "k < length (sb_tables B)"
    using assms(2) that len nth_mem [of k order] by (auto simp: order_ok_def)
qed

text \<open>The foreign keys of the table at a new index are the resolved keys of the old table.\<close>

lemma schema_of_fks:
  assumes rd: "ready B" and so: "schema_of B order hash S" "order_ok B order" and k: "k < length (sb_tables B)"
  shows "fks_of S k = map (new_fk (sb_foreign_key_pool B) (index_of_tables order (length (sb_tables B))))
    (filter (\<lambda>(p, src, _). src = order ! k) (all_infos B))"
proof -
  let ?t = "sb_tables B ! (order ! k)" and ?t' = "ds_tables S ! k"
  note st = schema_of_tables [OF so]
  have rel: "sub_slice (all_infos B) (unat (tm_fk_start ?t')) (unat (tm_fk_len ?t')) =
      filter (\<lambda>x. unat (tm_fk_start ?t) \<le> fst x \<and> fst x < unat (tm_fk_start ?t) + unat (tm_fk_len ?t)) (all_infos B)"
    using st(3) [OF k] by (simp add: table_rel_def)
  have "filter (\<lambda>x. unat (tm_fk_start ?t) \<le> fst x \<and> fst x < unat (tm_fk_start ?t) + unat (tm_fk_len ?t)) (all_infos B) =
      filter (\<lambda>(p, src, _). src = order ! k) (all_infos B)"
  proof (rule filter_cong [OF refl], clarify)
    fix p src ref c assume "(p, src, ref, c) \<in> set (all_infos B)"
    then have "p < n_fks B" "src = source_of B p" using all_infos_ok(3) [OF rd] by blast+
    then show "(unat (tm_fk_start ?t) \<le> fst (p, src, ref, c) \<and>
        fst (p, src, ref, c) < unat (tm_fk_start ?t) + unat (tm_fk_len ?t)) = (src = order ! k)"
      using ready_table [OF rd st(4) [OF k]] by (auto simp: range_ok_def)
  qed
  then show ?thesis using rel so(1) by (simp add: fks_of_def schema_of_def sub_slice_def drop_map take_map)
qed

lemma schema_of_by_name:
  assumes rd: "ready B" and so: "schema_of B order hash S" "order_ok B order"
  shows "by_name_wf S" "distinct (map tm_name (ds_tables S))"
proof -
  let ?new = "map ((!) (sb_tables B)) order"
  note st = schema_of_tables [OF so]
  have n: "length ?new < 2 ^ 16" using rd st(2) by (simp add: ready_def)
  have nm: "tm_name (ds_tables S ! k) = tm_name (?new ! k)" if "k < length (sb_tables B)" for k
    using table_rel_fields(1) [OF st(3) [OF that]] that st(2) by simp
  have b: "ds_by_name S = sort_by_name ?new" using so(1) by (simp add: schema_of_def)
  have set: "set (map unat (sort_by_name ?new)) = {..<length (ds_tables S)}"
    using sort_by_name_ok(1) [OF n] st by simp
  have eq: "map (\<lambda>i. tm_name (ds_tables S ! unat i)) (sort_by_name ?new) =
      map (\<lambda>i. tm_name (?new ! unat i)) (sort_by_name ?new)"
  proof (rule map_cong [OF refl])
    fix i assume "i \<in> set (sort_by_name ?new)"
    then have "unat i \<in> set (map unat (sort_by_name ?new))" by simp
    then have "unat i < length (sb_tables B)" unfolding set by (simp add: st(1))
    then show "tm_name (ds_tables S ! unat i) = tm_name (?new ! unat i)" by (rule nm)
  qed
  show "by_name_wf S" unfolding by_name_wf_def b eq using set sort_by_name_ok(2) [OF n] by blast
  have "map tm_name (ds_tables S) = map (\<lambda>i. tm_name (sb_tables B ! i)) order"
    using nm st by (intro nth_equalityI) simp_all
  moreover have "inj_on (\<lambda>i. tm_name (sb_tables B ! i)) (set order)"
    using so(2) ready_name_inj [OF rd] by (auto simp: inj_on_def order_ok_def)
  ultimately show "distinct (map tm_name (ds_tables S))" using so(2) by (simp add: distinct_map order_ok_def)
qed

text \<open>The new index of a table.\<close>

lemma new_index:
  assumes rd: "ready B" and ord: "order_ok B order" and i: "i < length (sb_tables B)"
  shows "\<exists>k < length (sb_tables B). order ! k = i \<and>
    unat (index_of_tables order (length (sb_tables B)) ! i) = k"
proof -
  have o: "distinct order" "set order = {..<length (sb_tables B)}" using ord by (simp_all add: order_ok_def)
  then obtain k where k: "k < length order" "order ! k = i" using i by (metis in_set_conv_nth lessThan_iff)
  have len: "length order = length (sb_tables B)" using order_length o by simp
  then have "unat (word_of_nat k :: u16) = k"
    using k rd by (intro unat_word_of_nat_small) (simp add: ready_def)
  then show ?thesis using index_of_tables_ok(2) [OF o k(1)] k len by auto
qed

text \<open>A key of the schema points to the table and the column it names.\<close>

lemma new_fk_names:
  assumes rd: "ready B" and so: "schema_of B order hash S" "order_ok B order"
    and uf: "resolved B uf = Some x" "x \<in> set (all_infos B)"
  defines "fk \<equiv> new_fk (sb_foreign_key_pool B) (index_of_tables order (length (sb_tables B))) x"
  shows "(tm_name (ds_tables S ! unat (fk_table fk)),
      col_name (ds_columns S ! (unat (tm_columns_start (ds_tables S ! unat (fk_table fk))) + unat (fk_column fk)))) =
    (uf_ref_table_sym uf, uf_ref_column_sym uf)"
proof -
  obtain p src ref c where x: "x = (p, src, ref, c)" by (metis prod_cases4)
  have pt: "points_to B uf ref (unat c)" using resolved_ok(2) [OF rd uf(1)] by (simp add: x info_ok_def)
  then have r: "ref < length (sb_tables B)" "tm_name (sb_tables B ! ref) = uf_ref_table_sym uf"
      "unat c < unat (tm_columns_len (sb_tables B ! ref))"
      "col_name (sb_columns B ! (unat (tm_columns_start (sb_tables B ! ref)) + unat c)) = uf_ref_column_sym uf"
    by (simp_all add: points_to_def)
  obtain k where k: "k < length (sb_tables B)" "order ! k = ref"
      "unat (index_of_tables order (length (sb_tables B)) ! ref) = k"
    using new_index [OF rd so(2) r(1)] by blast
  have fk: "unat (fk_table fk) = k" "fk_column fk = c" using k(3) by (simp_all add: fk_def x new_fk_def)
  have tab: "table_rel (all_infos B) (sb_tables B ! ref) (ds_tables S ! k)"
    using schema_of_tables(3) [OF so k(1)] k(2) by simp
  let ?j = "unat (tm_columns_start (sb_tables B ! ref)) + unat c"
  have "?j < n_cols B" using ready_table [OF rd r(1)] r(3) by (simp add: range_ok_def)
  moreover have cols: "list_all2 (column_rel (all_infos B)) (sb_columns B) (ds_columns S)"
    using so(1) by (simp add: schema_of_def)
  ultimately have "col_name (ds_columns S ! ?j) = col_name (sb_columns B ! ?j)"
    using column_rel_fields(1) [OF list_all2_nthD [OF cols]] by blast
  then show ?thesis using r by (simp add: fk table_rel_fields [OF tab])
qed

lemma schema_of_fk_wf:
  assumes rd: "ready B" and so: "schema_of B order hash S" "order_ok B order" and fk: "fk \<in> set (ds_foreign_key_pool S)"
  shows "fk_wf S fk"
proof -
  let ?n = "length (sb_tables B)"
  note st = schema_of_tables [OF so]
  obtain p src ref c where x: "(p, src, ref, c) \<in> set (all_infos B)"
      "fk = new_fk (sb_foreign_key_pool B) (index_of_tables order ?n) (p, src, ref, c)"
    using fk so(1) by (auto simp: schema_of_def)
  have ok: "ref < ?n" "unat c < unat (tm_columns_len (sb_tables B ! ref))" using all_infos_ok(3) [OF rd x(1)] by simp_all
  obtain k where k: "k < ?n" "order ! k = ref" "unat (index_of_tables order ?n ! ref) = k"
    using new_index [OF rd so(2) ok(1)] by blast
  have "unat (fk_table fk) = k" "fk_column fk = c" using k(3) by (simp_all add: x(2) new_fk_def)
  moreover have "tm_columns_len (ds_tables S ! k) = tm_columns_len (sb_tables B ! ref)"
    using table_rel_fields(3) [OF st(3) [OF k(1)]] k(2) by simp
  ultimately show ?thesis using ok k(1) st(1) by (simp add: fk_wf_def)
qed

lemma schema_of_wf:
  assumes rd: "ready B" and so: "schema_of B order hash S" "order_ok B order"
  shows "schema_wf S"
proof -
  let ?n = "length (sb_tables B)"
  note st = schema_of_tables [OF so]
  have cols: "list_all2 (column_rel (all_infos B)) (sb_columns B) (ds_columns S)"
    using so(1) by (simp add: schema_of_def)
  have lenc: "length (ds_columns S) = n_cols B" using list_all2_lengthD [OF cols] by simp
  have pools: "length (ds_foreign_key_pool S) = length (all_infos B)" "ds_constraint_pool S = sb_constraint_pool B"
    using so(1) by (simp_all add: schema_of_def)
  have "table_wf S m" if m: "m \<in> set (ds_tables S)" for m
  proof -
    obtain k where "k < length (ds_tables S)" "ds_tables S ! k = m" using m unfolding in_set_conv_nth by blast
    then have k: "k < ?n" "m = ds_tables S ! k" using st(1) by auto
    have rel: "table_rel (all_infos B) (sb_tables B ! (order ! k)) m" using st(3) k by simp
    have "unat (tm_fk_start m) + unat (tm_fk_len m) \<le> length (all_infos B)" using rel by (simp add: table_rel_def)
    then show ?thesis
      using ready_table [OF rd st(4) [OF k(1)]] lenc pools(1)
      by (simp add: table_wf_def table_rel_fields [OF rel] range_ok_def)
  qed
  moreover have "column_wf S c \<and> col_name c = col_name (sb_columns B ! j)"
    if j: "j < n_cols B" "c = ds_columns S ! j" for c j
  proof -
    have rel: "column_rel (all_infos B) (sb_columns B ! j) c" using list_all2_nthD [OF cols j(1)] j(2) by simp
    have "col_range_ok B (sb_columns B ! j)" using rd j(1) by (simp add: ready_def finished_ok_def)
    moreover have "unat (pr_start (col_foreign_keys c)) + unat (pr_len (col_foreign_keys c)) \<le> length (all_infos B)"
      using rel by (simp add: column_rel_def Let_def)
    ultimately show ?thesis using pools
      by (simp add: column_wf_def column_rel_fields [OF rel] col_range_ok_def)
  qed
  then have "(\<forall>c \<in> set (ds_columns S). column_wf S c) \<and> ds_column_names S = map col_name (ds_columns S)"
    using lenc so(1) rd
    by (auto simp: schema_of_def ready_def finished_ok_def in_set_conv_nth intro: nth_equalityI)
  ultimately show ?thesis
    using schema_of_by_name [OF rd so] schema_of_fk_wf [OF rd so] rd st(1) by (simp add: schema_wf_def ready_def)
qed

lemma schema_of_ordered:
  assumes rd: "ready B" and so: "schema_of B order hash S" "order_ok B order"
    and ac: "acyclic {(u, v). depends B u v}" and ref: "references S i j"
  shows "j < i"
proof -
  let ?n = "length (sb_tables B)"
  note st = schema_of_tables [OF so]
  have i: "i < ?n" "i \<noteq> j" using ref st(1) by (simp_all add: references_def)
  obtain p ref c where x: "(p, order ! i, ref, c) \<in> set (all_infos B)" "unat (index_of_tables order ?n ! ref) = j"
  proof -
    obtain fk where "fk \<in> set (fks_of S i)" "unat (fk_table fk) = j" using ref unfolding references_def by blast
    then show thesis using that unfolding schema_of_fks [OF rd so i(1)] by (auto simp: new_fk_def)
  qed
  have "ref < ?n" using all_infos_ok(3) [OF rd x(1)] by simp
  then have k: "j < ?n" "order ! j = ref" using new_index [OF rd so(2), of ref] x(2) by auto
  have "distinct order" using so(2) by (simp add: order_ok_def)
  then have "ref \<noteq> order ! i" using nth_eq_iff_index_eq [of order j i] k i st(2) by metis
  then have "depends B ref (order ! i)" using x(1) depends_infos [OF rd] by blast
  then have "order ! j \<in> set (take i order)" using so(2) ac i(1) st(2) k(2) by (simp add: order_ok_def)
  then obtain l where "l < i" "order ! l = order ! j" using i(1) st(2) by (auto simp: in_set_conv_nth)
  then show ?thesis using so(2) i(1) k(1) st(2) by (simp add: order_ok_def nth_eq_iff_index_eq)
qed

text \<open>Selections of two related lists, the first through a partial function.\<close>

lemma list_all2_filters:
  assumes "list_all2 R us ps"
    and "\<And>u p. R u p \<Longrightarrow> case g u of None \<Rightarrow> \<not> T p | Some x \<Rightarrow> if s x then T p \<and> Q x p else \<not> T p"
  shows "list_all2 Q (filter s (List.map_filter g us)) (filter T ps)"
  using assms(1)
proof (induction rule: list_all2_induct)
  case (Cons u us p ps)
  then show ?case using assms(2) [OF Cons(1)]
    by (cases "g u") (simp_all add: List.map_filter_def split: if_splits)
qed (simp add: List.map_filter_def)

end
