(* ===== verification/Schema_Codec.thy ===== *)
theory Schema_Codec
  imports Schema_Wf Storage_Props
begin

unbundle bit_operations_syntax

text \<open>
  The byte format of \<open>core/schema.rs\<close>: \<open>encode\<close>, \<open>decode\<close> and
  \<open>decode_unchecked\<close>.  A reader consumes the front of the remaining bytes; the position
  \<open>ptr\<close> of the source is the number of bytes consumed so far.  The contract between a writer
  and its reader is the locale \<open>codec\<close>, interpreted for every item of the format.
\<close>

section \<open>Outcomes of decoding\<close>

text \<open>
  \<open>Malformed\<close> is \<open>None\<close> (for \<open>decode_unchecked\<close>: undefined behaviour);
  \<open>DecodePanic\<close> a panic; \<open>Diverges\<close> a call that does not return.
\<close>

datatype 'a decoded = Decoded 'a | Malformed | DecodePanic panic | Diverges

definition dbind :: "'a decoded \<Rightarrow> ('a \<Rightarrow> 'b decoded) \<Rightarrow> 'b decoded" where
  "dbind r f = (case r of Decoded x \<Rightarrow> f x | Malformed \<Rightarrow> Malformed | DecodePanic p \<Rightarrow> DecodePanic p
     | Diverges \<Rightarrow> Diverges)"

lemma dbind_simps [simp]:
  "dbind (Decoded x) f = f x" "dbind Malformed f = Malformed" "dbind (DecodePanic p) f = DecodePanic p"
  "dbind Diverges f = Diverges"
  by (simp_all add: dbind_def)

type_synonym 'a reader = "u8 list \<Rightarrow> ('a \<times> u8 list) decoded"

section \<open>Items\<close>

definition read_bytes :: "nat \<Rightarrow> u8 list reader" where
  "read_bytes n bs = (if n > length bs then Malformed else Decoded (take n bs, drop n bs))"

definition read_u32 :: "u32 reader" where
  "read_u32 bs = dbind (read_bytes 4 bs) (\<lambda>(x, bs). Decoded (of_le32 x, bs))"

definition read_u16 :: "u16 reader" where
  "read_u16 bs = dbind (read_bytes 2 bs) (\<lambda>(x, bs). Decoded (of_le16 x, bs))"

definition read_u8 :: "u8 reader" where
  "read_u8 bs = dbind (read_bytes 1 bs) (\<lambda>(x, bs). Decoded (x ! 0, bs))"

definition read_sym :: "symbol reader" where
  "read_sym bs = dbind (read_u32 bs) (\<lambda>(raw, bs).
     case from_raw raw of None \<Rightarrow> Malformed | Some y \<Rightarrow> Decoded (y, bs))"

definition read_sym_opt :: "symbol option reader" where
  "read_sym_opt bs = dbind (read_u32 bs) (\<lambda>(raw, bs).
     Decoded (if raw = 0 then None else from_raw raw, bs))"

definition write_sym :: "symbol \<Rightarrow> u8 list" where
  "write_sym y = le32 (into_raw y)"

definition write_sym_opt :: "symbol option \<Rightarrow> u8 list" where
  "write_sym_opt r = (case r of Some y \<Rightarrow> le32 (into_raw y) | None \<Rightarrow> le32 0)"

text \<open>The loops over the six sequences: a count, then the items.\<close>

fun read_n :: "nat \<Rightarrow> 'a reader \<Rightarrow> 'a list reader" where
  "read_n 0 rd bs = Decoded ([], bs)"
| "read_n (Suc n) rd bs =
     dbind (rd bs) (\<lambda>(x, bs). dbind (read_n n rd bs) (\<lambda>(xs, bs). Decoded (x # xs, bs)))"

definition read_vec :: "'a reader \<Rightarrow> 'a list reader" where
  "read_vec rd bs = dbind (read_u32 bs) (\<lambda>(n, bs). read_n (unat n) rd bs)"

definition write_vec :: "('a \<Rightarrow> u8 list) \<Rightarrow> 'a list \<Rightarrow> u8 list" where
  "write_vec wr xs = le32 (word_of_nat (length xs)) @ concat (map wr xs)"

section \<open>Records of the format\<close>

definition write_table :: "table_meta \<Rightarrow> u8 list" where
  "write_table t =
     write_sym (tm_name t) @ le32 (tm_columns_start t) @ le16 (tm_columns_len t)
     @ le16 (case tm_primary_key t of Some i \<Rightarrow> i | None \<Rightarrow> 0xFFFF)
     @ le32 (tm_fk_start t) @ le16 (tm_fk_len t)"

definition read_table :: "table_meta reader" where
  "read_table bs =
     dbind (read_sym bs) (\<lambda>(name, bs).
     dbind (read_u32 bs) (\<lambda>(cs, bs).
     dbind (read_u16 bs) (\<lambda>(cl, bs).
     dbind (read_u16 bs) (\<lambda>(pk, bs).
     dbind (read_u32 bs) (\<lambda>(fs, bs).
     dbind (read_u16 bs) (\<lambda>(fl, bs).
     Decoded (\<lparr>tm_name = name, tm_columns_start = cs, tm_columns_len = cl,
        tm_primary_key = (if pk = 0xFFFF then None else Some pk), tm_fk_start = fs, tm_fk_len = fl\<rparr>, bs)))))))"

definition write_value_type :: "value_type \<Rightarrow> u8 list" where
  "write_value_type t = [value_type_to_u8 t] @ (case t of VCustom y \<Rightarrow> write_sym y | _ \<Rightarrow> [])"

definition read_value_type :: "value_type reader" where
  "read_value_type bs =
     dbind (read_u8 bs) (\<lambda>(tag, bs).
     if tag = 0 then Decoded (VNull, bs)
     else if tag = 1 then Decoded (VBool, bs)
     else if tag = 2 then Decoded (VInt, bs)
     else if tag = 3 then Decoded (VFloat, bs)
     else if tag = 4 then Decoded (VDecimal, bs)
     else if tag = 5 then Decoded (VText, bs)
     else if tag = 6 then Decoded (VBlob, bs)
     else if tag = 7 then Decoded (VJson, bs)
     else if tag = 8 then Decoded (VUuid, bs)
     else if tag = 9 then Decoded (VTimestamp, bs)
     else if tag = 10 then Decoded (VTimestampTz, bs)
     else if tag = 11 then Decoded (VDate, bs)
     else if tag = 12 then Decoded (VTime, bs)
     else if tag = 13 then Decoded (VTimeTz, bs)
     else if tag = 14 then dbind (read_sym bs) (\<lambda>(y, bs). Decoded (VCustom y, bs))
     else if tag = 15 then Decoded (VBoolArray, bs)
     else if tag = 16 then Decoded (VIntArray, bs)
     else if tag = 17 then Decoded (VFloatArray, bs)
     else if tag = 18 then Decoded (VDecimalArray, bs)
     else if tag = 19 then Decoded (VTextArray, bs)
     else Malformed)"

definition write_range :: "pool_range \<Rightarrow> u8 list" where
  "write_range r = le32 (pr_start r) @ le16 (pr_len r)"

definition read_range :: "pool_range reader" where
  "read_range bs =
     dbind (read_u32 bs) (\<lambda>(start, bs).
     dbind (read_u16 bs) (\<lambda>(len, bs). Decoded (\<lparr>pr_start = start, pr_len = len\<rparr>, bs)))"

definition write_column :: "column \<Rightarrow> u8 list" where
  "write_column c =
     write_sym (col_name c) @ write_value_type (col_data_type c) @ write_sym_opt (col_default_value c)
     @ [col_flags c] @ write_range (col_constraints c) @ write_range (col_foreign_keys c)"

definition read_column :: "column reader" where
  "read_column bs =
     dbind (read_sym bs) (\<lambda>(name, bs).
     dbind (read_value_type bs) (\<lambda>(ty, bs).
     dbind (read_sym_opt bs) (\<lambda>(def, bs).
     dbind (read_u8 bs) (\<lambda>(flags, bs).
     dbind (read_range bs) (\<lambda>(cons, bs).
     dbind (read_range bs) (\<lambda>(fks, bs).
     Decoded (\<lparr>col_name = name, col_data_type = ty, col_default_value = def, col_flags = flags,
        col_constraints = cons, col_foreign_keys = fks\<rparr>, bs)))))))"

definition write_fk :: "foreign_key \<Rightarrow> u8 list" where
  "write_fk fk =
     write_sym (fk_constraint_name fk) @ write_sym (fk_namespace fk) @ le16 (fk_table fk)
     @ le16 (fk_column fk) @ [action_to_u8 (fk_on_update fk)] @ [action_to_u8 (fk_on_delete fk)]"

definition read_action :: "action reader" where
  "read_action bs = dbind (read_u8 bs) (\<lambda>(b, bs).
     case action_of_u8 b of Inl p \<Rightarrow> DecodePanic p | Inr a \<Rightarrow> Decoded (a, bs))"

definition read_fk :: "foreign_key reader" where
  "read_fk bs =
     dbind (read_sym bs) (\<lambda>(name, bs).
     dbind (read_sym bs) (\<lambda>(ns, bs).
     dbind (read_u16 bs) (\<lambda>(t, bs).
     dbind (read_u16 bs) (\<lambda>(c, bs).
     dbind (read_action bs) (\<lambda>(upd, bs).
     dbind (read_action bs) (\<lambda>(del, bs).
     Decoded (\<lparr>fk_constraint_name = name, fk_namespace = ns, fk_table = t, fk_column = c,
        fk_on_update = upd, fk_on_delete = del\<rparr>, bs)))))))"

section \<open>The schema\<close>

definition encode :: "'t database_schema \<Rightarrow> u8 list" where
  "encode S =
     ds_hash S
     @ le32 (word_of_nat (length (interner_bytes (ds_interner S)))) @ interner_bytes (ds_interner S)
     @ write_vec write_table (ds_tables S)
     @ write_vec le16 (ds_by_name S)
     @ write_vec write_column (ds_columns S)
     @ write_vec write_sym (ds_column_names S)
     @ write_vec write_sym (ds_constraint_pool S)
     @ write_vec write_fk (ds_foreign_key_pool S)"

text \<open>
  The two decoders differ in the interner's constructor; \<open>next_id\<close> is the counter of
  interners, returned advanced.  Trailing bytes are ignored.
\<close>

definition lift_interner :: "('t interner res \<times> u32) option \<Rightarrow> ('t interner \<times> u32) decoded" where
  "lift_interner r = (case r of
       None \<Rightarrow> Diverges
     | Some (Inl p, _) \<Rightarrow> DecodePanic p
     | Some (Inr I, nid) \<Rightarrow> Decoded (I, nid))"

definition decode_with ::
  "(u8 list \<Rightarrow> ('t interner res \<times> u32) option) \<Rightarrow> u8 list \<Rightarrow> ('t database_schema \<times> u32) decoded" where
  "decode_with mk_interner bs =
     dbind (read_bytes 32 bs) (\<lambda>(hash, bs).
     dbind (read_u32 bs) (\<lambda>(interner_len, bs).
     dbind (read_bytes (unat interner_len) bs) (\<lambda>(ib, bs).
     dbind (lift_interner (mk_interner ib)) (\<lambda>(I, nid).
     dbind (read_vec read_table bs) (\<lambda>(ts, bs).
     dbind (read_vec read_u16 bs) (\<lambda>(byn, bs).
     dbind (read_vec read_column bs) (\<lambda>(cols, bs).
     dbind (read_vec read_sym bs) (\<lambda>(names, bs).
     dbind (read_vec read_sym bs) (\<lambda>(pool, bs).
     dbind (read_vec read_fk bs) (\<lambda>(fks, bs).
     Decoded (\<lparr>ds_tables = ts, ds_by_name = byn, ds_columns = cols, ds_column_names = names,
        ds_constraint_pool = pool, ds_foreign_key_pool = fks, ds_hash = hash, ds_interner = I\<rparr>, nid)))))))))))"

definition decode :: "'t deps \<Rightarrow> u32 \<Rightarrow> u8 list \<Rightarrow> ('t database_schema \<times> u32) decoded" where
  "decode D next_id bs = decode_with (from_bytes D next_id) bs"

definition decode_unchecked :: "'t deps \<Rightarrow> u32 \<Rightarrow> u8 list \<Rightarrow> ('t database_schema \<times> u32) decoded" where
  "decode_unchecked D next_id bs = decode_with (from_bytes_unchecked D next_id) bs"

section \<open>The contract of a writer and its reader\<close>

locale codec =
  fixes ok :: "'a \<Rightarrow> bool" and wr :: "'a \<Rightarrow> u8 list" and rd :: "'a reader"
  assumes rd_wr: "ok x \<Longrightarrow> rd (wr x @ rest) = Decoded (x, rest)"
begin

lemma rd_wr_end: "ok x \<Longrightarrow> rd (wr x) = Decoded (x, [])"
  using rd_wr [of x "[]"] by simp

lemma read_n_many:
  "list_all ok xs \<Longrightarrow> read_n (length xs) rd (concat (map wr xs) @ rest) = Decoded (xs, rest)"
  by (induction xs) (simp_all add: rd_wr)

text \<open>No two valid items have the same image, even with other bytes behind them.\<close>

lemma wr_inj: "ok x \<Longrightarrow> ok y \<Longrightarrow> wr x @ r = wr y @ s \<Longrightarrow> x = y \<and> r = s"
  by (metis rd_wr decoded.inject(1) prod.inject)

end

interpretation u32_codec: codec "\<lambda>_. True" le32 read_u32
  by unfold_locales (simp add: read_u32_def read_bytes_def)

interpretation u16_codec: codec "\<lambda>_. True" le16 read_u16
  by unfold_locales (simp add: read_u16_def read_bytes_def)

interpretation u8_codec: codec "\<lambda>_. True" "\<lambda>b. [b]" read_u8
  by unfold_locales (simp add: read_u8_def read_bytes_def)

lemmas int_codecs [simp] = u32_codec.rd_wr [OF TrueI] u16_codec.rd_wr [OF TrueI]
  u8_codec.rd_wr [OF TrueI, simplified]

context codec
begin

text \<open>A vector of items.\<close>

lemma read_vec_write_vec:
  assumes "list_all ok xs" "length xs < 2 ^ 32"
  shows "read_vec rd (write_vec wr xs @ rest) = Decoded (xs, rest)"
  using read_n_many [OF assms(1)] assms(2)
  by (simp add: read_vec_def write_vec_def unat_of_nat)

end

section \<open>Codecs of the items\<close>

definition sym_ok :: "symbol \<Rightarrow> bool" where
  "sym_ok y \<longleftrightarrow> into_raw y \<noteq> 0"

interpretation sym_codec: codec sym_ok write_sym read_sym
  by unfold_locales (simp add: read_sym_def write_sym_def sym_ok_def from_raw_def)

interpretation sym_opt_codec: codec "\<lambda>r. \<forall>y. r = Some y \<longrightarrow> sym_ok y" write_sym_opt read_sym_opt
  by unfold_locales
    (auto simp: read_sym_opt_def write_sym_opt_def sym_ok_def from_raw_def split: option.splits)

definition table_ok :: "table_meta \<Rightarrow> bool" where
  "table_ok t \<longleftrightarrow> sym_ok (tm_name t) \<and> tm_primary_key t \<noteq> Some 0xFFFF"

interpretation table_codec: codec table_ok write_table read_table
  by unfold_locales
    (auto simp: read_table_def write_table_def table_ok_def sym_codec.rd_wr split: option.splits)

definition type_ok :: "value_type \<Rightarrow> bool" where
  "type_ok t \<longleftrightarrow> (\<forall>y. t = VCustom y \<longrightarrow> sym_ok y)"

interpretation type_codec: codec type_ok write_value_type read_value_type
proof
  fix t rest
  assume "type_ok t"
  then show "read_value_type (write_value_type t @ rest) = Decoded (t, rest)"
    by (cases t) (simp_all add: read_value_type_def write_value_type_def type_ok_def sym_codec.rd_wr)
qed

interpretation range_codec: codec "\<lambda>_. True" write_range read_range
  by unfold_locales (simp add: read_range_def write_range_def)

definition column_ok :: "column \<Rightarrow> bool" where
  "column_ok c \<longleftrightarrow> sym_ok (col_name c) \<and> type_ok (col_data_type c) \<and>
     (\<forall>y. col_default_value c = Some y \<longrightarrow> sym_ok y)"

interpretation column_codec: codec column_ok write_column read_column
  by unfold_locales
    (simp add: read_column_def write_column_def column_ok_def sym_codec.rd_wr sym_opt_codec.rd_wr
      type_codec.rd_wr range_codec.rd_wr)

interpretation action_codec: codec "\<lambda>_. True" "\<lambda>a. [action_to_u8 a]" read_action
proof
  fix a rest
  show "read_action ([action_to_u8 a] @ rest) = Decoded (a, rest)"
    by (cases a) (simp_all add: read_action_def action_of_u8_def)
qed

lemmas action_rd_wr = action_codec.rd_wr [OF TrueI, simplified]

definition fk_ok :: "foreign_key \<Rightarrow> bool" where
  "fk_ok fk \<longleftrightarrow> sym_ok (fk_constraint_name fk) \<and> sym_ok (fk_namespace fk)"

interpretation fk_codec: codec fk_ok write_fk read_fk
  by unfold_locales (simp add: read_fk_def write_fk_def fk_ok_def sym_codec.rd_wr action_rd_wr)

section \<open>Round trip\<close>

definition encodable :: "'t database_schema \<Rightarrow> bool" where
  "encodable S \<longleftrightarrow> length (ds_hash S) = 32 \<and>
     list_all table_ok (ds_tables S) \<and> length (ds_tables S) < 2 ^ 32 \<and> length (ds_by_name S) < 2 ^ 32 \<and>
     list_all column_ok (ds_columns S) \<and> length (ds_columns S) < 2 ^ 32 \<and>
     list_all sym_ok (ds_column_names S) \<and> length (ds_column_names S) < 2 ^ 32 \<and>
     list_all sym_ok (ds_constraint_pool S) \<and> length (ds_constraint_pool S) < 2 ^ 32 \<and>
     list_all fk_ok (ds_foreign_key_pool S) \<and> length (ds_foreign_key_pool S) < 2 ^ 32"

lemmas vec_codecs = table_codec.read_vec_write_vec u16_codec.read_vec_write_vec
  column_codec.read_vec_write_vec sym_codec.read_vec_write_vec fk_codec.read_vec_write_vec

lemma decode_with_encode:
  assumes enc: "encodable S" and len: "length (interner_bytes (ds_interner S)) < 2 ^ 32"
    and mk: "mk (interner_bytes (ds_interner S)) = Some (Inr J, nid)"
  shows "decode_with mk (encode S) = Decoded (S\<lparr>ds_interner := J\<rparr>, nid)"
proof -
  let ?ib = "interner_bytes (ds_interner S)"
  have vec16: "list_all (\<lambda>_. True) (ds_by_name S)" by (simp add: list_all_iff)
  have b32: "read_bytes 32 (ds_hash S @ r) = Decoded (ds_hash S, r)" for r
    using enc by (simp add: read_bytes_def encodable_def)
  have bib: "read_bytes (length ?ib) (?ib @ r) = Decoded (?ib, r)" for r
    by (simp add: read_bytes_def)
  have fk: "read_vec read_fk (write_vec write_fk (ds_foreign_key_pool S)) = Decoded (ds_foreign_key_pool S, [])"
    using fk_codec.read_vec_write_vec [of "ds_foreign_key_pool S" "[]"] enc by (simp add: encodable_def)
  show ?thesis
    using enc len mk vec16
    by (simp add: decode_with_def encode_def b32 bib unat_of_nat vec_codecs fk lift_interner_def encodable_def)
qed

lemma total_size_concat: "total_size (concat sss) = sum_list (map total_size sss)"
  by (induction sss) (simp_all add: total_size_def)

lemma bytes_bounded:
  assumes rep: "interner_rep D I sss"
  shows "length (interner_bytes I) \<le> unat (capacity (ipool I))"
proof -
  let ?P = "ipool I"
  obtain imgs where imgs: "interner_bytes I = le32 (word_of_nat (length sss)) @ concat imgs"
      "list_all2 is_img imgs (concat sss)"
    using bytes_of_rep [OF rep] by blast
  have pool: "pool_inv ?P" "length (cursors ?P) = length sss" using rep by (simp_all add: interner_rep_def)
  have "x \<le> unat (region_size ?P)" if "x \<in> set (map total_size sss)" for x
  proof -
    from that obtain ss where "ss \<in> set sss" "x = total_size ss" by auto
    then obtain s where s: "s < length sss" "x = total_size (sss ! s)" by (metis in_set_conv_nth)
    then show ?thesis
      using shard_repD(1) [OF rep s(1)] pool_inv_cursor [OF pool(1), of s] pool(2) by (simp add: shard_rep_def)
  qed
  then have "sum_list (map total_size sss) \<le> length sss * unat (region_size ?P)"
    using sum_list_mono [of sss total_size "\<lambda>_. unat (region_size ?P)"]
    by (simp add: sum_list_triv)
  moreover have "4 + length sss * unat (region_size ?P) \<le> unat (capacity ?P)"
    using pool by (simp add: pool_inv_def)
  ultimately show ?thesis using length_imgs [OF imgs(2)] imgs(1) by (simp add: total_size_concat)
qed

section \<open>Truncated input\<close>

text \<open>
  A reader that refuses every proper prefix of an image.  Such readers compose: reading a
  truncated sequence of images stops at the item that was cut.
\<close>

locale strict_codec = codec +
  assumes rd_short: "ok x \<Longrightarrow> k < length (wr x) \<Longrightarrow> rd (take k (wr x)) = Malformed"
begin

lemma rd_take:
  assumes "ok x"
  shows "rd (take k (wr x @ rest)) =
    (if k < length (wr x) then Malformed else Decoded (x, take (k - length (wr x)) rest))"
  using rd_short [OF assms, of k] rd_wr [OF assms, of "take (k - length (wr x)) rest"] by simp

lemma read_n_take:
  "list_all ok xs \<Longrightarrow> read_n (length xs) rd (take k (concat (map wr xs) @ rest)) =
     (if k < length (concat (map wr xs)) then Malformed
      else Decoded (xs, take (k - length (concat (map wr xs))) rest))"
proof (induction xs arbitrary: k)
  case (Cons x xs)
  have "take k (concat (map wr (x # xs)) @ rest) = take k (wr x @ concat (map wr xs) @ rest)" by simp
  moreover have "ok x" "list_all ok xs" using Cons.prems by simp_all
  ultimately show ?case
    using rd_take [of x k "concat (map wr xs) @ rest"] Cons.IH [of "k - length (wr x)"]
    by (simp del: take_append) auto
qed simp

end

interpretation u32_strict: strict_codec "\<lambda>_. True" le32 read_u32
  by unfold_locales (simp add: read_u32_def read_bytes_def)

interpretation u16_strict: strict_codec "\<lambda>_. True" le16 read_u16
  by unfold_locales (simp add: read_u16_def read_bytes_def)

interpretation u8_strict: strict_codec "\<lambda>_. True" "\<lambda>b. [b]" read_u8
  by unfold_locales (simp add: read_u8_def read_bytes_def)

context strict_codec
begin

lemma read_vec_take:
  assumes "list_all ok xs" "length xs < 2 ^ 32"
  shows "read_vec rd (take k (write_vec wr xs @ rest)) =
    (if k < length (write_vec wr xs) then Malformed
     else Decoded (xs, take (k - length (write_vec wr xs)) rest))"
proof -
  have "take k (write_vec wr xs @ rest) = take k (le32 (word_of_nat (length xs)) @ concat (map wr xs) @ rest)"
    by (simp add: write_vec_def)
  then show ?thesis
    using u32_strict.rd_take [OF TrueI, of k "word_of_nat (length xs)" "concat (map wr xs) @ rest"]
      read_n_take [OF assms(1), of "k - 4" rest] assms(2)
    by (simp add: read_vec_def write_vec_def unat_of_nat del: take_append) auto
qed

end

interpretation sym_strict: strict_codec sym_ok write_sym read_sym
  by unfold_locales (use u32_strict.rd_short in \<open>auto simp: read_sym_def write_sym_def\<close>)

interpretation sym_opt_strict: strict_codec "\<lambda>r. \<forall>y. r = Some y \<longrightarrow> sym_ok y" write_sym_opt read_sym_opt
  by unfold_locales
    (use u32_strict.rd_short in \<open>auto simp: read_sym_opt_def write_sym_opt_def split: option.splits\<close>)

lemmas int_take = u32_strict.rd_take [OF TrueI] u16_strict.rd_take [OF TrueI] u8_strict.rd_take [OF TrueI]
  u32_strict.rd_short [OF TrueI] u16_strict.rd_short [OF TrueI] u8_strict.rd_short [OF TrueI]

interpretation table_strict: strict_codec table_ok write_table read_table
  by unfold_locales
    (auto simp: read_table_def write_table_def table_ok_def int_take sym_strict.rd_take simp del: take_append)

interpretation type_strict: strict_codec type_ok write_value_type read_value_type
proof
  fix t k
  assume "type_ok t" "k < length (write_value_type t)"
  then show "read_value_type (take k (write_value_type t)) = Malformed"
    using u8_strict.rd_take [OF TrueI, of k] sym_strict.rd_short
    by (cases t) (auto simp: read_value_type_def write_value_type_def type_ok_def int_take less_Suc_eq_0_disj)
qed

interpretation range_strict: strict_codec "\<lambda>_. True" write_range read_range
  by unfold_locales (auto simp: read_range_def write_range_def int_take simp del: take_append)

interpretation column_strict: strict_codec column_ok write_column read_column
  by unfold_locales
    (auto simp: read_column_def write_column_def column_ok_def int_take sym_strict.rd_take
      sym_opt_strict.rd_take type_strict.rd_take range_strict.rd_take [OF TrueI]
      range_strict.rd_short [OF TrueI] simp del: take_append append_Cons)

interpretation action_strict: strict_codec "\<lambda>_. True" "\<lambda>a. [action_to_u8 a]" read_action
  by unfold_locales (simp add: read_action_def read_u8_def read_bytes_def)

lemma read_action_nil: "read_action [] = Malformed"
  by (simp add: read_action_def read_u8_def read_bytes_def)

interpretation fk_strict: strict_codec fk_ok write_fk read_fk
  by unfold_locales
    (auto simp: read_fk_def write_fk_def fk_ok_def int_take sym_strict.rd_take
      action_strict.rd_take [OF TrueI] action_strict.rd_short [OF TrueI]
      read_action_nil simp del: take_append append_Cons)

lemmas vec_takes = table_strict.read_vec_take u16_strict.read_vec_take
  column_strict.read_vec_take sym_strict.read_vec_take fk_strict.read_vec_take

lemma read_bytes_take:
  "n = length xs \<Longrightarrow> read_bytes n (take k (xs @ rest)) =
     (if k < length xs then Malformed else Decoded (xs, take (k - length xs) rest))"
  by (simp add: read_bytes_def)

lemma decode_with_truncated:
  assumes enc: "encodable S" and len: "length (interner_bytes (ds_interner S)) < 2 ^ 32"
    and mk: "mk (interner_bytes (ds_interner S)) = Some (Inr J, nid)" and k: "k < length (encode S)"
  shows "decode_with mk (take k (encode S)) = Malformed"
proof -
  let ?ib = "interner_bytes (ds_interner S)"
  have vec16: "list_all (\<lambda>_. True) (ds_by_name S)" by (simp add: list_all_iff)
  have fk: "read_vec read_fk (take j (write_vec write_fk (ds_foreign_key_pool S))) = Malformed"
    if "j < length (write_vec write_fk (ds_foreign_key_pool S))" for j
    using fk_strict.read_vec_take [of "ds_foreign_key_pool S" j "[]"] enc that by (simp add: encodable_def)
  show ?thesis
    using enc len mk vec16 k
    by (auto simp: decode_with_def encode_def read_bytes_take int_take unat_of_nat vec_takes fk
        lift_interner_def encodable_def simp del: take_append)
qed

section \<open>An invalid action\<close>

context codec
begin

lemma read_n_panic:
  "list_all ok xs \<Longrightarrow> rd rest = DecodePanic p \<Longrightarrow>
     read_n (Suc (length xs)) rd (concat (map wr xs) @ rest) = DecodePanic p"
  by (induction xs) (simp_all add: rd_wr)

end

lemma read_fk_bad_action:
  assumes "fk_ok fk" "b > 4"
  shows "read_fk (butlast (write_fk fk) @ [b]) = DecodePanic Unreachable"
proof -
  have "b \<noteq> 0 \<and> b \<noteq> 1 \<and> b \<noteq> 2 \<and> b \<noteq> 3 \<and> b \<noteq> 4" using assms(2) by auto
  then have "read_action [b] = DecodePanic Unreachable"
    by (simp add: read_action_def read_u8_def read_bytes_def action_of_u8_def)
  then show ?thesis
    using assms(1)
    by (simp add: read_fk_def write_fk_def butlast_append fk_ok_def sym_codec.rd_wr action_rd_wr)
qed

lemma decode_with_bad_action:
  assumes enc: "encodable S" and len: "length (interner_bytes (ds_interner S)) < 2 ^ 32"
    and mk: "mk (interner_bytes (ds_interner S)) = Some (Inr J, nid)"
    and fks: "ds_foreign_key_pool S \<noteq> []" and b: "b > 4"
  shows "decode_with mk (butlast (encode S) @ [b]) = DecodePanic Unreachable"
proof -
  let ?ib = "interner_bytes (ds_interner S)"
  obtain xs fk where x: "ds_foreign_key_pool S = xs @ [fk]" using fks by (metis rev_exhaust)
  have ok: "list_all fk_ok xs" "fk_ok fk" "length xs < 2 ^ 32 - 1" using enc x by (simp_all add: encodable_def)
  have ne: "write_fk fk \<noteq> []" by (simp add: write_fk_def)
  define tail where
    "tail = le32 (word_of_nat (Suc (length xs))) @ concat (map write_fk xs) @ butlast (write_fk fk) @ [b]"
  have u: "unat (word_of_nat (Suc (length xs)) :: u32) = Suc (length xs)"
    using ok(3) by (intro unat_word_of_nat_small) simp
  have fk: "read_vec read_fk tail = DecodePanic Unreachable"
    using fk_codec.read_n_panic [OF ok(1) read_fk_bad_action [OF ok(2) b]]
    by (simp only: tail_def read_vec_def int_codecs dbind_simps prod.case u)
  have wv: "write_vec write_fk (ds_foreign_key_pool S) =
      le32 (word_of_nat (Suc (length xs))) @ concat (map write_fk xs) @ write_fk fk"
    by (simp only: write_vec_def x) simp
  have "butlast (encode S) @ [b] =
      ds_hash S @ le32 (word_of_nat (length ?ib)) @ ?ib @ write_vec write_table (ds_tables S)
      @ write_vec le16 (ds_by_name S) @ write_vec write_column (ds_columns S)
      @ write_vec write_sym (ds_column_names S) @ write_vec write_sym (ds_constraint_pool S) @ tail"
    unfolding encode_def wv tail_def using ne by (simp add: butlast_append)
  moreover have "list_all (\<lambda>_. True) (ds_by_name S)" by (simp add: list_all_iff)
  moreover have "read_bytes 32 (ds_hash S @ r) = Decoded (ds_hash S, r)" for r
    using enc by (simp add: read_bytes_def encodable_def)
  moreover have "read_bytes (length ?ib) (?ib @ r) = Decoded (?ib, r)" for r by (simp add: read_bytes_def)
  ultimately show ?thesis
    using enc len mk
    by (simp add: decode_with_def unat_of_nat vec_codecs fk lift_interner_def encodable_def)
qed

end
