(* ===== verification/Schema_Props.thy ===== *)
theory Schema_Props
  imports Schema_Codec
begin

unbundle bit_operations_syntax

text \<open>
  Properties of the schema's lookups and of its byte format, each with a run on a small
  schema of two tables.
\<close>

section \<open>A small schema\<close>

text \<open>
  Table \<open>a\<close> with the column \<open>i\<close>, table \<open>b\<close> with the columns \<open>i\<close> and
  \<open>r\<close>; \<open>r\<close> references \<open>a.i\<close>.  All names are one-letter strings, whose symbols every
  interner knows.
\<close>

definition sym_a :: symbol where "sym_a = Symbol 0xFF000063"
definition sym_b :: symbol where "sym_b = Symbol 0xFF000064"
definition sym_i :: symbol where "sym_i = Symbol 0xFF00006B"
definition sym_r :: symbol where "sym_r = Symbol 0xFF000074"

definition plain_col :: "symbol \<Rightarrow> u8 \<Rightarrow> pool_range \<Rightarrow> column" where
  "plain_col y flags fks = \<lparr>col_name = y, col_data_type = VInt, col_default_value = None, col_flags = flags,
     col_constraints = \<lparr>pr_start = 0, pr_len = 0\<rparr>, col_foreign_keys = fks\<rparr>"

definition demo_S :: "(u64 \<times> entry) list database_schema" where
  "demo_S = \<lparr>
     ds_tables =
       [\<lparr>tm_name = sym_a, tm_columns_start = 0, tm_columns_len = 1, tm_primary_key = Some 0, tm_fk_start = 0, tm_fk_len = 0\<rparr>,
        \<lparr>tm_name = sym_b, tm_columns_start = 1, tm_columns_len = 2, tm_primary_key = Some 0, tm_fk_start = 0, tm_fk_len = 1\<rparr>],
     ds_by_name = [0, 1],
     ds_columns = [plain_col sym_i PRIMARY_KEY \<lparr>pr_start = 0, pr_len = 0\<rparr>,
       plain_col sym_i PRIMARY_KEY \<lparr>pr_start = 0, pr_len = 0\<rparr>, plain_col sym_r NULLABLE \<lparr>pr_start = 0, pr_len = 1\<rparr>],
     ds_column_names = [sym_i, sym_i, sym_r],
     ds_constraint_pool = [],
     ds_foreign_key_pool = [\<lparr>fk_constraint_name = sym_r, fk_namespace = sym_a, fk_table = 0, fk_column = 0,
       fk_on_update = NoAction, fk_on_delete = Cascade\<rparr>],
     ds_hash = replicate 32 0, ds_interner = fresh_I\<rparr>"

lemmas demo_syms = sym_a_def sym_b_def sym_i_def sym_r_def

lemma demo_S_wf: "schema_wf demo_S"
proof -
  have "{..<Suc (Suc 0)} = {0, 1::nat}" by auto
  then show ?thesis
    by (simp add: schema_wf_def demo_S_def by_name_wf_def table_wf_def column_wf_def fk_wf_def plain_col_def
        demo_syms less_eq_symbol_def)
qed

lemma demo_S_simps [simp]: "ds_interner demo_S = fresh_I" "length (ds_tables demo_S) = 2"
  by (simp_all add: demo_S_def)

lemma demo_S_encodable: "encodable demo_S"
  by (simp add: encodable_def demo_S_def table_ok_def column_ok_def fk_ok_def type_ok_def sym_ok_def
      plain_col_def demo_syms)

section \<open>Lookups\<close>

text \<open>
  C32: finding a table by name never panics on a well-formed schema, and finds table \<open>t\<close>
  exactly when \<open>t\<close> is a table of the schema whose name reads as the given string.  The thread's
  string cache may hold anything valid, provided no stored string can be confused with the name
  (\<open>cache_fits\<close>); \<open>Interner_Cache\<close> shows a lookup that goes wrong without this.
\<close>

theorem table_of_correct:
  assumes "hashbrown_ok D" "interner_rep D (ds_interner S) sss" "schema_wf S" "cache_fits D (ds_interner S) lc name"
  shows "\<exists>r lc'. table_of D S lc name = (Inr r, lc') \<and>
    (\<forall>t. r = Some t \<longleftrightarrow> unat t < length (ds_tables S) \<and> table_name S t = Inr name)"
proof -
  let ?I = "ds_interner S"
  have inv: "interner_inv (D, ?I)" using assms(1,2) by (auto simp: interner_inv_def)
  obtain lc' where get: "get_symbol D S lc name = (Inr (interner_lookup (D, ?I) name), lc')"
    using get_symbol_of_fits [OF assms(1,2,4)] interner_lookup_rep [OF assms(1,2)]
    by (cases "get_symbol D S lc name") (simp add: get_symbol_def)
  have res: "resolve ?I y = Inr (interner_resolve (D, ?I) y)" for y
    by (simp add: resolve_rep [OF assms(2)] interner_resolve_rep [OF assms(2)])
  have tn: "table_name S t = Inr name \<longleftrightarrow> interner_lookup (D, ?I) name = Some (tm_name (ds_tables S ! unat t))"
    if "unat t < length (ds_tables S)" for t
    using that tbl.lookup_iff_res [OF inv, of name "tm_name (ds_tables S ! unat t)"]
    by (cases "interner_resolve (D, ?I) (tm_name (ds_tables S ! unat t))")
      (auto simp: table_name_def table_meta_at_def res)
  show ?thesis
  proof (cases "interner_lookup (D, ?I) name")
    case None
    then show ?thesis using tn by (auto simp: table_of_def get)
  next
    case (Some y)
    obtain r where "table_by_symbol S y = Inr r"
        "\<forall>t. r = Some t \<longleftrightarrow> unat t < length (ds_tables S) \<and> tm_name (ds_tables S ! unat t) = y"
      using table_by_symbol_spec [OF assms(3)] by blast
    then show ?thesis using Some tn by (intro exI [of _ r] exI [of _ lc']) (auto simp: table_of_def get)
  qed
qed

text \<open>The small schema with an interner, and a thread's cache, that hold one more string.\<close>

theorem table_of_correct_witness:
  "\<exists>lc'. table_of demo_D (demo_S\<lparr>ds_interner := hello_I\<rparr>) hello_c (lit ''b'') = (Inr (Some 1), lc')"
proof -
  let ?S = "demo_S\<lparr>ds_interner := hello_I\<rparr>"
  have n: "table_name ?S 1 = Inr (lit ''b'')"
    by (simp add: table_name_def table_meta_at_def demo_S_def resolve_def demo_syms shard_id_def index_def
        STATIC_SHARD_ID_def INDEX_MASK_def ASCII_STRINGS_nth lit_def)
  have "value_ok (lit ''b'')" "no_cache_alias demo_D hello_s (lit ''b'')"
    by (auto simp: value_ok_def no_cache_alias_def lit_def utf8_valid_ascii)
  then have fits: "cache_fits demo_D hello_I hello_c (lit ''b'')"
    using hello_I_rep hello_c_ok by (auto simp: cache_fits_def)
  have "\<exists>r lc'. table_of demo_D ?S hello_c (lit ''b'') = (Inr r, lc') \<and> (\<forall>t. r = Some t \<longleftrightarrow>
      unat t < length (ds_tables ?S) \<and> table_name ?S t = Inr (lit ''b''))"
    by (rule table_of_correct [OF demo_D_ok, of _ hello_s])
      (use hello_I_rep fits demo_S_wf in \<open>simp_all add: schema_wf_def by_name_wf_def table_wf_def column_wf_def fk_wf_def\<close>)
  moreover have "unat (1 :: u16) < length (ds_tables ?S)" by simp
  ultimately show ?thesis using n by metis
qed

text \<open>
  On a well-formed schema a column is found by symbol exactly among the columns of its
  table: the answer is a column of the table with that name, and there is an answer whenever
  the table has such a column.  A table's primary key, when it has one, is one of its columns.
\<close>

theorem column_by_symbol_correct:
  assumes "schema_wf S" "unat t < length (ds_tables S)"
  shows "\<exists>cs r p. table_columns S t = Inr cs \<and> column_by_symbol S t y = Inr r \<and> primary_key S t = Inr p \<and>
    (case r of Some c \<Rightarrow> c \<in> set cs \<and> col_name (ds_columns S ! c) = y
     | None \<Rightarrow> \<forall>c \<in> set cs. col_name (ds_columns S ! c) \<noteq> y) \<and>
    (\<forall>c. p = Some c \<longrightarrow> c \<in> set cs)"
proof -
  let ?m = "ds_tables S ! unat t"
  let ?cs = "[unat (tm_columns_start ?m)..<unat (tm_columns_start ?m) + unat (tm_columns_len ?m)]"
  obtain p where p: "primary_key S t = Inr p" "\<forall>c. p = Some c \<longrightarrow> c \<in> set ?cs"
    using schema_wf_table [OF assms] assms(2) columns_of_table(1) [OF assms]
    by (cases "tm_primary_key ?m") (auto simp: primary_key_def table_meta_at_def table_wf_def)
  obtain r where r: "column_by_symbol S t y = Inr r"
      "case r of Some c \<Rightarrow> c \<in> set ?cs \<and> col_name (ds_columns S ! c) = y
       | None \<Rightarrow> \<forall>c \<in> set ?cs. col_name (ds_columns S ! c) \<noteq> y"
    using column_by_symbol_spec(2) [OF assms] by blast
  show ?thesis
    using p r column_by_symbol_spec(1) [OF assms]
    by (intro exI [of _ ?cs] exI [of _ r] exI [of _ p]) blast
qed

theorem column_by_symbol_correct_witness:
  "\<exists>cs r. table_columns demo_S 1 = Inr cs \<and> column_by_symbol demo_S 1 sym_r = Inr r"
proof -
  have "unat (1 :: u16) < length (ds_tables demo_S)" by simp
  from column_by_symbol_correct [OF demo_S_wf this, of sym_r] show ?thesis by blast
qed

text \<open>
  C33: on a well-formed schema \<open>independent_tables\<close> are the tables without a foreign key to
  another table, and \<open>leaf_tables\<close> the tables no other table has a foreign key to, both in
  index order; neither panics.
\<close>

theorem table_classes:
  assumes "schema_wf S"
  shows "independent_tables S = Inr (filter (\<lambda>t. \<forall>j. \<not> references S (unat t) j) (tables S)) \<and>
    leaf_tables S = Inr (filter (\<lambda>t. \<forall>i. \<not> references S i (unat t)) (tables S))"
  by (simp add: independent_tables_spec [OF assms] leaf_tables_spec [OF assms])

theorem table_classes_witness:
  "leaf_tables demo_S = Inr (filter (\<lambda>t. \<forall>i. \<not> references demo_S i (unat t)) (tables demo_S)) \<and>
    independent_tables demo_S = Inr [0]"
proof -
  have "references demo_S 1 0" by (auto simp: references_def fks_of_def demo_S_def sub_slice_def)
  moreover have "\<not> references demo_S 0 j" for j by (simp add: references_def fks_of_def demo_S_def sub_slice_def)
  moreover have "tables demo_S = [0, 1]" by (simp add: tables_def demo_S_def upt_rec)
  ultimately show ?thesis using table_classes [OF demo_S_wf] by auto
qed

section \<open>The byte format\<close>

text \<open>
  C2: decoding the image of a schema, with the checked or the unchecked decoder, gives the
  schema back: every array is equal, and the rebuilt interner resolves every symbol and looks
  up every string as the old one did.
\<close>

theorem encode_decode:
  assumes "hashbrown_ok D" "interner_rep D (ds_interner S) sss" "arena_sized (ipool (ds_interner S))"
    "next_id \<noteq> 0" "encodable S"
  shows "\<forall>dec \<in> {decode, decode_unchecked}.
    \<exists>J. dec D next_id (encode S) = Decoded (S\<lparr>ds_interner := J\<rparr>, next_id + 1) \<and>
      (\<forall>y. resolve_symbol (S\<lparr>ds_interner := J\<rparr>) y = resolve_symbol S y) \<and>
      (\<forall>v. fst (get_symbol D (S\<lparr>ds_interner := J\<rparr>) local_cache_new v) = fst (get_symbol D S local_cache_new v))"
proof -
  let ?I = "ds_interner S"
  have len: "length (interner_bytes ?I) < 2 ^ 32"
    using bytes_bounded [OF assms(2)] unat_u32_less [of "capacity (ipool ?I)"] by simp
  have "\<exists>J. decode_with (from_bytes_with accept D next_id) (encode S) = Decoded (S\<lparr>ds_interner := J\<rparr>, next_id + 1) \<and>
      (\<forall>y. resolve J y = resolve ?I y) \<and>
      (\<forall>v. fst (get_symbol_of D J local_cache_new v) = fst (get_symbol_of D ?I local_cache_new v))"
    if acc: "\<And>v. utf8_valid v \<Longrightarrow> accept v" for accept
  proof -
    obtain J where J: "from_bytes_with accept D next_id (interner_bytes ?I) = Some (Inr J, next_id + 1)"
        "interner_rep D J sss"
      using from_bytes_roundtrip [OF assms(1-4), of accept] acc by blast
    have "decode_with (from_bytes_with accept D next_id) (encode S) = Decoded (S\<lparr>ds_interner := J\<rparr>, next_id + 1)"
      using decode_with_encode [where mk = "from_bytes_with accept D next_id", OF assms(5) len J(1)] .
    then show ?thesis
      using J(2) by (intro exI [of _ J]) (simp add: resolve_rep [OF assms(2)] resolve_rep [OF J(2)]
          get_symbol_of_cold [OF assms(1,2)] get_symbol_of_cold [OF assms(1) J(2)])
  qed
  then show ?thesis
    unfolding decode_def [abs_def] decode_unchecked_def [abs_def] from_bytes_def from_bytes_unchecked_def
      resolve_symbol_def get_symbol_def by simp
qed

lemma fresh_sized: "arena_sized (ipool fresh_I)"
  using fresh_I_healthy by (simp add: pool_healthy_def)

theorem encode_decode_witness:
  "\<exists>J. decode demo_D 2 (encode demo_S) = Decoded (demo_S\<lparr>ds_interner := J\<rparr>, 3)"
proof -
  have "\<forall>dec \<in> {decode, decode_unchecked}.
      \<exists>J. dec demo_D 2 (encode demo_S) = Decoded (demo_S\<lparr>ds_interner := J\<rparr>, 2 + 1) \<and>
        (\<forall>y. resolve_symbol (demo_S\<lparr>ds_interner := J\<rparr>) y = resolve_symbol demo_S y) \<and>
        (\<forall>v. fst (get_symbol demo_D (demo_S\<lparr>ds_interner := J\<rparr>) local_cache_new v) =
          fst (get_symbol demo_D demo_S local_cache_new v))"
    by (rule encode_decode [OF demo_D_ok, of _ "replicate 16 []"])
      (use fresh_I_rep fresh_sized demo_S_encodable in simp_all)
  then show ?thesis by auto
qed

text \<open>
  C27: \<open>decode\<close> answers \<open>None\<close> on every proper prefix of an image; it neither panics nor
  returns a schema built from part of the data.
\<close>

theorem decode_truncated:
  assumes "hashbrown_ok D" "interner_rep D (ds_interner S) sss" "arena_sized (ipool (ds_interner S))"
    "next_id \<noteq> 0" "encodable S" "k < length (encode S)"
  shows "decode D next_id (take k (encode S)) = Malformed"
proof -
  let ?I = "ds_interner S"
  have len: "length (interner_bytes ?I) < 2 ^ 32"
    using bytes_bounded [OF assms(2)] unat_u32_less [of "capacity (ipool ?I)"] by simp
  obtain J where "from_bytes D next_id (interner_bytes ?I) = Some (Inr J, next_id + 1)"
    using from_bytes_roundtrip [OF assms(1-4), of utf8_valid] unfolding from_bytes_def by blast
  then show ?thesis
    unfolding decode_def using decode_with_truncated [OF assms(5) len _ assms(6)] by blast
qed

theorem decode_truncated_witness: "decode demo_D 2 (take 40 (encode demo_S)) = Malformed"
proof (rule decode_truncated [OF demo_D_ok, of _ "replicate 16 []"])
  show "40 < length (encode demo_S)"
    by (simp add: encode_def demo_S_def write_vec_def write_table_def write_sym_def)
qed (use fresh_I_rep fresh_sized demo_S_encodable in simp_all)

text \<open>
  C34: a foreign key action outside \<open>0..4\<close> makes \<open>decode\<close> panic instead of returning
  \<open>None\<close>: changing the last byte of an image with a foreign key, the \<open>on_delete\<close> action
  of the last key, to any value above 4 reaches \<open>unreachable!\<close>.
\<close>

theorem decode_bad_action:
  assumes "hashbrown_ok D" "interner_rep D (ds_interner S) sss" "arena_sized (ipool (ds_interner S))"
    "next_id \<noteq> 0" "encodable S" "ds_foreign_key_pool S \<noteq> []" "b > 4"
  shows "decode D next_id (butlast (encode S) @ [b]) = DecodePanic Unreachable"
proof -
  let ?I = "ds_interner S"
  have len: "length (interner_bytes ?I) < 2 ^ 32"
    using bytes_bounded [OF assms(2)] unat_u32_less [of "capacity (ipool ?I)"] by simp
  obtain J where "from_bytes D next_id (interner_bytes ?I) = Some (Inr J, next_id + 1)"
    using from_bytes_roundtrip [OF assms(1-4), of utf8_valid] unfolding from_bytes_def by blast
  then show ?thesis
    unfolding decode_def
    using decode_with_bad_action [OF assms(5) len, of "from_bytes D next_id"] assms(6,7) by blast
qed

theorem decode_bad_action_witness:
  "decode demo_D 2 (butlast (encode demo_S) @ [5]) = DecodePanic Unreachable"
  by (rule decode_bad_action [OF demo_D_ok, of _ "replicate 16 []"])
    (use fresh_I_rep fresh_sized demo_S_encodable in \<open>simp_all add: demo_S_def\<close>)

end
