(* ===== verification/Builder_Props.thy ===== *)
theory Builder_Props
  imports Builder_Correct Schema_Props
begin

unbundle bit_operations_syntax

text \<open>
  Properties of the schema builder, each with a run on three catalog rows: table \<open>b\<close> comes
  first and refers to table \<open>a\<close>, so that \<open>build\<close> has to reorder them.
\<close>

section \<open>Rows to run on\<close>

definition plain_row :: "str \<Rightarrow> str \<Rightarrow> bool \<Rightarrow> raw_foreign_key list \<Rightarrow> raw_row" where
  "plain_row t c pk fks = \<lparr>rr_table_name = t, rr_column_name = c, rr_data_type = lit ''int8'', rr_nullable = False,
     rr_is_primary = pk, rr_is_unique = False, rr_default_expr = None, rr_foreign_keys = fks, rr_check_defs = [],
     rr_domain_checks = []\<rparr>"

definition fk_row :: raw_foreign_key where
  "fk_row = \<lparr>rf_constraint_name = lit ''r'', rf_namespace = lit ''a'', rf_referenced_table = lit ''a'',
     rf_referenced_column = lit ''i'', rf_on_update = NoAction, rf_on_delete = Cascade\<rparr>"

definition demo_rows :: "raw_row list" where
  "demo_rows = [plain_row (lit ''b'') (lit ''i'') True [], plain_row (lit ''b'') (lit ''r'') False [fk_row],
     plain_row (lit ''a'') (lit ''i'') True []]"

definition empty_B :: "(u64 \<times> entry) list schema_builder" where
  "empty_B = \<lparr>sb_interner = fresh_I, sb_cache = local_cache_new, sb_tables = [], sb_columns = [],
     sb_column_names = [], sb_constraint_pool = [], sb_foreign_key_pool = [], sb_current_table = None,
     sb_cols_start = 0, sb_fk_start = 0, sb_pk = None, sb_unresolved = []\<rparr>"

definition demo_B :: "(u64 \<times> entry) list schema_builder" where
  "demo_B = empty_B\<lparr>
     sb_tables := [\<lparr>tm_name = sym_b, tm_columns_start = 0, tm_columns_len = 2, tm_primary_key = Some 0, tm_fk_start = 0,
       tm_fk_len = 1\<rparr>],
     sb_columns := [plain_col sym_i PRIMARY_KEY \<lparr>pr_start = 0, pr_len = 0\<rparr>, plain_col sym_r 0 \<lparr>pr_start = 0, pr_len = 1\<rparr>,
       plain_col sym_i PRIMARY_KEY \<lparr>pr_start = 1, pr_len = 0\<rparr>],
     sb_column_names := [sym_i, sym_r, sym_i],
     sb_foreign_key_pool := [\<lparr>fk_constraint_name = sym_r, fk_namespace = sym_a, fk_table = 0, fk_column = 0,
       fk_on_update = NoAction, fk_on_delete = Cascade\<rparr>],
     sb_current_table := Some sym_a, sb_cols_start := 2, sb_fk_start := 1, sb_pk := Some 0,
     sb_unresolved := [\<lparr>uf_pool_index = 0, uf_source_table_idx = 0, uf_ref_table_sym = sym_a, uf_ref_column_sym = sym_i\<rparr>]\<rparr>"

lemma intern_letter:
  "intern D B (lit ''a'') = Inr (sym_a, B)" "intern D B (lit ''b'') = Inr (sym_b, B)"
  "intern D B (lit ''i'') = Inr (sym_i, B)" "intern D B (lit ''r'') = Inr (sym_r, B)"
  by (simp_all add: intern_def get_or_intern_def static_symbol_def lit_def symbol_new_def demo_syms
      STATIC_SHARD_ID_def INDEX_MASK_def)

lemma int8_type: "builtin_type (lit ''int8'') = Some VInt"
  by (simp add: builtin_type_def lit_def)

lemma demo_rows_run: "fold_res (add_row D) demo_rows empty_B = Inr demo_B"
  by (simp add: demo_rows_def plain_row_def fk_row_def add_row_def intern_letter int8_type Let_def switch_table_def
      finish_table_def add_fk_def empty_B_def demo_B_def plain_col_def flags_set_def flags_with_def NULLABLE_def
      PRIMARY_KEY_def UNIQUE_def demo_syms)

lemma empty_B_start: "builder_with_capacity demo_D 1 local_cache_new 2 3 = Inr empty_B"
proof -
  have "with_capacity demo_D 1 5 = interner_new demo_D 1"
    by (simp add: with_capacity_def interner_new_def with_capacity_and_shards_def demo_D_def list_deps_def Let_def)
  then show ?thesis by (simp add: builder_with_capacity_def fresh_I_new empty_B_def)
qed

lemma demo_B_small: "builder_small demo_B"
  by (simp add: builder_small_def demo_B_def empty_B_def)

section \<open>Rows\<close>

text \<open>
  C19: any sequence of catalog rows that goes through leaves the builder in a consistent state,
  as long as its pools stay within the 16-bit lengths of the format: every finished table names
  a range of columns and of foreign keys inside the pools, exactly the foreign keys found in its
  rows, and its primary key is one of its columns.
\<close>

theorem add_rows_invariant:
  assumes "builder_with_capacity D next_id c tables_cap columns_cap = Inr B0"
    "fold_res (add_row D) rows B0 = Inr B" "builder_small B"
  shows "builder_inv B"
  using add_rows_ok [OF assms(2)] builder_inv_start [OF assms(1)] assms(3) by blast

theorem add_rows_invariant_witness: "builder_inv demo_B"
  by (rule add_rows_invariant [OF empty_B_start demo_rows_run demo_B_small])

section \<open>Building\<close>

lemma readyI:
  assumes "builder_inv B" "builder_small B" "length (sb_tables (finish_table B)) < 2 ^ 16"
    "distinct (map tm_name (sb_tables (finish_table B)))"
  shows "ready (finish_table B)"
  using finish_table_ok [OF assms(1,2)] assms(2-4) by (simp add: ready_def builder_small_def)

text \<open>
  C13: \<open>build\<close> does not panic on a consistent builder whose table names differ and whose
  tables can be numbered with 16 bits; the schema is well formed, and its tables are the tables of
  the builder, each with its columns and its primary key.
\<close>

theorem build_correct:
  assumes "builder_inv B" "builder_small B" "length (sb_tables (finish_table B)) < 2 ^ 16"
    "distinct (map tm_name (sb_tables (finish_table B)))"
  shows "\<exists>S. build B hash = Inr S \<and> schema_wf S \<and> ds_hash S = hash \<and> ds_column_names S = sb_column_names B \<and>
    (\<lambda>m. (tm_name m, tm_columns_start m, tm_columns_len m, tm_primary_key m)) ` set (ds_tables S) =
    (\<lambda>m. (tm_name m, tm_columns_start m, tm_columns_len m, tm_primary_key m)) ` set (sb_tables (finish_table B))"
proof -
  let ?B = "finish_table B" and ?f = "\<lambda>m. (tm_name m, tm_columns_start m, tm_columns_len m, tm_primary_key m)"
  have rd: "ready ?B" using assms by (rule readyI)
  obtain S order where S: "build B hash = Inr S" "order_ok ?B order" "schema_of ?B order hash S"
    using build_schema_of [OF rd] by blast
  note st = schema_of_tables [OF S(3,2)]
  have "?f (ds_tables S ! k) = ?f (sb_tables ?B ! (order ! k))" if "k < length (sb_tables ?B)" for k
    using table_rel_fields [OF st(3) [OF that]] by simp
  then have "map ?f (ds_tables S) = map (\<lambda>i. ?f (sb_tables ?B ! i)) order"
    using st(1,2) by (intro nth_equalityI) simp_all
  then have "?f ` set (ds_tables S) = (\<lambda>i. ?f (sb_tables ?B ! i)) ` {..<length (sb_tables ?B)}"
    using S(2) by (metis (no_types, lifting) order_ok_def list.set_map)
  also have "\<dots> = ?f ` set (sb_tables ?B)" by (force simp: set_conv_nth)
  finally show ?thesis
    using S schema_of_wf [OF rd S(3,2)] by (intro exI [of _ S]) (simp add: schema_of_def)
qed

lemma demo_B_ready:
  "builder_inv demo_B" "length (sb_tables (finish_table demo_B)) < 2 ^ 16"
  "distinct (map tm_name (sb_tables (finish_table demo_B)))"
  using add_rows_ok [OF demo_rows_run builder_inv_start [OF empty_B_start] demo_B_small]
  by (simp_all add: finish_table_def demo_B_def demo_syms)

theorem build_correct_witness: "\<exists>S. build demo_B (replicate 32 0) = Inr S \<and> schema_wf S"
  using build_correct [OF demo_B_ready(1) demo_B_small demo_B_ready(2,3)] by blast

text \<open>The schema of the demo rows: table \<open>a\<close> has moved to the front.\<close>

definition built_S :: "(u64 \<times> entry) list database_schema" where
  "built_S = demo_S\<lparr>
     ds_tables :=
       [\<lparr>tm_name = sym_a, tm_columns_start = 2, tm_columns_len = 1, tm_primary_key = Some 0, tm_fk_start = 0, tm_fk_len = 0\<rparr>,
        \<lparr>tm_name = sym_b, tm_columns_start = 0, tm_columns_len = 2, tm_primary_key = Some 0, tm_fk_start = 0, tm_fk_len = 1\<rparr>],
     ds_columns := [plain_col sym_i PRIMARY_KEY \<lparr>pr_start = 0, pr_len = 0\<rparr>, plain_col sym_r 0 \<lparr>pr_start = 0, pr_len = 1\<rparr>,
       plain_col sym_i PRIMARY_KEY \<lparr>pr_start = 0, pr_len = 0\<rparr>],
     ds_column_names := [sym_i, sym_r, sym_i]\<rparr>"

lemma sort_demo: "sort_by_name (sb_tables (finish_table demo_B)) = [1, 0]"
  by (simp add: sort_by_name_def finish_table_def demo_B_def empty_B_def upt_rec demo_syms less_eq_symbol_def)

lemma demo_finish:
  "sb_tables (finish_table demo_B) = [\<lparr>tm_name = sym_b, tm_columns_start = 0, tm_columns_len = 2, tm_primary_key = Some 0,
       tm_fk_start = 0, tm_fk_len = 1\<rparr>,
     \<lparr>tm_name = sym_a, tm_columns_start = 2, tm_columns_len = 1, tm_primary_key = Some 0, tm_fk_start = 1, tm_fk_len = 0\<rparr>]"
  by (simp add: finish_table_def demo_B_def empty_B_def)

lemma demo_unresolved: "sb_unresolved demo_B = [\<lparr>uf_pool_index = 0, uf_source_table_idx = 0,
    uf_ref_table_sym = sym_a, uf_ref_column_sym = sym_i\<rparr>]"
  by (simp add: demo_B_def)

lemma demo_edges:
  "fold_res (add_edge (finish_table demo_B) [1, 0]) (sb_unresolved demo_B) ([0, 0], [[], []], []) =
     Inr ([1, 0], [[], [0]], [(0, 0, 1, 0)])"
  by (simp add: demo_B_def add_edge_def resolve_fk_def binary_search_by_key_def bsearch_loop.simps demo_syms empty_B_def
      finish_table_def sub_slice_def nth_res_def slice_res_def Let_def less_symbol_def)

lemma demo_topo: "topo_sort [[], [0]] [1, 0] (Suc (Suc 0)) = Inr [1, 0]"
  by (simp add: topo_sort_def upt_rec relax_def)

lemma demo_place:
  "fold_res (place_fk (sb_foreign_key_pool demo_B) (index_of_tables [1, 0] (Suc (Suc 0)))) [(0, 0, 1, 0)]
     ([], replicate (n_fks demo_B) None) = Inr (ds_foreign_key_pool demo_S, [Some 0])"
  by (simp add: demo_B_def empty_B_def demo_S_def place_fk_def index_of_tables_def nth_res_def Let_def)

lemma demo_ranges:
  "remap_range [Some 0] 0 0 = Inr (0, 0)" "remap_range [Some 0] 0 1 = Inr (0, 1)" "remap_range [Some 0] 1 0 = Inr (0, 0)"
  by (simp_all add: remap_range_def upt_rec scan_fk_def nth_res_def)

lemma demo_columns: "map_res (remap_column [Some 0]) (sb_columns demo_B) = Inr (ds_columns built_S)"
  by (simp add: remap_column_def demo_ranges demo_B_def built_S_def plain_col_def)

lemma demo_tables: "map_res (remap_table [Some 0]) (map ((!) (sb_tables (finish_table demo_B))) [1, 0]) = Inr (ds_tables built_S)"
  by (simp add: remap_table_def demo_ranges demo_finish built_S_def)

lemma demo_resort: "sort_by_name (map ((!) (sb_tables (finish_table demo_B))) [1, 0]) = [0, 1]"
  by (simp add: sort_by_name_def demo_finish upt_rec demo_syms less_eq_symbol_def)

lemma demo_reorder: "map_res (nth_res (sb_tables (finish_table demo_B))) [1, 0] =
    Inr (map ((!) (sb_tables (finish_table demo_B))) [1, 0])"
  by (simp add: demo_finish nth_res_def)

lemma demo_built: "build demo_B (replicate 32 0) = Inr built_S"
proof -
  have len: "length (sb_tables (finish_table demo_B)) = Suc (Suc 0)" by (simp add: demo_finish)
  have "fold_res (add_edge (finish_table demo_B) (sort_by_name (sb_tables (finish_table demo_B)))) (sb_unresolved demo_B)
      (replicate (Suc (Suc 0)) 0, replicate (Suc (Suc 0)) [], []) = Inr ([1, 0], [[], [0]], [(0, 0, 1, 0)])"
    using demo_edges by (simp add: sort_demo)
  then show ?thesis
    unfolding build_def Let_def len finish_table_keeps
    by (simp only: sum_bind_simps prod.case demo_topo demo_reorder demo_place demo_columns demo_tables demo_resort)
      (simp add: built_S_def demo_S_def demo_B_def empty_B_def)
qed

text \<open>
  Key \<open>k\<close> of the schema is the key that was recorded for \<open>uf\<close>, its constraint name, namespace and
  actions unchanged, and now points to the table and the column \<open>uf\<close> names.
\<close>

definition key_kept :: "'t schema_builder \<Rightarrow> 't database_schema \<Rightarrow> foreign_key \<Rightarrow> unresolved_fk \<Rightarrow> bool" where
  "key_kept B S k uf \<longleftrightarrow>
     (let old = sb_foreign_key_pool B ! uf_pool_index uf; t = ds_tables S ! unat (fk_table k) in
      fk_constraint_name k = fk_constraint_name old \<and> fk_namespace k = fk_namespace old \<and>
      fk_on_update k = fk_on_update old \<and> fk_on_delete k = fk_on_delete old \<and>
      tm_name t = uf_ref_table_sym uf \<and>
      col_name (ds_columns S ! (unat (tm_columns_start t) + unat (fk_column k))) = uf_ref_column_sym uf)"

lemma new_fk_kept:
  assumes rd: "ready (finish_table B)" and so: "schema_of (finish_table B) order hash S" "order_ok (finish_table B) order"
    and uf: "uf \<in> set (sb_unresolved B)" "resolved (finish_table B) uf = Some x"
  shows "key_kept B S (new_fk (sb_foreign_key_pool B) (index_of_tables order (length (sb_tables (finish_table B)))) x) uf"
proof -
  have xs: "x \<in> set (all_infos (finish_table B))" using uf by (auto simp: in_infos)
  obtain p src ref c where x: "x = (p, src, ref, c)" by (metis prod_cases4)
  then have "p = uf_pool_index uf" using resolved_ok(2) [OF rd uf(2)] by (simp add: info_ok_def)
  then have "new_fk pool otn x = (pool ! uf_pool_index uf)\<lparr>fk_table := otn ! ref, fk_column := c\<rparr>" for pool otn
    by (simp add: x new_fk_def)
  then show ?thesis using new_fk_names [OF rd so uf(2) xs] by (simp add: key_kept_def Let_def)
qed

text \<open>A selection of the resolved keys against the same selection of the declared ones, in order.\<close>

lemma kept_selection:
  assumes rd: "ready (finish_table B)" and so: "schema_of (finish_table B) order hash S" "order_ok (finish_table B) order"
    and sel: "\<And>uf x. uf \<in> set (sb_unresolved B) \<Longrightarrow> resolved (finish_table B) uf = Some x \<Longrightarrow> s x \<longleftrightarrow> P uf"
  shows "list_all2 (key_kept B S)
    (map (new_fk (sb_foreign_key_pool B) (index_of_tables order (length (sb_tables (finish_table B)))))
      (filter s (all_infos (finish_table B))))
    (filter (\<lambda>uf. P uf \<and> (\<exists>t c. points_to (finish_table B) uf t c)) (sb_unresolved B))"
proof -
  let ?F = "finish_table B"
  have found: "(\<exists>t c. points_to ?F uf t c) \<longleftrightarrow> resolved ?F uf \<noteq> None" for uf
    using resolved_ok(2,3) [OF rd] by (fastforce simp: info_ok_def)
  have "list_all2 (\<lambda>uf vf. vf = uf \<and> uf \<in> set (sb_unresolved B)) (sb_unresolved B) (sb_unresolved B)"
    by (simp add: list_all2_same)
  then have "list_all2 (\<lambda>x uf. key_kept B S (new_fk (sb_foreign_key_pool B) (index_of_tables order (length (sb_tables ?F))) x) uf)
      (filter s (List.map_filter (resolved ?F) (sb_unresolved B)))
      (filter (\<lambda>uf. P uf \<and> (\<exists>t c. points_to ?F uf t c)) (sb_unresolved B))"
    by (rule list_all2_filters) (use sel new_fk_kept [OF rd so] in \<open>auto simp: found split: option.splits\<close>)
  then show ?thesis by (simp add: infos_def list.rel_map)
qed

definition in_pool_range :: "pool_range \<Rightarrow> nat \<Rightarrow> bool" where
  "in_pool_range r p \<longleftrightarrow> unat (pr_start r) \<le> p \<and> p < unat (pr_start r) + unat (pr_len r)"

text \<open>
  C18: the schema keeps exactly the foreign keys whose table and column exist.  The keys of a table
  are, one by one and in the order of their declaration, those that were declared under it, and
  the keys of a column those of the range that its row recorded; each has the constraint name,
  the namespace and the two actions it was declared with and points to the table and the column
  it names.
\<close>

theorem build_foreign_keys:
  assumes "builder_inv B" "builder_small B" "length (sb_tables (finish_table B)) < 2 ^ 16"
    "distinct (map tm_name (sb_tables (finish_table B)))" "build B hash = Inr S"
  shows "(\<forall>i < length (ds_tables S). list_all2 (key_kept B S) (fks_of S i)
      (filter (\<lambda>uf. tm_name (sb_tables (finish_table B) ! uf_source_table_idx uf) = tm_name (ds_tables S ! i) \<and>
         (\<exists>t c. points_to (finish_table B) uf t c)) (sb_unresolved B))) \<and>
    (\<forall>j < n_cols B. \<exists>ks. column_foreign_keys S j = Inr ks \<and> list_all2 (key_kept B S) ks
      (filter (\<lambda>uf. in_pool_range (col_foreign_keys (sb_columns B ! j)) (uf_pool_index uf) \<and>
         (\<exists>t c. points_to (finish_table B) uf t c)) (sb_unresolved B)))"
proof -
  let ?F = "finish_table B"
  have rd: "ready ?F" using assms(1-4) by (rule readyI)
  obtain order where so: "schema_of ?F order hash S" "order_ok ?F order"
    using build_schema_of [OF rd, of hash] assms(5) by auto
  have src: "uf_source_table_idx uf < length (sb_tables ?F)" if "uf \<in> set (sb_unresolved B)" for uf
    using that rd by (metis ready_def fks_known_def in_set_conv_nth finish_table_keeps(4))
  have info: "fst x = uf_pool_index uf \<and> fst (snd x) = uf_source_table_idx uf" if "resolved ?F uf = Some x" for uf x
    using resolved_ok(2) [OF rd that] by (cases x) (simp add: info_ok_def)
  have "list_all2 (key_kept B S) (fks_of S i)
      (filter (\<lambda>uf. tm_name (sb_tables ?F ! uf_source_table_idx uf) = tm_name (ds_tables S ! i) \<and>
         (\<exists>t c. points_to ?F uf t c)) (sb_unresolved B))" if "i < length (ds_tables S)" for i
  proof -
    note st = schema_of_tables [OF so]
    have i: "i < length (sb_tables ?F)" using that st(1) by simp
    have "fst (snd x) = order ! i \<longleftrightarrow> tm_name (sb_tables ?F ! uf_source_table_idx uf) = tm_name (ds_tables S ! i)"
      if "uf \<in> set (sb_unresolved B)" "resolved ?F uf = Some x" for uf x
      using ready_name_inj [OF rd src [OF that(1)] st(4) [OF i]] table_rel_fields(1) [OF st(3) [OF i]] info [OF that(2)] by simp
    note kept_selection [OF rd so this]
    moreover have "(\<lambda>(p, src, u). src = order ! i) = (\<lambda>x :: fk_info. fst (snd x) = order ! i)" by (simp add: fun_eq_iff)
    ultimately show ?thesis by (simp add: schema_of_fks [OF rd so i])
  qed
  moreover have "\<exists>ks. column_foreign_keys S j = Inr ks \<and> list_all2 (key_kept B S) ks
      (filter (\<lambda>uf. in_pool_range (col_foreign_keys (sb_columns B ! j)) (uf_pool_index uf) \<and>
         (\<exists>t c. points_to ?F uf t c)) (sb_unresolved B))" if j: "j < n_cols B" for j
  proof -
    let ?in = "in_pool_range (col_foreign_keys (sb_columns B ! j))"
    have "column_rel (all_infos ?F) (sb_columns B ! j) (ds_columns S ! j)" "length (ds_columns S) = n_cols B"
      using so(1) j by (auto simp: schema_of_def list_all2_conv_all_nth)
    then have "column_foreign_keys S j =
        Inr (map (new_fk (sb_foreign_key_pool B) (index_of_tables order (length (sb_tables ?F)))) (filter (\<lambda>x. ?in (fst x)) (all_infos ?F)))"
      using j so(1) by (simp add: column_foreign_keys_def column_meta_def column_rel_def Let_def schema_of_def
          in_pool_range_def sub_slice_def take_map drop_map)
    then show ?thesis using kept_selection [OF rd so, of "\<lambda>x. ?in (fst x)" "\<lambda>uf. ?in (uf_pool_index uf)"] info by auto
  qed
  ultimately show ?thesis by blast
qed

text \<open>In the small schema the second table has the one key, to the first.\<close>

theorem build_foreign_keys_witness:
  "\<exists>k. fks_of built_S 1 = [k] \<and>
    key_kept demo_B built_S k \<lparr>uf_pool_index = 0, uf_source_table_idx = 0, uf_ref_table_sym = sym_a, uf_ref_column_sym = sym_i\<rparr>"
proof -
  let ?u = "\<lparr>uf_pool_index = 0, uf_source_table_idx = 0, uf_ref_table_sym = sym_a, uf_ref_column_sym = sym_i\<rparr>"
  have "points_to (finish_table demo_B) ?u 1 0"
    by (simp add: points_to_def demo_finish) (simp add: demo_B_def plain_col_def)
  moreover have "tm_name (sb_tables (finish_table demo_B) ! 0) = tm_name (ds_tables built_S ! 1)"
    by (simp add: demo_finish built_S_def)
  ultimately have "filter (\<lambda>uf. tm_name (sb_tables (finish_table demo_B) ! uf_source_table_idx uf) = tm_name (ds_tables built_S ! 1) \<and>
      (\<exists>t c. points_to (finish_table demo_B) uf t c)) (sb_unresolved demo_B) = [?u]"
    by (auto simp: demo_unresolved)
  moreover have "1 < length (ds_tables built_S)" by (simp add: built_S_def)
  ultimately show ?thesis
    using conjunct1 [OF build_foreign_keys [OF demo_B_ready(1) demo_B_small demo_B_ready(2,3) demo_built]]
    by (auto simp: list_all2_Cons2)
qed

text \<open>
  C14: when no cycle of references crosses tables, every table comes after all tables it
  references.
\<close>

theorem build_order:
  assumes "builder_inv B" "builder_small B" "length (sb_tables (finish_table B)) < 2 ^ 16"
    "distinct (map tm_name (sb_tables (finish_table B)))" "build B hash = Inr S"
    "acyclic {(u, v). depends (finish_table B) u v}" "references S i j"
  shows "j < i"
proof -
  have rd: "ready (finish_table B)" using assms(1-4) by (rule readyI)
  obtain order where "order_ok (finish_table B) order" "schema_of (finish_table B) order hash S"
    using build_schema_of [OF rd, of hash] assms(5) by auto
  then show ?thesis using schema_of_ordered [OF rd] assms(6,7) by blast
qed

lemma demo_acyclic: "acyclic {(u, v). depends (finish_table demo_B) u v}"
proof -
  have "depends (finish_table demo_B) u v \<Longrightarrow> u = 1 \<and> v = 0" for u v
    by (auto simp: depends_def points_to_def demo_finish demo_unresolved less_Suc_eq)
  then have "{(u, v). depends (finish_table demo_B) u v} \<subseteq> {(1, 0)}" by auto
  moreover have "acyclic {(1::nat, 0::nat)}" by (rule wf_acyclic) simp
  ultimately show ?thesis using acyclic_subset by blast
qed

theorem build_order_witness: "references built_S 1 0 \<and> (0::nat) < 1"
proof -
  have "references built_S 1 0"
    by (simp add: references_def fks_of_def built_S_def demo_S_def sub_slice_def)
  then show ?thesis
    using build_order [OF demo_B_ready(1) demo_B_small demo_B_ready(2,3) demo_built demo_acyclic] by blast
qed

section \<open>The order of the tables\<close>

text \<open>
  C20: the sort of the tables returns for every graph of references whose counts are right,
  with cycles as well: its result lists every table once.  On a graph without cycles every table
  follows the tables it references.
\<close>

theorem topo_sort_correct:
  assumes "\<And>u v. edge graph u v \<Longrightarrow> v < length graph" "length deg = length graph"
    "\<And>v. v < length graph \<Longrightarrow> deg ! v = (\<Sum>u < length graph. int (count_list (graph ! u) v))"
  shows "\<exists>xs. topo_sort graph deg (length graph) = Inr xs \<and> distinct xs \<and> set xs = {..<length graph} \<and>
    (acyclic {(u, v). edge graph u v} \<longrightarrow> (\<forall>k < length xs. \<forall>u. edge graph u (xs ! k) \<longrightarrow> u \<in> set (take k xs)))"
proof -
  have "graph_ok graph" using assms(1) by (fastforce simp: graph_ok_def edge_def in_set_conv_nth)
  then show ?thesis
    using topo_sort_spec [of graph "length graph" deg] assms(2,3) by (simp add: pending_def ordered_def)
qed

theorem topo_sort_correct_witness:
  "\<exists>xs. topo_sort [[1], [0], [0]] [2, 1, 0] 3 = Inr xs \<and> distinct xs \<and> set xs = {..<3}"
proof -
  let ?g = "[[1], [0], [0]] :: nat list list"
  have "edge ?g u v \<Longrightarrow> v < length ?g" for u v
    by (auto simp: edge_def less_Suc_eq nth_Cons' split: if_splits)
  moreover have "[2, 1, 0] ! v = (\<Sum>u < length ?g. int (count_list (?g ! u) v))" if "v < length ?g" for v
    using that by (auto simp: less_Suc_eq lessThan_Suc numeral_2_eq_2)
  ultimately show ?thesis using topo_sort_correct [of ?g "[2, 1, 0]"] by (fastforce simp: numeral_3_eq_3)
qed

end
