(* ===== verification/Truth_Table.thy ===== *)
theory Truth_Table
  imports Schema_Wf "HOL-Library.List_Lexorder" "HOL-Library.Product_Lexorder"
begin

unbundle bit_operations_syntax

text \<open>
  \<open>sync/truth_table.rs\<close> and \<open>sync/log_row.rs\<close>: the merge-join of the Postgres and the
  SQLite sync log.  A stream is the list of what it will still deliver, each item an error of
  the database driver or a row; a row is what reading each of its columns returns.  The
  driver's errors other than the one the code builds itself are a type parameter.
  \<open>debug_on\<close> says whether debug assertions are compiled in, and \<open>pg_first\<close> which of the
  two joined futures reports first when both fail, which is up to the executor.
\<close>

section \<open>Data\<close>


datatype log_op_type = Insert | Update | Delete

datatype 'x sqlx_error = ColumnDecode str str | DriverError 'x

text \<open>What \<open>LogRow\<close> reads from a row, column by column.\<close>

record 'x log_row =
  lr_table :: "'x sqlx_error + str"
  lr_record_id :: "'x sqlx_error + str"
  lr_op :: "'x sqlx_error + str"
  lr_version :: "'x sqlx_error + i64"
  lr_updated_at :: "'x sqlx_error + i64"

text \<open>
  The interner's cache is thread-local and the executor may resume the task on any of its
  threads, so every item carries the cache of the thread that receives it.
\<close>

type_synonym 'x stream = "(local_cache \<times> ('x sqlx_error + 'x log_row)) list"

record 'x head =
  h_row :: "'x log_row"
  h_table :: symbol
  h_op :: log_op_type
  h_version :: i64
  h_updated_at :: i64

record sync_log_entry =
  se_table_name :: symbol
  se_record_id :: str
  se_op_type :: log_op_type
  se_version :: i64
  se_updated_at :: i64

datatype row_action = ApplyFromPostgres | ApplyFromSQLite | Conflict

record sync_truth_entry =
  te_postgres :: "sync_log_entry option"
  te_sqlite :: "sync_log_entry option"
  te_action :: row_action

datatype 'x truth_table_error = Postgres "'x sqlx_error" | Sqlite "'x sqlx_error" | UnknownTable str

text \<open>A call fails with an error value or with a panic.\<close>

datatype 'x fail = Err "'x truth_table_error" | Panic panic

record table_cache =
  tc_name :: str
  tc_symbol :: "symbol option"

record 'x truth_table =
  tt_pg_stream :: "'x stream"
  tt_sq_stream :: "'x stream"
  tt_pg_cache :: table_cache
  tt_sq_cache :: table_cache
  tt_pg_head :: "'x head option"
  tt_sq_head :: "'x head option"

datatype ordering = Less | Equal | Greater

definition compare :: "'a::linorder \<Rightarrow> 'a \<Rightarrow> ordering" where
  "compare a b = (if a < b then Less else if a = b then Equal else Greater)"

definition or_panic :: "'a res \<Rightarrow> 'x fail + 'a" where
  "or_panic r = map_sum Panic id r"

definition map_err :: "('x sqlx_error \<Rightarrow> 'x truth_table_error) \<Rightarrow> 'x sqlx_error + 'a \<Rightarrow> 'x fail + 'a" where
  "map_err db_err r = map_sum (\<lambda>e. Err (db_err e)) id r"

section \<open>Operations\<close>

definition op_try_from :: "str \<Rightarrow> str + log_op_type" where
  "op_try_from s =
     (if s = lit ''I'' then Inr Insert
      else if s = lit ''U'' then Inr Update
      else if s = lit ''D'' then Inr Delete
      else Inl s)"

text \<open>\<open>Display\<close> of the two errors, and the cause that \<open>source\<close> names; the text of a driver error is the driver's.\<close>

definition invalid_op_display :: "str \<Rightarrow> str" where
  "invalid_op_display s = lit ''invalid op type: '' @ s"

fun truth_table_error_display :: "('x sqlx_error \<Rightarrow> str) \<Rightarrow> 'x truth_table_error \<Rightarrow> str" where
  "truth_table_error_display show_e (Postgres e) = lit ''postgres stream error: '' @ show_e e"
| "truth_table_error_display show_e (Sqlite e) = lit ''sqlite stream error: '' @ show_e e"
| "truth_table_error_display show_e (UnknownTable table) = lit ''sync log references unknown table: '' @ table"

fun truth_table_error_source :: "'x truth_table_error \<Rightarrow> 'x sqlx_error option" where
  "truth_table_error_source (Postgres e) = Some e"
| "truth_table_error_source (Sqlite e) = Some e"
| "truth_table_error_source (UnknownTable table) = None"

definition winning_entry :: "sync_truth_entry \<Rightarrow> sync_log_entry option" where
  "winning_entry e = (case te_action e of
       Conflict \<Rightarrow> None
     | ApplyFromPostgres \<Rightarrow> te_postgres e
     | ApplyFromSQLite \<Rightarrow> te_sqlite e)"

definition table_cache_default :: table_cache where
  "table_cache_default = \<lparr>tc_name = [], tc_symbol = None\<rparr>"

definition symbol_for ::
  "'t deps \<Rightarrow> 't database_schema \<Rightarrow> local_cache \<Rightarrow> table_cache \<Rightarrow> str \<Rightarrow> ('x fail + symbol) \<times> table_cache" where
  "symbol_for D S lc c table =
     (let miss =
        (case fst (get_symbol D S lc table) of
           Inl p \<Rightarrow> (Inl (Panic p), c)
         | Inr None \<Rightarrow> (Inl (Err (UnknownTable table)), c)
         | Inr (Some y) \<Rightarrow> (Inr y, \<lparr>tc_name = table, tc_symbol = Some y\<rparr>))
      in case tc_symbol c of
           Some y \<Rightarrow> if tc_name c = table then (Inr y, c) else miss
         | None \<Rightarrow> miss)"

text \<open>
  \<open>Head::new\<close> on a thread with cache \<open>lc\<close>: the memo is updated by the first step even when a later column fails.
\<close>

definition head_new ::
  "'t deps \<Rightarrow> 't database_schema \<Rightarrow> local_cache \<Rightarrow> 'x log_row \<Rightarrow> table_cache \<Rightarrow>
     ('x sqlx_error \<Rightarrow> 'x truth_table_error) \<Rightarrow> ('x fail + 'x head) \<times> table_cache" where
  "head_new D S lc row c db_err =
     (case map_err db_err (lr_table row) of
        Inl e \<Rightarrow> (Inl e, c)
      | Inr table \<Rightarrow>
          (case symbol_for D S lc c table of
             (Inl e, c') \<Rightarrow> (Inl e, c')
           | (Inr y, c') \<Rightarrow>
               (sum_bind (map_err db_err (lr_op row)) (\<lambda>op_text.
                sum_bind (case op_try_from op_text of
                    Inl bad \<Rightarrow> Inl (Err (db_err (ColumnDecode (lit ''op_type'') bad)))
                  | Inr op \<Rightarrow> Inr op) (\<lambda>op.
                sum_bind (map_err db_err (lr_version row)) (\<lambda>version.
                sum_bind (map_err db_err (lr_updated_at row)) (\<lambda>updated_at.
                sum_bind (map_err db_err (lr_record_id row)) (\<lambda>_.
                Inr \<lparr>h_row = row, h_table = y, h_op = op, h_version = version,
                     h_updated_at = updated_at\<rparr>))))), c')))"

definition head_record_id :: "'x head \<Rightarrow> 'x fail + str" where
  "head_record_id h = (case lr_record_id (h_row h) of Inl _ \<Rightarrow> Inl (Panic UnwrapNone) | Inr s \<Rightarrow> Inr s)"

definition into_entry :: "'x head \<Rightarrow> 'x fail + sync_log_entry" where
  "into_entry h =
     sum_bind (head_record_id h) (\<lambda>rid.
     Inr \<lparr>se_table_name = h_table h, se_record_id = rid, se_op_type = h_op h,
          se_version = h_version h, se_updated_at = h_updated_at h\<rparr>)"

definition cmp_heads :: "'t database_schema \<Rightarrow> 'x head \<Rightarrow> 'x head \<Rightarrow> 'x fail + ordering" where
  "cmp_heads S a b =
     (if h_table a = h_table b then
        sum_bind (head_record_id a) (\<lambda>x. sum_bind (head_record_id b) (\<lambda>y. Inr (compare x y)))
      else
        let name = (\<lambda>y. or_panic (sum_bind (resolve_symbol S y) expect)) in
        sum_bind (name (h_table a)) (\<lambda>x. sum_bind (name (h_table b)) (\<lambda>y. Inr (compare x y))))"

definition pull ::
  "'t deps \<Rightarrow> 't database_schema \<Rightarrow> 'x stream \<Rightarrow> table_cache \<Rightarrow>
     ('x sqlx_error \<Rightarrow> 'x truth_table_error) \<Rightarrow> ('x fail + 'x head option) \<times> 'x stream \<times> table_cache" where
  "pull D S s c db_err =
     (case s of
        [] \<Rightarrow> (Inr None, [], c)
      | (_, Inl e) # s' \<Rightarrow> (Inl (Err (db_err e)), s', c)
      | (lc, Inr row) # s' \<Rightarrow>
          (case head_new D S lc row c db_err of (r, c') \<Rightarrow> (map_sum id Some r, s', c')))"

text \<open>\<open>advance\<close> returns the old lookahead and the new one.\<close>

definition advance ::
  "bool \<Rightarrow> 't database_schema \<Rightarrow> 'x head option \<Rightarrow> 'x head option \<Rightarrow>
     'x fail + ('x head option \<times> 'x head option)" where
  "advance debug_on S cur nxt =
     sum_bind
       (case (cur, nxt) of
          (Some old, Some new) \<Rightarrow>
            if debug_on then
              sum_bind (cmp_heads S new old) (\<lambda>ord.
              if ord = Greater then Inr () else Inl (Panic AssertFailed))
            else Inr ()
        | _ \<Rightarrow> Inr ())
       (\<lambda>_. Inr (cur, nxt))"

text \<open>
  \<open>try_join!\<close> of two futures: both values, or the error of the one that fails first.
\<close>

definition try_join :: "bool \<Rightarrow> 'x fail + 'a \<Rightarrow> 'x fail + 'b \<Rightarrow> 'x fail + ('a \<times> 'b)" where
  "try_join pg_first a b = (case (a, b) of
       (Inr x, Inr y) \<Rightarrow> Inr (x, y)
     | (Inl e, Inr _) \<Rightarrow> Inl e
     | (Inr _, Inl e) \<Rightarrow> Inl e
     | (Inl e, Inl e') \<Rightarrow> Inl (if pg_first then e else e'))"

definition truth_table_new ::
  "bool \<Rightarrow> 't deps \<Rightarrow> 't database_schema \<Rightarrow> 'x stream \<Rightarrow> 'x stream \<Rightarrow> 'x fail + 'x truth_table" where
  "truth_table_new pg_first D S pg sq =
     (case pull D S pg table_cache_default Postgres of (rp, pg', cp) \<Rightarrow>
      case pull D S sq table_cache_default Sqlite of (rs, sq', cs) \<Rightarrow>
        sum_bind (try_join pg_first rp rs) (\<lambda>(hp, hs).
        Inr \<lparr>tt_pg_stream = pg', tt_sq_stream = sq', tt_pg_cache = cp, tt_sq_cache = cs,
             tt_pg_head = hp, tt_sq_head = hs\<rparr>))"

text \<open>\<open>(version, updated_at)\<close> as signed 64-bit integers, compared as a tuple.\<close>

definition head_clock :: "'x head \<Rightarrow> int \<times> int" where
  "head_clock h = (sint (h_version h), sint (h_updated_at h))"

definition resolve_heads ::
  "'x head option \<Rightarrow> 'x head option \<Rightarrow> 'x fail + sync_truth_entry option" where
  "resolve_heads pg sq =
     sum_bind
       (case (pg, sq) of
          (Some _, None) \<Rightarrow> Inr (Some ApplyFromPostgres)
        | (None, Some _) \<Rightarrow> Inr (Some ApplyFromSQLite)
        | (Some p, Some s) \<Rightarrow>
            (case compare (head_clock p) (head_clock s) of
               Greater \<Rightarrow> Inr (Some ApplyFromPostgres)
             | Less \<Rightarrow> Inr (Some ApplyFromSQLite)
             | Equal \<Rightarrow> if h_op p = h_op s then Inr None else Inr (Some Conflict))
        | (None, None) \<Rightarrow> Inl (Panic Unreachable))
       (\<lambda>r. case r of
          None \<Rightarrow> Inr None
        | Some act \<Rightarrow>
            sum_bind (case pg of None \<Rightarrow> Inr None | Some h \<Rightarrow> map_sum id Some (into_entry h)) (\<lambda>p.
            sum_bind (case sq of None \<Rightarrow> Inr None | Some h \<Rightarrow> map_sum id Some (into_entry h)) (\<lambda>s.
            Inr (Some \<lparr>te_postgres = p, te_sqlite = s, te_action = act\<rparr>))))"

text \<open>
  The two halves of a turn of \<open>next_entry\<close>: a side that takes part pulls its next row, and
  then installs it as its lookahead, handing out the old one.
\<close>

definition pull_if ::
  "bool \<Rightarrow> 't deps \<Rightarrow> 't database_schema \<Rightarrow> 'x stream \<Rightarrow> table_cache \<Rightarrow>
     ('x sqlx_error \<Rightarrow> 'x truth_table_error) \<Rightarrow> ('x fail + 'x head option option) \<times> 'x stream \<times> table_cache" where
  "pull_if takes_part D S s c db_err =
     (if takes_part then (case pull D S s c db_err of (r, s', c') \<Rightarrow> (map_sum id Some r, s', c'))
      else (Inr None, s, c))"

definition install ::
  "bool \<Rightarrow> 't database_schema \<Rightarrow> 'x head option \<Rightarrow> 'x head option option \<Rightarrow>
     'x fail + ('x head option \<times> 'x head option)" where
  "install debug_on S cur pulled = (case pulled of
       None \<Rightarrow> Inr (None, cur)
     | Some nxt \<Rightarrow> advance debug_on S cur nxt)"

datatype 'x turn = Exhausted | Yield sync_truth_entry "'x truth_table" | Skip "'x truth_table"

definition join_turn ::
  "bool \<Rightarrow> bool \<Rightarrow> 't deps \<Rightarrow> 't database_schema \<Rightarrow> 'x truth_table \<Rightarrow> ordering \<Rightarrow> 'x fail + 'x turn" where
  "join_turn debug_on pg_first D S tt ord =
     (case pull_if (ord \<noteq> Greater) D S (tt_pg_stream tt) (tt_pg_cache tt) Postgres of (rp, pg', cp) \<Rightarrow>
      case pull_if (ord \<noteq> Less) D S (tt_sq_stream tt) (tt_sq_cache tt) Sqlite of (rs, sq', cs) \<Rightarrow>
        sum_bind (try_join pg_first rp rs) (\<lambda>(next_pg, next_sq).
        sum_bind (install debug_on S (tt_pg_head tt) next_pg) (\<lambda>(pg, pg_head).
        sum_bind (install debug_on S (tt_sq_head tt) next_sq) (\<lambda>(sq, sq_head).
        sum_bind (resolve_heads pg sq) (\<lambda>r.
        let tt' = \<lparr>tt_pg_stream = pg', tt_sq_stream = sq', tt_pg_cache = cp, tt_sq_cache = cs,
                   tt_pg_head = pg_head, tt_sq_head = sq_head\<rparr>
        in Inr (case r of None \<Rightarrow> Skip tt' | Some e \<Rightarrow> Yield e tt'))))))"

text \<open>One turn of the loop of \<open>next_entry\<close>.\<close>

definition next_turn ::
  "bool \<Rightarrow> bool \<Rightarrow> 't deps \<Rightarrow> 't database_schema \<Rightarrow> 'x truth_table \<Rightarrow> 'x fail + 'x turn" where
  "next_turn debug_on pg_first D S tt =
     (case (tt_pg_head tt, tt_sq_head tt) of
        (None, None) \<Rightarrow> Inr Exhausted
      | (Some _, None) \<Rightarrow> join_turn debug_on pg_first D S tt Less
      | (None, Some _) \<Rightarrow> join_turn debug_on pg_first D S tt Greater
      | (Some p, Some s) \<Rightarrow> sum_bind (cmp_heads S p s) (join_turn debug_on pg_first D S tt))"

text \<open>What is left to read: every turn of the loop consumes one of the lookaheads.\<close>

definition work :: "'x truth_table \<Rightarrow> nat" where
  "work tt = length (tt_pg_stream tt) + length (tt_sq_stream tt)
     + (if tt_pg_head tt = None then 0 else 1) + (if tt_sq_head tt = None then 0 else 1)"

lemma map_sum_Inr: "map_sum f g r = Inr y \<longleftrightarrow> (\<exists>x. r = Inr x \<and> y = g x)"
  by (cases r) auto

lemma pull_length:
  assumes "pull D S s c db_err = (Inr r, s', c')"
  shows "length s' + (if r = None then 0 else 1) = length s"
  using assms by (auto simp: pull_def map_sum_Inr split: list.splits sum.splits prod.splits)

lemma advance_Inr:
  assumes "advance debug_on S cur nxt = Inr (old, new)"
  shows "old = cur \<and> new = nxt"
  using assms by (auto simp: advance_def sum_bind_Inr)

lemma side_work:
  assumes "pull_if takes_part D S s c db_err = (Inr pulled, s', c')" "install debug_on S cur pulled = Inr (old, new)"
  shows "length s' + (if new = None then 0 else 1) = (if takes_part then length s else length s + (if cur = None then 0 else 1))"
proof (cases takes_part)
  case True
  then obtain r where r: "pull D S s c db_err = (Inr r, s', c')" "pulled = Some r"
    using assms(1) by (auto simp: pull_if_def map_sum_Inr split: prod.splits)
  then have "new = r" using assms(2) advance_Inr by (fastforce simp: install_def)
  then show ?thesis using pull_length [OF r(1)] True by simp
qed (use assms in \<open>auto simp: pull_if_def install_def\<close>)

lemma try_join_Inr: "try_join b x y = Inr (u, v) \<longleftrightarrow> x = Inr u \<and> y = Inr v"
  by (auto simp: try_join_def split: sum.splits)

lemma join_turn_work:
  assumes "join_turn debug_on pg_first D S tt ord = Inr r" "r = Skip tt' \<or> r = Yield e tt'"
    "ord \<noteq> Greater \<Longrightarrow> tt_pg_head tt \<noteq> None" "ord \<noteq> Less \<Longrightarrow> tt_sq_head tt \<noteq> None"
  shows "work tt' < work tt"
proof -
  obtain rp pg' cp rs sq' cs where p: "pull_if (ord \<noteq> Greater) D S (tt_pg_stream tt) (tt_pg_cache tt) Postgres = (rp, pg', cp)"
      "pull_if (ord \<noteq> Less) D S (tt_sq_stream tt) (tt_sq_cache tt) Sqlite = (rs, sq', cs)"
    by (metis prod_cases3)
  from assms(1) obtain np ns pg ph sq sh where j: "rp = Inr np" "rs = Inr ns"
      "install debug_on S (tt_pg_head tt) np = Inr (pg, ph)" "install debug_on S (tt_sq_head tt) ns = Inr (sq, sh)"
      and t: "r \<noteq> Exhausted" "\<And>e u. r = Yield e u \<or> r = Skip u \<Longrightarrow>
        u = \<lparr>tt_pg_stream = pg', tt_sq_stream = sq', tt_pg_cache = cp, tt_sq_cache = cs,
             tt_pg_head = ph, tt_sq_head = sh\<rparr>"
    by (auto simp: join_turn_def p sum_bind_Inr try_join_Inr Let_def split: option.splits)
  have "work tt' = length pg' + length sq' + (if ph = None then 0 else 1) + (if sh = None then 0 else 1)"
    using t(2) [of e tt'] assms(2) by (auto simp: work_def)
  then show ?thesis
    using side_work [OF p(1) [unfolded j(1)] j(3)] side_work [OF p(2) [unfolded j(2)] j(4)] assms(3,4)
    by (cases ord) (auto simp: work_def split: if_splits)
qed

lemma next_turn_work:
  assumes "next_turn debug_on pg_first D S tt = Inr r" "r = Skip tt' \<or> r = Yield e tt'"
  shows "work tt' < work tt"
  using assms join_turn_work [OF _ assms(2), of debug_on pg_first D S tt]
  by (auto simp: next_turn_def sum_bind_Inr split: option.splits)

function next_entry ::
  "bool \<Rightarrow> bool \<Rightarrow> 't deps \<Rightarrow> 't database_schema \<Rightarrow> 'x truth_table \<Rightarrow>
     'x fail + (sync_truth_entry option \<times> 'x truth_table)" where
  "next_entry debug_on pg_first D S tt =
     (case next_turn debug_on pg_first D S tt of
        Inl e \<Rightarrow> Inl e
      | Inr Exhausted \<Rightarrow> Inr (None, tt)
      | Inr (Yield e tt') \<Rightarrow> Inr (Some e, tt')
      | Inr (Skip tt') \<Rightarrow> next_entry debug_on pg_first D S tt')"
  by pat_completeness auto
termination
  by (relation "measure (\<lambda>(_, _, _, _, tt). work tt)") (auto dest: next_turn_work)

declare next_entry.simps [simp del]

text \<open>
  What a caller sees who calls \<open>next_entry\<close> until it returns \<open>None\<close>: all entries in order.
\<close>

lemma next_entry_work:
  "next_entry debug_on pg_first D S tt = Inr (Some e, tt') \<Longrightarrow> work tt' < work tt"
proof (induction debug_on pg_first D S tt rule: next_entry.induct)
  case (1 debug_on pg_first D S tt)
  show ?case
    using "1.prems" "1.IH" next_turn_work [of debug_on pg_first D S tt]
    by (subst (asm) next_entry.simps) (fastforce split: sum.splits turn.splits)
qed

function drain ::
  "bool \<Rightarrow> bool \<Rightarrow> 't deps \<Rightarrow> 't database_schema \<Rightarrow> 'x truth_table \<Rightarrow> 'x fail + sync_truth_entry list" where
  "drain debug_on pg_first D S tt =
     (case next_entry debug_on pg_first D S tt of
        Inl e \<Rightarrow> Inl e
      | Inr (None, _) \<Rightarrow> Inr []
      | Inr (Some e, tt') \<Rightarrow> map_sum id (\<lambda>es. e # es) (drain debug_on pg_first D S tt'))"
  by pat_completeness auto
termination
  by (relation "measure (\<lambda>(_, _, _, _, tt). work tt)") (auto dest: next_entry_work)

declare drain.simps [simp del]

end
