(* ===== verification/Truth_Table_Correct.thy ===== *)
theory Truth_Table_Correct
  imports Truth_Table
begin

unbundle bit_operations_syntax

text \<open>
  The merge-join against its specification.  A log is a list of entries; the specification
  goes through the keys of both logs in ascending order and decides each key by what the two
  logs hold for it.  The theory shows that opening the two streams and reading to the end
  yields exactly that, without an error and without tripping the ordering assertion.
\<close>

section \<open>Logs and the specification\<close>

record log_entry =
  le_table :: str
  le_record :: str
  le_op :: log_op_type
  le_version :: i64
  le_updated :: i64

fun op_text :: "log_op_type \<Rightarrow> str" where
  "op_text Insert = lit ''I''"
| "op_text Update = lit ''U''"
| "op_text Delete = lit ''D''"

definition row_of :: "log_entry \<Rightarrow> 'x log_row" where
  "row_of e = \<lparr>lr_table = Inr (le_table e), lr_record_id = Inr (le_record e), lr_op = Inr (op_text (le_op e)),
     lr_version = Inr (le_version e), lr_updated_at = Inr (le_updated e)\<rparr>"

text \<open>
  A stream delivers a log when its items are the log's rows and no thread that receives one
  has a cache that misleads the lookup of the row's table; \<open>stream_of\<close> is the one whose
  threads all have an empty cache.
\<close>

definition delivers :: "'t deps \<Rightarrow> 't database_schema \<Rightarrow> 'x stream \<Rightarrow> log_entry list \<Rightarrow> bool" where
  "delivers D S = list_all2 (\<lambda>(lc, item) e. item = Inr (row_of e) \<and> cache_fits D (ds_interner S) lc (le_table e))"

definition stream_of :: "log_entry list \<Rightarrow> 'x stream" where
  "stream_of es = map (\<lambda>e. (local_cache_new, Inr (row_of e))) es"

definition key :: "log_entry \<Rightarrow> str \<times> str" where
  "key e = (le_table e, le_record e)"

definition clock :: "log_entry \<Rightarrow> int \<times> int" where
  "clock e = (sint (le_version e), sint (le_updated e))"

definition log_at :: "log_entry list \<Rightarrow> str \<times> str \<Rightarrow> log_entry option" where
  "log_at es k = find (\<lambda>e. key e = k) es"

text \<open>The symbol the schema has for a table name.\<close>

definition known :: "'t deps \<Rightarrow> 't database_schema \<Rightarrow> log_entry \<Rightarrow> bool" where
  "known D S e \<longleftrightarrow> interner_lookup (D, ds_interner S) (le_table e) \<noteq> None"

definition sym_of :: "'t deps \<Rightarrow> 't database_schema \<Rightarrow> str \<Rightarrow> symbol" where
  "sym_of D S name = (case interner_lookup (D, ds_interner S) name of Some y \<Rightarrow> y | None \<Rightarrow> Symbol 0)"

definition entry_of :: "'t deps \<Rightarrow> 't database_schema \<Rightarrow> log_entry \<Rightarrow> sync_log_entry" where
  "entry_of D S e = \<lparr>se_table_name = sym_of D S (le_table e), se_record_id = le_record e, se_op_type = le_op e,
     se_version = le_version e, se_updated_at = le_updated e\<rparr>"

text \<open>
  The policy for one key: a record only one side has is taken from there; otherwise the
  later clock wins; at equal clocks the sides agree or conflict.
\<close>

fun decide ::
  "'t deps \<Rightarrow> 't database_schema \<Rightarrow> log_entry option \<Rightarrow> log_entry option \<Rightarrow> sync_truth_entry option" where
  "decide D S None None = None"
| "decide D S (Some p) None =
     Some \<lparr>te_postgres = Some (entry_of D S p), te_sqlite = None, te_action = ApplyFromPostgres\<rparr>"
| "decide D S None (Some s) =
     Some \<lparr>te_postgres = None, te_sqlite = Some (entry_of D S s), te_action = ApplyFromSQLite\<rparr>"
| "decide D S (Some p) (Some s) =
     (let both = (\<lambda>act. Some \<lparr>te_postgres = Some (entry_of D S p), te_sqlite = Some (entry_of D S s),
            te_action = act\<rparr>)
      in if clock p > clock s then both ApplyFromPostgres
         else if clock p < clock s then both ApplyFromSQLite
         else if le_op p = le_op s then None else both Conflict)"

definition truth_spec ::
  "'t deps \<Rightarrow> 't database_schema \<Rightarrow> log_entry list \<Rightarrow> log_entry list \<Rightarrow> sync_truth_entry list" where
  "truth_spec D S pg sq =
     List.map_filter (\<lambda>k. decide D S (log_at pg k) (log_at sq k))
       (sorted_list_of_set (key ` set pg \<union> key ` set sq))"

definition log_sorted :: "log_entry list \<Rightarrow> bool" where
  "log_sorted es \<longleftrightarrow> sorted_wrt (<) (map key es)"

section \<open>Peeling the smallest key off the specification\<close>

lemma log_sorted_Cons: "log_sorted (e # es) \<longleftrightarrow> (\<forall>x \<in> set es. key e < key x) \<and> log_sorted es"
  by (simp add: log_sorted_def)

lemma log_at_Cons: "log_at (e # es) k = (if key e = k then Some e else log_at es k)"
  by (simp add: log_at_def)

lemma log_at_None: "log_at es k = None \<longleftrightarrow> k \<notin> key ` set es"
  by (auto simp: log_at_def find_None_iff)

lemma sorted_list_insert_min:
  fixes A :: "'a::linorder set"
  assumes "finite A" "\<forall>x \<in> A. m < x"
  shows "sorted_list_of_set (insert m A) = m # sorted_list_of_set A"
proof -
  have "m \<notin> A" using assms(2) by auto
  then have "sorted_list_of_set (insert m A) = insort m (sorted_list_of_set A)"
    using assms(1) by simp
  also have "\<dots> = m # sorted_list_of_set A"
    using assms by (intro insort_is_Cons) auto
  finally show ?thesis .
qed

lemma map_filter_Cons: "List.map_filter f (x # xs) = (case f x of None \<Rightarrow> [] | Some y \<Rightarrow> [y]) @ List.map_filter f xs"
  by (simp add: List.map_filter_def split: option.splits)

lemma map_filter_cong: "(\<And>x. x \<in> set xs \<Longrightarrow> f x = g x) \<Longrightarrow> List.map_filter f xs = List.map_filter g xs"
  by (simp add: List.map_filter_def cong: map_cong filter_cong)

lemma truth_spec_peel:
  assumes keys: "key ` set pg \<union> key ` set sq = insert k (key ` set pg' \<union> key ` set sq')"
    and min: "\<forall>x \<in> key ` set pg' \<union> key ` set sq'. k < x"
    and rest: "\<And>x. k < x \<Longrightarrow> log_at pg x = log_at pg' x \<and> log_at sq x = log_at sq' x"
  shows "truth_spec D S pg sq =
    (case decide D S (log_at pg k) (log_at sq k) of None \<Rightarrow> [] | Some e \<Rightarrow> [e]) @ truth_spec D S pg' sq'"
proof -
  let ?A = "key ` set pg' \<union> key ` set sq'"
  have "List.map_filter (\<lambda>x. decide D S (log_at pg x) (log_at sq x)) (sorted_list_of_set ?A) = truth_spec D S pg' sq'"
    unfolding truth_spec_def using min rest by (intro map_filter_cong) auto
  moreover have "sorted_list_of_set (insert k ?A) = k # sorted_list_of_set ?A"
    by (rule sorted_list_insert_min [OF _ min]) simp
  ultimately show ?thesis
    unfolding truth_spec_def keys by (simp only: map_filter_Cons)
qed

lemma truth_spec_Nil: "truth_spec D S [] [] = []"
  by (simp add: truth_spec_def List.map_filter_def)

text \<open>The three ways a turn of the loop goes.\<close>

lemma truth_spec_pg:
  assumes "log_sorted (p # ps)" "log_sorted sq" "\<forall>s \<in> set sq. key p < key s"
  shows "truth_spec D S (p # ps) sq =
    (case decide D S (Some p) None of None \<Rightarrow> [] | Some e \<Rightarrow> [e]) @ truth_spec D S ps sq"
proof -
  have "log_at sq (key p) = None" using assms(3) by (auto simp: log_at_None)
  moreover have "truth_spec D S (p # ps) sq = (case decide D S (log_at (p # ps) (key p)) (log_at sq (key p)) of
      None \<Rightarrow> [] | Some e \<Rightarrow> [e]) @ truth_spec D S ps sq"
    by (rule truth_spec_peel) (use assms in \<open>auto simp: log_sorted_Cons log_at_Cons\<close>)
  ultimately show ?thesis by (simp add: log_at_Cons)
qed

lemma truth_spec_sq:
  assumes "log_sorted pg" "log_sorted (s # ss)" "\<forall>p \<in> set pg. key s < key p"
  shows "truth_spec D S pg (s # ss) =
    (case decide D S None (Some s) of None \<Rightarrow> [] | Some e \<Rightarrow> [e]) @ truth_spec D S pg ss"
proof -
  have "log_at pg (key s) = None" using assms(3) by (auto simp: log_at_None)
  moreover have "truth_spec D S pg (s # ss) = (case decide D S (log_at pg (key s)) (log_at (s # ss) (key s)) of
      None \<Rightarrow> [] | Some e \<Rightarrow> [e]) @ truth_spec D S pg ss"
    by (rule truth_spec_peel) (use assms in \<open>auto simp: log_sorted_Cons log_at_Cons\<close>)
  ultimately show ?thesis by (simp add: log_at_Cons)
qed

lemma truth_spec_both:
  assumes "log_sorted (p # ps)" "log_sorted (s # ss)" "key p = key s"
  shows "truth_spec D S (p # ps) (s # ss) =
    (case decide D S (Some p) (Some s) of None \<Rightarrow> [] | Some e \<Rightarrow> [e]) @ truth_spec D S ps ss"
proof -
  have "truth_spec D S (p # ps) (s # ss) =
      (case decide D S (log_at (p # ps) (key p)) (log_at (s # ss) (key p)) of
      None \<Rightarrow> [] | Some e \<Rightarrow> [e]) @ truth_spec D S ps ss"
    by (rule truth_spec_peel) (use assms in \<open>auto simp: log_sorted_Cons log_at_Cons\<close>)
  then show ?thesis using assms(3) by (simp add: log_at_Cons del: decide.simps)
qed

section \<open>Heads of good rows\<close>

definition head_of :: "'t deps \<Rightarrow> 't database_schema \<Rightarrow> log_entry \<Rightarrow> 'x head" where
  "head_of D S e = \<lparr>h_row = row_of e, h_table = sym_of D S (le_table e), h_op = le_op e,
     h_version = le_version e, h_updated_at = le_updated e\<rparr>"

text \<open>The schema's interner is in a valid state, so the contract of a symbol table holds.\<close>

abbreviation schema_inv :: "'t deps \<Rightarrow> 't database_schema \<Rightarrow> bool" where
  "schema_inv D S \<equiv> interner_inv (D, ds_interner S)"

lemma get_symbol_lookup:
  "schema_inv D S \<Longrightarrow> cache_fits D (ds_interner S) lc v \<Longrightarrow>
     fst (get_symbol D S lc v) = Inr (interner_lookup (D, ds_interner S) v)"
  by (auto simp: interner_inv_def get_symbol_def get_symbol_of_fits interner_lookup_rep)

lemma delivers_stream_of: "schema_inv D S \<Longrightarrow> delivers D S (stream_of es) es"
  by (auto simp: delivers_def stream_of_def list_all2_map1 interner_inv_def cache_fits_new intro!: list.rel_refl_strong)

text \<open>The table memo of a stream holds what the schema's interner holds.\<close>

definition memo_right :: "'t deps \<Rightarrow> 't database_schema \<Rightarrow> table_cache \<Rightarrow> bool" where
  "memo_right D S c \<longleftrightarrow>
     (\<forall>y. tc_symbol c = Some y \<longrightarrow> interner_lookup (D, ds_interner S) (tc_name c) = Some y)"

lemma memo_right_default: "memo_right D S table_cache_default"
  by (simp add: memo_right_def table_cache_default_def)

text \<open>A right memo is invisible: \<open>symbol_for\<close> answers what the schema answers.\<close>

definition table_symbol :: "'t deps \<Rightarrow> 't database_schema \<Rightarrow> str \<Rightarrow> 'x fail + symbol" where
  "table_symbol D S table =
     (case interner_lookup (D, ds_interner S) table of None \<Rightarrow> Inl (Err (UnknownTable table)) | Some y \<Rightarrow> Inr y)"

lemma symbol_for_memo:
  assumes inv: "schema_inv D S" and fits: "cache_fits D (ds_interner S) lc table" and memo: "memo_right D S c"
  shows "\<exists>c'. symbol_for D S lc c table = (table_symbol D S table :: 'x fail + symbol, c') \<and> memo_right D S c'"
proof (cases "\<exists>y. tc_symbol c = Some y \<and> tc_name c = table")
  case True
  then obtain y where "tc_symbol c = Some y" "tc_name c = table" by blast
  moreover from this have "interner_lookup (D, ds_interner S) table = Some y" using memo by (auto simp: memo_right_def)
  ultimately show ?thesis using memo by (simp add: symbol_for_def table_symbol_def)
next
  case False
  then have "(symbol_for D S lc c table :: ('x fail + symbol) \<times> table_cache) = (case interner_lookup (D, ds_interner S) table of
           None \<Rightarrow> (Inl (Err (UnknownTable table)), c)
         | Some y \<Rightarrow> (Inr y, \<lparr>tc_name = table, tc_symbol = Some y\<rparr>))"
    by (auto simp: symbol_for_def Let_def get_symbol_lookup [OF inv fits] split: option.splits)
  then show ?thesis
    using memo by (cases "interner_lookup (D, ds_interner S) table") (auto simp: memo_right_def table_symbol_def)
qed

lemma op_try_from_text: "op_try_from (op_text op) = Inr op"
  by (cases op) (simp_all add: op_try_from_def lit_def)

text \<open>What reading the next row gives: a head, or the error of a table the schema does not know.\<close>

definition next_head :: "'t deps \<Rightarrow> 't database_schema \<Rightarrow> log_entry \<Rightarrow> 'x fail + 'x head" where
  "next_head D S e = (if known D S e then Inr (head_of D S e) else Inl (Err (UnknownTable (le_table e))))"

lemma head_new_entry:
  fixes db_err :: "'x sqlx_error \<Rightarrow> 'x truth_table_error"
  assumes "schema_inv D S" "cache_fits D (ds_interner S) lc (le_table e)" "memo_right D S c"
  shows "\<exists>c'. head_new D S lc (row_of e) c db_err = (next_head D S e, c') \<and> memo_right D S c'"
proof -
  obtain c' where "symbol_for D S lc c (le_table e) = (table_symbol D S (le_table e) :: 'x fail + symbol, c')" "memo_right D S c'"
    using symbol_for_memo [OF assms] by blast
  then show ?thesis
    by (cases "interner_lookup (D, ds_interner S) (le_table e)")
      (simp_all add: head_new_def row_of_def map_err_def op_try_from_text next_head_def head_of_def sym_of_def known_def
        table_symbol_def)
qed

section \<open>Keys through symbols\<close>

lemma resolve_symbol_resolve: "schema_inv D S \<Longrightarrow> resolve_symbol S y = Inr (interner_resolve (D, ds_interner S) y)"
  by (auto simp: interner_inv_def resolve_symbol_def resolve_rep interner_resolve_rep)

lemma sym_of_known:
  assumes inv: "schema_inv D S" and k: "known D S e"
  shows "interner_lookup (D, ds_interner S) (le_table e) = Some (sym_of D S (le_table e))"
    "resolve_symbol S (sym_of D S (le_table e)) = Inr (Some (le_table e))"
proof -
  show l: "interner_lookup (D, ds_interner S) (le_table e) = Some (sym_of D S (le_table e))"
    using k by (auto simp: known_def sym_of_def)
  show "resolve_symbol S (sym_of D S (le_table e)) = Inr (Some (le_table e))"
    using tbl.res_lookup [OF inv l] by (simp add: resolve_symbol_resolve [OF inv])
qed

lemma compare_prod: "compare (a, b) (c, d) = (if a = c then compare b d else compare a c)"
  by (auto simp: compare_def less_prod_def)

lemma cmp_heads_good:
  assumes inv: "schema_inv D S" and k: "known D S a" "known D S b"
  shows "cmp_heads S (head_of D S a) (head_of D S b) = Inr (compare (key a) (key b))"
proof -
  have "sym_of D S (le_table a) = sym_of D S (le_table b) \<longleftrightarrow> le_table a = le_table b"
    using tbl.lookup_inj [OF inv] sym_of_known(1) [OF inv] k by metis
  then show ?thesis
    using sym_of_known(2) [OF inv k(1)] sym_of_known(2) [OF inv k(2)]
    by (simp add: cmp_heads_def key_def compare_prod head_record_id_def or_panic_def)
      (simp add: head_of_def row_of_def)
qed

section \<open>The loop\<close>

definition first_head :: "'t deps \<Rightarrow> 't database_schema \<Rightarrow> log_entry list \<Rightarrow> 'x head option" where
  "first_head D S es = (case es of [] \<Rightarrow> None | e # _ \<Rightarrow> Some (head_of D S e))"

text \<open>The table still has to deliver \<open>pg\<close> and \<open>sq\<close>; their first entries are the lookaheads.\<close>

definition tt_rep ::
  "'t deps \<Rightarrow> 't database_schema \<Rightarrow> 'x truth_table \<Rightarrow> log_entry list \<Rightarrow> log_entry list \<Rightarrow> bool" where
  "tt_rep D S tt pg sq \<longleftrightarrow>
     tt_pg_head tt = first_head D S pg \<and> delivers D S (tt_pg_stream tt) (tl pg) \<and> memo_right D S (tt_pg_cache tt) \<and>
     tt_sq_head tt = first_head D S sq \<and> delivers D S (tt_sq_stream tt) (tl sq) \<and> memo_right D S (tt_sq_cache tt)"

definition log_ok :: "'t deps \<Rightarrow> 't database_schema \<Rightarrow> log_entry list \<Rightarrow> bool" where
  "log_ok D S es \<longleftrightarrow> log_sorted es \<and> (\<forall>e \<in> set es. known D S e)"

text \<open>A log whose next row, if there is one, is of a table the schema knows.\<close>

definition head_known :: "'t deps \<Rightarrow> 't database_schema \<Rightarrow> log_entry list \<Rightarrow> bool" where
  "head_known D S es \<longleftrightarrow> (case es of [] \<Rightarrow> True | e # _ \<Rightarrow> known D S e)"

lemma log_ok_head: "log_ok D S es \<Longrightarrow> log_sorted es \<and> head_known D S es"
  by (cases es) (simp_all add: log_ok_def head_known_def)

definition rest_if :: "bool \<Rightarrow> 'a list \<Rightarrow> 'a list" where
  "rest_if b es = (if b then tl es else es)"

lemma log_sorted_rest: "log_sorted es \<Longrightarrow> log_sorted (rest_if b es)"
  by (cases es) (simp_all add: rest_if_def log_sorted_Cons)

lemma log_ok_rest: "log_ok D S es \<Longrightarrow> log_ok D S (rest_if b es)"
  by (cases es) (simp_all add: rest_if_def log_ok_def log_sorted_Cons)

lemma pull_entry:
  fixes s :: "'x stream"
  assumes inv: "schema_inv D S" and s: "delivers D S s es" and c: "memo_right D S c"
  shows "\<exists>s' c'. pull D S s c db_err =
      (case es of [] \<Rightarrow> Inr None | e # _ \<Rightarrow> map_sum id Some (next_head D S e), s', c') \<and>
    delivers D S s' (tl es) \<and> memo_right D S c'"
proof (cases es)
  case Nil
  then show ?thesis using s c by (simp add: pull_def delivers_def)
next
  case (Cons e es')
  then obtain lc s' where s': "s = (lc, Inr (row_of e)) # s'" "cache_fits D (ds_interner S) lc (le_table e)" "delivers D S s' es'"
    using s by (auto simp: delivers_def list_all2_Cons2)
  obtain c' where "head_new D S lc (row_of e) c db_err = (next_head D S e, c')" "memo_right D S c'"
    using head_new_entry [OF inv s'(2) c] by blast
  then show ?thesis using s' by (simp add: pull_def Cons)
qed

text \<open>The head that was read, or the error that a row of an unknown table gives.\<close>

definition head_or_error :: "'t deps \<Rightarrow> 't database_schema \<Rightarrow> log_entry list \<Rightarrow> 'x fail + 'x head option" where
  "head_or_error D S es =
     (if head_known D S es then Inr (first_head D S es) else Inl (Err (UnknownTable (le_table (hd es)))))"

lemma pull_head:
  assumes "schema_inv D S" "delivers D S s es" "memo_right D S c"
  shows "\<exists>s' c'. pull D S s c db_err = (head_or_error D S es, s', c') \<and> delivers D S s' (tl es) \<and> memo_right D S c'"
  using pull_entry [OF assms, of db_err]
  by (cases es) (auto simp: head_or_error_def head_known_def first_head_def next_head_def)

lemma new_head:
  assumes inv: "schema_inv D S" and s: "delivers D S spg pg" "delivers D S ssq sq"
  shows "\<exists>pg' cp sq' cs. truth_table_new pg_first D S spg ssq =
      sum_bind (try_join pg_first (head_or_error D S pg) (head_or_error D S sq)) (\<lambda>(hp, hs).
        Inr \<lparr>tt_pg_stream = pg', tt_sq_stream = sq', tt_pg_cache = cp, tt_sq_cache = cs,
             tt_pg_head = hp, tt_sq_head = hs\<rparr>) \<and>
    delivers D S pg' (tl pg) \<and> memo_right D S cp \<and> delivers D S sq' (tl sq) \<and> memo_right D S cs"
  using pull_head [OF inv s(1) memo_right_default, of Postgres] pull_head [OF inv s(2) memo_right_default, of Sqlite]
  by (fastforce simp: truth_table_new_def)

lemma new_good:
  fixes spg ssq :: "'x stream"
  assumes "schema_inv D S" "delivers D S spg pg" "delivers D S ssq sq" "head_known D S pg" "head_known D S sq"
  shows "\<exists>tt. truth_table_new pg_first D S spg ssq = Inr tt \<and> tt_rep D S tt pg sq"
  using new_head [OF assms(1-3), of pg_first] assms(4,5)
  by (auto simp: head_or_error_def try_join_def tt_rep_def)

lemma new_unknown:
  fixes spg ssq :: "'x stream"
  assumes "schema_inv D S" "delivers D S spg pg" "delivers D S ssq sq" "\<not> (head_known D S pg \<and> head_known D S sq)"
  shows "\<exists>es. (es = pg \<or> es = sq) \<and> \<not> head_known D S es \<and>
    truth_table_new pg_first D S spg ssq = Inl (Err (UnknownTable (le_table (hd es))))"
  using new_head [OF assms(1-3), of pg_first] assms(4)
  by (cases "head_known D S pg"; cases "head_known D S sq"; cases pg_first)
    (auto simp: head_or_error_def try_join_def)

text \<open>
  One side of a turn: the next row becomes the lookahead, and the assertion that keys ascend
  holds; or the next row is of an unknown table.
\<close>

lemma pull_if_head:
  assumes inv: "schema_inv D S" and s: "delivers D S s (tl es)" and c: "memo_right D S c"
  shows "\<exists>s' c'. pull_if takes_part D S s c db_err =
      (if takes_part then map_sum id Some (head_or_error D S (tl es)) else Inr None, s', c') \<and>
    delivers D S s' (tl (rest_if takes_part es)) \<and> memo_right D S c'"
proof (cases takes_part)
  case True
  then show ?thesis using pull_head [OF inv s c, of db_err] by (auto simp: pull_if_def rest_if_def)
qed (use s c in \<open>simp add: pull_if_def rest_if_def\<close>)

lemma install_good:
  assumes inv: "schema_inv D S" and log: "log_sorted es" "head_known D S es" "head_known D S (rest_if takes_part es)"
  shows "install debug_on S (first_head D S es :: 'x head option)
      (if takes_part then Some (first_head D S (tl es)) else None) =
    Inr (if takes_part then first_head D S es else None, first_head D S (rest_if takes_part es))"
proof -
  have "advance debug_on S (first_head D S es :: 'x head option) (first_head D S (tl es)) = Inr (first_head D S es, first_head D S (tl es))"
    if takes_part
  proof (cases "\<exists>e f fs. es = e # f # fs")
    case True
    then obtain e f fs where es: "es = e # f # fs" by blast
    then have ef: "key e < key f" "known D S e" "known D S f"
      using log that by (auto simp: head_known_def log_sorted_Cons rest_if_def)
    then have "compare (key f) (key e) = Greater" by (auto simp: compare_def)
    then have "cmp_heads S (head_of D S f) (head_of D S e :: 'x head) = Inr Greater"
      using cmp_heads_good [OF inv ef(3,2)] by simp
    then show ?thesis by (simp add: advance_def first_head_def es)
  next
    case False
    then have "tl es = []" by (cases es; cases "tl es") auto
    then show ?thesis by (simp add: advance_def first_head_def split: list.split)
  qed
  then show ?thesis by (simp add: install_def rest_if_def)
qed

lemma resolve_heads_good:
  assumes "p \<noteq> None \<or> s \<noteq> None"
  shows "resolve_heads (map_option (head_of D S) p) (map_option (head_of D S) s) = Inr (decide D S p s)"
proof -
  have entry: "into_entry (head_of D S e) = Inr (entry_of D S e)" for e
    by (simp add: into_entry_def head_record_id_def head_of_def row_of_def entry_of_def)
  have clk: "head_clock (head_of D S e) = clock e" "h_op (head_of D S e) = le_op e" for e
    by (simp_all add: head_clock_def head_of_def clock_def)
  show ?thesis
    using assms by (cases p; cases s) (auto simp: resolve_heads_def entry clk compare_def Let_def)
qed

lemma join_turn_step:
  fixes tt :: "'x truth_table"
  assumes inv: "schema_inv D S" and log: "log_sorted pg" "log_sorted sq" "head_known D S pg" "head_known D S sq"
    and rep: "tt_rep D S tt pg sq" and ne: "ord \<noteq> Greater \<Longrightarrow> pg \<noteq> []" "ord \<noteq> Less \<Longrightarrow> sq \<noteq> []"
  defines "pg' \<equiv> rest_if (ord \<noteq> Greater) pg" and "sq' \<equiv> rest_if (ord \<noteq> Less) sq"
  shows "head_known D S pg' \<Longrightarrow> head_known D S sq' \<Longrightarrow> \<exists>tt'. join_turn debug_on pg_first D S tt ord =
      Inr (case decide D S (if ord \<noteq> Greater then Some (hd pg) else None) (if ord \<noteq> Less then Some (hd sq) else None) of
             None \<Rightarrow> Skip tt' | Some e \<Rightarrow> Yield e tt') \<and> tt_rep D S tt' pg' sq'"
    and "\<not> (head_known D S pg' \<and> head_known D S sq') \<Longrightarrow> \<exists>es. (es = pg' \<or> es = sq') \<and> \<not> head_known D S es \<and>
      join_turn debug_on pg_first D S tt ord = Inl (Err (UnknownTable (le_table (hd es))))"
proof -
  let ?p = "ord \<noteq> Greater" and ?s = "ord \<noteq> Less"
  have r: "tt_pg_head tt = first_head D S pg" "delivers D S (tt_pg_stream tt) (tl pg)" "memo_right D S (tt_pg_cache tt)"
     "tt_sq_head tt = first_head D S sq" "delivers D S (tt_sq_stream tt) (tl sq)" "memo_right D S (tt_sq_cache tt)"
    using rep by (simp_all add: tt_rep_def)
  let ?np = "if ?p then map_sum id Some (head_or_error D S (tl pg)) else Inr None :: 'x fail + 'x head option option"
  let ?ns = "if ?s then map_sum id Some (head_or_error D S (tl sq)) else Inr None :: 'x fail + 'x head option option"
  obtain s1 cp where p: "pull_if ?p D S (tt_pg_stream tt) (tt_pg_cache tt) Postgres = (?np, s1, cp)"
      "delivers D S s1 (tl pg')" "memo_right D S cp"
    unfolding pg'_def using pull_if_head [OF inv r(2,3), of ?p Postgres] by blast
  obtain s2 cs where s: "pull_if ?s D S (tt_sq_stream tt) (tt_sq_cache tt) Sqlite = (?ns, s2, cs)"
      "delivers D S s2 (tl sq')" "memo_right D S cs"
    unfolding sq'_def using pull_if_head [OF inv r(5,6), of ?s Sqlite] by blast
  have np: "?np = (if head_known D S pg' then Inr (if ?p then Some (first_head D S (tl pg)) else None)
      else Inl (Err (UnknownTable (le_table (hd pg')))))"
    using log(3) by (simp add: pg'_def rest_if_def head_or_error_def)
  have ns: "?ns = (if head_known D S sq' then Inr (if ?s then Some (first_head D S (tl sq)) else None)
      else Inl (Err (UnknownTable (le_table (hd sq')))))"
    using log(4) by (simp add: sq'_def rest_if_def head_or_error_def)
  show "\<exists>tt'. join_turn debug_on pg_first D S tt ord =
      Inr (case decide D S (if ord \<noteq> Greater then Some (hd pg) else None) (if ord \<noteq> Less then Some (hd sq) else None) of
             None \<Rightarrow> Skip tt' | Some e \<Rightarrow> Yield e tt') \<and> tt_rep D S tt' pg' sq'"
    if k: "head_known D S pg'" "head_known D S sq'"
  proof -
    have ip: "install debug_on S (first_head D S pg) (if ?p then Some (first_head D S (tl pg)) else None) =
        Inr (if ?p then first_head D S pg else None, first_head D S pg' :: 'x head option)"
      unfolding pg'_def by (rule install_good [OF inv log(1,3)]) (use k in \<open>simp add: pg'_def\<close>)
    have is': "install debug_on S (first_head D S sq) (if ?s then Some (first_head D S (tl sq)) else None) =
        Inr (if ?s then first_head D S sq else None, first_head D S sq' :: 'x head option)"
      unfolding sq'_def by (rule install_good [OF inv log(2,4)]) (use k in \<open>simp add: sq'_def\<close>)
    have taken: "(if ?p then first_head D S pg else None) = (map_option (head_of D S) (if ?p then Some (hd pg) else None) :: 'x head option)"
       "(if ?s then first_head D S sq else None) = (map_option (head_of D S) (if ?s then Some (hd sq) else None) :: 'x head option)"
      using ne by (auto simp: first_head_def split: list.splits)
    have "?p \<or> ?s" by (cases ord) auto
    then have res: "resolve_heads (if ?p then first_head D S pg else None :: 'x head option) (if ?s then first_head D S sq else None) =
        Inr (decide D S (if ?p then Some (hd pg) else None) (if ?s then Some (hd sq) else None))"
      unfolding taken by (intro resolve_heads_good) auto
    show ?thesis
      unfolding join_turn_def r(1,4) p(1) s(1)
      by (simp only: np ns k if_True prod.case try_join_def sum.case sum_bind_simps ip is' res Let_def)
        (intro exI conjI, rule refl, use p(2,3) s(2,3) in \<open>simp add: tt_rep_def\<close>)
  qed
  show "\<exists>es. (es = pg' \<or> es = sq') \<and> \<not> head_known D S es \<and>
      join_turn debug_on pg_first D S tt ord = Inl (Err (UnknownTable (le_table (hd es))))"
    if "\<not> (head_known D S pg' \<and> head_known D S sq')"
    unfolding join_turn_def p(1) s(1)
    by (cases "head_known D S pg'"; cases "head_known D S sq'"; cases pg_first)
      (use that in \<open>auto simp only: np ns if_True if_False prod.case try_join_def sum.case sum_bind_simps\<close>)
qed

lemma drain_turn:
  "drain debug_on pg_first D S tt = (case next_turn debug_on pg_first D S tt of
     Inl e \<Rightarrow> Inl e
   | Inr Exhausted \<Rightarrow> Inr []
   | Inr (Yield e tt') \<Rightarrow> map_sum id (\<lambda>es. e # es) (drain debug_on pg_first D S tt')
   | Inr (Skip tt') \<Rightarrow> drain debug_on pg_first D S tt')"
proof (cases "next_turn debug_on pg_first D S tt")
  case (Inl e)
  then show ?thesis by (subst drain.simps, subst next_entry.simps) simp
next
  case (Inr r)
  show ?thesis
  proof (cases r)
    case (Skip tt')
    have "next_entry debug_on pg_first D S tt = next_entry debug_on pg_first D S tt'"
      by (subst next_entry.simps) (simp add: Inr Skip)
    then have "drain debug_on pg_first D S tt = drain debug_on pg_first D S tt'"
      by (metis drain.simps)
    then show ?thesis by (simp add: Inr Skip)
  qed (subst drain.simps, subst next_entry.simps, simp add: Inr)+
qed

text \<open>Which side a turn consumes.\<close>

definition turn_order :: "log_entry list \<Rightarrow> log_entry list \<Rightarrow> ordering" where
  "turn_order pg sq = (case pg of [] \<Rightarrow> Greater | p # _ \<Rightarrow>
     (case sq of [] \<Rightarrow> Less | s # _ \<Rightarrow> compare (key p) (key s)))"

lemma turn_order_nonempty:
  assumes "pg \<noteq> [] \<or> sq \<noteq> []"
  shows "turn_order pg sq \<noteq> Greater \<Longrightarrow> pg \<noteq> []" "turn_order pg sq \<noteq> Less \<Longrightarrow> sq \<noteq> []"
  using assms by (auto simp: turn_order_def split: list.splits)

lemma next_turn_join:
  fixes tt :: "'x truth_table"
  assumes inv: "schema_inv D S" and log: "head_known D S pg" "head_known D S sq" and rep: "tt_rep D S tt pg sq"
    and ne: "pg \<noteq> [] \<or> sq \<noteq> []"
  shows "next_turn debug_on pg_first D S tt = join_turn debug_on pg_first D S tt (turn_order pg sq)"
proof -
  have heads: "tt_pg_head tt = first_head D S pg" "tt_sq_head tt = first_head D S sq"
    using rep by (simp_all add: tt_rep_def)
  have "cmp_heads S (head_of D S p) (head_of D S s :: 'x head) = Inr (compare (key p) (key s))"
    if "known D S p" "known D S s" for p s
    by (rule cmp_heads_good [OF inv that])
  then show ?thesis
    using ne log by (cases pg; cases sq) (simp_all add: head_known_def next_turn_def heads first_head_def turn_order_def)
qed

lemma truth_spec_turn:
  assumes srt: "log_sorted pg" "log_sorted sq" and ne: "pg \<noteq> [] \<or> sq \<noteq> []"
  defines "ord \<equiv> turn_order pg sq"
  shows "truth_spec D S pg sq =
    (case decide D S (if ord \<noteq> Greater then Some (hd pg) else None) (if ord \<noteq> Less then Some (hd sq) else None) of
       None \<Rightarrow> [] | Some e \<Rightarrow> [e]) @ truth_spec D S (rest_if (ord \<noteq> Greater) pg) (rest_if (ord \<noteq> Less) sq)"
proof -
  have below: "\<forall>s \<in> set (x # xs). k < key s" if "log_sorted (x # xs)" "k < key x" for k x xs
    using that by (auto simp: log_sorted_Cons)
  show ?thesis
  proof (cases pg)
    case Nil
    then obtain s ss where "sq = s # ss" using ne by (cases sq) auto
    then show ?thesis
      using Nil truth_spec_sq [of "[]" s ss D S] srt by (simp add: ord_def turn_order_def rest_if_def)
  next
    case p: (Cons p ps)
    show ?thesis
    proof (cases sq)
      case Nil
      then show ?thesis
        using p truth_spec_pg [of p ps "[]" D S] srt by (simp add: ord_def turn_order_def rest_if_def)
    next
      case s: (Cons s ss)
      consider "key p < key s" | "key p = key s" | "key s < key p" by (meson less_linear)
      then show ?thesis
      proof cases
        case 1
        then show ?thesis
          using p s truth_spec_pg [of p ps sq D S] srt below [of s ss "key p"]
          by (simp add: ord_def turn_order_def rest_if_def compare_def)
      next
        case 2
        then show ?thesis
          using p s truth_spec_both [of p ps s ss D S] srt
          by (simp add: ord_def turn_order_def rest_if_def compare_def del: decide.simps)
      next
        case 3
        moreover from 3 have "compare (key p) (key s) = Greater" by (auto simp: compare_def)
        ultimately show ?thesis
          using p s truth_spec_sq [of pg s ss D S] srt below [of p ps "key s"]
          by (simp add: ord_def turn_order_def rest_if_def)
      qed
    qed
  qed
qed

text \<open>A turn leaves less to read.\<close>

lemma rest_shorter:
  assumes "pg \<noteq> [] \<or> sq \<noteq> []"
  defines "ord \<equiv> turn_order pg sq"
  shows "length (rest_if (ord \<noteq> Greater) pg) + length (rest_if (ord \<noteq> Less) sq) < length pg + length sq"
proof -
  have "ord \<noteq> Greater \<Longrightarrow> length pg > 0" "ord \<noteq> Less \<Longrightarrow> length sq > 0"
    using turn_order_nonempty [OF assms(1)] by (simp_all add: ord_def)
  then show ?thesis by (cases ord) (simp_all add: rest_if_def del: length_greater_0_conv)
qed

lemma drain_good:
  fixes tt :: "'x truth_table"
  assumes "schema_inv D S" "log_ok D S pg" "log_ok D S sq" "tt_rep D S tt pg sq"
  shows "drain debug_on pg_first D S tt = Inr (truth_spec D S pg sq)"
  using assms
proof (induction "length pg + length sq" arbitrary: pg sq tt rule: less_induct)
  case less
  show ?case
  proof (cases "pg = [] \<and> sq = []")
    case True
    then have "next_turn debug_on pg_first D S tt = Inr Exhausted"
      using less.prems(4) by (simp add: next_turn_def tt_rep_def first_head_def)
    then show ?thesis using True by (simp add: drain_turn [of debug_on pg_first D S tt] truth_spec_Nil)
  next
    case False
    then have ne: "pg \<noteq> [] \<or> sq \<noteq> []" by blast
    define ord where "ord = turn_order pg sq"
    let ?d = "decide D S (if ord \<noteq> Greater then Some (hd pg) else None) (if ord \<noteq> Less then Some (hd sq) else None)"
    let ?pg = "rest_if (ord \<noteq> Greater) pg" and ?sq = "rest_if (ord \<noteq> Less) sq"
    note logs = less.prems(2,3) [THEN log_ok_head]
    have ok: "log_ok D S ?pg" "log_ok D S ?sq" using less.prems(2,3) log_ok_rest by blast+
    note nel = turn_order_nonempty [OF ne, folded ord_def]
    obtain tt' where tt': "next_turn debug_on pg_first D S tt = Inr (case ?d of None \<Rightarrow> Skip tt' | Some e \<Rightarrow> Yield e tt')"
        "tt_rep D S tt' ?pg ?sq"
      using join_turn_step(1) [OF less.prems(1) _ _ _ _ less.prems(4) nel] logs ok [THEN log_ok_head]
        next_turn_join [OF less.prems(1) _ _ less.prems(4) ne, of debug_on pg_first] ord_def by metis
    then have IH: "drain debug_on pg_first D S tt' = Inr (truth_spec D S ?pg ?sq)"
      using less.hyps [OF _ less.prems(1) ok] rest_shorter [OF ne] by (simp add: ord_def)
    have "truth_spec D S pg sq = (case ?d of None \<Rightarrow> [] | Some e \<Rightarrow> [e]) @ truth_spec D S ?pg ?sq"
      using truth_spec_turn [OF _ _ ne, of D S] less.prems(2,3) by (simp add: log_ok_def ord_def)
    then show ?thesis
      using tt'(1) IH by (cases ?d) (simp_all add: drain_turn [of debug_on pg_first D S tt])
  qed
qed

section \<open>Rows of unknown tables\<close>

text \<open>The first row of a log whose table the schema does not know.\<close>

definition first_unknown :: "'t deps \<Rightarrow> 't database_schema \<Rightarrow> log_entry list \<Rightarrow> log_entry option" where
  "first_unknown D S es = find (\<lambda>e. \<not> known D S e) es"

lemma first_unknown_bad: "\<not> head_known D S es \<Longrightarrow> first_unknown D S es = Some (hd es)"
  by (cases es) (simp_all add: head_known_def first_unknown_def)

lemma first_unknown_rest: "head_known D S es \<Longrightarrow> first_unknown D S (rest_if b es) = first_unknown D S es"
  by (cases es) (simp_all add: rest_if_def head_known_def first_unknown_def)

lemma drain_unknown:
  fixes tt :: "'x truth_table"
  assumes "schema_inv D S" "log_sorted pg" "log_sorted sq" "head_known D S pg" "head_known D S sq"
    "tt_rep D S tt pg sq" "first_unknown D S pg \<noteq> None \<or> first_unknown D S sq \<noteq> None"
  shows "\<exists>e. (first_unknown D S pg = Some e \<or> first_unknown D S sq = Some e) \<and>
    drain debug_on pg_first D S tt = Inl (Err (UnknownTable (le_table e)))"
  using assms
proof (induction "length pg + length sq" arbitrary: pg sq tt rule: less_induct)
  case less
  have ne: "pg \<noteq> [] \<or> sq \<noteq> []" using less.prems(7) by (auto simp: first_unknown_def)
  define ord where "ord = turn_order pg sq"
  let ?pg = "rest_if (ord \<noteq> Greater) pg" and ?sq = "rest_if (ord \<noteq> Less) sq"
  note nel = turn_order_nonempty [OF ne, folded ord_def]
  note step = join_turn_step [OF less.prems(1-6) nel, where debug_on = debug_on and pg_first = pg_first]
  have nt: "next_turn debug_on pg_first D S tt = join_turn debug_on pg_first D S tt ord"
    using next_turn_join [OF less.prems(1,4,5,6) ne] by (simp add: ord_def)
  note fu = less.prems(4,5) [THEN first_unknown_rest]
  show ?case
  proof (cases "head_known D S ?pg \<and> head_known D S ?sq")
    case False
    then obtain es where "es = ?pg \<or> es = ?sq" "\<not> head_known D S es"
        "next_turn debug_on pg_first D S tt = Inl (Err (UnknownTable (le_table (hd es))))"
      using step(2) nt by metis
    moreover from this have "first_unknown D S pg = Some (hd es) \<or> first_unknown D S sq = Some (hd es)"
      using first_unknown_bad fu by metis
    ultimately show ?thesis by (auto simp: drain_turn [of debug_on pg_first D S tt])
  next
    case True
    then obtain r tt' where tt': "next_turn debug_on pg_first D S tt = Inr (case r of None \<Rightarrow> Skip tt' | Some e \<Rightarrow> Yield e tt')"
        "tt_rep D S tt' ?pg ?sq"
      using step(1) nt by metis
    have "\<exists>e. (first_unknown D S ?pg = Some e \<or> first_unknown D S ?sq = Some e) \<and>
        drain debug_on pg_first D S tt' = Inl (Err (UnknownTable (le_table e)))"
      by (rule less.hyps)
        (use less.prems True tt'(2) rest_shorter [OF ne] log_sorted_rest in \<open>simp_all add: ord_def fu\<close>)
    then show ?thesis
      using tt'(1) unfolding fu by (cases r) (auto simp: drain_turn [of debug_on pg_first D S tt])
  qed
qed

end
