(* ===== verification/Sync_Props.thy ===== *)
theory Sync_Props
  imports Truth_Table_Correct Schema_Props
begin

unbundle bit_operations_syntax

text \<open>
  Properties of the sync merge: what a complete run yields, that no error of a stream is
  lost, which side wins, and what happens to a table the schema does not know.
\<close>

section \<open>Two small logs\<close>

definition log_pg :: "log_entry list" where
  "log_pg = [\<lparr>le_table = lit ''a'', le_record = lit ''1'', le_op = Insert, le_version = 1, le_updated = 10\<rparr>,
    \<lparr>le_table = lit ''b'', le_record = lit ''2'', le_op = Update, le_version = 3, le_updated = 30\<rparr>]"

definition log_sq :: "log_entry list" where
  "log_sq = [\<lparr>le_table = lit ''b'', le_record = lit ''2'', le_op = Update, le_version = 2, le_updated = 40\<rparr>]"

lemma demo_inv: "schema_inv demo_D demo_S"
  using demo_D_ok fresh_I_rep by (auto simp: interner_inv_def)

lemma known_letter: "le_table e = [c] \<Longrightarrow> unat c < 128 \<Longrightarrow> known demo_D demo_S e"
  by (simp add: known_def interner_lookup_rep [OF demo_D_ok fresh_I_rep] abs_get_def)

lemma demo_logs: "log_ok demo_D demo_S log_pg" "log_ok demo_D demo_S log_sq"
  by (auto simp: log_ok_def log_sorted_def log_pg_def log_sq_def key_def lit_def less_prod_def intro: known_letter)

section \<open>A complete run\<close>

text \<open>
  C4: opening the truth table on two logs and calling \<open>next_entry\<close> until it returns
  \<open>None\<close> yields, in ascending key order, exactly the keys on which the logs diverge, each once
  and with the action of the policy.  The logs must be strictly ascending by key and mention
  only tables of the schema; then there is no error and no panic, in debug builds too.  The
  threads that receive the rows may have any cache that does not mislead the lookup of a
  row's table: one without entries of this interner, or a valid one where no stored string
  can be confused with the table name.
\<close>

theorem merge_correct:
  assumes "schema_inv D S" "log_ok D S pg" "log_ok D S sq" "delivers D S spg pg" "delivers D S ssq sq"
  shows "\<exists>tt. truth_table_new pg_first D S spg ssq = Inr tt \<and>
    drain debug_on pg_first D S tt = Inr (truth_spec D S pg sq)"
  using new_good [OF assms(1,4,5)] drain_good [OF assms(1-3)] log_ok_head assms(2,3) by blast

theorem merge_correct_witness:
  "\<exists>tt. truth_table_new True demo_D demo_S (stream_of log_pg) (stream_of log_sq) = Inr tt \<and>
    drain True True demo_D demo_S tt = Inr (truth_spec demo_D demo_S log_pg log_sq)"
  by (rule merge_correct [OF demo_inv demo_logs delivers_stream_of [OF demo_inv] delivers_stream_of [OF demo_inv]])

section \<open>Errors\<close>

text \<open>A stream item that can be turned into a head.\<close>

definition readable :: "local_cache \<times> ('x sqlx_error + 'x log_row) \<Rightarrow> bool" where
  "readable x \<longleftrightarrow> (\<exists>row t r op v u. snd x = Inr row \<and> lr_table row = Inr t \<and> lr_record_id row = Inr r \<and>
     lr_op row = Inr (op_text op) \<and> lr_version row = Inr v \<and> lr_updated_at row = Inr u)"

lemma op_try_from_Inr: "op_try_from s = Inr op \<Longrightarrow> s = op_text op"
  by (auto simp: op_try_from_def split: if_splits)

lemma map_err_ok [simp]: "map_err f (Inr x) = Inr x"
  by (simp add: map_err_def)

lemma map_err_Inr: "map_err f r = Inr x \<longleftrightarrow> r = Inr x"
  by (cases r) (simp_all add: map_err_def)

lemma op_case_Inr: "(case op_try_from x of Inl bad \<Rightarrow> Inl (f bad) | Inr op \<Rightarrow> Inr op) = Inr z \<longleftrightarrow> op_try_from x = Inr z"
  by (cases "op_try_from x") simp_all

lemma head_new_readable:
  fixes row :: "'x log_row"
  assumes "head_new D S lc row c db_err = (Inr h, c')"
  shows "readable (lc, Inr row)"
proof (cases "lr_table row")
  case (Inl e)
  then show ?thesis using assms by (simp add: head_new_def map_err_def)
next
  case (Inr t)
  obtain r d where r: "symbol_for D S lc c t = (r :: 'x fail + symbol, d)" by fastforce
  show ?thesis
  proof (cases r)
    case (Inl e)
    then show ?thesis using assms Inr r by (simp add: head_new_def map_err_def)
  next
    case y: (Inr y)
    then show ?thesis
      using assms Inr r y by (auto simp: head_new_def readable_def sum_bind_Inr map_err_Inr op_case_Inr dest!: op_try_from_Inr)
  qed
qed

lemma pull_readable:
  assumes "pull D S s c db_err = (Inr r, s', c')"
  shows "list_all readable s' \<Longrightarrow> list_all readable s" "r = None \<Longrightarrow> s' = []"
  using assms head_new_readable
  by (auto simp: pull_def map_sum_Inr split: list.splits sum.splits prod.splits)

lemma side_readable:
  assumes "pull_if takes_part D S s c db_err = (Inr pulled, s', c')" "install debug_on S cur pulled = Inr (old, new)"
    "cur = None \<longrightarrow> s = []"
  shows "list_all readable s' \<Longrightarrow> list_all readable s" "new = None \<longrightarrow> s' = []"
proof -
  have "(list_all readable s' \<longrightarrow> list_all readable s) \<and> (new = None \<longrightarrow> s' = [])"
  proof (cases takes_part)
    case True
    then obtain r where r: "pull D S s c db_err = (Inr r, s', c')" "pulled = Some r"
      using assms(1) by (auto simp: pull_if_def map_sum_Inr split: prod.splits)
    moreover from this have "new = r" using assms(2) advance_Inr by (fastforce simp: install_def)
    ultimately show ?thesis using pull_readable [OF r(1)] by blast
  qed (use assms in \<open>auto simp: pull_if_def install_def\<close>)
  then show "list_all readable s' \<Longrightarrow> list_all readable s" "new = None \<longrightarrow> s' = []" by blast+
qed

definition primed :: "'x truth_table \<Rightarrow> bool" where
  "primed tt \<longleftrightarrow> (tt_pg_head tt = None \<longrightarrow> tt_pg_stream tt = []) \<and> (tt_sq_head tt = None \<longrightarrow> tt_sq_stream tt = [])"

definition clean :: "'x truth_table \<Rightarrow> bool" where
  "clean tt \<longleftrightarrow> list_all readable (tt_pg_stream tt) \<and> list_all readable (tt_sq_stream tt)"

lemma join_turn_readable:
  assumes "join_turn debug_on pg_first D S tt ord = Inr r" "r = Skip tt' \<or> r = Yield e tt'" "primed tt"
  shows "primed tt' \<and> (clean tt' \<longrightarrow> clean tt)"
proof -
  obtain rp pg' cp rs sq' cs where p: "pull_if (ord \<noteq> Greater) D S (tt_pg_stream tt) (tt_pg_cache tt) Postgres = (rp, pg', cp)"
      "pull_if (ord \<noteq> Less) D S (tt_sq_stream tt) (tt_sq_cache tt) Sqlite = (rs, sq', cs)"
    by (metis prod_cases3)
  from assms(1) obtain np ns pg ph sq sh where j: "rp = Inr np" "rs = Inr ns"
      "install debug_on S (tt_pg_head tt) np = Inr (pg, ph)" "install debug_on S (tt_sq_head tt) ns = Inr (sq, sh)"
      and t: "r \<noteq> Exhausted" "\<And>e u. r = Yield e u \<or> r = Skip u \<Longrightarrow>
        u = \<lparr>tt_pg_stream = pg', tt_sq_stream = sq', tt_pg_cache = cp, tt_sq_cache = cs,
             tt_pg_head = ph, tt_sq_head = sh\<rparr>"
    by (auto simp: join_turn_def p sum_bind_Inr try_join_Inr Let_def split: option.splits)
  have tt': "tt_pg_stream tt' = pg'" "tt_sq_stream tt' = sq'" "tt_pg_head tt' = ph" "tt_sq_head tt' = sh"
    using t(2) [of e tt'] assms(2) by auto
  show ?thesis
    using side_readable [OF p(1) [unfolded j(1)] j(3)] side_readable [OF p(2) [unfolded j(2)] j(4)] assms(3)
    by (simp add: primed_def clean_def tt')
qed

lemma next_turn_readable:
  assumes "next_turn debug_on pg_first D S tt = Inr r" "primed tt"
  shows "r = Exhausted \<Longrightarrow> clean tt" "r = Skip tt' \<or> r = Yield e tt' \<Longrightarrow> primed tt' \<and> (clean tt' \<longrightarrow> clean tt)"
proof -
  have "join_turn debug_on pg_first D S tt ord \<noteq> Inr Exhausted" for ord
    by (auto simp: join_turn_def sum_bind_Inr Let_def split: option.splits prod.splits)
  then show "r = Exhausted \<Longrightarrow> clean tt"
    using assms by (auto simp: next_turn_def primed_def clean_def sum_bind_Inr split: option.splits)
  show "r = Skip tt' \<or> r = Yield e tt' \<Longrightarrow> primed tt' \<and> (clean tt' \<longrightarrow> clean tt)"
    using assms join_turn_readable [of debug_on pg_first D S tt]
    by (auto simp: next_turn_def sum_bind_Inr split: option.splits)
qed

lemma drain_readable:
  assumes "drain debug_on pg_first D S tt = Inr es" "primed tt"
  shows "clean tt"
  using assms
proof (induction "work tt" arbitrary: tt es rule: less_induct)
  case less
  show ?case
  proof (cases "next_turn debug_on pg_first D S tt")
    case (Inl e)
    then show ?thesis using less.prems by (simp add: drain_turn [of debug_on pg_first D S tt])
  next
    case (Inr r)
    note nt = next_turn_readable [OF Inr less.prems(2)] and w = next_turn_work [OF Inr]
    show ?thesis
    proof (cases r)
      case Exhausted
      then show ?thesis using nt(1) by blast
    next
      case (Yield e tt')
      then obtain es' where "drain debug_on pg_first D S tt' = Inr es'"
        using less.prems(1) Inr by (auto simp: drain_turn [of debug_on pg_first D S tt] map_sum_Inr)
      then show ?thesis using less.hyps [of tt' es'] nt(2) [of tt' e] w [of tt' e] Yield by blast
    next
      case (Skip tt')
      then have "drain debug_on pg_first D S tt' = Inr es"
        using less.prems(1) Inr by (simp add: drain_turn [of debug_on pg_first D S tt])
      then show ?thesis using less.hyps [of tt' es] nt(2) [of tt'] w [of tt'] Skip by blast
    qed
  qed
qed

text \<open>
  C26: no error is lost.  A run that ends without an error has read both streams to the end,
  and every item of them was a row: no driver error, and in each row all five columns were
  readable and the operation was one of \<open>I\<close>, \<open>U\<close>, \<open>D\<close>.
\<close>

theorem errors_not_lost:
  assumes "truth_table_new pg_first D S pg sq = Inr tt" "drain debug_on pg_first D S tt = Inr es"
  shows "list_all readable pg \<and> list_all readable sq"
proof -
  obtain rp pg' cp rs sq' cs where p: "pull D S pg table_cache_default Postgres = (rp, pg', cp)"
      "pull D S sq table_cache_default Sqlite = (rs, sq', cs)"
    by (metis prod_cases3)
  from assms(1) obtain hp hs where j: "rp = Inr hp" "rs = Inr hs"
      "tt = \<lparr>tt_pg_stream = pg', tt_sq_stream = sq', tt_pg_cache = cp, tt_sq_cache = cs,
             tt_pg_head = hp, tt_sq_head = hs\<rparr>"
    by (auto simp: truth_table_new_def p sum_bind_Inr try_join_Inr)
  note pr = pull_readable [OF p(1) [unfolded j(1)]] pull_readable [OF p(2) [unfolded j(2)]]
  have "primed tt" using pr by (simp add: primed_def j(3))
  then have "clean tt" using drain_readable [OF assms(2)] by blast
  then show ?thesis using pr by (simp add: clean_def j(3))
qed

theorem errors_not_lost_witness: "list_all readable (stream_of log_pg :: unit stream)"
proof -
  let ?p = "stream_of log_pg :: unit stream" and ?s = "stream_of log_sq :: unit stream"
  obtain tt where "truth_table_new True demo_D demo_S ?p ?s = Inr tt" "tt_rep demo_D demo_S tt log_pg log_sq"
    using new_good [OF demo_inv delivers_stream_of [OF demo_inv] delivers_stream_of [OF demo_inv]]
      demo_logs [THEN log_ok_head] by blast
  then show ?thesis using errors_not_lost drain_good [OF demo_inv demo_logs] by blast
qed

text \<open>A run from opening the two streams to the end.\<close>

definition run_merge ::
  "bool \<Rightarrow> bool \<Rightarrow> 't deps \<Rightarrow> 't database_schema \<Rightarrow> 'x stream \<Rightarrow> 'x stream \<Rightarrow> 'x fail + sync_truth_entry list" where
  "run_merge debug_on pg_first D S pg sq = sum_bind (truth_table_new pg_first D S pg sq) (drain debug_on pg_first D S)"

text \<open>
  C35: a row of a table whose name is not interned in the schema stops the merge with
  \<open>UnknownTable\<close>, on either side and wherever it stands in its log: opening the truth table and
  calling \<open>next_entry\<close> until it returns \<open>None\<close> ends with the error for the first such row of one
  of the two logs.  The logs must be strictly ascending by key and the caches of the
  threads as for the complete run.
\<close>

theorem unknown_table_stops:
  assumes "schema_inv D S" "log_sorted pg" "log_sorted sq" "delivers D S spg pg" "delivers D S ssq sq"
    "\<exists>e \<in> set pg \<union> set sq. \<not> known D S e"
  shows "\<exists>e. (first_unknown D S pg = Some e \<or> first_unknown D S sq = Some e) \<and>
    run_merge debug_on pg_first D S spg ssq = Inl (Err (UnknownTable (le_table e)))"
proof (cases "head_known D S pg \<and> head_known D S sq")
  case True
  then obtain tt where "truth_table_new pg_first D S spg ssq = Inr tt" "tt_rep D S tt pg sq"
    using new_good [OF assms(1,4,5)] by blast
  moreover have "first_unknown D S pg \<noteq> None \<or> first_unknown D S sq \<noteq> None"
    using assms(6) by (auto simp: first_unknown_def find_None_iff)
  ultimately show ?thesis
    using drain_unknown [OF assms(1-3)] True by (auto simp: run_merge_def)
next
  case False
  then obtain es where es: "es = pg \<or> es = sq" "\<not> head_known D S es"
      "truth_table_new pg_first D S spg ssq = Inl (Err (UnknownTable (le_table (hd es))))"
    using new_unknown [OF assms(1,4,5)] by blast
  then show ?thesis using first_unknown_bad [OF es(2)] by (auto simp: run_merge_def)
qed

text \<open>The second SQLite row names its table with its namespace.\<close>

theorem unknown_table_stops_witness:
  "run_merge True False demo_D demo_S (stream_of log_pg)
     (stream_of (log_sq @ [\<lparr>le_table = lit ''public.a'', le_record = lit ''1'', le_op = Insert, le_version = 1, le_updated = 10\<rparr>]))
   = Inl (Err (UnknownTable (lit ''public.a'')))"
proof -
  let ?e = "\<lparr>le_table = lit ''public.a'', le_record = lit ''1'', le_op = Insert, le_version = 1, le_updated = 10\<rparr>"
  let ?sq = "log_sq @ [?e]"
  have st: "static_symbol (lit ''public.a'') = None" by (simp add: static_symbol_def lit_def)
  have "abs_get demo_D (replicate 16 []) (lit ''public.a'') = None"
    using hello_home [of "lit ''public.a''"] by (simp add: abs_get_dynamic [OF st] abs_find_None)
  then have un: "\<not> known demo_D demo_S ?e"
    by (simp add: known_def interner_lookup_rep [OF demo_D_ok fresh_I_rep])
  have k: "known demo_D demo_S e" if "e \<in> set log_pg \<union> set log_sq" for e
    using that demo_logs by (auto simp: log_ok_def)
  have fu: "first_unknown demo_D demo_S log_pg = None" "first_unknown demo_D demo_S ?sq = Some ?e"
    using k un by (auto simp: first_unknown_def find_None_iff log_sq_def)
  have "log_sorted ?sq" by (simp add: log_sorted_def log_sq_def key_def lit_def less_prod_def)
  moreover have "log_sorted log_pg" using demo_logs by (simp add: log_ok_def)
  ultimately show ?thesis
    using unknown_table_stops [OF demo_inv, of log_pg ?sq "stream_of log_pg" "stream_of ?sq" True False]
      delivers_stream_of [OF demo_inv] un fu by auto
qed

section \<open>The winner\<close>

text \<open>
  C23: the policy for one record.  Nothing is reported exactly when both sides have the record
  with equal version, time and operation; a reported entry carries what each side holds, and
  the winning entry, when there is one, is at least as late as the other side's in
  \<open>(version, updated_at)\<close> order, read as signed integers.  It is a conflict exactly when the
  clocks are equal and the operations differ.
\<close>

theorem resolve_policy:
  assumes "pg \<noteq> None \<or> sq \<noteq> None"
  shows "\<exists>r. resolve_heads (map_option (head_of D S) pg) (map_option (head_of D S) sq) = Inr r \<and>
    (r = None \<longleftrightarrow> (\<exists>p s. pg = Some p \<and> sq = Some s \<and> clock p = clock s \<and> le_op p = le_op s)) \<and>
    (\<forall>e. r = Some e \<longrightarrow>
       te_postgres e = map_option (entry_of D S) pg \<and> te_sqlite e = map_option (entry_of D S) sq \<and>
       (winning_entry e = None \<longleftrightarrow> (\<exists>p s. pg = Some p \<and> sq = Some s \<and> clock p = clock s \<and> le_op p \<noteq> le_op s)) \<and>
       (\<forall>w x. winning_entry e = Some (entry_of D S w) \<longrightarrow> pg = Some x \<or> sq = Some x \<longrightarrow> clock x \<le> clock w))"
proof -
  have clk: "entry_of D S a = entry_of D S b \<Longrightarrow> clock a = clock b" for a b
    by (simp add: entry_of_def clock_def)
  show ?thesis
    unfolding resolve_heads_good [OF assms]
    using assms by (cases pg; cases sq) (auto simp: winning_entry_def Let_def not_less dest!: clk split: if_splits)
qed

theorem resolve_policy_witness:
  "\<exists>r. resolve_heads (map_option (head_of demo_D demo_S) (Some (hd log_sq))) None = Inr r \<and> r \<noteq> None"
  using resolve_policy [of "Some (hd log_sq)" None demo_D demo_S] by auto

end
