(* ===== verification/Sql_Text.thy ===== *)
theory Sql_Text
  imports Prelude
begin

unbundle bit_operations_syntax

text \<open>
  SQL text: the quoting of identifiers and string literals (\<open>Ident\<close> and \<open>Lit\<close> of
  \<open>core.rs\<close>), the string functions of the standard library the dialects use, and a reader
  of quoted text that the properties are stated with.  Strings are their UTF-8 bytes; the two
  quote characters are ASCII, and an ASCII byte of valid UTF-8 is always that character, so a
  walk over the bytes does what the source's walk over \<open>chars()\<close> does.
\<close>

named_theorems sql_simps \<open>reading of SQL text\<close>

section \<open>Quoting\<close>

abbreviation DQUOTE :: u8 where "DQUOTE \<equiv> 34"
abbreviation SQUOTE :: u8 where "SQUOTE \<equiv> 39"

text \<open>The loop of both \<open>fmt\<close> functions: the quote character is written twice.\<close>

definition doubled :: "u8 \<Rightarrow> str \<Rightarrow> str" where
  "doubled q s = concat (map (\<lambda>c. if c = q then [q, c] else [c]) s)"

definition ident_fmt :: "str \<Rightarrow> str" where
  "ident_fmt s = [DQUOTE] @ doubled DQUOTE s @ [DQUOTE]"

definition lit_fmt :: "str \<Rightarrow> str" where
  "lit_fmt s = [SQUOTE] @ doubled SQUOTE s @ [SQUOTE]"

section \<open>Reading quoted text\<close>

text \<open>
  SQL's rule for quoted text, after the opening quote: a doubled quote stands for one, a single
  one ends the text.  The result is the text and the rest of the input; \<open>None\<close> if the text
  never ends.
\<close>

fun unquote :: "u8 \<Rightarrow> str \<Rightarrow> (str \<times> str) option" where
  "unquote q [] = None"
| "unquote q (c # cs) =
     (if c \<noteq> q then map_option (map_prod (Cons c) id) (unquote q cs)
      else case cs of
          [] \<Rightarrow> Some ([], [])
        | d # ds \<Rightarrow> if d = q then map_option (map_prod (Cons q) id) (unquote q ds) else Some ([], d # ds))"

text \<open>Statement text as a list of quoted names, quoted texts and single bytes.\<close>

datatype sql_token = Name str | Text str | Byte u8 | Unterminated

lemma unquote_shorter: "unquote q cs = Some (s, r) \<Longrightarrow> length r < length cs"
proof (induction q cs arbitrary: s rule: unquote.induct)
  case (2 q c cs)
  show ?case
  proof (cases "c \<noteq> q")
    case True
    then show ?thesis using 2 by (fastforce simp: less_Suc_eq)
  next
    case False
    then show ?thesis using 2 by (cases cs) (fastforce split: if_splits simp: less_Suc_eq)+
  qed
qed simp

function (sequential) sql_lex :: "str \<Rightarrow> sql_token list" where
  "sql_lex [] = []"
| "sql_lex (c # cs) =
     (if c = DQUOTE then
        (case unquote DQUOTE cs of None \<Rightarrow> [Unterminated] | Some (s, r) \<Rightarrow> Name s # sql_lex r)
      else if c = SQUOTE then
        (case unquote SQUOTE cs of None \<Rightarrow> [Unterminated] | Some (s, r) \<Rightarrow> Text s # sql_lex r)
      else Byte c # sql_lex cs)"
  by pat_completeness auto
termination
  by (relation "measure length") (auto dest: unquote_shorter)

declare sql_lex.simps(2) [simp del]

definition names_of :: "sql_token list \<Rightarrow> str list" where
  "names_of ts = concat (map (\<lambda>t. case t of Name s \<Rightarrow> [s] | _ \<Rightarrow> []) ts)"

text \<open>The first byte of the rest is not a quote.\<close>

definition unquoted_start :: "str \<Rightarrow> bool" where
  "unquoted_start r \<longleftrightarrow> (case r of [] \<Rightarrow> True | c # _ \<Rightarrow> c \<noteq> DQUOTE \<and> c \<noteq> SQUOTE)"

lemma unquote_doubled:
  "(case r of [] \<Rightarrow> True | c # _ \<Rightarrow> c \<noteq> q) \<Longrightarrow> unquote q (doubled q s @ q # r) = Some (s, r)"
  by (induction s) (auto simp: doubled_def split: list.splits)

lemma sql_lex_ident [sql_simps]:
  "unquoted_start r \<Longrightarrow> sql_lex (ident_fmt s @ r) = Name s # sql_lex r"
  using unquote_doubled [where r = r and q = DQUOTE and s = s]
  by (simp add: ident_fmt_def sql_lex.simps unquoted_start_def split: list.splits)

lemma sql_lex_lit [sql_simps]:
  "unquoted_start r \<Longrightarrow> sql_lex (lit_fmt s @ r) = Text s # sql_lex r"
  using unquote_doubled [where r = r and q = SQUOTE and s = s]
  by (simp add: lit_fmt_def sql_lex.simps unquoted_start_def split: list.splits)

text \<open>Text without quotes.\<close>

definition plain :: "str \<Rightarrow> bool" where
  "plain s \<longleftrightarrow> list_all (\<lambda>c. c \<noteq> DQUOTE \<and> c \<noteq> SQUOTE) s"

lemma sql_lex_plain: "plain s \<Longrightarrow> sql_lex (s @ r) = map Byte s @ sql_lex r"
  by (induction s) (simp_all add: plain_def sql_lex.simps)

lemma of_char_inj: "(of_char c :: u8) = of_char d \<longleftrightarrow> c = d"
proof
  have small: "of_char c < (256 :: nat)" for c by (cases c) (auto simp: of_char_def)
  have "unat (of_char c :: u8) = of_char c" for c
  proof -
    have "(of_char c :: u8) = word_of_nat (of_char c)" by (simp add: of_nat_of_char)
    then show ?thesis using small [of c] by (simp add: unat_word_of_nat_small)
  qed
  moreover assume "(of_char c :: u8) = of_char d"
  ultimately have "(of_char c :: nat) = of_char d" by metis
  then show "c = d" by simp
qed simp

lemma of_char_quotes:
  "(of_char c :: u8) = DQUOTE \<longleftrightarrow> c = CHR 0x22" "(of_char c :: u8) = SQUOTE \<longleftrightarrow> c = CHR 0x27"
  using of_char_inj [of c "CHR 0x22"] of_char_inj [of c "CHR 0x27"] by simp_all

lemma plain_lit: "plain (lit s) \<longleftrightarrow> list_all (\<lambda>c. c \<noteq> CHR 0x22 \<and> c \<noteq> CHR 0x27) s"
  by (simp add: plain_def lit_def list_all_iff of_char_quotes)

lemma sql_lex_plain_lit [sql_simps]:
  "list_all (\<lambda>c. c \<noteq> CHR 0x22 \<and> c \<noteq> CHR 0x27) s \<Longrightarrow> sql_lex (lit s @ r) = map Byte (lit s) @ sql_lex r"
  by (rule sql_lex_plain) (simp add: plain_lit)

lemma unquoted_start_lit [sql_simps]:
  "unquoted_start (lit (c # s) @ r) \<longleftrightarrow> c \<noteq> CHR 0x22 \<and> c \<noteq> CHR 0x27"
  by (simp add: unquoted_start_def lit_def of_char_quotes)

lemma names_of_simps [simp]:
  "names_of [] = []" "names_of (Name s # ts) = s # names_of ts" "names_of (Text s # ts) = names_of ts"
  "names_of (Byte c # ts) = names_of ts" "names_of (ts @ us) = names_of ts @ names_of us"
  "names_of (map Byte s @ ts) = names_of ts"
  by (simp_all add: names_of_def comp_def)

section \<open>Functions of \<open>str\<close>\<close>

text \<open>The characters with the property \<open>White_Space\<close>, in UTF-8.\<close>

definition whitespace :: "str list" where
  "whitespace = [[9], [10], [11], [12], [13], [32], [0xC2, 0x85], [0xC2, 0xA0], [0xE1, 0x9A, 0x80]] @
     map (\<lambda>b. [0xE2, 0x80, b]) [0x80, 0x81, 0x82, 0x83, 0x84, 0x85, 0x86, 0x87, 0x88, 0x89, 0x8A, 0xA8, 0xA9, 0xAF] @
     [[0xE2, 0x81, 0x9F], [0xE3, 0x80, 0x80]]"

function trim_with :: "str list \<Rightarrow> str \<Rightarrow> str" where
  "trim_with ws s =
     (case find (\<lambda>w. w \<noteq> [] \<and> take (length w) s = w) ws of
        None \<Rightarrow> s
      | Some w \<Rightarrow> trim_with ws (drop (length w) s))"
  by pat_completeness auto
termination
proof (relation "measure (\<lambda>(ws, s). length s)")
  fix ws s w assume "find (\<lambda>w. w \<noteq> [] \<and> take (length w) s = w) ws = Some w"
  then have "w \<noteq> []" "take (length w) s = w" by (auto simp: find_Some_iff)
  then show "((ws, drop (length w) s), (ws, s)) \<in> measure (\<lambda>(ws, s). length s)"
    by (metis (no_types, lifting) case_prod_conv diff_less in_measure length_drop length_greater_0_conv take_eq_Nil2)
qed simp

declare trim_with.simps [simp del]

definition trim_start :: "str \<Rightarrow> str" where
  "trim_start s = trim_with whitespace s"

definition trim_end :: "str \<Rightarrow> str" where
  "trim_end s = rev (trim_with (map rev whitespace) (rev s))"

definition trim :: "str \<Rightarrow> str" where
  "trim s = trim_end (trim_start s)"

text \<open>\<open>str::find\<close> with a string pattern, \<open>str::contains\<close>, \<open>eq_ignore_ascii_case\<close>.\<close>

fun find_sub :: "str \<Rightarrow> str \<Rightarrow> nat option" where
  "find_sub pat [] = (if pat = [] then Some 0 else None)"
| "find_sub pat (c # cs) =
     (if take (length pat) (c # cs) = pat then Some 0 else map_option Suc (find_sub pat cs))"

definition contains_sub :: "str \<Rightarrow> str \<Rightarrow> bool" where
  "contains_sub s pat \<longleftrightarrow> find_sub pat s \<noteq> None"

definition to_ascii_lowercase :: "str \<Rightarrow> str" where
  "to_ascii_lowercase s = map (\<lambda>c. if 65 \<le> c \<and> c \<le> 90 then c + 32 else c) s"

definition eq_ignore_ascii_case :: "str \<Rightarrow> str \<Rightarrow> bool" where
  "eq_ignore_ascii_case a b \<longleftrightarrow> to_ascii_lowercase a = to_ascii_lowercase b"

definition is_ascii_digit :: "u8 \<Rightarrow> bool" where
  "is_ascii_digit c \<longleftrightarrow> 48 \<le> c \<and> c \<le> 57"

text \<open>The format \<open>{byte:02x}\<close>, and its reading.\<close>

definition hex_digit :: "nat \<Rightarrow> u8" where
  "hex_digit n = word_of_nat (if n < 10 then 48 + n else 87 + n)"

definition hex_byte :: "u8 \<Rightarrow> str" where
  "hex_byte b = [hex_digit (unat b div 16), hex_digit (unat b mod 16)]"

definition hex_value :: "u8 \<Rightarrow> nat" where
  "hex_value c = (if c \<le> 57 then unat c - 48 else unat c - 87)"

fun unhex :: "str \<Rightarrow> u8 list" where
  "unhex (a # b # cs) = word_of_nat (hex_value a * 16 + hex_value b) # unhex cs"
| "unhex _ = []"

lemma hex_value_digit: "n < 16 \<Longrightarrow> hex_value (hex_digit n) = n"
proof -
  assume n: "n < 16"
  then have "unat (hex_digit n) = (if n < 10 then 48 + n else 87 + n)"
    unfolding hex_digit_def by (intro unat_word_of_nat_small) simp
  then show ?thesis using n by (auto simp: hex_value_def word_le_nat_alt)
qed

lemma unhex_hex: "unhex (concat (map hex_byte bs)) = bs"
proof (induction bs)
  case (Cons b bs)
  have "unat b < 256" using unsigned_less [of b] by simp
  then have "unat b div 16 < 16" "unat b mod 16 < 16" by simp_all
  then have "hex_value (hex_digit (unat b div 16)) * 16 + hex_value (hex_digit (unat b mod 16)) = unat b"
    by (simp add: hex_value_digit)
  then show ?case using Cons by (simp add: hex_byte_def)
qed simp

end
