(* ===== verification/Sqlite_Ddl.thy ===== *)
theory Sqlite_Ddl
  imports Sql_Text Schema_Wf
begin

unbundle bit_operations_syntax

text \<open>
  The SQL the SQLite dialect generates (\<open>dialect/sqlite.rs\<close>): column types, default values,
  \<open>CREATE TABLE\<close> statements, the schema hash and the change-log triggers.
\<close>

section \<open>Types and defaults\<close>

fun sqlite_type :: "value_type \<Rightarrow> str" where
  "sqlite_type VBool = lit ''INTEGER''"
| "sqlite_type VInt = lit ''INTEGER''"
| "sqlite_type VFloat = lit ''REAL''"
| "sqlite_type VBlob = lit ''BLOB''"
| "sqlite_type VNull = lit ''BLOB''"
| "sqlite_type _ = lit ''TEXT''"

definition sqlite_default :: "str \<Rightarrow> str option" where
  "sqlite_default pg_default =
     (let expr0 = trim pg_default;
          expr = (case find_sub (lit ''::'') expr0 of None \<Rightarrow> expr0 | Some pos \<Rightarrow> trim_end (take pos expr0))
      in case expr of
           [] \<Rightarrow> None
         | first # rest \<Rightarrow>
             let is_literal = first = SQUOTE
               \<or> is_ascii_digit first
               \<or> first = of_char (CHR ''-'') \<and> (case rest of [] \<Rightarrow> False | b # _ \<Rightarrow> is_ascii_digit b)
               \<or> eq_ignore_ascii_case expr (lit ''true'')
               \<or> eq_ignore_ascii_case expr (lit ''false'')
               \<or> eq_ignore_ascii_case expr (lit ''null'')
               \<or> eq_ignore_ascii_case expr (lit ''current_timestamp'')
             in if is_literal then Some expr else None)"

section \<open>Creating tables\<close>

definition META_DDL :: str where
  "META_DDL = lit ''CREATE TABLE IF NOT EXISTS __meta__ (key TEXT NOT NULL PRIMARY KEY,value BLOB NOT NULL) WITHOUT ROWID;'' @ [10]"

definition SYNC_LOG_DDL :: str where
  "SYNC_LOG_DDL = lit ''CREATE TABLE IF NOT EXISTS __sync_log__ (table_name  TEXT NOT NULL,record_id   TEXT NOT NULL,'' @
     lit ''op_type     TEXT NOT NULL CHECK (op_type IN ('I','U','D')),version     INTEGER NOT NULL DEFAULT 1,'' @
     lit ''updated_at  INTEGER NOT NULL,PRIMARY KEY (table_name, record_id)) WITHOUT ROWID, STRICT;'' @ [10]"

text \<open>The default of a column as the dialect writes it, if there is one.\<close>

definition column_default :: "'t database_schema \<Rightarrow> column \<Rightarrow> str option res" where
  "column_default S m = (case col_default_value m of
       None \<Rightarrow> Inr None
     | Some y \<Rightarrow> sum_bind (resolve_symbol S y) (\<lambda>r. Inr (Option.bind r sqlite_default)))"

text \<open>One turn of the first loop of \<open>write_create_table\<close>; the flag is \<open>first\<close>.\<close>

definition write_column_def ::
  "'t database_schema \<Rightarrow> nat \<Rightarrow> str \<times> bool \<Rightarrow> (str \<times> bool) res" where
  "write_column_def S c st = (case st of (sql, first) \<Rightarrow>
     sum_bind (column_meta S c) (\<lambda>m.
     sum_bind (column_name S c) (\<lambda>name.
     sum_bind (column_default S m) (\<lambda>default.
     Inr (sql @ (if first then [] else lit '','') @ ident_fmt name @ lit '' '' @ sqlite_type (col_data_type m) @
       (if is_primary_key m then lit '' PRIMARY KEY NOT NULL''
        else (if is_unique m then lit '' UNIQUE'' else []) @ (if is_nullable m then [] else lit '' NOT NULL'')) @
       (case default of None \<Rightarrow> [] | Some d \<Rightarrow> lit '' DEFAULT '' @ d), False)))))"

text \<open>The body of the loop over the foreign keys of a column; the early \<open>continue\<close>s leave the text alone.\<close>

definition write_fk_clause :: "'t database_schema \<Rightarrow> nat \<Rightarrow> foreign_key \<Rightarrow> str \<Rightarrow> str res" where
  "write_fk_clause S c fk sql = (case table_at S (unat (fk_table fk)) of
       None \<Rightarrow> Inr sql
     | Some ref_table \<Rightarrow>
         sum_bind (column_names S ref_table) (\<lambda>names.
         if \<not> unat (fk_column fk) < length names then Inr sql
         else
           sum_bind (resolve_symbol S (names ! unat (fk_column fk))) (\<lambda>r. case r of
               None \<Rightarrow> Inr sql
             | Some ref_col \<Rightarrow>
                 sum_bind (column_name S c) (\<lambda>name.
                 sum_bind (table_name S ref_table) (\<lambda>ref_name.
                 Inr (sql @ lit '',FOREIGN KEY('' @ ident_fmt name @ lit '') REFERENCES '' @ ident_fmt ref_name @
                   lit ''('' @ ident_fmt ref_col @ lit '') ON UPDATE '' @ action_display (fk_on_update fk) @
                   lit '' ON DELETE '' @ action_display (fk_on_delete fk)))))))"

definition write_check :: "'t database_schema \<Rightarrow> symbol \<Rightarrow> str \<Rightarrow> str res" where
  "write_check S y sql = sum_bind (resolve_symbol S y) (\<lambda>r. case r of
       None \<Rightarrow> Inr sql
     | Some check \<Rightarrow>
         if check \<noteq> [] \<and> \<not> contains_sub check (lit ''::'') then Inr (sql @ lit '','' @ check) else Inr sql)"

definition write_create_table :: "'t database_schema \<Rightarrow> u16 \<Rightarrow> str \<Rightarrow> str res" where
  "write_create_table S t sql =
     sum_bind (table_name S t) (\<lambda>name.
     sum_bind (table_columns S t) (\<lambda>cs.
     sum_bind (fold_res (write_column_def S) cs
         (sql @ lit ''CREATE TABLE IF NOT EXISTS '' @ ident_fmt name @ lit '' ('', True)) (\<lambda>(sql, _).
     sum_bind (fold_res (\<lambda>c sql. sum_bind (column_foreign_keys S c) (\<lambda>fks. fold_res (write_fk_clause S c) fks sql))
         cs sql) (\<lambda>sql.
     sum_bind (fold_res (\<lambda>c sql. sum_bind (column_constraints S c) (\<lambda>ys. fold_res (write_check S) ys sql))
         cs sql) (\<lambda>sql.
     Inr (sql @ lit '');'' @ [10]))))))"

definition write_hash_upsert :: "u8 list \<Rightarrow> str \<Rightarrow> str" where
  "write_hash_upsert hash sql = sql @ META_DDL @
     lit ''INSERT INTO __meta__ (key, value) VALUES ('schema_hash', X'' @ [SQUOTE] @
     concat (map hex_byte hash) @ [SQUOTE] @ lit '') ON CONFLICT(key) DO UPDATE SET value = excluded.value;'' @ [10]"

definition build_ddl :: "'t database_schema \<Rightarrow> str res" where
  "build_ddl S =
     sum_bind (fold_res (write_create_table S) (tables S) []) (\<lambda>sql.
     Inr (write_hash_upsert (ds_hash S) (sql @ SYNC_LOG_DDL)))"

section \<open>Triggers\<close>

datatype trigger_event = OnInsert | OnUpdate | OnDelete

fun event_name :: "trigger_event \<Rightarrow> str" where
  "event_name OnInsert = lit ''INSERT''"
| "event_name OnUpdate = lit ''UPDATE''"
| "event_name OnDelete = lit ''DELETE''"

fun event_op :: "trigger_event \<Rightarrow> str" where
  "event_op OnInsert = lit ''I''"
| "event_op OnUpdate = lit ''U''"
| "event_op OnDelete = lit ''D''"

fun event_row :: "trigger_event \<Rightarrow> str" where
  "event_row OnDelete = lit ''OLD''"
| "event_row _ = lit ''NEW''"

text \<open>The body of the inner loop of \<open>setup_triggers\<close>.\<close>

definition trigger_sql :: "str \<Rightarrow> str \<Rightarrow> trigger_event \<Rightarrow> str" where
  "trigger_sql tab primary_col ev =
     lit ''CREATE TRIGGER IF NOT EXISTS '' @
     ident_fmt (lit ''__trg_'' @ tab @ lit ''_'' @ event_name ev @ lit ''_sync_log__'') @
     lit '' AFTER '' @ event_name ev @ lit '' ON '' @ ident_fmt tab @
     lit '' FOR EACH ROW BEGIN INSERT INTO __sync_log__ (table_name, record_id, op_type, version, updated_at) VALUES ('' @
     lit_fmt (lit ''public.'' @ tab) @
     lit '', CAST('' @ event_row ev @ lit ''.'' @ ident_fmt primary_col @ lit '' AS TEXT), '' @
     [SQUOTE] @ event_op ev @ [SQUOTE] @
     lit '', 1, CAST((julianday('now') - 2440587.5) * 86400000 AS INTEGER)) '' @
     lit ''ON CONFLICT (table_name, record_id) DO UPDATE SET op_type = excluded.op_type, '' @
     lit ''version = version + 1, updated_at = excluded.updated_at; END;'' @ [10]"

text \<open>The text for all tables, or the table that has no primary key.\<close>

definition table_triggers :: "'t database_schema \<Rightarrow> u16 \<Rightarrow> (str + str) res" where
  "table_triggers S t =
     sum_bind (table_name S t) (\<lambda>name.
     sum_bind (primary_key S t) (\<lambda>r. case r of
        None \<Rightarrow> Inr (Inl name)
      | Some c \<Rightarrow> sum_bind (column_name S c) (\<lambda>pk.
          Inr (Inr (concat (map (trigger_sql name pk) [OnInsert, OnUpdate, OnDelete]))))))"

fun triggers_loop :: "'t database_schema \<Rightarrow> u16 list \<Rightarrow> str \<Rightarrow> (str + str) res" where
  "triggers_loop S [] sql = Inr (Inr sql)"
| "triggers_loop S (t # ts) sql =
     sum_bind (table_triggers S t) (\<lambda>r. case r of
        Inl name \<Rightarrow> Inr (Inl name)
      | Inr text \<Rightarrow> triggers_loop S ts (sql @ text))"

definition triggers_sql :: "'t database_schema \<Rightarrow> (str + str) res" where
  "triggers_sql S = triggers_loop S (tables S) []"

end
