(* ===== verification/Sqlite_Defaults.thy ===== *)
theory Sqlite_Defaults
  imports Sqlite_Ddl
begin

unbundle bit_operations_syntax

text \<open>
  Column defaults: what the SQLite dialect makes of a default that Postgres prints as a cast
  literal.  The cut at the first two colons is followed through the trimming of white space
  and read back with the rules for quoted text.
\<close>

lemma trim_with_stop:
  assumes "\<forall>w \<in> set ws. c \<notin> set w"
  shows "trim_with ws (p @ c # q) = trim_with ws p @ c # q"
proof (induction "length p" arbitrary: p rule: less_induct)
  case less
  have "take (length w) (p @ c # q) = w \<longleftrightarrow> take (length w) p = w" if w: "w \<in> set ws" for w
  proof (cases "length w \<le> length p")
    case False
    then have "c \<in> set (take (length w) (p @ c # q))" by (cases "length w - length p") simp_all
    moreover have "take (length w) p \<noteq> w" using False by (metis length_take min.cobounded1 nle_le)
    ultimately show ?thesis using assms w by metis
  qed simp
  then have found: "find (\<lambda>w. w \<noteq> [] \<and> take (length w) (p @ c # q) = w) ws = find (\<lambda>w. w \<noteq> [] \<and> take (length w) p = w) ws"
    by (intro find_cong) auto
  show ?case
  proof (cases "find (\<lambda>w. w \<noteq> [] \<and> take (length w) p = w) ws")
    case None
    then show ?thesis using found by (simp add: trim_with.simps [of ws "p @ c # q"] trim_with.simps [of ws p])
  next
    case (Some w)
    then have w: "w \<noteq> []" "take (length w) p = w" by (auto simp: find_Some_iff)
    then have le: "length w \<le> length p" by (metis length_take min.absorb_iff2 min.commute)
    have "length (drop (length w) p) < length p" using w le by (cases p) auto
    then have "trim_with ws (drop (length w) p @ c # q) = trim_with ws (drop (length w) p) @ c # q" by (rule less)
    then show ?thesis using found Some le by (simp add: trim_with.simps [of ws "p @ c # q"] trim_with.simps [of ws p])
  qed
qed

lemma quiet_bytes:
  "\<forall>w \<in> set whitespace. SQUOTE \<notin> set w" "\<forall>w \<in> set (map rev whitespace). SQUOTE \<notin> set w"
  "\<forall>w \<in> set (map rev whitespace). 58 \<notin> set w"
  by (simp_all add: whitespace_def)

lemma trim_with_nil [simp]: "trim_with ws [] = []"
proof -
  have "find (\<lambda>w. w \<noteq> [] \<and> take (length w) [] = w) ws = None" by (auto simp: find_None_iff)
  then show ?thesis by (simp add: trim_with.simps [of ws "[]"])
qed

lemma trim_start_quote: "trim_start (SQUOTE # s) = SQUOTE # s"
  using trim_with_stop [OF quiet_bytes(1), of "[]" s] by (simp add: trim_start_def)

lemma trim_end_stop:
  "trim_end (s @ [SQUOTE]) = s @ [SQUOTE]" "trim_end (s @ 58 # r) = s @ 58 # trim_end r"
  using trim_with_stop [OF quiet_bytes(2), of "[]" "rev s"] trim_with_stop [OF quiet_bytes(3), of "rev r" "rev s"]
  by (simp_all add: trim_end_def)

lemma find_sub_cast:
  "find_sub [58, 58] p = None \<Longrightarrow> p = [] \<or> last p \<noteq> 58 \<Longrightarrow> find_sub [58, 58] (p @ 58 # 58 # r) = Some (length p)"
proof (induction p)
  case (Cons c p)
  then show ?case by (cases p) (auto split: if_splits)
qed simp

lemma trimmed_cast: "trim (lit_fmt s @ 58 # 58 # ty) = lit_fmt s @ 58 # 58 # trim_end ty"
proof -
  have q: "lit_fmt s = SQUOTE # doubled SQUOTE s @ [SQUOTE]" by (simp add: lit_fmt_def)
  have "trim (lit_fmt s @ 58 # 58 # ty) = lit_fmt s @ 58 # trim_end (58 # ty)"
    using trim_end_stop(2) [of "lit_fmt s" "58 # ty"] by (simp add: trim_def q trim_start_quote)
  also have "trim_end (58 # ty) = 58 # trim_end ty" using trim_end_stop(2) [of "[]" ty] by simp
  finally show ?thesis .
qed

lemma find_sub_bound: "find_sub pat s = Some n \<Longrightarrow> n + length pat \<le> length s"
proof (induction s arbitrary: n)
  case (Cons c s)
  have "take (length pat) (c # s) = pat \<Longrightarrow> length pat \<le> length (c # s)"
    by (metis length_take min.cobounded1)
  then show ?case using Cons by (fastforce split: if_splits)
qed (simp split: if_splits)

lemma default_of_cast:
  assumes "\<not> contains_sub (lit_fmt s) (lit ''::'')"
  shows "sqlite_default (lit_fmt s @ lit ''::'' @ ty) = Some (lit_fmt s)"
proof -
  have cast: "lit ''::'' = [58, 58]" by (simp add: lit_def)
  have q: "lit_fmt s = SQUOTE # doubled SQUOTE s @ [SQUOTE]" by (simp add: lit_fmt_def)
  have "find_sub [58, 58] (lit_fmt s @ 58 # 58 # trim_end ty) = Some (length (lit_fmt s))"
    using assms by (intro find_sub_cast) (simp_all add: contains_sub_def cast q)
  moreover have "trim_end (lit_fmt s) = lit_fmt s" using trim_end_stop(1) [of "SQUOTE # doubled SQUOTE s"] by (simp add: q)
  ultimately have "sqlite_default (lit_fmt s @ 58 # 58 # ty) = (case lit_fmt s of [] \<Rightarrow> None | first # rest \<Rightarrow>
      if first = SQUOTE then Some (lit_fmt s) else sqlite_default (lit_fmt s @ 58 # 58 # ty))"
    unfolding sqlite_default_def Let_def cast trimmed_cast by (simp add: q)
  then show ?thesis by (simp add: cast q)
qed

text \<open>A literal that contains two colons: the cut leaves an opening quote and doubled quotes only.\<close>

lemma trim_with_drops:
  assumes "\<forall>w \<in> set ws. c \<notin> set w"
  shows "\<exists>w. s = w @ trim_with ws s \<and> c \<notin> set w"
  using assms
proof (induction ws s rule: trim_with.induct)
  case (1 ws s)
  show ?case
  proof (cases "find (\<lambda>w. w \<noteq> [] \<and> take (length w) s = w) ws")
    case None
    then show ?thesis by (simp add: trim_with.simps [of ws s])
  next
    case (Some w)
    then have w: "take (length w) s = w" "w \<in> set ws" by (auto simp: find_Some_iff)
    obtain u where "drop (length w) s = u @ trim_with ws (drop (length w) s)" "c \<notin> set u" using "1.IH" [OF Some "1.prems"] by blast
    moreover have "c \<notin> set w" using "1.prems" w(2) by blast
    ultimately have "s = (w @ u) @ trim_with ws (drop (length w) s)" "c \<notin> set (w @ u)"
      using w(1) append_take_drop_id [of "length w" s] by auto
    moreover have "trim_with ws s = trim_with ws (drop (length w) s)" using Some by (simp add: trim_with.simps [of ws s])
    ultimately show ?thesis by metis
  qed
qed

lemma doubled_snoc: "doubled q (s @ [c]) = doubled q s @ (if c = q then [q, c] else [c])"
  by (simp add: doubled_def)

lemma doubled_cut: "doubled q s = p @ w \<Longrightarrow> q \<notin> set w \<Longrightarrow> \<exists>t. p = doubled q t"
proof (induction w arbitrary: s rule: rev_induct)
  case (snoc c w)
  then obtain t d where s: "s = t @ [d]" by (cases s rule: rev_cases) (auto simp: doubled_def)
  then have "d \<noteq> q" "doubled q t = p @ w" using snoc.prems by (auto simp: doubled_snoc split: if_splits)
  then show ?case using snoc by simp
qed auto

lemma unquote_open: "unquote q (doubled q s) = None"
  by (induction s) (simp_all add: doubled_def)

lemma trim_end_open: "\<exists>t. trim_end (SQUOTE # doubled SQUOTE s) = SQUOTE # doubled SQUOTE t"
proof -
  have "trim_end (SQUOTE # doubled SQUOTE s) = SQUOTE # trim_end (doubled SQUOTE s)"
    using trim_with_stop [OF quiet_bytes(2), of "rev (doubled SQUOTE s)" "[]"] by (simp add: trim_end_def)
  moreover obtain w where "doubled SQUOTE s = trim_end (doubled SQUOTE s) @ rev w" "SQUOTE \<notin> set (rev w)"
    using trim_with_drops [OF quiet_bytes(2), of "rev (doubled SQUOTE s)"] unfolding trim_end_def
    by (metis rev_append rev_rev_ident set_rev)
  ultimately show ?thesis using doubled_cut by metis
qed

lemma find_sub_append: "find_sub pat x = Some n \<Longrightarrow> find_sub pat (x @ y) = Some n"
proof (induction x arbitrary: n)
  case (Cons c x)
  have "length pat \<le> length (c # x)" using find_sub_bound [OF Cons.prems] by simp
  then have "take (length pat) (c # x @ y) = take (length pat) (c # x)"
    using take_append [of "length pat" "c # x" y] by simp
  then show ?case using Cons by (auto split: if_splits)
qed (cases y, auto split: if_splits)

lemma colons_in_doubled:
  "find_sub [58, 58] (doubled SQUOTE s @ [SQUOTE]) = Some n \<Longrightarrow> \<exists>t. take n (doubled SQUOTE s @ r) = doubled SQUOTE t"
proof (induction s arbitrary: n)
  case (Cons c cs)
  show ?case
  proof (cases "n = 0")
    case True
    then show ?thesis by (intro exI [of _ "[]"]) (simp add: doubled_def)
  next
    case False
    let ?q = "if c = SQUOTE then [SQUOTE, c] else [c]"
    have d: "doubled SQUOTE (c # cs) = ?q @ doubled SQUOTE cs" by (simp add: doubled_def)
    then obtain m where m: "find_sub [58, 58] (doubled SQUOTE cs @ [SQUOTE]) = Some m" "n = length ?q + m"
      using Cons.prems False by (auto simp: split: if_splits)
    obtain t where "take m (doubled SQUOTE cs @ r) = doubled SQUOTE t" using Cons.IH [OF m(1)] by blast
    then have "take n (doubled SQUOTE (c # cs) @ r) = doubled SQUOTE (c # t)"
      unfolding m(2) d by (simp add: doubled_def)
    then show ?thesis by blast
  qed
qed (simp add: doubled_def)

lemma default_of_colons:
  assumes "contains_sub (lit_fmt s) (lit ''::'')"
  shows "\<exists>d. sqlite_default (lit_fmt s @ lit ''::'' @ ty) = Some d \<and> (\<exists>rest. lit_fmt s = d @ rest) \<and> sql_lex d = [Unterminated]"
proof -
  have cast: "lit ''::'' = [58, 58]" by (simp add: lit_def)
  have q: "lit_fmt s = SQUOTE # doubled SQUOTE s @ [SQUOTE]" by (simp add: lit_fmt_def)
  obtain n where n: "find_sub [58, 58] (doubled SQUOTE s @ [SQUOTE]) = Some n"
    using assms by (auto simp: contains_sub_def cast q split: if_splits)
  obtain t where t: "take n (doubled SQUOTE s @ [SQUOTE] @ 58 # 58 # trim_end ty) = doubled SQUOTE t"
    using colons_in_doubled [OF n] by blast
  obtain u where u: "trim_end (SQUOTE # doubled SQUOTE t) = SQUOTE # doubled SQUOTE u" using trim_end_open by blast
  have "find_sub [58, 58] (lit_fmt s @ 58 # 58 # trim_end ty) = Some (Suc n)"
    using find_sub_append [OF n] by (simp add: q)
  moreover have "take (Suc n) (lit_fmt s @ 58 # 58 # trim_end ty) = SQUOTE # doubled SQUOTE t" using t by (simp add: q)
  ultimately have "sqlite_default (lit_fmt s @ 58 # 58 # ty) = Some (SQUOTE # doubled SQUOTE u)"
    unfolding sqlite_default_def Let_def cast trimmed_cast by (simp add: u)
  moreover have "sql_lex (SQUOTE # doubled SQUOTE u) = [Unterminated]" by (simp add: sql_lex.simps unquote_open)
  moreover have "\<exists>rest. lit_fmt s = (SQUOTE # doubled SQUOTE u) @ rest"
  proof -
    obtain w where "SQUOTE # doubled SQUOTE t = (SQUOTE # doubled SQUOTE u) @ w"
      using trim_with_drops [OF quiet_bytes(2), of "rev (SQUOTE # doubled SQUOTE t)"] u unfolding trim_end_def
      by (metis rev_append rev_rev_ident)
    moreover have "n \<le> length (doubled SQUOTE s)" using find_sub_bound [OF n] by simp
    ultimately have "take (Suc n) (lit_fmt s) = (SQUOTE # doubled SQUOTE u) @ w" using t by (simp add: q)
    then show ?thesis by (metis append_take_drop_id append.assoc)
  qed
  ultimately show ?thesis by (auto simp: cast)
qed

text \<open>
  C37: a default that Postgres prints as a cast literal, \<open>'text'::type\<close>, becomes the literal,
  which reads back as the text, provided the literal does not contain two colons itself.  If it
  does, whatever the text and the type are, what is left is cut inside its quotes: it is a beginning
  of the literal, and reading it finds no closing quote.
\<close>

theorem sqlite_default_cast:
  "if contains_sub (lit_fmt s) (lit ''::'')
   then \<exists>d. sqlite_default (lit_fmt s @ lit ''::'' @ ty) = Some d \<and> (\<exists>rest. lit_fmt s = d @ rest) \<and> sql_lex d = [Unterminated]
   else sqlite_default (lit_fmt s @ lit ''::'' @ ty) = Some (lit_fmt s) \<and> sql_lex (lit_fmt s) = [Text s]"
  using default_of_cast [of s ty] default_of_colons [of s ty] sql_lex_lit [of "[]" s] by (simp add: unquoted_start_def)

theorem sqlite_default_cast_witness:
  "sqlite_default (lit_fmt (lit ''it's'') @ lit ''::text'') = Some (lit_fmt (lit ''it's''))"
proof -
  have "\<not> contains_sub (lit_fmt (lit ''it's'')) (lit ''::'')" by code_simp
  then show ?thesis using sqlite_default_cast [of "lit ''it's''" "lit ''text''"] by (simp add: lit_def)
qed

end
