(* ===== verification/Dialect.thy ===== *)
theory Dialect
  imports Sql_Text Results
begin

text \<open>
  The error type the two database dialects share (\<open>dialect.rs\<close>), and failures of code that
  talks to a database: an error value or a panic.  \<open>'e\<close> is the type of driver errors.
\<close>

datatype 'e database_error =
    ConnectionPoolFailed
  | FailedToAcquireTransaction
  | FailedToCommitTransaction
  | SetupFailed str str
  | SchemaHashComputationFailed
  | SqlxError 'e
  | BackfillFailed str str
  | InvalidSqliteBytes

text \<open>\<open>Display\<close>; the text of a driver error is the driver's.\<close>

fun database_error_display :: "('e \<Rightarrow> str) \<Rightarrow> 'e database_error \<Rightarrow> str" where
  "database_error_display show_e ConnectionPoolFailed = lit ''failed to create connection pool''"
| "database_error_display show_e FailedToAcquireTransaction = lit ''failed to acquire transaction''"
| "database_error_display show_e FailedToCommitTransaction = lit ''failed to commit transaction''"
| "database_error_display show_e (SetupFailed step reason) = lit ''setup failed while '' @ step @ lit '': '' @ reason"
| "database_error_display show_e SchemaHashComputationFailed = lit ''failed to compute schema hash''"
| "database_error_display show_e (SqlxError err) = lit ''sqlx error: '' @ show_e err"
| "database_error_display show_e (BackfillFailed table reason) = lit ''backfill failed for table '' @ table @ lit '': '' @ reason"
| "database_error_display show_e InvalidSqliteBytes = lit ''provided bytes are not a valid SQLite database''"

datatype 'e db_fail = DbError "'e database_error" | DbPanic panic

text \<open>The result of an operation on a database, and the database after it.\<close>

type_synonym ('e, 'a, 'd) db_result = "('e db_fail + 'a) \<times> 'd"

definition db_bind :: "('e, 'a, 'd) db_result \<Rightarrow> ('a \<Rightarrow> 'd \<Rightarrow> ('e, 'b, 'd) db_result) \<Rightarrow> ('e, 'b, 'd) db_result" where
  "db_bind r f = (case r of (Inl e, d) \<Rightarrow> (Inl e, d) | (Inr x, d) \<Rightarrow> f x d)"

definition db_pure :: "'a res \<Rightarrow> 'd \<Rightarrow> ('e, 'a, 'd) db_result" where
  "db_pure r d = (map_sum DbPanic id r, d)"

lemma db_bind_simps [simp]:
  "db_bind (Inl e, d) f = (Inl e, d)" "db_bind (Inr x, d) f = f x d"
  by (simp_all add: db_bind_def)

lemma db_bind_Inr: "db_bind r f = (Inr y, d') \<longleftrightarrow> (\<exists>x d. r = (Inr x, d) \<and> f x d = (Inr y, d'))"
  by (auto simp: db_bind_def split: prod.splits sum.splits)

lemma db_pure_simps [simp]: "db_pure (Inr x) d = (Inr x, d)" "db_pure (Inl p) d = (Inl (DbPanic p), d)"
  by (simp_all add: db_pure_def)

lemma db_pure_Inr: "db_pure r d = (Inr x, d') \<longleftrightarrow> r = Inr x \<and> d' = d"
  by (cases r) auto

end
