(* ===== verification/Sqlite_Text.thy ===== *)
theory Sqlite_Text
  imports Sqlite_Ddl
begin

unbundle bit_operations_syntax

text \<open>
  What the generated statements say when they are read back as SQL: the pieces a statement is
  assembled from can be read one after the other, and the names in it are the names of the schema.
\<close>

section \<open>Pieces of statements\<close>

text \<open>
  A piece of text reads as \<open>ts\<close> whatever follows it, as long as no quote follows directly.
\<close>

definition piece :: "str \<Rightarrow> sql_token list \<Rightarrow> bool" where
  "piece p ts \<longleftrightarrow> (\<forall>r. unquoted_start r \<longrightarrow> sql_lex (p @ r) = ts @ sql_lex r)"

text \<open>A piece with the given names, complete in itself.\<close>

definition says :: "str \<Rightarrow> str list \<Rightarrow> bool" where
  "says p ns \<longleftrightarrow> (\<exists>ts. piece p ts \<and> names_of ts = ns \<and> Unterminated \<notin> set ts)"

definition quiet :: "str \<Rightarrow> bool" where
  "quiet p \<longleftrightarrow> says p []"

lemma unquoted_start_append: "unquoted_start (q @ r) \<longleftrightarrow> (if q = [] then unquoted_start r else unquoted_start q)"
  by (cases q) (simp_all add: unquoted_start_def)

lemma says_append: "says p ns \<Longrightarrow> says q ms \<Longrightarrow> unquoted_start q \<Longrightarrow> says (p @ q) (ns @ ms)"
proof -
  assume p: "says p ns" and q: "says q ms" "unquoted_start q"
  then obtain ts us where "piece p ts" "names_of ts = ns" "Unterminated \<notin> set ts"
      "piece q us" "names_of us = ms" "Unterminated \<notin> set us"
    by (auto simp: says_def)
  moreover from this have "piece (p @ q) (ts @ us)" using q(2) by (auto simp: piece_def unquoted_start_append)
  ultimately show ?thesis unfolding says_def by (intro exI [of _ "ts @ us"]) simp
qed

lemma names_of_bytes: "names_of (map Byte p) = []"
  using names_of_simps(6) [of p "[]"] by simp

lemma says_plain: "plain p \<Longrightarrow> says q ns \<Longrightarrow> says (p @ q) ns"
proof -
  assume p: "plain p" and "says q ns"
  then obtain ts where "piece q ts" "names_of ts = ns" "Unterminated \<notin> set ts" by (auto simp: says_def)
  then show ?thesis
    using p unfolding says_def by (intro exI [of _ "map Byte p @ ts"]) (auto simp: piece_def sql_lex_plain names_of_bytes)
qed

lemma says_nil: "says [] []"
  by (auto simp: says_def piece_def)

lemma says_of_plain: "plain p \<Longrightarrow> says p []"
  using says_plain [OF _ says_nil] by simp

lemma says_ident: "says q ns \<Longrightarrow> unquoted_start q \<Longrightarrow> says (ident_fmt s @ q) (s # ns)"
proof -
  assume "says q ns" and q: "unquoted_start q"
  then obtain ts where "piece q ts" "names_of ts = ns" "Unterminated \<notin> set ts" by (auto simp: says_def)
  then show ?thesis
    using q unfolding says_def
    by (intro exI [of _ "Name s # ts"]) (auto simp: piece_def sql_lex_ident unquoted_start_append)
qed

lemma says_lex: "says p ns \<Longrightarrow> names_of (sql_lex p) = ns \<and> Unterminated \<notin> set (sql_lex p)"
proof -
  assume "says p ns"
  then obtain ts where "piece p ts" "names_of ts = ns" "Unterminated \<notin> set ts" by (auto simp: says_def)
  moreover from this(1) have "sql_lex p = ts" by (auto simp: piece_def unquoted_start_def dest: spec [of _ "[]"])
  ultimately show ?thesis by simp
qed

lemma plain_append: "plain (p @ q) \<longleftrightarrow> plain p \<and> plain q"
  by (simp add: plain_def)

lemma plain_type: "plain (sqlite_type t)"
  by (cases t) (simp_all add: plain_lit)

lemma plain_action: "plain (action_display a)"
  by (cases a) (simp_all add: plain_lit)

lemma unquoted_start_lits [simp]: "unquoted_start (lit (c # s)) \<longleftrightarrow> c \<noteq> CHR 0x22 \<and> c \<noteq> CHR 0x27"
  using unquoted_start_lit [of c s "[]"] by simp

section \<open>Schemas whose names can be read\<close>

definition text_of :: "'t database_schema \<Rightarrow> symbol \<Rightarrow> str" where
  "text_of S y = (case resolve_symbol S y of Inr (Some s) \<Rightarrow> s | _ \<Rightarrow> [])"

definition t_name :: "'t database_schema \<Rightarrow> u16 \<Rightarrow> str" where
  "t_name S t = text_of S (tm_name (ds_tables S ! unat t))"

definition c_name :: "'t database_schema \<Rightarrow> nat \<Rightarrow> str" where
  "c_name S c = text_of S (col_name (ds_columns S ! c))"

definition named :: "'t database_schema \<Rightarrow> bool" where
  "named S \<longleftrightarrow> schema_wf S \<and> (\<forall>y. \<exists>r. resolve_symbol S y = Inr r) \<and>
     (\<forall>m \<in> set (ds_tables S). resolve_symbol S (tm_name m) \<noteq> Inr None) \<and>
     (\<forall>c \<in> set (ds_columns S). resolve_symbol S (col_name c) \<noteq> Inr None)"

lemma named_wf [simp]: "named S \<Longrightarrow> schema_wf S"
  by (simp add: named_def)

lemma named_text:
  assumes "named S"
  shows "resolve_symbol S y \<noteq> Inr None \<Longrightarrow> resolve_symbol S y = Inr (Some (text_of S y))"
proof -
  obtain r where "resolve_symbol S y = Inr r" using assms unfolding named_def by blast
  then show "resolve_symbol S y \<noteq> Inr None \<Longrightarrow> resolve_symbol S y = Inr (Some (text_of S y))"
    by (auto simp: text_of_def)
qed

lemma table_name_named:
  "named S \<Longrightarrow> unat t < length (ds_tables S) \<Longrightarrow> table_name S t = Inr (t_name S t)"
  using named_text [of S "tm_name (ds_tables S ! unat t)"]
  by (simp add: table_name_def table_meta_at_def t_name_def named_def resolve_symbol_def)

lemma column_name_named:
  "named S \<Longrightarrow> c < length (ds_columns S) \<Longrightarrow> column_name S c = Inr (c_name S c)"
  using named_text [of S "col_name (ds_columns S ! c)"]
  by (simp add: column_name_def column_meta_def c_name_def named_def resolve_symbol_def)

text \<open>The columns of a table and the foreign keys of a column.\<close>

definition cols_of :: "'t database_schema \<Rightarrow> u16 \<Rightarrow> nat list" where
  "cols_of S t = [unat (tm_columns_start (ds_tables S ! unat t))..<
     unat (tm_columns_start (ds_tables S ! unat t)) + unat (tm_columns_len (ds_tables S ! unat t))]"

definition col_fks :: "'t database_schema \<Rightarrow> nat \<Rightarrow> foreign_key list" where
  "col_fks S c = sub_slice (ds_foreign_key_pool S) (unat (pr_start (col_foreign_keys (ds_columns S ! c))))
     (unat (pr_len (col_foreign_keys (ds_columns S ! c))))"

definition col_checks :: "'t database_schema \<Rightarrow> nat \<Rightarrow> symbol list" where
  "col_checks S c = sub_slice (ds_constraint_pool S) (unat (pr_start (col_constraints (ds_columns S ! c))))
     (unat (pr_len (col_constraints (ds_columns S ! c))))"

lemma cols_of_in: "schema_wf S \<Longrightarrow> unat t < length (ds_tables S) \<Longrightarrow> c \<in> set (cols_of S t) \<Longrightarrow> c < length (ds_columns S)"
  using schema_wf_table [of S t] by (auto simp: cols_of_def table_wf_def)

lemma table_columns_cols: "schema_wf S \<Longrightarrow> unat t < length (ds_tables S) \<Longrightarrow> table_columns S t = Inr (cols_of S t)"
  using column_by_symbol_spec(1) by (simp add: cols_of_def)

lemma column_slices:
  assumes "schema_wf S" "c < length (ds_columns S)"
  shows "column_foreign_keys S c = Inr (col_fks S c)" "column_constraints S c = Inr (col_checks S c)"
    "\<And>fk. fk \<in> set (col_fks S c) \<Longrightarrow> fk_wf S fk"
proof -
  have "column_wf S (ds_columns S ! c)" using assms by (simp add: schema_wf_def)
  then show "column_foreign_keys S c = Inr (col_fks S c)" "column_constraints S c = Inr (col_checks S c)"
    using assms(2) by (simp_all add: column_foreign_keys_def column_constraints_def column_meta_def column_wf_def
        col_fks_def col_checks_def)
  show "fk_wf S fk" if "fk \<in> set (col_fks S c)" for fk
    using assms(1) in_set_dropD [OF in_set_takeD [OF that [unfolded col_fks_def sub_slice_def]]]
    by (simp add: schema_wf_def)
qed

section \<open>\<open>CREATE TABLE\<close>\<close>

text \<open>The defaults and checks of a table, which are copied from the catalog, contain no name.\<close>

definition quiet_table :: "'t database_schema \<Rightarrow> u16 \<Rightarrow> bool" where
  "quiet_table S t \<longleftrightarrow> (\<forall>c \<in> set (cols_of S t).
     (\<forall>d. column_default S (ds_columns S ! c) = Inr (Some d) \<longrightarrow> quiet d) \<and>
     (\<forall>y \<in> set (col_checks S c). \<forall>s. resolve_symbol S y = Inr (Some s) \<longrightarrow> quiet s \<and> unquoted_start s))"

definition fk_names :: "'t database_schema \<Rightarrow> nat \<Rightarrow> foreign_key \<Rightarrow> str list" where
  "fk_names S c fk = [c_name S c, t_name S (fk_table fk),
     c_name S (unat (tm_columns_start (ds_tables S ! unat (fk_table fk))) + unat (fk_column fk))]"

lemma column_default_total: "named S \<Longrightarrow> \<exists>r. column_default S m = Inr r"
  unfolding column_default_def named_def by (cases "col_default_value m") (auto, metis sum_bind_simps(2))

lemma write_column_def_says:
  assumes "named S" "c < length (ds_columns S)"
    and d: "\<And>d. column_default S (ds_columns S ! c) = Inr (Some d) \<Longrightarrow> quiet d"
  shows "\<exists>q. \<forall>sql first. write_column_def S c (sql, first) =
      Inr (sql @ (if first then [] else lit '','') @ ident_fmt (c_name S c) @ q, False) \<and> says q [] \<and> unquoted_start q"
proof -
  let ?m = "ds_columns S ! c"
  let ?mid = "lit '' '' @ sqlite_type (col_data_type ?m) @
       (if is_primary_key ?m then lit '' PRIMARY KEY NOT NULL''
        else (if is_unique ?m then lit '' UNIQUE'' else []) @ (if is_nullable ?m then [] else lit '' NOT NULL''))"
  obtain r where r: "column_default S ?m = Inr r" using column_default_total [OF assms(1)] by blast
  let ?tail = "case r of None \<Rightarrow> [] | Some d \<Rightarrow> lit '' DEFAULT '' @ d"
  have "plain ?mid" by (simp add: plain_append plain_type plain_lit) (simp add: plain_def)
  moreover have "says ?tail []"
    using d r by (auto simp: says_nil quiet_def plain_lit intro!: says_plain split: option.splits)
  ultimately have "says (?mid @ ?tail) []" by (rule says_plain)
  moreover have "unquoted_start (?mid @ ?tail)" by (simp add: sql_simps)
  ultimately show ?thesis
    using assms(2) column_name_named [OF assms(1,2)] r
    by (intro exI [of _ "?mid @ ?tail"]) (simp add: write_column_def_def column_meta_def)
qed

definition opens :: "str \<Rightarrow> str list \<Rightarrow> bool" where
  "opens p ns \<longleftrightarrow> (\<forall>q ms. says q ms \<longrightarrow> says (p @ q) (ns @ ms))"

lemma opens_says: "opens p ns \<Longrightarrow> says p ns"
  using says_nil by (force simp: opens_def)

lemma says_comma: "says p ns \<Longrightarrow> says q ms \<Longrightarrow> says (p @ lit '','' @ q) (ns @ ms)"
  by (rule says_append) (auto simp: plain_lit sql_simps intro!: says_plain)

definition quiet_column :: "'t database_schema \<Rightarrow> nat \<Rightarrow> bool" where
  "quiet_column S c \<longleftrightarrow> (\<forall>d. column_default S (ds_columns S ! c) = Inr (Some d) \<longrightarrow> quiet d)"

lemma write_columns_rest:
  assumes "named S"
  shows "\<forall>c \<in> set cs. c < length (ds_columns S) \<and> quiet_column S c \<Longrightarrow> says sql ns \<Longrightarrow>
    \<exists>sql'. fold_res (write_column_def S) cs (sql, False) = Inr (sql', False) \<and> says sql' (ns @ map (c_name S) cs)"
proof (induction cs arbitrary: sql ns)
  case (Cons c cs)
  obtain q where q: "\<And>sql first. write_column_def S c (sql, first) =
      Inr (sql @ (if first then [] else lit '','') @ ident_fmt (c_name S c) @ q, False)" "says q []" "unquoted_start q"
    using write_column_def_says [OF assms, of c] Cons.prems by (auto simp: quiet_column_def)
  have "says (sql @ lit '','' @ ident_fmt (c_name S c) @ q) (ns @ [c_name S c])"
    using says_comma [OF Cons.prems(2) says_ident [OF q(2,3)]] by simp
  from Cons.IH [OF _ this] show ?case using Cons.prems q(1) by simp
qed simp

lemma write_columns_says:
  assumes "named S" "\<forall>c \<in> set cs. c < length (ds_columns S) \<and> quiet_column S c" "opens sql ns"
  shows "\<exists>sql' b. fold_res (write_column_def S) cs (sql, True) = Inr (sql', b) \<and> says sql' (ns @ map (c_name S) cs)"
proof (cases cs)
  case Nil
  then show ?thesis using opens_says [OF assms(3)] by auto
next
  case (Cons c cs')
  obtain q where q: "\<And>sql first. write_column_def S c (sql, first) =
      Inr (sql @ (if first then [] else lit '','') @ ident_fmt (c_name S c) @ q, False)" "says q []" "unquoted_start q"
    using write_column_def_says [OF assms(1), of c] assms(2) Cons by (auto simp: quiet_column_def)
  have "says (sql @ ident_fmt (c_name S c) @ q) (ns @ [c_name S c])"
    using assms(3) says_ident [OF q(2,3)] by (auto simp: opens_def)
  then show ?thesis
    using write_columns_rest [OF assms(1), of cs' "sql @ ident_fmt (c_name S c) @ q" "ns @ [c_name S c]"] assms(2) Cons q(1)
    by auto
qed

lemma write_fk_clause_says:
  assumes "named S" "c < length (ds_columns S)" "fk_wf S fk" "says sql ns"
  shows "\<exists>sql'. write_fk_clause S c fk sql = Inr sql' \<and> says sql' (ns @ fk_names S c fk)"
proof -
  let ?t = "fk_table fk" and ?i = "unat (fk_column fk)"
  let ?m = "ds_tables S ! unat ?t"
  have t: "unat ?t < length (ds_tables S)" "?i < unat (tm_columns_len ?m)" using assms(3) by (simp_all add: fk_wf_def)
  have wf: "unat (tm_columns_start ?m) + unat (tm_columns_len ?m) \<le> length (ds_columns S)"
    using schema_wf_table [OF named_wf [OF assms(1)] t(1)] by (simp add: table_wf_def)
  let ?c = "unat (tm_columns_start ?m) + ?i"
  have at: "table_at S (unat ?t) = Some ?t" using t(1) by (simp add: table_at_def)
  have names: "column_names S ?t = Inr (map col_name (sub_slice (ds_columns S) (unat (tm_columns_start ?m)) (unat (tm_columns_len ?m))))"
    by (rule columns_of_table(2) [OF named_wf [OF assms(1)] t(1)])
  have ref: "resolve_symbol S (col_name (ds_columns S ! ?c)) = Inr (Some (c_name S ?c))"
    using assms(1) wf t(2) named_text [OF assms(1), of "col_name (ds_columns S ! ?c)"]
    by (auto simp: named_def c_name_def)
  let ?q = "lit '',FOREIGN KEY('' @ ident_fmt (c_name S c) @ lit '') REFERENCES '' @ ident_fmt (t_name S ?t) @
      lit ''('' @ ident_fmt (c_name S ?c) @ lit '') ON UPDATE '' @ action_display (fk_on_update fk) @
      lit '' ON DELETE '' @ action_display (fk_on_delete fk)"
  have "write_fk_clause S c fk sql = Inr (sql @ ?q)"
    using at names ref wf t table_name_named [OF assms(1) t(1)] column_name_named [OF assms(1,2)]
    by (simp add: write_fk_clause_def nth_sub_slice)
  moreover have "says ?q (fk_names S c fk)"
    unfolding fk_names_def
    by (intro says_plain says_ident says_of_plain) (simp_all add: plain_lit plain_append plain_action sql_simps)
  then have "says (sql @ ?q) (ns @ fk_names S c fk)"
    using says_append [OF assms(4)] by (simp add: sql_simps)
  ultimately show ?thesis by blast
qed

text \<open>Two nested loops that each append to the text.\<close>

lemma nested_says:
  assumes step: "\<And>x sql ns. x \<in> A \<Longrightarrow> says sql ns \<Longrightarrow> \<exists>sql'. f x sql = Inr sql' \<and> says sql' (ns @ g x)"
  shows "set xs \<subseteq> A \<Longrightarrow> says sql ns \<Longrightarrow> \<exists>sql'. fold_res f xs sql = Inr sql' \<and> says sql' (ns @ concat (map g xs))"
proof (induction xs arbitrary: sql ns)
  case (Cons x xs)
  obtain sql1 where s1: "f x sql = Inr sql1" "says sql1 (ns @ g x)" using step Cons.prems by fastforce
  then show ?case using Cons.IH [OF _ s1(2)] Cons.prems by simp
qed simp

lemma concat_nothing [simp]: "concat (map (\<lambda>_. []) xs) = []"
  by (induction xs) simp_all

lemma write_check_says:
  assumes "named S" "\<forall>s. resolve_symbol S y = Inr (Some s) \<longrightarrow> quiet s" "says sql ns"
  shows "\<exists>sql'. write_check S y sql = Inr sql' \<and> says sql' (ns @ [])"
proof -
  obtain r where r: "resolve_symbol S y = Inr r" using assms(1) unfolding named_def by blast
  show ?thesis
  proof (cases r)
    case (Some s)
    then have "says (sql @ lit '','' @ s) (ns @ [])"
      using says_comma [OF assms(3), of s "[]"] assms(2) r by (simp add: quiet_def)
    then show ?thesis using assms(3) r Some by (simp add: write_check_def)
  qed (use r assms(3) in \<open>simp add: write_check_def\<close>)
qed

lemma write_create_table_says:
  assumes nm: "named S" and t: "unat t < length (ds_tables S)" and quiet: "quiet_table S t" and sql: "opens sql ns"
  shows "\<exists>sql'. write_create_table S t sql = Inr sql' \<and>
    opens sql' (ns @ t_name S t # map (c_name S) (cols_of S t) @
      concat (map (\<lambda>c. concat (map (fk_names S c) (col_fks S c))) (cols_of S t)))"
proof -
  note wf = named_wf [OF nm]
  let ?cs = "cols_of S t" and ?hdr = "lit ''CREATE TABLE IF NOT EXISTS '' @ ident_fmt (t_name S t) @ lit '' (''"
  have cs: "c < length (ds_columns S)" if "c \<in> set ?cs" for c using cols_of_in [OF wf t that] .
  have "opens (sql @ ?hdr) (ns @ [t_name S t])"
    unfolding opens_def
  proof (intro allI impI)
    fix q ms assume "says q ms"
    then have "says (?hdr @ q) (t_name S t # ms)"
      by (simp add: plain_lit sql_simps says_plain says_ident)
    then show "says ((sql @ ?hdr) @ q) ((ns @ [t_name S t]) @ ms)" using sql by (simp add: opens_def)
  qed
  moreover have "\<forall>c \<in> set ?cs. c < length (ds_columns S) \<and> quiet_column S c"
    using cs quiet by (auto simp: quiet_table_def quiet_column_def)
  ultimately obtain s1 b where s1: "fold_res (write_column_def S) ?cs (sql @ ?hdr, True) = Inr (s1, b)"
      "says s1 ((ns @ [t_name S t]) @ map (c_name S) ?cs)"
    using write_columns_says [OF nm] by blast
  have fk: "\<exists>sql'. sum_bind (column_foreign_keys S c) (\<lambda>fks. fold_res (write_fk_clause S c) fks sql) = Inr sql' \<and>
      says sql' (ns @ concat (map (fk_names S c) (col_fks S c)))" if "c \<in> set ?cs" "says sql ns" for c sql ns
    using nested_says [of "set (col_fks S c)" "write_fk_clause S c" "fk_names S c" "col_fks S c" sql ns]
      write_fk_clause_says [OF nm cs [OF that(1)]] column_slices [OF wf cs [OF that(1)]] that by auto
  obtain s2 where s2: "fold_res (\<lambda>c sql. sum_bind (column_foreign_keys S c) (\<lambda>fks. fold_res (write_fk_clause S c) fks sql))
      ?cs s1 = Inr s2" "says s2 (((ns @ [t_name S t]) @ map (c_name S) ?cs) @
        concat (map (\<lambda>c. concat (map (fk_names S c) (col_fks S c))) ?cs))"
    using nested_says [of "set ?cs" "\<lambda>c sql. sum_bind (column_foreign_keys S c) (\<lambda>fks. fold_res (write_fk_clause S c) fks sql)",
        OF fk order.refl s1(2)] by blast
  have ck: "\<exists>sql'. sum_bind (column_constraints S c) (\<lambda>ys. fold_res (write_check S) ys sql) = Inr sql' \<and> says sql' (ns @ [])"
    if c: "c \<in> set ?cs" "says sql ns" for c sql ns
    using nested_says [of "set (col_checks S c)" "write_check S" "\<lambda>_. []" "col_checks S c" sql ns]
      write_check_says [OF nm] column_slices [OF wf cs [OF c(1)]] quiet c by (auto simp: quiet_table_def)
  obtain s3 where s3: "fold_res (\<lambda>c sql. sum_bind (column_constraints S c) (\<lambda>ys. fold_res (write_check S) ys sql))
      ?cs s2 = Inr s3" "says s3 ((((ns @ [t_name S t]) @ map (c_name S) ?cs) @
        concat (map (\<lambda>c. concat (map (fk_names S c) (col_fks S c))) ?cs)) @ concat (map (\<lambda>_. []) ?cs))"
    using nested_says [of "set ?cs" "\<lambda>c sql. sum_bind (column_constraints S c) (\<lambda>ys. fold_res (write_check S) ys sql)" "\<lambda>_. []",
        OF ck order.refl s2(2)] by blast
  have "write_create_table S t sql = Inr (s3 @ lit '');'' @ [10])"
    using s1(1) s2(1) s3(1) table_name_named [OF nm t] table_columns_cols [OF wf t] by (simp add: write_create_table_def)
  moreover have "opens (s3 @ lit '');'' @ [10]) (ns @ t_name S t # map (c_name S) ?cs @
      concat (map (\<lambda>c. concat (map (fk_names S c) (col_fks S c))) ?cs))"
    unfolding opens_def
  proof (intro allI impI)
    fix q ms assume "says q ms"
    moreover have "plain (lit '');'' @ [10])" by (simp add: plain_lit plain_append) (simp add: plain_def)
    ultimately have "says ((lit '');'' @ [10]) @ q) ms" using says_plain by blast
    then show "says ((s3 @ lit '');'' @ [10]) @ q) ((ns @ t_name S t # map (c_name S) ?cs @
        concat (map (\<lambda>c. concat (map (fk_names S c) (col_fks S c))) ?cs)) @ ms)"
      using says_append [OF s3(2)] by (simp add: sql_simps)
  qed
  ultimately show ?thesis by blast
qed

section \<open>The whole script\<close>

definition create_names :: "'t database_schema \<Rightarrow> u16 \<Rightarrow> str list" where
  "create_names S t = t_name S t # map (c_name S) (cols_of S t) @
     concat (map (\<lambda>c. concat (map (fk_names S c) (col_fks S c))) (cols_of S t))"

lemma write_tables_says:
  assumes nm: "named S"
  shows "\<forall>t \<in> set ts. unat t < length (ds_tables S) \<and> quiet_table S t \<Longrightarrow> opens sql ns \<Longrightarrow>
    \<exists>sql'. fold_res (write_create_table S) ts sql = Inr sql' \<and> opens sql' (ns @ concat (map (create_names S) ts))"
proof (induction ts arbitrary: sql ns)
  case (Cons t ts)
  obtain sql1 where s1: "write_create_table S t sql = Inr sql1" "opens sql1 (ns @ create_names S t)"
    using write_create_table_says [OF nm, of t sql ns] Cons.prems by (auto simp: create_names_def)
  then show ?case using Cons.IH [OF _ s1(2)] Cons.prems(1) by simp
qed simp

text \<open>Text that ends outside of quotes with a byte that is none.\<close>

lemma opens_nil: "opens [] []"
  by (simp add: opens_def)

lemma opens_plain: "opens p ns \<Longrightarrow> plain q \<Longrightarrow> opens (p @ q) ns"
  by (simp add: opens_def says_plain)

lemma opens_lit:
  assumes "opens p ns" "unquoted_start q" "q \<noteq> []" "opens q ms"
  shows "opens (p @ lit_fmt s @ q) (ns @ ms)"
  unfolding opens_def
proof (intro allI impI)
  fix r ls assume "says r ls"
  then obtain ts where ts: "piece (q @ r) ts" "names_of ts = ms @ ls" "Unterminated \<notin> set ts"
    using assms(4) by (auto simp: opens_def says_def)
  then have "piece (lit_fmt s @ q @ r) (Text s # ts)"
    using assms(2,3) by (auto simp: piece_def sql_lex_lit unquoted_start_append)
  then have "says (lit_fmt s @ q @ r) (ms @ ls)"
    using ts unfolding says_def by (intro exI [of _ "Text s # ts"]) simp
  then show "says ((p @ lit_fmt s @ q) @ r) ((ns @ ms) @ ls)" using assms(1) by (simp add: opens_def)
qed

end
