(* ===== verification/Sqlite_Alter.thy ===== *)
theory Sqlite_Alter
  imports Sqlite_Text "HOL-Library.AList" "HOL-Library.Multiset"
begin

unbundle bit_operations_syntax

text \<open>
  The migration of a SQLite database whose stored schema hash differs (\<open>alter_tables\<close> of
  \<open>dialect/sqlite.rs\<close>): from the columns the database has, the script that turns it into the
  schema's tables.  A hash map is an association list with distinct keys; the order in which the
  source iterates over one is not specified, so the iterations go through the parameters
  \<open>iter_t\<close> and \<open>iter_c\<close>.
\<close>

section \<open>The script\<close>

type_synonym live_cols = "(str \<times> str \<times> bool) list"
type_synonym live_tables = "(str \<times> live_cols) list"

text \<open>One row of the introspection query: table, column, type, primary key position.\<close>

record 'e info_row =
  ir_table :: "'e + str"
  ir_column :: "'e + str"
  ir_type :: "'e + str"
  ir_pk :: "'e + int"

definition add_info :: "'e info_row \<Rightarrow> live_tables \<Rightarrow> 'e + live_tables" where
  "add_info row existing =
     sum_bind (ir_table row) (\<lambda>table.
     sum_bind (ir_column row) (\<lambda>col.
     sum_bind (ir_type row) (\<lambda>ty.
     sum_bind (ir_pk row) (\<lambda>pk.
     let cols = (case map_of existing table of None \<Rightarrow> [] | Some cols \<Rightarrow> cols) in
     Inr (AList.update table (AList.update col (ty, pk \<noteq> 0) cols) existing)))))"

definition live_of_rows :: "'e info_row list \<Rightarrow> 'e + live_tables" where
  "live_of_rows rows = fold_res add_info rows []"

text \<open>The statements of the script, and their text.\<close>

datatype ddl =
    CreateTable u16 str
  | DropTable str
  | AddColumn str str str str
  | UniqueIndex str str
  | DropColumn str str

fun ddl_text :: "ddl \<Rightarrow> str" where
  "ddl_text (CreateTable t sql) = sql"
| "ddl_text (DropTable n) = lit ''DROP TABLE IF EXISTS '' @ ident_fmt n @ lit '';'' @ [10]"
| "ddl_text (AddColumn n c ty suffix) =
     lit ''ALTER TABLE '' @ ident_fmt n @ lit '' ADD COLUMN '' @ ident_fmt c @ lit '' '' @ ty @ suffix @ lit '';'' @ [10]"
| "ddl_text (UniqueIndex n c) =
     lit ''CREATE UNIQUE INDEX IF NOT EXISTS '' @ ident_fmt (lit ''__uniq_'' @ n @ lit ''_'' @ c @ lit ''__'') @
     lit '' ON '' @ ident_fmt n @ lit ''('' @ ident_fmt c @ lit '');'' @ [10]"
| "ddl_text (DropColumn n c) =
     lit ''ALTER TABLE '' @ ident_fmt n @ lit '' DROP COLUMN '' @ ident_fmt c @ lit '';'' @ [10]"

definition create_stmt :: "'t database_schema \<Rightarrow> u16 \<Rightarrow> ddl res" where
  "create_stmt S t = sum_bind (write_create_table S t []) (\<lambda>sql. Inr (CreateTable t sql))"

text \<open>
  The loop over the columns of a table.  It stops with \<open>True\<close> when the table has to be
  rebuilt; otherwise it gives the live columns that are left and the columns to add.
\<close>

fun scan_columns ::
  "'t database_schema \<Rightarrow> nat list \<Rightarrow> live_cols \<Rightarrow> nat list \<Rightarrow> (bool \<times> live_cols \<times> nat list) res" where
  "scan_columns S [] live added = Inr (False, live, added)"
| "scan_columns S (c # cs) live added =
     sum_bind (column_meta S c) (\<lambda>m.
     sum_bind (column_name S c) (\<lambda>name.
     case map_of live name of
       Some (ty, pk) \<Rightarrow>
         if \<not> eq_ignore_ascii_case ty (sqlite_type (col_data_type m)) \<or> pk \<noteq> is_primary_key m
         then Inr (True, AList.delete name live, added)
         else scan_columns S cs (AList.delete name live) added
     | None \<Rightarrow>
         if is_primary_key m then Inr (True, live, added) else scan_columns S cs live (added @ [c])))"

definition add_column_stmts :: "'t database_schema \<Rightarrow> str \<Rightarrow> nat \<Rightarrow> ddl list res" where
  "add_column_stmts S n c =
     sum_bind (column_meta S c) (\<lambda>m.
     sum_bind (column_name S c) (\<lambda>name.
     sum_bind (column_default S m) (\<lambda>default.
     let suffix = (case default of
         None \<Rightarrow> []
       | Some d \<Rightarrow> lit '' DEFAULT '' @ d @ (if is_nullable m then [] else lit '' NOT NULL''))
     in Inr (AddColumn n name (sqlite_type (col_data_type m)) suffix #
          (if is_unique m then [UniqueIndex n name] else [])))))"

text \<open>The body of the loop over the tables.\<close>

definition table_stmts ::
  "(str list \<Rightarrow> str list) \<Rightarrow> 't database_schema \<Rightarrow> u16 \<Rightarrow> ddl list \<times> live_tables \<Rightarrow> (ddl list \<times> live_tables) res" where
  "table_stmts iter_c S t st = (case st of (stmts, existing) \<Rightarrow>
     sum_bind (table_name S t) (\<lambda>n.
     case map_of existing n of
       None \<Rightarrow> sum_bind (create_stmt S t) (\<lambda>s. Inr (stmts @ [s], existing))
     | Some live_cols \<Rightarrow>
         let existing' = AList.delete n existing in
         sum_bind (table_columns S t) (\<lambda>cs.
         sum_bind (scan_columns S cs live_cols []) (\<lambda>(rebuild, live, added).
         if rebuild \<or> list_ex (\<lambda>(_, _, pk). pk) live then
           sum_bind (create_stmt S t) (\<lambda>s. Inr (stmts @ [DropTable n, s], existing'))
         else
           sum_bind (map_res (add_column_stmts S n) added) (\<lambda>adds.
           Inr (stmts @ concat adds @ map (DropColumn n) (iter_c (map fst live)), existing'))))))"

definition alter_plan ::
  "(str list \<Rightarrow> str list) \<Rightarrow> (str list \<Rightarrow> str list) \<Rightarrow> 't database_schema \<Rightarrow> live_tables \<Rightarrow> ddl list res" where
  "alter_plan iter_t iter_c S existing =
     sum_bind (fold_res (table_stmts iter_c S) (tables S) ([], existing)) (\<lambda>(stmts, rest).
     Inr (stmts @ map DropTable (iter_t (map fst rest))))"

definition alter_sql ::
  "(str list \<Rightarrow> str list) \<Rightarrow> (str list \<Rightarrow> str list) \<Rightarrow> 't database_schema \<Rightarrow> live_tables \<Rightarrow> str res" where
  "alter_sql iter_t iter_c S existing =
     sum_bind (alter_plan iter_t iter_c S existing) (\<lambda>stmts.
     Inr (write_hash_upsert (ds_hash S) (concat (map ddl_text stmts))))"

text \<open>The script of the second attempt.\<close>

definition drop_all_sql :: "str list \<Rightarrow> str" where
  "drop_all_sql live = concat (map (\<lambda>n. ddl_text (DropTable n)) live)"

section \<open>What the statements do\<close>

text \<open>
  The catalog of a database: per table the columns with their declared type and whether they
  belong to the primary key.  SQLite compares the names of tables and columns without regard to
  ASCII case, so the catalog is indexed by names in lower case.  A statement that fails gives
  \<open>None\<close>.
\<close>

type_synonym columns = "str \<rightharpoonup> str \<times> bool"
type_synonym catalog = "str \<rightharpoonup> columns"

abbreviation lc :: "str \<Rightarrow> str" where "lc \<equiv> to_ascii_lowercase"

definition schema_columns :: "'t database_schema \<Rightarrow> u16 \<Rightarrow> columns" where
  "schema_columns S t = map_of (map (\<lambda>c. (lc (c_name S c),
     sqlite_type (col_data_type (ds_columns S ! c)), is_primary_key (ds_columns S ! c))) (cols_of S t))"

definition schema_catalog :: "'t database_schema \<Rightarrow> catalog" where
  "schema_catalog S = map_of (map (\<lambda>t. (lc (t_name S t), schema_columns S t)) (tables S))"

definition live_columns :: "live_cols \<Rightarrow> columns" where
  "live_columns cols = map_of (map (\<lambda>(c, x). (lc c, x)) cols)"

definition live_catalog :: "live_tables \<Rightarrow> catalog" where
  "live_catalog live = map_of (map (\<lambda>(n, cols). (lc n, live_columns cols)) live)"

fun run_stmt :: "'t database_schema \<Rightarrow> ddl \<Rightarrow> catalog \<Rightarrow> catalog option" where
  "run_stmt S (CreateTable t sql) d =
     Some (if d (lc (t_name S t)) = None then d(lc (t_name S t) \<mapsto> schema_columns S t) else d)"
| "run_stmt S (DropTable n) d = Some (d(lc n := None))"
| "run_stmt S (AddColumn n c ty suffix) d = (case d (lc n) of
       None \<Rightarrow> None
     | Some cols \<Rightarrow> if cols (lc c) = None then Some (d(lc n \<mapsto> cols(lc c \<mapsto> (ty, False)))) else None)"
| "run_stmt S (UniqueIndex n c) d = (case d (lc n) of
       None \<Rightarrow> None
     | Some cols \<Rightarrow> if cols (lc c) = None then None else Some d)"
| "run_stmt S (DropColumn n c) d = (case d (lc n) of
       None \<Rightarrow> None
     | Some cols \<Rightarrow> (case cols (lc c) of
         Some (ty, False) \<Rightarrow> Some (d(lc n \<mapsto> cols(lc c := None)))
       | _ \<Rightarrow> None))"

fun run_script :: "'t database_schema \<Rightarrow> ddl list \<Rightarrow> catalog \<Rightarrow> catalog option" where
  "run_script S [] d = Some d"
| "run_script S (s # ss) d = Option.bind (run_stmt S s d) (run_script S ss)"

text \<open>Catalogs that agree up to the case of the type names.\<close>

definition columns_agree :: "columns \<Rightarrow> columns \<Rightarrow> bool" where
  "columns_agree f g \<longleftrightarrow> (\<forall>k. rel_option (\<lambda>(ty, pk) (ty', pk'). eq_ignore_ascii_case ty ty' \<and> pk = pk') (f k) (g k))"

definition catalogs_agree :: "catalog \<Rightarrow> catalog \<Rightarrow> bool" where
  "catalogs_agree d e \<longleftrightarrow> (\<forall>k. rel_option columns_agree (d k) (e k))"

end
