(* ===== verification/Alter_Correct.thy ===== *)
theory Alter_Correct
  imports Sqlite_Alter
begin

unbundle bit_operations_syntax

text \<open>
  The migration script, run on the catalog of the database, succeeds and leaves the tables of
  the schema.
\<close>

section \<open>The statements exist\<close>

lemma fold_res_ok:
  "(\<And>x s. x \<in> set xs \<Longrightarrow> \<exists>s'. f x s = Inr s') \<Longrightarrow> \<exists>s'. fold_res f xs s = Inr s'"
proof (induction xs arbitrary: s)
  case (Cons x xs)
  obtain s1 where "f x s = Inr s1" using Cons.prems by auto
  then show ?case using Cons by simp
qed simp

lemma write_fk_clause_total:
  assumes "named S" "c < length (ds_columns S)" "fk_wf S fk"
  shows "\<exists>sql'. write_fk_clause S c fk sql = Inr sql'"
proof -
  let ?t = "fk_table fk"
  have t: "unat ?t < length (ds_tables S)" using assms(3) by (simp add: fk_wf_def)
  have "\<exists>r. resolve_symbol S y = Inr r" for y using assms(1) unfolding named_def by blast
  then have "\<exists>r. sum_bind (resolve_symbol S y) g = Inr r" if "\<And>s. \<exists>r. g s = Inr r" for y and g :: "str option \<Rightarrow> str res"
    using that by (metis sum_bind_simps(2))
  then show ?thesis
    using t table_name_named [OF assms(1) t] column_name_named [OF assms(1,2)]
      columns_of_table(2) [OF named_wf [OF assms(1)] t]
    by (auto simp: write_fk_clause_def table_at_def split: option.splits)
qed

lemma write_check_total: "named S \<Longrightarrow> \<exists>sql'. write_check S y sql = Inr sql'"
proof -
  assume "named S"
  then obtain r where "resolve_symbol S y = Inr r" unfolding named_def by blast
  then show ?thesis by (cases r) (simp_all add: write_check_def)
qed

lemma create_stmt_total:
  assumes nm: "named S" and t: "unat t < length (ds_tables S)"
  shows "\<exists>sql. create_stmt S t = Inr (CreateTable t sql)"
proof -
  note wf = named_wf [OF nm]
  have cs: "c < length (ds_columns S)" if "c \<in> set (cols_of S t)" for c using cols_of_in [OF wf t that] .
  have col: "\<exists>s'. write_column_def S c st = Inr s'" if "c \<in> set (cols_of S t)" for c st
    using cs [OF that] column_name_named [OF nm cs [OF that]] column_default_total [OF nm, of "ds_columns S ! c"]
    by (cases st) (auto simp: write_column_def_def column_meta_def)
  obtain s1 b where s1: "fold_res (write_column_def S) (cols_of S t)
      (lit ''CREATE TABLE IF NOT EXISTS '' @ ident_fmt (t_name S t) @ lit '' ('', True) = Inr (s1, b)"
    using fold_res_ok [of "cols_of S t" "write_column_def S", OF col] by fast
  have fk: "\<exists>s'. sum_bind (column_foreign_keys S c) (\<lambda>fks. fold_res (write_fk_clause S c) fks sql) = Inr s'"
    if "c \<in> set (cols_of S t)" for c sql
    using column_slices [OF wf cs [OF that]] write_fk_clause_total [OF nm cs [OF that]]
    by (simp add: fold_res_ok)
  obtain s2 where s2: "fold_res (\<lambda>c sql. sum_bind (column_foreign_keys S c) (\<lambda>fks. fold_res (write_fk_clause S c) fks sql))
      (cols_of S t) s1 = Inr s2"
    using fold_res_ok [of "cols_of S t" "\<lambda>c sql. sum_bind (column_foreign_keys S c) (\<lambda>fks. fold_res (write_fk_clause S c) fks sql)",
        OF fk] by blast
  have ck: "\<exists>s'. sum_bind (column_constraints S c) (\<lambda>ys. fold_res (write_check S) ys sql) = Inr s'"
    if "c \<in> set (cols_of S t)" for c sql
    using column_slices [OF wf cs [OF that]] write_check_total [OF nm] by (simp add: fold_res_ok)
  obtain s3 where s3: "fold_res (\<lambda>c sql. sum_bind (column_constraints S c) (\<lambda>ys. fold_res (write_check S) ys sql))
      (cols_of S t) s2 = Inr s3"
    using fold_res_ok [of "cols_of S t" "\<lambda>c sql. sum_bind (column_constraints S c) (\<lambda>ys. fold_res (write_check S) ys sql)",
        OF ck] by blast
  then show ?thesis
    using s1 s2 table_name_named [OF nm t] table_columns_cols [OF wf t]
    by (simp add: create_stmt_def write_create_table_def)
qed

section \<open>Names that differ in more than case\<close>

definition names_ok :: "str list \<Rightarrow> str list \<Rightarrow> bool" where
  "names_ok ms ns \<longleftrightarrow> distinct (map lc ms) \<and> distinct (map lc ns) \<and>
     (\<forall>m \<in> set ms. \<forall>n \<in> set ns. lc m = lc n \<longrightarrow> m = n)"

lemma names_ok_distinct: "names_ok ms ns \<Longrightarrow> distinct ms \<and> distinct ns"
  by (simp add: names_ok_def distinct_map)

lemma map_of_lc:
  assumes "distinct (map (\<lambda>x. lc (f x)) xs)" "x \<in> set xs"
  shows "map_of (map (\<lambda>x. (lc (f x), g x)) xs) (lc (f x)) = Some (g x)"
  using assms by (intro map_of_is_SomeI) (auto simp: comp_def)

lemma map_of_lc_None: "map_of (map (\<lambda>x. (lc (f x), g x)) xs) k = None \<longleftrightarrow> (\<forall>x \<in> set xs. lc (f x) \<noteq> k)"
  by (induction xs) auto

section \<open>Running the parts of a table's script\<close>

lemma run_script_append: "run_script S (as @ bs) d = Option.bind (run_script S as d) (run_script S bs)"
  by (induction as arbitrary: d) (simp_all split: bind_splits)

abbreviation c_type :: "'t database_schema \<Rightarrow> nat \<Rightarrow> str" where
  "c_type S c \<equiv> sqlite_type (col_data_type (ds_columns S ! c))"

abbreviation c_pk :: "'t database_schema \<Rightarrow> nat \<Rightarrow> bool" where
  "c_pk S c \<equiv> is_primary_key (ds_columns S ! c)"

lemma run_adds:
  assumes nm: "named S"
  shows "\<forall>c \<in> set cs. c < length (ds_columns S) \<and> f (lc (c_name S c)) = None \<Longrightarrow>
    distinct (map (\<lambda>c. lc (c_name S c)) cs) \<Longrightarrow> d (lc n) = Some f \<Longrightarrow>
    \<exists>adds. map_res (add_column_stmts S n) cs = Inr adds \<and>
      run_script S (concat adds) d =
        Some (d(lc n \<mapsto> f ++ map_of (map (\<lambda>c. (lc (c_name S c), c_type S c, False)) (rev cs))))"
proof (induction cs arbitrary: d f)
  case (Cons c cs)
  let ?f = "f(lc (c_name S c) \<mapsto> (c_type S c, False))" and ?m = "ds_columns S ! c"
  let ?d = "d(lc n \<mapsto> ?f)"
  have c: "c < length (ds_columns S)" using Cons.prems by simp
  obtain r where r: "column_default S ?m = Inr r" using column_default_total [OF nm] by blast
  obtain suffix where add: "add_column_stmts S n c =
      Inr (AddColumn n (c_name S c) (c_type S c) suffix # (if is_unique ?m then [UniqueIndex n (c_name S c)] else []))"
    using c r column_name_named [OF nm c] by (simp add: add_column_stmts_def column_meta_def Let_def)
  have "lc (c_name S x) \<noteq> lc (c_name S c)" if "x \<in> set cs" for x
    using Cons.prems(2) that by (auto simp: image_iff)
  then have fresh: "\<forall>x \<in> set cs. x < length (ds_columns S) \<and> ?f (lc (c_name S x)) = None"
    using Cons.prems(1) by simp
  have dist: "distinct (map (\<lambda>c. lc (c_name S c)) cs)" using Cons.prems(2) by simp
  have dn: "?d (lc n) = Some ?f" by simp
  obtain adds where IH: "map_res (add_column_stmts S n) cs = Inr adds"
      "run_script S (concat adds) ?d =
        Some (?d(lc n \<mapsto> ?f ++ map_of (map (\<lambda>c. (lc (c_name S c), c_type S c, False)) (rev cs))))"
    using Cons.IH [of ?f ?d, OF fresh dist dn] by blast
  let ?ss = "AddColumn n (c_name S c) (c_type S c) suffix # (if is_unique ?m then [UniqueIndex n (c_name S c)] else [])"
  have first: "run_script S ?ss d = Some ?d" using Cons.prems by simp
  have f: "?f ++ map_of (map (\<lambda>c. (lc (c_name S c), c_type S c, False)) (rev cs)) =
      f ++ map_of (map (\<lambda>c. (lc (c_name S c), c_type S c, False)) (rev (c # cs)))"
    by simp
  have "run_script S (concat (?ss # adds)) d =
      Some (d(lc n \<mapsto> f ++ map_of (map (\<lambda>c. (lc (c_name S c), c_type S c, False)) (rev (c # cs)))))"
    unfolding concat.simps run_script_append first bind.simps IH(2) fun_upd_upd f ..
  moreover have "map_res (add_column_stmts S n) (c # cs) = Inr (?ss # adds)" using add IH(1) by simp
  ultimately show ?case by blast
qed (simp add: fun_upd_idem)

lemma run_drops:
  "\<forall>k \<in> set ks. \<exists>ty. f (lc k) = Some (ty, False) \<Longrightarrow> distinct (map lc ks) \<Longrightarrow> d (lc n) = Some f \<Longrightarrow>
    run_script S (map (DropColumn n) ks) d = Some (d(lc n \<mapsto> f |` (- (lc ` set ks))))"
proof (induction ks arbitrary: d f)
  case Nil
  have "f |` UNIV = f" by (simp add: restrict_map_def)
  then show ?case using Nil by (simp add: fun_upd_idem)
next
  case (Cons k ks)
  let ?f = "f(lc k := None)"
  have "lc j \<noteq> lc k" if "j \<in> set ks" for j using Cons.prems(2) that by (metis distinct.simps(2) image_eqI list.set_map list.simps(9))
  then have left: "\<forall>j \<in> set ks. \<exists>ty. ?f (lc j) = Some (ty, False)" using Cons.prems(1) by simp
  have dist: "distinct (map lc ks)" using Cons.prems(2) by simp
  have dn: "(d(lc n \<mapsto> ?f)) (lc n) = Some ?f" by simp
  have "run_script S (map (DropColumn n) ks) (d(lc n \<mapsto> ?f)) = Some (d(lc n \<mapsto> ?f |` (- (lc ` set ks))))"
    using Cons.IH [of ?f "d(lc n \<mapsto> ?f)", OF left dist dn] unfolding fun_upd_upd .
  moreover obtain ty where "f (lc k) = Some (ty, False)" using Cons.prems by auto
  then have "run_stmt S (DropColumn n k) d = Some (d(lc n \<mapsto> ?f))" using Cons.prems(3) by simp
  moreover have "?f |` (- (lc ` set ks)) = f |` (- (lc ` set (k # ks)))" by (auto simp: restrict_map_def)
  ultimately show ?case by (simp only: list.map run_script.simps bind.simps)
qed

section \<open>Comparing the columns\<close>

lemma scan_columns_ok:
  assumes nm: "named S"
  shows "\<forall>c \<in> set cs. c < length (ds_columns S) \<Longrightarrow> distinct (map (c_name S) cs) \<Longrightarrow> distinct (map fst live) \<Longrightarrow>
    \<exists>rebuild live' added'. scan_columns S cs live added = Inr (rebuild, live', added') \<and>
      (\<not> rebuild \<longrightarrow> live' = filter (\<lambda>(k, _). k \<notin> c_name S ` set cs) live \<and>
        added' = added @ filter (\<lambda>c. c_name S c \<notin> fst ` set live) cs \<and>
        (\<forall>c \<in> set cs. case map_of live (c_name S c) of
           None \<Rightarrow> \<not> c_pk S c
         | Some (ty, pk) \<Rightarrow> eq_ignore_ascii_case ty (c_type S c) \<and> pk = c_pk S c))"
proof (induction cs arbitrary: live added)
  case Nil
  then show ?case by auto
next
  case (Cons c cs)
  let ?n = "c_name S c" and ?m = "ds_columns S ! c"
  have c: "column_meta S c = Inr ?m" "column_name S c = Inr ?n"
    using Cons.prems column_name_named [OF nm] by (simp_all add: column_meta_def)
  have dist: "distinct (map (c_name S) cs)" "?n \<notin> c_name S ` set cs" using Cons.prems(2) by auto
  have in_range: "\<forall>c \<in> set cs. c < length (ds_columns S)" using Cons.prems(1) by simp
  show ?case
  proof (cases "map_of live ?n")
    case None
    then have out: "?n \<notin> fst ` set live" by (simp add: map_of_eq_None_iff)
    then have same: "filter (\<lambda>(k, _). k \<notin> c_name S ` set (c # cs)) live = filter (\<lambda>(k, _). k \<notin> c_name S ` set cs) live"
      by (intro filter_cong) (auto simp: rev_image_eqI)
    show ?thesis
      using Cons.IH [OF in_range dist(1) Cons.prems(3), of "added @ [c]"] None out unfolding same
      by (cases "c_pk S c") (auto simp: c)
  next
    case (Some x)
    obtain ty pk where x: "x = (ty, pk)" by (cases x)
    let ?live = "AList.delete ?n live"
    have d: "distinct (map fst ?live)" using Cons.prems(3) by (rule distinct_delete)
    have n_in: "?n \<in> fst ` set live" using Some by (metis map_of_eq_None_iff option.distinct(1))
    have other: "x \<noteq> c \<and> c_name S x \<noteq> ?n" if "x \<in> set cs" for x
      using dist(2) that by (metis image_eqI)
    have keys: "c_name S x \<in> fst ` set ?live \<longleftrightarrow> c_name S x \<in> fst ` set live" if "x \<in> set cs" for x
      using other [OF that] by (force simp: AList.delete_eq)
    have live': "filter (\<lambda>(k, _). k \<notin> c_name S ` set cs) ?live = filter (\<lambda>(k, _). k \<notin> c_name S ` set (c # cs)) live"
      by (auto simp: AList.delete_eq intro!: filter_cong)
    have added': "filter (\<lambda>x. c_name S x \<notin> fst ` set ?live) cs = filter (\<lambda>x. c_name S x \<notin> fst ` set live) (c # cs)"
      using n_in keys by (auto intro!: filter_cong)
    obtain rebuild l a where IH: "scan_columns S cs ?live added = Inr (rebuild, l, a)"
        "\<not> rebuild \<longrightarrow> l = filter (\<lambda>(k, _). k \<notin> c_name S ` set (c # cs)) live \<and>
          a = added @ filter (\<lambda>x. c_name S x \<notin> fst ` set live) (c # cs) \<and>
          (\<forall>x \<in> set cs. case map_of ?live (c_name S x) of
             None \<Rightarrow> \<not> c_pk S x
           | Some (ty, pk) \<Rightarrow> eq_ignore_ascii_case ty (c_type S x) \<and> pk = c_pk S x)"
      using Cons.IH [OF in_range dist(1) d, of added] unfolding live' added' by blast
    have same: "map_of ?live (c_name S x) = map_of live (c_name S x)" if "x \<in> set cs" for x
      using other [OF that] by simp
    show ?thesis
    proof (cases "eq_ignore_ascii_case ty (c_type S c) \<and> pk = c_pk S c")
      case True
      then have "scan_columns S (c # cs) live added = Inr (rebuild, l, a)" using IH(1) Some x by (simp add: c)
      moreover have "\<forall>x \<in> set (c # cs). case map_of live (c_name S x) of
             None \<Rightarrow> \<not> c_pk S x
           | Some (ty, pk) \<Rightarrow> eq_ignore_ascii_case ty (c_type S x) \<and> pk = c_pk S x" if "\<not> rebuild"
        using IH(2) that same True Some x by simp
      ultimately show ?thesis using IH(2) by blast
    next
      case False
      then have "scan_columns S (c # cs) live added = Inr (True, ?live, added)" using Some x by (auto simp: c)
      then show ?thesis by blast
    qed
  qed
qed

section \<open>One table\<close>

definition table_names_ok :: "'t database_schema \<Rightarrow> live_tables \<Rightarrow> u16 \<Rightarrow> bool" where
  "table_names_ok S live t \<longleftrightarrow> distinct (map (\<lambda>c. lc (c_name S c)) (cols_of S t)) \<and>
     (\<forall>cols. map_of live (t_name S t) = Some cols \<longrightarrow> names_ok (map fst cols) (map (c_name S) (cols_of S t)))"

lemma live_columns_eq: "live_columns cols = map_of (map (\<lambda>x. (lc (fst x), snd x)) cols)"
  by (simp add: live_columns_def split_def)

lemma schema_columns_Some:
  assumes "distinct (map (\<lambda>c. lc (c_name S c)) (cols_of S t))" "c \<in> set (cols_of S t)"
  shows "schema_columns S t (lc (c_name S c)) = Some (c_type S c, c_pk S c)"
  unfolding schema_columns_def using map_of_lc [OF assms, of "\<lambda>c. (c_type S c, c_pk S c)"] .

lemma columns_agree_refl: "columns_agree f f"
  by (auto simp: columns_agree_def rel_option_iff eq_ignore_ascii_case_def split: option.splits)

text \<open>The columns a table is left with when it is altered in place.\<close>

lemma altered_columns_agree:
  assumes cs: "cs = cols_of S t" and names: "names_ok (map fst cols) (map (c_name S) cs)"
    and added: "added = filter (\<lambda>c. c_name S c \<notin> fst ` set cols) cs"
    and live: "live = filter (\<lambda>(k, _). k \<notin> c_name S ` set cs) cols"
    and kept: "\<forall>c \<in> set cs. case map_of cols (c_name S c) of
       None \<Rightarrow> \<not> c_pk S c | Some (ty, pk) \<Rightarrow> eq_ignore_ascii_case ty (c_type S c) \<and> pk = c_pk S c"
    and ks: "set ks = fst ` set live"
  shows "columns_agree
    ((live_columns cols ++ map_of (map (\<lambda>c. (lc (c_name S c), c_type S c, False)) (rev added))) |` (- (lc ` set ks)))
    (schema_columns S t)" (is "columns_agree ?f _")
proof -
  have dist: "distinct (map (\<lambda>c. lc (c_name S c)) cs)" "distinct (map (\<lambda>x. lc (fst x)) cols)"
      "\<And>x c. x \<in> set cols \<Longrightarrow> c \<in> set cs \<Longrightarrow> lc (fst x) = lc (c_name S c) \<Longrightarrow> fst x = c_name S c"
    using names by (simp_all add: names_ok_def comp_def)
  have dadd: "distinct (map (\<lambda>c. lc (c_name S c)) (rev added))"
    using dist(1) unfolding added rev_map [symmetric] distinct_rev by (rule distinct_map_filter)
  have key: "rel_option (\<lambda>(ty, pk) (ty', pk'). eq_ignore_ascii_case ty ty' \<and> pk = pk')
      (?f k) (schema_columns S t k)" for k
  proof (cases "\<exists>c \<in> set cs. lc (c_name S c) = k")
    case True
    then obtain c where c: "c \<in> set cs" "lc (c_name S c) = k" by blast
    have target: "schema_columns S t k = Some (c_type S c, c_pk S c)"
      using schema_columns_Some [of S t c] dist(1) c cs by simp
    have stays: "k \<notin> lc ` set ks"
      using dist(3) [of _ c] c ks live by (fastforce simp: c(2) [symmetric])
    show ?thesis
    proof (cases "c_name S c \<in> fst ` set cols")
      case True
      then obtain ty pk where x: "(c_name S c, ty, pk) \<in> set cols" by force
      have "map_of cols (c_name S c) = Some (ty, pk)"
        using x names_ok_distinct [OF names] by simp
      then have agree: "eq_ignore_ascii_case ty (c_type S c)" "pk = c_pk S c" using kept c(1) by force+
      have "live_columns cols k = Some (ty, pk)"
        using map_of_lc [OF dist(2) x, of snd] c(2) by (simp add: live_columns_eq)
      moreover have "map_of (map (\<lambda>c. (lc (c_name S c), c_type S c, False)) (rev added)) k = None"
        unfolding map_of_lc_None using True dist(1) c added by (auto dest!: distinct_map [THEN iffD1] inj_onD)
      ultimately show ?thesis using target stays agree by (simp add: map_add_def)
    next
      case False
      then have add: "c \<in> set (rev added)" using c(1) added by simp
      have "map_of cols (c_name S c) = None" using False by (simp add: map_of_eq_None_iff)
      then have "\<not> c_pk S c" using kept c(1) by force
      moreover have "map_of (map (\<lambda>c. (lc (c_name S c), c_type S c, False)) (rev added)) k = Some (c_type S c, False)"
        using map_of_lc [OF dadd add, of "\<lambda>c. (c_type S c, False)"] c(2) by simp
      ultimately show ?thesis using target stays by (simp add: map_add_def eq_ignore_ascii_case_def)
    qed
  next
    case False
    then have "schema_columns S t k = None" unfolding schema_columns_def cs [symmetric] map_of_lc_None by blast
    moreover have "map_of (map (\<lambda>c. (lc (c_name S c), c_type S c, False)) (rev added)) k = None"
      unfolding map_of_lc_None using False added by auto
    moreover have "k \<in> lc ` set ks" if some: "live_columns cols k \<noteq> None"
    proof -
      obtain x where x: "x \<in> set cols" "lc (fst x) = k"
        using some map_of_lc_None [of fst snd cols k] by (auto simp: live_columns_eq)
      then have "fst x \<notin> c_name S ` set cs" using False by auto
      then have "x \<in> set live" using x(1) live by (auto simp: split_def)
      then show ?thesis using ks x(2) by blast
    qed
    ultimately show ?thesis by (cases "live_columns cols k = None") (simp_all add: map_add_def restrict_map_def)
  qed
  then show ?thesis unfolding columns_agree_def by blast
qed

text \<open>Altering a table in place: adding the missing columns and dropping the others.\<close>

lemma alter_in_place:
  assumes nm: "named S" and cs: "\<forall>c \<in> set (cols_of S t). c < length (ds_columns S)"
    and names: "names_ok (map fst cols) (map (c_name S) (cols_of S t))"
    and l: "live = filter (\<lambda>(k, _). k \<notin> c_name S ` set (cols_of S t)) cols"
      "added = filter (\<lambda>c. c_name S c \<notin> fst ` set cols) (cols_of S t)"
      "\<forall>c \<in> set (cols_of S t). case map_of cols (c_name S c) of
         None \<Rightarrow> \<not> c_pk S c
       | Some (ty, pk) \<Rightarrow> eq_ignore_ascii_case ty (c_type S c) \<and> pk = c_pk S c"
    and no_pk: "\<not> list_ex (\<lambda>(_, _, pk). pk) live" and iter: "\<And>xs. mset (iter_c xs) = mset xs"
    and dn: "d (lc n) = Some (live_columns cols)"
  shows "\<exists>adds g. map_res (add_column_stmts S n) added = Inr adds \<and>
    run_script S (concat adds @ map (DropColumn n) (iter_c (map fst live))) d = Some (d(lc n \<mapsto> g)) \<and>
    columns_agree g (schema_columns S t)"
proof -
  let ?cs = "cols_of S t"
  have lcd: "distinct (map (\<lambda>c. lc (c_name S c)) ?cs)" "distinct (map (\<lambda>x. lc (fst x)) cols)"
      "\<And>x c. x \<in> set cols \<Longrightarrow> c \<in> set ?cs \<Longrightarrow> lc (fst x) = lc (c_name S c) \<Longrightarrow> fst x = c_name S c"
    using names by (simp_all add: names_ok_def comp_def)
  let ?f = "live_columns cols"
  let ?f1 = "?f ++ map_of (map (\<lambda>c. (lc (c_name S c), c_type S c, False)) (rev added))"
  let ?ks = "iter_c (map fst live)"
  have fresh: "\<forall>c \<in> set added. c < length (ds_columns S) \<and> ?f (lc (c_name S c)) = None"
  proof (intro ballI conjI)
    fix c assume "c \<in> set added"
    then have c: "c \<in> set ?cs" "c_name S c \<notin> fst ` set cols" using l(2) by simp_all
    show "c < length (ds_columns S)" using cs c(1) by blast
    have "lc (fst x) \<noteq> lc (c_name S c)" if "x \<in> set cols" for x
      using lcd(3) [OF that c(1)] c(2) that by (metis image_eqI)
    then show "?f (lc (c_name S c)) = None" unfolding live_columns_eq map_of_lc_None by blast
  qed
  have dadd: "distinct (map (\<lambda>c. lc (c_name S c)) added)" using lcd(1) l(2) distinct_map_filter by blast
  obtain adds where adds: "map_res (add_column_stmts S n) added = Inr adds"
      "run_script S (concat adds) d = Some (d(lc n \<mapsto> ?f1))"
    using run_adds [of S added ?f d n, OF nm fresh dadd dn] by blast
  have ks: "set ?ks = fst ` set live" using mset_eq_setD [OF iter] by simp
  have mks: "mset (map lc ?ks) = mset (map (\<lambda>x. lc (fst x)) live)"
    using iter [of "map fst live"] by (simp add: multiset.map_comp comp_def)
  have dks: "distinct (map lc ?ks)"
    using mset_eq_imp_distinct_iff [OF mks] lcd(2) l(1) distinct_map_filter by blast
  have gone: "\<exists>ty. ?f1 (lc k) = Some (ty, False)" if k: "k \<in> set ?ks" for k
  proof -
    obtain x where x: "x \<in> set live" "fst x = k" using k ks by (metis imageE)
    then have xc: "x \<in> set cols" "k \<notin> c_name S ` set ?cs" using l(1) by auto
    have "snd (snd x) = False" using no_pk x(1) by (auto simp: list_ex_iff split_def)
    moreover have "?f (lc k) = Some (snd x)"
      using map_of_lc [OF lcd(2) xc(1), of snd] x(2) by (simp add: live_columns_eq)
    moreover have "map_of (map (\<lambda>c. (lc (c_name S c), c_type S c, False)) (rev added)) (lc k) = None"
      unfolding map_of_lc_None using lcd(3) [OF xc(1)] xc(2) x(2) l(2) by fastforce
    ultimately show ?thesis by (cases "snd x") (simp add: map_add_def)
  qed
  have "run_script S (map (DropColumn n) ?ks) (d(lc n \<mapsto> ?f1)) = Some (d(lc n \<mapsto> ?f1 |` (- (lc ` set ?ks))))"
    using run_drops [of ?ks ?f1 "d(lc n \<mapsto> ?f1)" n S] gone dks unfolding fun_upd_upd by simp
  then have "run_script S (concat adds @ map (DropColumn n) ?ks) d = Some (d(lc n \<mapsto> ?f1 |` (- (lc ` set ?ks))))"
    unfolding run_script_append adds(2) bind.simps .
  moreover have "columns_agree (?f1 |` (- (lc ` set ?ks))) (schema_columns S t)"
    by (rule altered_columns_agree [OF refl names l(2,1,3) ks])
  ultimately show ?thesis using adds(1) by blast
qed

text \<open>
  The statements for one table, run on a catalog that has the table's live columns: afterwards
  the table agrees with the schema and all other tables are as they were.
\<close>

lemma table_stmts_run:
  assumes nm: "named S" and t: "unat t < length (ds_tables S)" and ok: "table_names_ok S existing t"
    and iter: "\<And>xs. mset (iter_c xs) = mset xs"
    and d: "d (lc (t_name S t)) = map_option live_columns (map_of existing (t_name S t))"
  shows "\<exists>new g. table_stmts iter_c S t (stmts, existing) = Inr (stmts @ new, AList.delete (t_name S t) existing) \<and>
    run_script S new d = Some (d(lc (t_name S t) \<mapsto> g)) \<and> columns_agree g (schema_columns S t)"
proof -
  let ?n = "t_name S t" and ?cs = "cols_of S t"
  note wf = named_wf [OF nm] and name = table_name_named [OF nm t]
  obtain sql where create: "create_stmt S t = Inr (CreateTable t sql)" using create_stmt_total [OF nm t] by blast
  show ?thesis
  proof (cases "map_of existing ?n")
    case None
    then have del: "AList.delete ?n existing = existing" by (intro delete_id) (simp add: map_of_eq_None_iff)
    have "table_stmts iter_c S t (stmts, existing) = Inr (stmts @ [CreateTable t sql], AList.delete ?n existing)"
      using None by (simp add: table_stmts_def name create del)
    moreover have "run_script S [CreateTable t sql] d = Some (d(lc ?n \<mapsto> schema_columns S t))"
      using None d by simp
    ultimately show ?thesis using columns_agree_refl by blast
  next
    case (Some cols)
    have names: "names_ok (map fst cols) (map (c_name S) ?cs)" using ok Some by (simp add: table_names_ok_def)
    have dist: "distinct (map (c_name S) ?cs)" "distinct (map fst cols)" using names_ok_distinct [OF names] by simp_all
    have cs: "\<forall>c \<in> set ?cs. c < length (ds_columns S)" using cols_of_in [OF wf t] by blast
    obtain rebuild live added where scan: "scan_columns S ?cs cols [] = Inr (rebuild, live, added)"
        "\<not> rebuild \<longrightarrow> live = filter (\<lambda>(k, _). k \<notin> c_name S ` set ?cs) cols \<and>
          added = [] @ filter (\<lambda>c. c_name S c \<notin> fst ` set cols) ?cs \<and>
          (\<forall>c \<in> set ?cs. case map_of cols (c_name S c) of
             None \<Rightarrow> \<not> c_pk S c
           | Some (ty, pk) \<Rightarrow> eq_ignore_ascii_case ty (c_type S c) \<and> pk = c_pk S c)"
      using scan_columns_ok [OF nm cs dist, of "[]"] by blast
    let ?rebuild = "rebuild \<or> list_ex (\<lambda>(_, _, pk). pk) live"
    show ?thesis
    proof (cases ?rebuild)
      case True
      then have "table_stmts iter_c S t (stmts, existing) =
          Inr (stmts @ [DropTable ?n, CreateTable t sql], AList.delete ?n existing)"
        using Some by (simp add: table_stmts_def name create table_columns_cols [OF wf t] scan(1))
      moreover have "run_script S [DropTable ?n, CreateTable t sql] d = Some (d(lc ?n \<mapsto> schema_columns S t))"
        by simp
      ultimately show ?thesis using columns_agree_refl by blast
    next
      case False
      then have l: "live = filter (\<lambda>(k, _). k \<notin> c_name S ` set ?cs) cols"
          "added = filter (\<lambda>c. c_name S c \<notin> fst ` set cols) ?cs"
          "\<forall>c \<in> set ?cs. case map_of cols (c_name S c) of
             None \<Rightarrow> \<not> c_pk S c
           | Some (ty, pk) \<Rightarrow> eq_ignore_ascii_case ty (c_type S c) \<and> pk = c_pk S c"
        using scan(2) by auto
      obtain adds g where "map_res (add_column_stmts S ?n) added = Inr adds"
          "run_script S (concat adds @ map (DropColumn ?n) (iter_c (map fst live))) d = Some (d(lc ?n \<mapsto> g))"
          "columns_agree g (schema_columns S t)"
        using alter_in_place [of S t cols live added iter_c d ?n, OF nm cs names l] False iter d Some by auto
      moreover from this have "table_stmts iter_c S t (stmts, existing) =
          Inr (stmts @ concat adds @ map (DropColumn ?n) (iter_c (map fst live)), AList.delete ?n existing)"
        using Some False by (simp add: table_stmts_def name table_columns_cols [OF wf t] scan(1))
      ultimately show ?thesis by blast
    qed
  qed
qed

section \<open>All tables\<close>

lemma tables_run:
  assumes nm: "named S" and iter: "\<And>xs. mset (iter_c xs) = mset xs"
  shows "\<forall>t \<in> set ts. unat t < length (ds_tables S) \<and> table_names_ok S existing t \<and>
      d (lc (t_name S t)) = map_option live_columns (map_of existing (t_name S t)) \<Longrightarrow>
    distinct (map (\<lambda>t. lc (t_name S t)) ts) \<Longrightarrow>
    \<exists>new d'. fold_res (table_stmts iter_c S) ts (stmts, existing) =
        Inr (stmts @ new, filter (\<lambda>(k, _). k \<notin> t_name S ` set ts) existing) \<and>
      run_script S new d = Some d' \<and> (\<forall>k. (\<forall>t \<in> set ts. lc (t_name S t) \<noteq> k) \<longrightarrow> d' k = d k) \<and>
      (\<forall>t \<in> set ts. \<exists>g. d' (lc (t_name S t)) = Some g \<and> columns_agree g (schema_columns S t))"
proof (induction ts arbitrary: stmts existing d)
  case Nil
  then show ?case by simp
next
  case (Cons t ts)
  let ?n = "t_name S t" and ?e = "AList.delete (t_name S t) existing"
  have t: "unat t < length (ds_tables S)" "table_names_ok S existing t"
      "d (lc ?n) = map_option live_columns (map_of existing ?n)"
    using Cons.prems(1) by simp_all
  have dist: "distinct (map (\<lambda>t. lc (t_name S t)) ts)" "\<And>u. u \<in> set ts \<Longrightarrow> lc (t_name S u) \<noteq> lc ?n"
    using Cons.prems(2) by (auto simp: image_iff)
  obtain new g where new: "table_stmts iter_c S t (stmts, existing) = Inr (stmts @ new, ?e)"
      "run_script S new d = Some (d(lc ?n \<mapsto> g))" "columns_agree g (schema_columns S t)"
    using table_stmts_run [of S t existing iter_c d, OF nm t(1,2) iter t(3)] by blast
  have other: "map_of ?e (t_name S u) = map_of existing (t_name S u)" if "u \<in> set ts" for u
    using dist(2) [OF that] by (intro map_of_delete) auto
  have "\<forall>u \<in> set ts. unat u < length (ds_tables S) \<and> table_names_ok S ?e u \<and>
      (d(lc ?n \<mapsto> g)) (lc (t_name S u)) = map_option live_columns (map_of ?e (t_name S u))"
    using Cons.prems(1) other dist(2) by (simp add: table_names_ok_def)
  then obtain new' d' where IH: "fold_res (table_stmts iter_c S) ts (stmts @ new, ?e) =
        Inr ((stmts @ new) @ new', filter (\<lambda>(k, _). k \<notin> t_name S ` set ts) ?e)"
      "run_script S new' (d(lc ?n \<mapsto> g)) = Some d'"
      "\<forall>k. (\<forall>u \<in> set ts. lc (t_name S u) \<noteq> k) \<longrightarrow> d' k = (d(lc ?n \<mapsto> g)) k"
      "\<forall>u \<in> set ts. \<exists>g. d' (lc (t_name S u)) = Some g \<and> columns_agree g (schema_columns S u)"
    using Cons.IH [of ?e "d(lc ?n \<mapsto> g)" "stmts @ new"] dist(1) by blast
  have left: "filter (\<lambda>(k, _). k \<notin> t_name S ` set ts) ?e = filter (\<lambda>(k, _). k \<notin> t_name S ` set (t # ts)) existing"
    by (auto simp: AList.delete_eq intro!: filter_cong)
  have "fold_res (table_stmts iter_c S) (t # ts) (stmts, existing) =
      Inr (stmts @ (new @ new'), filter (\<lambda>(k, _). k \<notin> t_name S ` set (t # ts)) existing)"
    using new(1) IH(1) left by simp
  moreover have "run_script S (new @ new') d = Some d'"
    unfolding run_script_append new(2) bind.simps IH(2) ..
  moreover have "\<forall>k. (\<forall>u \<in> set (t # ts). lc (t_name S u) \<noteq> k) \<longrightarrow> d' k = d k" using IH(3) by simp
  moreover have "\<forall>u \<in> set (t # ts). \<exists>g. d' (lc (t_name S u)) = Some g \<and> columns_agree g (schema_columns S u)"
    using IH(3,4) dist(2) new(3) by simp
  ultimately show ?case by blast
qed

lemma run_drop_tables: "run_script S (map DropTable ks) d = Some (d |` (- (lc ` set ks)))"
proof (induction ks arbitrary: d)
  case Nil
  have "d |` UNIV = d" by (simp add: restrict_map_def)
  then show ?case by simp
next
  case (Cons k ks)
  have "(d(lc k := None)) |` (- (lc ` set ks)) = d |` (- (lc ` set (k # ks)))" by (auto simp: restrict_map_def)
  then show ?case using Cons [of "d(lc k := None)"] by (simp only: list.map run_script.simps run_stmt.simps bind.simps)
qed

definition live_names_ok :: "'t database_schema \<Rightarrow> live_tables \<Rightarrow> bool" where
  "live_names_ok S live \<longleftrightarrow> names_ok (map fst live) (map (t_name S) (tables S)) \<and>
     (\<forall>t \<in> set (tables S). table_names_ok S live t)"

lemma live_catalog_eq: "live_catalog live = map_of (map (\<lambda>x. (lc (fst x), live_columns (snd x))) live)"
  by (simp add: live_catalog_def split_def)

lemma live_catalog_at:
  assumes "live_names_ok S live" "t \<in> set (tables S)"
  shows "live_catalog live (lc (t_name S t)) = map_option live_columns (map_of live (t_name S t))"
proof -
  have ok: "distinct (map (\<lambda>x. lc (fst x)) live)" "distinct (map fst live)"
      "\<And>x. x \<in> set live \<Longrightarrow> lc (fst x) = lc (t_name S t) \<Longrightarrow> fst x = t_name S t"
  proof -
    have n: "names_ok (map fst live) (map (t_name S) (tables S))" using assms(1) by (simp add: live_names_ok_def)
    show "distinct (map fst live)" using names_ok_distinct [OF n] by simp
    show "distinct (map (\<lambda>x. lc (fst x)) live)" using n by (simp add: names_ok_def comp_def)
    show "fst x = t_name S t" if "x \<in> set live" "lc (fst x) = lc (t_name S t)" for x
      using n that assms(2) by (simp add: names_ok_def)
  qed
  show ?thesis
  proof (cases "map_of live (t_name S t)")
    case None
    then have "t_name S t \<notin> fst ` set live" by (simp add: map_of_eq_None_iff)
    then have "\<forall>x \<in> set live. lc (fst x) \<noteq> lc (t_name S t)" using ok(3) by (metis image_eqI)
    then show ?thesis using None unfolding live_catalog_eq by (simp add: map_of_lc_None)
  next
    case (Some cols)
    then have "(t_name S t, cols) \<in> set live" by (rule map_of_SomeD)
    then show ?thesis
      using map_of_lc [OF ok(1), of "(t_name S t, cols)" "\<lambda>x. live_columns (snd x)"] Some
      by (simp add: live_catalog_eq)
  qed
qed

lemma alter_plan_run:
  assumes nm: "named S" and ok: "live_names_ok S live"
    and iter: "\<And>xs. mset (iter_t xs) = mset xs" "\<And>xs. mset (iter_c xs) = mset xs"
  shows "\<exists>stmts d. alter_plan iter_t iter_c S live = Inr stmts \<and>
    run_script S stmts (live_catalog live) = Some d \<and> catalogs_agree d (schema_catalog S)"
proof -
  let ?ts = "tables S" and ?d = "live_catalog live"
  have n: "names_ok (map fst live) (map (t_name S) ?ts)" using ok by (simp add: live_names_ok_def)
  have dist: "distinct (map (\<lambda>t. lc (t_name S t)) ?ts)" using n by (simp add: names_ok_def comp_def)
  have small: "length (ds_tables S) < 2 ^ 16" using named_wf [OF nm] by (simp add: schema_wf_def)
  have pre: "\<forall>t \<in> set ?ts. unat t < length (ds_tables S) \<and> table_names_ok S live t \<and>
      ?d (lc (t_name S t)) = map_option live_columns (map_of live (t_name S t))"
    using set_tables_wf [OF small] live_catalog_at [OF ok] ok by (simp add: live_names_ok_def)
  let ?rest = "filter (\<lambda>(k, _). k \<notin> t_name S ` set ?ts) live"
  obtain new d' where f: "fold_res (table_stmts iter_c S) ?ts ([], live) = Inr ([] @ new, ?rest)"
      "run_script S new ?d = Some d'" "\<forall>k. (\<forall>t \<in> set ?ts. lc (t_name S t) \<noteq> k) \<longrightarrow> d' k = ?d k"
      "\<forall>t \<in> set ?ts. \<exists>g. d' (lc (t_name S t)) = Some g \<and> columns_agree g (schema_columns S t)"
    using tables_run [OF nm iter(2) pre dist, of "[]"] by blast
  let ?ks = "iter_t (map fst ?rest)"
  have ks: "set ?ks = fst ` set ?rest" using mset_eq_setD [OF iter(1)] by simp
  let ?e = "d' |` (- (lc ` set ?ks))"
  have "run_script S (new @ map DropTable ?ks) ?d = Some ?e"
    unfolding run_script_append f(2) bind.simps run_drop_tables ..
  moreover have "alter_plan iter_t iter_c S live = Inr (new @ map DropTable ?ks)"
    using f(1) by (simp add: alter_plan_def)
  moreover have "rel_option columns_agree (?e k) (schema_catalog S k)" for k
  proof (cases "\<exists>t \<in> set ?ts. lc (t_name S t) = k")
    case True
    then obtain t where t: "t \<in> set ?ts" "lc (t_name S t) = k" by blast
    have "k \<notin> lc ` set ?ks"
    proof
      assume "k \<in> lc ` set ?ks"
      then obtain x where x: "x \<in> set live" "fst x \<notin> t_name S ` set ?ts" "lc (fst x) = lc (t_name S t)"
        unfolding ks t(2) by auto
      then have "fst x = t_name S t" using n t(1) by (simp add: names_ok_def)
      then show False using x(2) t(1) by blast
    qed
    moreover obtain g where "d' k = Some g" "columns_agree g (schema_columns S t)" using f(4) t by blast
    moreover have "schema_catalog S k = Some (schema_columns S t)"
      unfolding schema_catalog_def t(2) [symmetric] by (rule map_of_lc [OF dist t(1)])
    ultimately show ?thesis by (simp add: restrict_map_def)
  next
    case False
    then have "schema_catalog S k = None" unfolding schema_catalog_def map_of_lc_None by blast
    moreover have "d' k = ?d k" using f(3) False by blast
    moreover have "k \<in> lc ` set ?ks" if some: "?d k \<noteq> None"
    proof -
      obtain x where x: "x \<in> set live" "lc (fst x) = k"
        using some map_of_lc_None [of fst "\<lambda>x. live_columns (snd x)" live k] unfolding live_catalog_eq by metis
      then have "fst x \<notin> t_name S ` set ?ts" using False by auto
      then have "x \<in> set ?rest" using x(1) by (auto simp: split_def)
      then show ?thesis unfolding ks using x(2) by blast
    qed
    ultimately show ?thesis by (cases "?d k = None") (simp_all add: restrict_map_def)
  qed
  ultimately show ?thesis unfolding catalogs_agree_def by blast
qed

end
