(* ===== verification/Sqlite_Reader.thy ===== *)
theory Sqlite_Reader
  imports Alter_Correct
begin

unbundle bit_operations_syntax

text \<open>
  A reader of the scripts that create and alter tables, independent of the code that writes them:
  the text is cut into tokens and statements, and a statement is read by its keywords.  The theory
  shows that the text of every statement the code generates does, when it is read, what
  \<open>run_stmt\<close> says the statement does; in particular the text of \<open>write_create_table\<close> creates
  the columns of the schema.
\<close>

section \<open>Reading a statement\<close>

definition kw :: "string \<Rightarrow> sql_token list" where
  "kw s = map Byte (lit s)"

text \<open>What comes after an expected sequence of tokens.\<close>

definition after :: "sql_token list \<Rightarrow> sql_token list \<Rightarrow> sql_token list option" where
  "after p ts = (if take (length p) ts = p then Some (drop (length p) ts) else None)"

text \<open>The items of a parenthesised list, cut at the commas outside of inner parentheses.\<close>

fun items :: "nat \<Rightarrow> sql_token list \<Rightarrow> sql_token list list option" where
  "items n [] = None"
| "items n (t # ts) =
     (let join = map_option (\<lambda>its. (t # hd its) # tl its) in
      if t = Byte 41 then (if n = 0 then Some [[]] else join (items (n - 1) ts))
      else if t = Byte 40 then join (items (Suc n) ts)
      else if t = Byte 44 \<and> n = 0 then map_option (Cons []) (items 0 ts)
      else join (items n ts))"

text \<open>The bytes up to the next space.\<close>

fun word_text :: "sql_token list \<Rightarrow> str \<times> sql_token list" where
  "word_text (Byte b # ts) = (if b = 32 then ([], Byte b # ts) else (case word_text ts of (w, r) \<Rightarrow> (b # w, r)))"
| "word_text ts = ([], ts)"

text \<open>A column definition: a quoted name, its type and its constraints; other items define no column.\<close>

fun column_item :: "sql_token list \<Rightarrow> (str \<times> str \<times> bool) option" where
  "column_item (Name c # Byte b # ts) = (if b \<noteq> 32 then None else
     (case word_text ts of (ty, r) \<Rightarrow> Some (lc c, ty, after (kw '' PRIMARY KEY'') r \<noteq> None)))"
| "column_item _ = None"

text \<open>
  The effect of a statement on the catalog, after its keywords.  A statement without a quoted
  name here is about the tables of the crate itself, which the catalog does not count.
\<close>

fun read_create :: "sql_token list \<Rightarrow> catalog \<Rightarrow> catalog option" where
  "read_create (Name n # ts) d = (case Option.bind (after (kw '' ('') ts) (items 0) of
       None \<Rightarrow> None
     | Some its \<Rightarrow> Some (if d (lc n) = None then d(lc n \<mapsto> map_of (List.map_filter column_item its)) else d))"
| "read_create _ d = Some d"

fun read_drop :: "sql_token list \<Rightarrow> catalog \<Rightarrow> catalog option" where
  "read_drop (Name n # ts) d = Some (d(lc n := None))"
| "read_drop _ d = Some d"

definition read_add_column :: "str \<Rightarrow> sql_token list \<Rightarrow> catalog \<Rightarrow> catalog option" where
  "read_add_column n ts d = (case (d (lc n), column_item ts) of
       (Some cols, Some (c, ty, pk)) \<Rightarrow>
         if pk \<or> cols c \<noteq> None then None else Some (d(lc n \<mapsto> cols(c \<mapsto> (ty, False))))
     | _ \<Rightarrow> None)"

fun read_drop_column :: "str \<Rightarrow> sql_token list \<Rightarrow> catalog \<Rightarrow> catalog option" where
  "read_drop_column n (Name c # ts) d = (case d (lc n) of
       None \<Rightarrow> None
     | Some cols \<Rightarrow> (case cols (lc c) of
         Some (ty, False) \<Rightarrow> Some (d(lc n \<mapsto> cols(lc c := None)))
       | _ \<Rightarrow> None))"
| "read_drop_column n _ d = None"

fun read_alter :: "sql_token list \<Rightarrow> catalog \<Rightarrow> catalog option" where
  "read_alter (Name n # ts) d = (case after (kw '' ADD COLUMN '') ts of
       Some r \<Rightarrow> read_add_column n r d
     | None \<Rightarrow> (case after (kw '' DROP COLUMN '') ts of
         Some r \<Rightarrow> read_drop_column n r d
       | None \<Rightarrow> None))"
| "read_alter _ d = Some d"

fun read_index_column :: "str \<Rightarrow> sql_token list \<Rightarrow> catalog \<Rightarrow> catalog option" where
  "read_index_column n (Name c # ts) d = (case d (lc n) of
       None \<Rightarrow> None
     | Some cols \<Rightarrow> if cols (lc c) = None then None else Some d)"
| "read_index_column n _ d = None"

fun read_index_on :: "sql_token list \<Rightarrow> catalog \<Rightarrow> catalog option" where
  "read_index_on (Name n # ts) d = (case after (kw ''('') ts of None \<Rightarrow> None | Some r \<Rightarrow> read_index_column n r d)"
| "read_index_on _ d = None"

fun read_index :: "sql_token list \<Rightarrow> catalog \<Rightarrow> catalog option" where
  "read_index (Name i # ts) d = (case after (kw '' ON '') ts of None \<Rightarrow> None | Some r \<Rightarrow> read_index_on r d)"
| "read_index _ d = Some d"

definition read_stmt :: "sql_token list \<Rightarrow> catalog \<Rightarrow> catalog option" where
  "read_stmt ts d =
     (case after (kw ''CREATE TABLE IF NOT EXISTS '') ts of Some r \<Rightarrow> read_create r d | None \<Rightarrow>
     (case after (kw ''DROP TABLE IF EXISTS '') ts of Some r \<Rightarrow> read_drop r d | None \<Rightarrow>
     (case after (kw ''ALTER TABLE '') ts of Some r \<Rightarrow> read_alter r d | None \<Rightarrow>
     (case after (kw ''CREATE UNIQUE INDEX IF NOT EXISTS '') ts of Some r \<Rightarrow> read_index r d | None \<Rightarrow> Some d))))"

section \<open>Reading a script\<close>

text \<open>Statements end with a semicolon; spaces and line ends before a statement do not count.\<close>

fun statements :: "sql_token list \<Rightarrow> sql_token list list" where
  "statements [] = [[]]"
| "statements (t # ts) = (if t = Byte 59 then [] # statements ts else (t # hd (statements ts)) # tl (statements ts))"

definition skip_space :: "sql_token list \<Rightarrow> sql_token list" where
  "skip_space = dropWhile (\<lambda>t. t = Byte 32 \<or> t = Byte 10)"

fun run_stmts :: "sql_token list list \<Rightarrow> catalog \<Rightarrow> catalog option" where
  "run_stmts [] d = Some d"
| "run_stmts (s # ss) d = Option.bind (read_stmt (skip_space s) d) (run_stmts ss)"

definition run_tokens :: "sql_token list \<Rightarrow> catalog \<Rightarrow> catalog option" where
  "run_tokens ts = run_stmts (statements ts)"

text \<open>The effect of a script on the catalog; \<open>None\<close> if it cannot be read or a statement of it fails.\<close>

definition run_text :: "str \<Rightarrow> catalog \<Rightarrow> catalog option" where
  "run_text sql d = (if Unterminated \<in> set (sql_lex sql) then None else run_tokens (sql_lex sql) d)"

lemma after_append [simp]: "after p (p @ ts) = Some ts"
  by (simp add: after_def)

lemma after_kw_self [simp]: "after (kw s) (kw s @ ts) = Some ts" "after (kw s) (map Byte (lit s) @ ts) = Some ts"
  by (simp_all add: kw_def)

lemma statements_ne: "statements ts \<noteq> []"
  by (cases ts) simp_all

lemma statements_end: "Byte 59 \<notin> set b \<Longrightarrow> statements (b @ Byte 59 # ts) = b # statements ts"
  by (induction b) auto

lemma run_newline: "run_tokens (Byte 10 # ts) = run_tokens ts"
  using statements_ne [of ts] by (cases "statements ts") (simp_all add: run_tokens_def skip_space_def fun_eq_iff)

lemma read_nothing: "read_stmt [] d = Some d"
  by (simp add: read_stmt_def after_def kw_def lit_def)

lemma run_nothing: "run_tokens [] d = Some d"
  by (simp add: run_tokens_def skip_space_def read_nothing)

lemma read_stmt_kw:
  "read_stmt (kw ''CREATE TABLE IF NOT EXISTS '' @ ts) d = read_create ts d"
  "read_stmt (kw ''DROP TABLE IF EXISTS '' @ ts) d = read_drop ts d"
  "read_stmt (kw ''ALTER TABLE '' @ ts) d = read_alter ts d"
  "read_stmt (kw ''CREATE UNIQUE INDEX IF NOT EXISTS '' @ ts) d = read_index ts d"
proof -
  have differ: "after (kw ''CREATE TABLE IF NOT EXISTS '') (kw ''DROP TABLE IF EXISTS '' @ ts) = None"
    "after (kw ''CREATE TABLE IF NOT EXISTS '') (kw ''ALTER TABLE '' @ ts) = None"
    "after (kw ''CREATE TABLE IF NOT EXISTS '') (kw ''CREATE UNIQUE INDEX IF NOT EXISTS '' @ ts) = None"
    "after (kw ''DROP TABLE IF EXISTS '') (kw ''ALTER TABLE '' @ ts) = None"
    "after (kw ''DROP TABLE IF EXISTS '') (kw ''CREATE UNIQUE INDEX IF NOT EXISTS '' @ ts) = None"
    "after (kw ''ALTER TABLE '') (kw ''CREATE UNIQUE INDEX IF NOT EXISTS '' @ ts) = None"
    by (simp_all add: after_def kw_def lit_def)
  show "read_stmt (kw ''CREATE TABLE IF NOT EXISTS '' @ ts) d = read_create ts d"
    "read_stmt (kw ''DROP TABLE IF EXISTS '' @ ts) d = read_drop ts d"
    "read_stmt (kw ''ALTER TABLE '' @ ts) d = read_alter ts d"
    "read_stmt (kw ''CREATE UNIQUE INDEX IF NOT EXISTS '' @ ts) d = read_index ts d"
    by (simp_all add: read_stmt_def differ)
qed

text \<open>Text that is a list of whole statements with the effect \<open>f\<close>, and text that is one.\<close>

definition runs :: "str \<Rightarrow> (catalog \<Rightarrow> catalog option) \<Rightarrow> bool" where
  "runs p f \<longleftrightarrow> (\<exists>ts. piece p ts \<and> Unterminated \<notin> set ts \<and>
     (\<forall>r d. run_tokens (ts @ r) d = Option.bind (f d) (run_tokens r)))"

lemma runs_statement:
  assumes "piece p (b @ [Byte 59, Byte 10])" "Byte 59 \<notin> set b" "Unterminated \<notin> set b"
    "\<And>d. read_stmt (skip_space b) d = f d"
  shows "runs p f"
proof -
  have "run_tokens ((b @ [Byte 59, Byte 10]) @ r) d = Option.bind (f d) (run_tokens r)" for r d
  proof -
    have "run_tokens (b @ Byte 59 # Byte 10 # r) d = Option.bind (f d) (run_tokens (Byte 10 # r))"
      unfolding run_tokens_def statements_end [OF assms(2)] by (simp add: assms(4))
    then show ?thesis by (simp add: run_newline)
  qed
  then show ?thesis unfolding runs_def using assms(1,3) by (intro exI [of _ "b @ [Byte 59, Byte 10]"]) simp
qed

lemma runs_nil: "runs [] Some"
  by (auto simp: runs_def piece_def intro!: exI [of _ "[]"])

lemma piece_append: "piece p ts \<Longrightarrow> piece q us \<Longrightarrow> unquoted_start q \<Longrightarrow> piece (p @ q) (ts @ us)"
  by (auto simp: piece_def unquoted_start_append)

lemma runs_append:
  assumes "runs p f" "runs q g" "unquoted_start q"
  shows "runs (p @ q) (\<lambda>d. Option.bind (f d) g)"
proof -
  obtain ts us where "piece p ts" "Unterminated \<notin> set ts" "\<forall>r d. run_tokens (ts @ r) d = Option.bind (f d) (run_tokens r)"
      "piece q us" "Unterminated \<notin> set us" "\<forall>r d. run_tokens (us @ r) d = Option.bind (g d) (run_tokens r)"
    using assms(1,2) by (auto simp: runs_def)
  moreover from this have "run_tokens ((ts @ us) @ r) d = Option.bind (Option.bind (f d) g) (run_tokens r)" for r d
    by (cases "f d") simp_all
  ultimately show ?thesis
    unfolding runs_def using piece_append [OF _ _ assms(3)] by (intro exI [of _ "ts @ us"]) simp
qed

lemma piece_lex: "piece p ts \<Longrightarrow> sql_lex p = ts"
  by (auto simp: piece_def unquoted_start_def dest: spec [of _ "[]"])

lemma runs_text: "runs p f \<Longrightarrow> run_text p d = f d"
proof -
  assume "runs p f"
  then obtain ts where ts: "piece p ts" "Unterminated \<notin> set ts" "\<forall>r d. run_tokens (ts @ r) d = Option.bind (f d) (run_tokens r)"
    by (auto simp: runs_def)
  have "run_tokens ts d = Option.bind (f d) (run_tokens [])" using ts(3) by (metis append_Nil2)
  then show ?thesis using ts(2) by (cases "f d") (simp_all add: run_text_def piece_lex [OF ts(1)] run_nothing)
qed

section \<open>Items that are complete\<close>

text \<open>
  The nesting of parentheses after a sequence of tokens; \<open>None\<close> if a parenthesis closes too much,
  or if there is a comma outside of parentheses, a semicolon or an unterminated quote.
\<close>

fun level :: "nat \<Rightarrow> sql_token list \<Rightarrow> nat option" where
  "level n [] = Some n"
| "level n (t # ts) =
     (if t = Byte 41 then (if n = 0 then None else level (n - 1) ts)
      else if t = Byte 40 then level (Suc n) ts
      else if t = Byte 44 \<and> n = 0 \<or> t = Byte 59 \<or> t = Unterminated then None
      else level n ts)"

definition balanced :: "sql_token list \<Rightarrow> bool" where
  "balanced ts \<longleftrightarrow> level 0 ts = Some 0"

lemma level_append: "level n (ts @ us) = Option.bind (level n ts) (\<lambda>m. level m us)"
  by (induction ts arbitrary: n) auto

lemma level_clean: "level n ts = Some m \<Longrightarrow> Byte 59 \<notin> set ts \<and> Unterminated \<notin> set ts"
  by (induction ts arbitrary: n) (auto split: if_splits)

lemma items_level: "level n ts = Some m \<Longrightarrow> items n (ts @ r) = map_option (\<lambda>its. (ts @ hd its) # tl its) (items m r)"
proof (induction ts arbitrary: n)
  case Nil
  have "items k r = Some [] \<Longrightarrow> False" for k and r
    by (induction k r rule: items.induct) (auto simp: Let_def split: if_splits)
  then have "map_option (\<lambda>its. hd its # tl its) (items m r) = items m r"
    by (cases "items m r") (auto simp: neq_Nil_conv, metis list.collapse)
  then show ?case using Nil by simp
qed (auto simp: Let_def option.map_comp comp_def split: if_splits)

text \<open>A piece of SQL that is complete in itself, as an item of a list.\<close>

definition tidy :: "str \<Rightarrow> bool" where
  "tidy p \<longleftrightarrow> piece p (sql_lex p) \<and> balanced (sql_lex p)"

lemma tidyI: "piece p ts \<Longrightarrow> balanced ts \<Longrightarrow> tidy p"
  using piece_lex by (auto simp: tidy_def)

definition commas_text :: "str list \<Rightarrow> str" where
  "commas_text its = concat (map (\<lambda>s. lit '','' @ s) its)"

definition commas :: "str list \<Rightarrow> sql_token list" where
  "commas its = concat (map (\<lambda>s. Byte 44 # sql_lex s) its)"

lemma comma_lit: "lit '','' = [44]"
  by (simp add: lit_def)

lemma commas_text_start: "unquoted_start q \<Longrightarrow> unquoted_start (commas_text its @ q)"
  by (cases its) (simp_all add: commas_text_def comma_lit unquoted_start_def)

lemma piece_byte: "plain [b] \<Longrightarrow> piece q us \<Longrightarrow> piece (b # q) (Byte b # us)"
  using sql_lex_plain [of "[b]"] by (simp add: piece_def)

lemma piece_commas: "\<forall>s \<in> set its. tidy s \<Longrightarrow> piece (commas_text its) (commas its)"
proof (induction its)
  case Nil
  then show ?case by (simp add: piece_def commas_text_def commas_def)
next
  case (Cons s its)
  then have "piece (s @ commas_text its) (sql_lex s @ commas its)"
    using commas_text_start [of "[]" its] by (intro piece_append) (simp_all add: tidy_def unquoted_start_def)
  then have "piece (44 # s @ commas_text its) (Byte 44 # sql_lex s @ commas its)"
    by (intro piece_byte) (simp add: plain_def)
  then show ?case by (simp add: commas_text_def commas_def comma_lit)
qed

lemma items_commas:
  "balanced ts \<Longrightarrow> \<forall>s \<in> set its. balanced (sql_lex s) \<Longrightarrow>
     items 0 (ts @ commas its @ Byte 41 # r) = Some (ts # map sql_lex its)"
proof (induction its arbitrary: ts)
  case Nil
  then show ?case using items_level [of 0 ts 0 "Byte 41 # r"] by (simp add: balanced_def commas_def)
next
  case (Cons s its)
  have "items 0 (sql_lex s @ commas its @ Byte 41 # r) = Some (sql_lex s # map sql_lex its)"
    using Cons by simp
  moreover have "commas (s # its) = Byte 44 # sql_lex s @ commas its" by (simp add: commas_def)
  ultimately show ?case
    using Cons.prems(1) items_level [of 0 ts 0 "commas (s # its) @ Byte 41 # r"] by (simp add: balanced_def)
qed

section \<open>The text of \<open>CREATE TABLE\<close>\<close>

definition default_text :: "'t database_schema \<Rightarrow> nat \<Rightarrow> str" where
  "default_text S c = (case column_default S (ds_columns S ! c) of Inr (Some d) \<Rightarrow> lit '' DEFAULT '' @ d | _ \<Rightarrow> [])"

definition constraint_text :: "column \<Rightarrow> str" where
  "constraint_text m = (if is_primary_key m then lit '' PRIMARY KEY NOT NULL''
     else (if is_unique m then lit '' UNIQUE'' else []) @ (if is_nullable m then [] else lit '' NOT NULL''))"

definition column_text :: "'t database_schema \<Rightarrow> nat \<Rightarrow> str" where
  "column_text S c = ident_fmt (c_name S c) @ lit '' '' @ c_type S c @ constraint_text (ds_columns S ! c) @ default_text S c"

definition fk_text :: "'t database_schema \<Rightarrow> nat \<Rightarrow> foreign_key \<Rightarrow> str" where
  "fk_text S c fk = lit ''FOREIGN KEY('' @ ident_fmt (c_name S c) @ lit '') REFERENCES '' @ ident_fmt (t_name S (fk_table fk)) @
     lit ''('' @ ident_fmt (c_name S (unat (tm_columns_start (ds_tables S ! unat (fk_table fk))) + unat (fk_column fk))) @
     lit '') ON UPDATE '' @ action_display (fk_on_update fk) @ lit '' ON DELETE '' @ action_display (fk_on_delete fk)"

definition check_texts :: "'t database_schema \<Rightarrow> symbol \<Rightarrow> str list" where
  "check_texts S y = (case resolve_symbol S y of
       Inr (Some s) \<Rightarrow> if s \<noteq> [] \<and> \<not> contains_sub s (lit ''::'') then [s] else []
     | _ \<Rightarrow> [])"

definition other_items :: "'t database_schema \<Rightarrow> u16 \<Rightarrow> str list" where
  "other_items S t = concat (map (\<lambda>c. map (fk_text S c) (col_fks S c)) (cols_of S t)) @
     concat (map (\<lambda>c. concat (map (check_texts S) (col_checks S c))) (cols_of S t))"

definition columns_text :: "str list \<Rightarrow> str" where
  "columns_text its = (case its of [] \<Rightarrow> [] | s # ss \<Rightarrow> s @ commas_text ss)"

definition create_text :: "'t database_schema \<Rightarrow> u16 \<Rightarrow> str" where
  "create_text S t = lit ''CREATE TABLE IF NOT EXISTS '' @ ident_fmt (t_name S t) @ lit '' ('' @
     columns_text (map (column_text S) (cols_of S t)) @ commas_text (other_items S t) @ lit '');'' @ [10]"

lemma commas_text_append: "commas_text (as @ bs) = commas_text as @ commas_text bs"
  by (simp add: commas_text_def)

lemma commas_text_concat: "commas_text (concat xss) = concat (map commas_text xss)"
  by (induction xss) (simp_all add: commas_text_append commas_text_def [of "[]"])

lemma fold_text:
  "(\<And>x sql. x \<in> set xs \<Longrightarrow> f x sql = Inr (sql @ g x)) \<Longrightarrow> fold_res f xs sql = Inr (sql @ concat (map g xs))"
  by (induction xs arbitrary: sql) simp_all

lemma write_column_def_text:
  assumes "named S" "c < length (ds_columns S)"
  shows "write_column_def S c (sql, first) = Inr (sql @ (if first then [] else lit '','') @ column_text S c, False)"
proof -
  obtain r where "column_default S (ds_columns S ! c) = Inr r" using column_default_total [OF assms(1)] by blast
  then show ?thesis
    using column_name_named [OF assms] assms(2)
    by (simp add: write_column_def_def column_meta_def column_text_def constraint_text_def default_text_def split: option.split)
qed

lemma write_columns_text:
  assumes "named S"
  shows "\<forall>c \<in> set cs. c < length (ds_columns S) \<Longrightarrow>
    fold_res (write_column_def S) cs (sql, first) =
      Inr (sql @ (if first then columns_text else commas_text) (map (column_text S) cs), first \<and> cs = [])"
proof (induction cs arbitrary: sql first)
  case (Cons c cs)
  then show ?case
    using write_column_def_text [OF assms, of c sql first] by (simp add: columns_text_def commas_text_def)
qed (simp add: columns_text_def commas_text_def)

lemma write_fk_clause_text:
  assumes "named S" "c < length (ds_columns S)" "fk_wf S fk"
  shows "write_fk_clause S c fk sql = Inr (sql @ commas_text [fk_text S c fk])"
proof -
  let ?t = "fk_table fk" and ?i = "unat (fk_column fk)"
  let ?m = "ds_tables S ! unat ?t"
  have t: "unat ?t < length (ds_tables S)" "?i < unat (tm_columns_len ?m)" using assms(3) by (simp_all add: fk_wf_def)
  have wf: "unat (tm_columns_start ?m) + unat (tm_columns_len ?m) \<le> length (ds_columns S)"
    using schema_wf_table [OF named_wf [OF assms(1)] t(1)] by (simp add: table_wf_def)
  let ?c = "unat (tm_columns_start ?m) + ?i"
  have ref: "resolve_symbol S (col_name (ds_columns S ! ?c)) = Inr (Some (c_name S ?c))"
    using assms(1) wf t(2) named_text [OF assms(1), of "col_name (ds_columns S ! ?c)"]
    by (auto simp: named_def c_name_def)
  have "lit '',FOREIGN KEY('' = lit '','' @ lit ''FOREIGN KEY(''" by (simp add: lit_def)
  then show ?thesis
    using columns_of_table(2) [OF named_wf [OF assms(1)] t(1)] ref wf t table_name_named [OF assms(1) t(1)]
      column_name_named [OF assms(1,2)]
    by (simp add: write_fk_clause_def table_at_def nth_sub_slice fk_text_def commas_text_def)
qed

lemma write_check_text: "named S \<Longrightarrow> write_check S y sql = Inr (sql @ commas_text (check_texts S y))"
proof -
  assume "named S"
  then obtain r where "resolve_symbol S y = Inr r" unfolding named_def by blast
  then show ?thesis by (cases r) (simp_all add: write_check_def check_texts_def commas_text_def)
qed

lemma write_create_table_text:
  assumes nm: "named S" and t: "unat t < length (ds_tables S)"
  shows "write_create_table S t sql = Inr (sql @ create_text S t)"
proof -
  note wf = named_wf [OF nm]
  have cs: "c < length (ds_columns S)" if "c \<in> set (cols_of S t)" for c using cols_of_in [OF wf t that] .
  have fks: "fold_res (\<lambda>c sql. sum_bind (column_foreign_keys S c) (\<lambda>fks. fold_res (write_fk_clause S c) fks sql)) (cols_of S t) p =
      Inr (p @ concat (map (\<lambda>c. commas_text (map (fk_text S c) (col_fks S c))) (cols_of S t)))" for p
  proof (rule fold_text)
    fix c q assume "c \<in> set (cols_of S t)"
    note slices = column_slices [OF wf cs [OF this]] and fk = write_fk_clause_text [OF nm cs [OF this]]
    have "fold_res (write_fk_clause S c) (col_fks S c) q = Inr (q @ concat (map (\<lambda>fk. commas_text [fk_text S c fk]) (col_fks S c)))"
      using slices(3) fk by (intro fold_text) blast
    then show "sum_bind (column_foreign_keys S c) (\<lambda>fks. fold_res (write_fk_clause S c) fks q) =
        Inr (q @ commas_text (map (fk_text S c) (col_fks S c)))"
      by (simp add: slices(1) commas_text_def comp_def)
  qed
  have checks: "fold_res (\<lambda>c sql. sum_bind (column_constraints S c) (\<lambda>ys. fold_res (write_check S) ys sql)) (cols_of S t) p =
      Inr (p @ concat (map (\<lambda>c. commas_text (concat (map (check_texts S) (col_checks S c)))) (cols_of S t)))" for p
  proof (rule fold_text)
    fix c q assume "c \<in> set (cols_of S t)"
    note slices = column_slices [OF wf cs [OF this]]
    have "fold_res (write_check S) (col_checks S c) q = Inr (q @ concat (map (\<lambda>y. commas_text (check_texts S y)) (col_checks S c)))"
      using write_check_text [OF nm] by (intro fold_text) blast
    then show "sum_bind (column_constraints S c) (\<lambda>ys. fold_res (write_check S) ys q) =
        Inr (q @ commas_text (concat (map (check_texts S) (col_checks S c))))"
      by (simp add: slices(2) commas_text_concat comp_def)
  qed
  show ?thesis
    using cs
    by (simp add: write_create_table_def table_name_named [OF nm t] table_columns_cols [OF wf t] write_columns_text [OF nm] fks checks
        create_text_def other_items_def commas_text_append commas_text_concat comp_def)
qed

lemma create_stmt_text:
  "named S \<Longrightarrow> unat t < length (ds_tables S) \<Longrightarrow> create_stmt S t = Inr (CreateTable t (create_text S t))"
  by (simp add: create_stmt_def write_create_table_text)

section \<open>Reading the text of \<open>CREATE TABLE\<close>\<close>

text \<open>The defaults and checks of a table, which are copied from the catalog, are complete pieces of SQL.\<close>

definition tidy_column :: "'t database_schema \<Rightarrow> nat \<Rightarrow> bool" where
  "tidy_column S c \<longleftrightarrow> (\<forall>d. column_default S (ds_columns S ! c) = Inr (Some d) \<longrightarrow> tidy d)"

definition tidy_table :: "'t database_schema \<Rightarrow> u16 \<Rightarrow> bool" where
  "tidy_table S t \<longleftrightarrow> (\<forall>c \<in> set (cols_of S t). tidy_column S c \<and>
     (\<forall>y \<in> set (col_checks S c). \<forall>s. resolve_symbol S y = Inr (Some s) \<longrightarrow> tidy s \<and> unquoted_start s))"

lemma piece_nil: "piece [] []"
  by (simp add: piece_def)

lemma piece_plain: "plain p \<Longrightarrow> piece q us \<Longrightarrow> piece (p @ q) (map Byte p @ us)"
  by (simp add: piece_def sql_lex_plain)

lemma piece_bytes: "plain p \<Longrightarrow> piece p (map Byte p)"
  using piece_plain [OF _ piece_nil] by simp

lemma piece_kw: "plain (lit s) \<Longrightarrow> piece q us \<Longrightarrow> piece (lit s @ q) (kw s @ us)"
  using piece_plain by (simp add: kw_def)

lemma piece_name: "piece q us \<Longrightarrow> unquoted_start q \<Longrightarrow> piece (ident_fmt n @ q) (Name n # us)"
  by (simp add: piece_def sql_lex_ident unquoted_start_append)

lemmas piece_intros = piece_kw piece_name piece_nil

text \<open>What follows the type in a column definition.\<close>

lemma column_rest:
  assumes "tidy_column S c"
  shows "\<exists>ts. piece (constraint_text (ds_columns S ! c) @ default_text S c) ts \<and> balanced ts \<and>
    (ts = [] \<or> hd ts = Byte 32) \<and> (after (kw '' PRIMARY KEY'') ts \<noteq> None \<longleftrightarrow> c_pk S c)"
proof -
  obtain us where us: "piece (default_text S c) us" "balanced us" "us = [] \<or> (\<exists>vs. us = kw '' DEFAULT '' @ vs)"
  proof (cases "\<exists>d. column_default S (ds_columns S ! c) = Inr (Some d)")
    case True
    then obtain d where d: "column_default S (ds_columns S ! c) = Inr (Some d)" by blast
    then have "tidy d" using assms by (simp add: tidy_column_def)
    then have "piece (default_text S c) (kw '' DEFAULT '' @ sql_lex d)" "balanced (kw '' DEFAULT '' @ sql_lex d)"
      using d by (auto simp: default_text_def tidy_def balanced_def plain_lit intro!: piece_kw) (simp add: kw_def lit_def)
    then show ?thesis using that by blast
  next
    case False
    then have "default_text S c = []" by (auto simp: default_text_def split: sum.splits option.splits)
    then show ?thesis using that [of "[]"] by (simp add: piece_nil balanced_def)
  qed
  let ?m = "ds_columns S ! c"
  have plain: "plain (constraint_text ?m)"
    by (simp add: constraint_text_def plain_append plain_lit) (simp add: plain_def)
  have "balanced (map Byte (constraint_text ?m) @ us)"
    using us(2) by (simp add: constraint_text_def balanced_def) (simp add: lit_def)
  moreover have "map Byte (constraint_text ?m) @ us = [] \<or> hd (map Byte (constraint_text ?m) @ us) = Byte 32"
    using us(3) by (auto simp: constraint_text_def lit_def kw_def)
  moreover have "after (kw '' PRIMARY KEY'') (map Byte (constraint_text ?m) @ us) \<noteq> None \<longleftrightarrow> c_pk S c"
    using us(3) by (auto simp: constraint_text_def lit_def kw_def after_def)
  ultimately show ?thesis using piece_plain [OF plain us(1)] by blast
qed

lemma word_text_bytes:
  "32 \<notin> set w \<Longrightarrow> ts = [] \<or> hd ts = Byte 32 \<Longrightarrow> word_text (map Byte w @ ts) = (w, ts)"
proof (induction w)
  case Nil
  then show ?case by (cases ts) auto
qed auto

lemma type_word: "32 \<notin> set (sqlite_type t)" "level 0 (map Byte (sqlite_type t) @ ts) = level 0 ts"
  by (cases t; simp add: lit_def)+

lemma column_text_reads:
  assumes "tidy_column S c"
  shows "tidy (column_text S c)" "column_item (sql_lex (column_text S c)) = Some (lc (c_name S c), c_type S c, c_pk S c)"
proof -
  obtain ts where ts: "piece (constraint_text (ds_columns S ! c) @ default_text S c) ts" "balanced ts"
      "ts = [] \<or> hd ts = Byte 32" "after (kw '' PRIMARY KEY'') ts \<noteq> None \<longleftrightarrow> c_pk S c"
    using column_rest [OF assms] by blast
  have "piece (column_text S c) (Name (c_name S c) # kw '' '' @ map Byte (c_type S c) @ ts)"
    unfolding column_text_def
    by (intro piece_name piece_kw piece_plain ts plain_type) (simp_all add: plain_lit sql_simps)
  moreover have "kw '' '' = [Byte 32]" by (simp add: kw_def lit_def)
  ultimately have lex: "piece (column_text S c) (Name (c_name S c) # Byte 32 # map Byte (c_type S c) @ ts)" by simp
  then show "tidy (column_text S c)"
    using ts(2) by (intro tidyI [OF lex]) (simp add: balanced_def type_word)
  show "column_item (sql_lex (column_text S c)) = Some (lc (c_name S c), c_type S c, c_pk S c)"
    using ts(4) by (simp add: piece_lex [OF lex] word_text_bytes [OF type_word(1) ts(3)])
qed

lemma action_level: "level 0 (map Byte (action_display a) @ ts) = level 0 ts"
  by (cases a) (simp_all add: lit_def)

lemma fk_text_reads: "tidy (fk_text S c fk)" "column_item (sql_lex (fk_text S c fk)) = None"
proof -
  let ?r = "c_name S (unat (tm_columns_start (ds_tables S ! unat (fk_table fk))) + unat (fk_column fk))"
  let ?ts = "kw ''FOREIGN KEY('' @ Name (c_name S c) # kw '') REFERENCES '' @ Name (t_name S (fk_table fk)) # kw ''('' @
      Name ?r # kw '') ON UPDATE '' @ map Byte (action_display (fk_on_update fk)) @ kw '' ON DELETE '' @
      map Byte (action_display (fk_on_delete fk))"
  have lex: "piece (fk_text S c fk) ?ts"
    unfolding fk_text_def
    by (intro piece_name piece_kw piece_plain piece_bytes) (simp_all add: plain_lit sql_simps plain_action)
  have "level 0 (?ts @ []) = Some 0"
    by (simp add: kw_def lit_def action_level del: append_Nil2)
  then have "balanced ?ts" by (simp add: balanced_def)
  with lex show "tidy (fk_text S c fk)" by (rule tidyI)
  show "column_item (sql_lex (fk_text S c fk)) = None"
    unfolding piece_lex [OF lex] by (simp add: kw_def lit_def)
qed

lemma check_reads:
  assumes "s \<in> set (check_texts S y)" "\<forall>s. resolve_symbol S y = Inr (Some s) \<longrightarrow> tidy s \<and> unquoted_start s"
  shows "tidy s" "column_item (sql_lex s) = None"
proof -
  have s: "tidy s" "unquoted_start s" "s \<noteq> []"
    using assms by (auto simp: check_texts_def split: sum.splits option.splits if_splits)
  then obtain b r where "s = b # r" "b \<noteq> DQUOTE" "b \<noteq> SQUOTE" by (cases s) (auto simp: unquoted_start_def)
  then have "sql_lex s = Byte b # sql_lex r" by (simp add: sql_lex.simps)
  then show "tidy s" "column_item (sql_lex s) = None" using s by simp_all
qed

lemma other_items_read:
  assumes "tidy_table S t" "s \<in> set (other_items S t)"
  shows "tidy s \<and> column_item (sql_lex s) = None"
  using assms fk_text_reads check_reads [of s S] by (auto simp: other_items_def tidy_table_def)

lemma map_filter_known: "(\<And>x. x \<in> set xs \<Longrightarrow> f (g x) = Some (h x)) \<Longrightarrow> List.map_filter f (map g xs) = map h xs"
  by (induction xs) (simp_all add: List.map_filter_def)

lemma map_filter_append: "List.map_filter f (xs @ ys) = List.map_filter f xs @ List.map_filter f ys"
  by (simp add: List.map_filter_def)

lemma read_columns:
  assumes "tidy_table S t"
  shows "\<exists>body its. piece (columns_text (map (column_text S) (cols_of S t)) @ commas_text (other_items S t)) body \<and>
    Byte 59 \<notin> set body \<and> Unterminated \<notin> set body \<and> (\<forall>r. items 0 (body @ Byte 41 # r) = Some its) \<and>
    List.map_filter column_item its = map (\<lambda>c. (lc (c_name S c), c_type S c, c_pk S c)) (cols_of S t)"
proof (cases "cols_of S t")
  case Nil
  then have "columns_text (map (column_text S) (cols_of S t)) @ commas_text (other_items S t) = []"
    by (simp add: other_items_def columns_text_def commas_text_def)
  then show ?thesis
    using Nil by (intro exI [of _ "[]"] exI [of _ "[[]]"]) (simp add: piece_nil List.map_filter_def)
next
  case (Cons c cs)
  let ?rest = "map (column_text S) cs @ other_items S t"
  have cols: "tidy_column S x" if "x \<in> set (c # cs)" for x using assms that unfolding tidy_table_def Cons by blast
  have rest: "\<forall>s \<in> set ?rest. tidy s" using column_text_reads(1) cols other_items_read [OF assms] by auto
  have first: "tidy (column_text S c)" by (intro column_text_reads(1) cols) simp
  let ?body = "sql_lex (column_text S c) @ commas ?rest"
  have "columns_text (map (column_text S) (cols_of S t)) @ commas_text (other_items S t) = column_text S c @ commas_text ?rest"
    by (simp add: Cons columns_text_def commas_text_append)
  then have lex: "piece (columns_text (map (column_text S) (cols_of S t)) @ commas_text (other_items S t)) ?body"
    using first piece_append [OF _ piece_commas [OF rest]] commas_text_start [of "[]" ?rest]
    by (simp add: tidy_def unquoted_start_def)
  have "Byte 59 \<notin> set (sql_lex s) \<and> Unterminated \<notin> set (sql_lex s)" if "tidy s" for s
    using that level_clean by (auto simp: tidy_def balanced_def)
  then have clean: "Byte 59 \<notin> set ?body" "Unterminated \<notin> set ?body" using first rest by (auto simp: commas_def)
  have cut: "items 0 (?body @ Byte 41 # r) = Some (sql_lex (column_text S c) # map sql_lex ?rest)" for r
    using items_commas [of "sql_lex (column_text S c)" ?rest r] first rest by (simp add: tidy_def)
  have others: "List.map_filter column_item (map sql_lex (other_items S t)) = []"
    using other_items_read [OF assms] by (auto simp: List.map_filter_def filter_empty_conv)
  have "List.map_filter column_item (map sql_lex (map (column_text S) (c # cs))) =
      map (\<lambda>c. (lc (c_name S c), c_type S c, c_pk S c)) (c # cs)"
    unfolding map_map comp_def by (rule map_filter_known) (use column_text_reads(2) cols in blast)
  then have "List.map_filter column_item (sql_lex (column_text S c) # map sql_lex ?rest) =
      map (\<lambda>c. (lc (c_name S c), c_type S c, c_pk S c)) (cols_of S t)"
    using map_filter_append [of column_item "map sql_lex (map (column_text S) (c # cs))"] others by (simp add: Cons)
  with lex clean cut show ?thesis
    by (intro exI [of _ ?body] exI [of _ "sql_lex (column_text S c) # map sql_lex ?rest"]) simp
qed

section \<open>The statements of a migration\<close>

text \<open>The statements as the code makes them.\<close>

fun made :: "'t database_schema \<Rightarrow> ddl \<Rightarrow> bool" where
  "made S (CreateTable t sql) \<longleftrightarrow> sql = create_text S t \<and> tidy_table S t"
| "made S (AddColumn n c ty suffix) \<longleftrightarrow> (\<exists>v. ty = sqlite_type v) \<and>
     (\<exists>ts. piece suffix ts \<and> unquoted_start suffix \<and> balanced ts \<and> (ts = [] \<or> (\<exists>us. ts = kw '' DEFAULT '' @ us)))"
| "made S _ \<longleftrightarrow> True"

lemma skip_kw: "s \<noteq> [] \<Longrightarrow> hd s \<noteq> CHR '' '' \<Longrightarrow> hd s \<noteq> CHR 0x0A \<Longrightarrow> skip_space (kw s @ ts) = kw s @ ts"
  using of_char_inj [of _ "CHR '' ''"] of_char_inj [of _ "CHR 0x0A"]
  by (cases s) (simp_all add: skip_space_def kw_def lit_def)

lemma end_piece: "piece (lit '';'' @ [10]) [Byte 59, Byte 10]"
  using piece_bytes [of "lit '';'' @ [10]"] by (simp add: plain_def lit_def)

lemma runs_create:
  assumes "tidy_table S t"
  shows "runs (create_text S t) (run_stmt S (CreateTable t sql))"
proof -
  obtain body its where body: "piece (columns_text (map (column_text S) (cols_of S t)) @ commas_text (other_items S t)) body"
      "Byte 59 \<notin> set body" "Unterminated \<notin> set body" "\<And>r. items 0 (body @ Byte 41 # r) = Some its"
      "List.map_filter column_item its = map (\<lambda>c. (lc (c_name S c), c_type S c, c_pk S c)) (cols_of S t)"
    using read_columns [OF assms] by blast
  let ?b = "kw ''CREATE TABLE IF NOT EXISTS '' @ Name (t_name S t) # kw '' ('' @ body @ [Byte 41]"
  have close: "piece (lit '');'' @ [10]) [Byte 41, Byte 59, Byte 10]"
    using piece_bytes [of "lit '');'' @ [10]"] by (simp add: plain_def lit_def)
  have "piece (lit ''CREATE TABLE IF NOT EXISTS '' @ ident_fmt (t_name S t) @ lit '' ('' @
      (columns_text (map (column_text S) (cols_of S t)) @ commas_text (other_items S t)) @ lit '');'' @ [10])
      (kw ''CREATE TABLE IF NOT EXISTS '' @ Name (t_name S t) # kw '' ('' @ body @ [Byte 41, Byte 59, Byte 10])"
    by (intro piece_kw piece_name piece_append [OF body(1) close]) (simp_all add: plain_lit sql_simps)
  then have "piece (create_text S t) (?b @ [Byte 59, Byte 10])" by (simp add: create_text_def)
  moreover have "Byte 59 \<notin> set ?b" "Unterminated \<notin> set ?b" using body(2,3) by (simp_all add: kw_def lit_def)
  moreover have "read_stmt (skip_space ?b) d = run_stmt S (CreateTable t sql) d" for d
  proof -
    have "after (kw '' ('') (kw '' ('' @ body @ [Byte 41]) = Some (body @ [Byte 41])" by simp
    then show ?thesis
      using body(4) [of "[]"] by (simp add: skip_kw read_stmt_kw body(5) schema_columns_def)
  qed
  ultimately show ?thesis by (rule runs_statement)
qed

lemma runs_drop_table: "runs (ddl_text (DropTable n)) (run_stmt S (DropTable n))"
proof (rule runs_statement)
  let ?b = "kw ''DROP TABLE IF EXISTS '' @ [Name n]"
  show "piece (ddl_text (DropTable n)) (?b @ [Byte 59, Byte 10])"
    using piece_kw [OF _ piece_name [OF end_piece]] by (simp add: plain_lit sql_simps)
  show "Byte 59 \<notin> set ?b" "Unterminated \<notin> set ?b" by (simp_all add: kw_def lit_def)
  show "read_stmt (skip_space ?b) d = run_stmt S (DropTable n) d" for d by (simp add: skip_kw read_stmt_kw)
qed

lemma runs_drop_column: "runs (ddl_text (DropColumn n c)) (run_stmt S (DropColumn n c))"
proof (rule runs_statement)
  let ?b = "kw ''ALTER TABLE '' @ Name n # kw '' DROP COLUMN '' @ [Name c]"
  have "piece (lit ''ALTER TABLE '' @ ident_fmt n @ lit '' DROP COLUMN '' @ ident_fmt c @ lit '';'' @ [10])
      (kw ''ALTER TABLE '' @ Name n # kw '' DROP COLUMN '' @ Name c # [Byte 59, Byte 10])"
    by (intro piece_kw piece_name end_piece) (simp_all add: plain_lit sql_simps)
  then show "piece (ddl_text (DropColumn n c)) (?b @ [Byte 59, Byte 10])" by simp
  show "Byte 59 \<notin> set ?b" "Unterminated \<notin> set ?b" by (simp_all add: kw_def lit_def)
  have "after (kw '' ADD COLUMN '') (kw '' DROP COLUMN '' @ [Name c]) = None" by (simp add: after_def kw_def lit_def)
  then show "read_stmt (skip_space ?b) d = run_stmt S (DropColumn n c) d" for d by (simp add: skip_kw read_stmt_kw)
qed

lemma runs_index: "runs (ddl_text (UniqueIndex n c)) (run_stmt S (UniqueIndex n c))"
proof (rule runs_statement)
  let ?i = "lit ''__uniq_'' @ n @ lit ''_'' @ c @ lit ''__''"
  let ?b = "kw ''CREATE UNIQUE INDEX IF NOT EXISTS '' @ Name ?i # kw '' ON '' @ Name n # kw ''('' @ Name c # [Byte 41]"
  have close: "piece (lit '');'' @ [10]) [Byte 41, Byte 59, Byte 10]"
    using piece_bytes [of "lit '');'' @ [10]"] by (simp add: plain_def lit_def)
  have "piece (lit ''CREATE UNIQUE INDEX IF NOT EXISTS '' @ ident_fmt ?i @ lit '' ON '' @ ident_fmt n @ lit ''('' @
      ident_fmt c @ lit '');'' @ [10])
      (kw ''CREATE UNIQUE INDEX IF NOT EXISTS '' @ Name ?i # kw '' ON '' @ Name n # kw ''('' @ Name c # [Byte 41, Byte 59, Byte 10])"
    by (intro piece_kw piece_name close) (simp_all add: plain_lit sql_simps)
  then show "piece (ddl_text (UniqueIndex n c)) (?b @ [Byte 59, Byte 10])" by simp
  show "Byte 59 \<notin> set ?b" "Unterminated \<notin> set ?b" by (simp_all add: kw_def lit_def)
  show "read_stmt (skip_space ?b) d = run_stmt S (UniqueIndex n c) d" for d by (simp add: skip_kw read_stmt_kw)
qed

lemma runs_add_column:
  assumes "made S (AddColumn n c ty suffix)"
  shows "runs (ddl_text (AddColumn n c ty suffix)) (run_stmt S (AddColumn n c ty suffix))"
proof -
  obtain v ts where v: "ty = sqlite_type v" and ts: "piece suffix ts" "unquoted_start suffix" "balanced ts"
      "ts = [] \<or> (\<exists>us. ts = kw '' DEFAULT '' @ us)"
    using assms by auto
  let ?b = "kw ''ALTER TABLE '' @ Name n # kw '' ADD COLUMN '' @ Name c # kw '' '' @ map Byte ty @ ts"
  have "piece (lit ''ALTER TABLE '' @ ident_fmt n @ lit '' ADD COLUMN '' @ ident_fmt c @ lit '' '' @ ty @ suffix @ lit '';'' @ [10])
      (kw ''ALTER TABLE '' @ Name n # kw '' ADD COLUMN '' @ Name c # kw '' '' @ map Byte ty @ ts @ [Byte 59, Byte 10])"
    unfolding v by (intro piece_kw piece_name piece_plain plain_type piece_append [OF ts(1) end_piece])
      (simp_all add: plain_lit sql_simps)
  then have "piece (ddl_text (AddColumn n c ty suffix)) (?b @ [Byte 59, Byte 10])" by simp
  moreover have "Byte 59 \<notin> set ?b" "Unterminated \<notin> set ?b"
  proof -
    have "level 0 (map Byte ty @ ts) = Some 0" using ts(3) by (simp add: v type_word balanced_def)
    then have "Byte 59 \<notin> set (map Byte ty @ ts)" "Unterminated \<notin> set (map Byte ty @ ts)" using level_clean by blast+
    then show "Byte 59 \<notin> set ?b" "Unterminated \<notin> set ?b" by (simp_all add: kw_def lit_def)
  qed
  moreover have "read_stmt (skip_space ?b) d = run_stmt S (AddColumn n c ty suffix) d" for d
  proof -
    have "ts = [] \<or> hd ts = Byte 32" "after (kw '' PRIMARY KEY'') ts = None"
      using ts(4) by (auto simp: kw_def lit_def after_def)
    moreover have "kw '' '' = [Byte 32]" by (simp add: kw_def lit_def)
    ultimately have "column_item (Name c # kw '' '' @ map Byte ty @ ts) = Some (lc c, ty, False)"
      by (simp add: v word_text_bytes [OF type_word(1)])
    then have "read_add_column n (Name c # kw '' '' @ map Byte ty @ ts) d = run_stmt S (AddColumn n c ty suffix) d"
      by (simp add: read_add_column_def split: option.split)
    then show ?thesis by (simp add: skip_kw read_stmt_kw)
  qed
  ultimately show ?thesis by (rule runs_statement)
qed

lemma runs_ddl: "made S s \<Longrightarrow> runs (ddl_text s) (run_stmt S s)"
  using runs_create runs_drop_table runs_drop_column runs_index runs_add_column by (cases s) (simp_all del: ddl_text.simps(2-) run_stmt.simps made.simps(2), simp_all)

end
