(* ===== verification/Sqlite_Scripts.thy ===== *)
theory Sqlite_Scripts
  imports Sqlite_Reader
begin

unbundle bit_operations_syntax

text \<open>
  The scripts as a whole: the text that creates the tables, the text of a migration and the text
  that drops all tables do, when they are read, what their statements do one after the other.
\<close>

section \<open>Statements about the tables of the crate\<close>

lemma runs_inert: "runs p f \<Longrightarrow> runs q Some \<Longrightarrow> unquoted_start q \<Longrightarrow> runs (p @ q) f"
proof -
  assume "runs p f" "runs q Some" "unquoted_start q"
  then have "runs (p @ q) (\<lambda>d. Option.bind (f d) Some)" by (rule runs_append)
  moreover have "Option.bind (f d) Some = f d" for d by (cases "f d") simp_all
  ultimately show ?thesis by simp
qed

lemma hex_plain: "plain (concat (map hex_byte bs))"
proof -
  have "hex_digit n \<noteq> DQUOTE \<and> hex_digit n \<noteq> SQUOTE" if n: "n < 16" for n
  proof -
    have "unat (hex_digit n) = (if n < 10 then 48 + n else 87 + n)"
      using n unfolding hex_digit_def by (intro unat_word_of_nat_small) simp
    then show ?thesis using n by (auto split: if_splits)
  qed
  moreover have "unat b < 256" for b :: u8 using unsigned_less [of b] by simp
  then have "unat b div 16 < 16" "unat b mod 16 < 16" for b :: u8 by (simp_all add: less_mult_imp_div_less)
  ultimately show ?thesis by (induction bs) (simp_all add: plain_def hex_byte_def)
qed

lemma plain_lit_fmt: "plain s \<Longrightarrow> [SQUOTE] @ s @ [SQUOTE] = lit_fmt s"
proof -
  assume "plain s"
  then have "doubled SQUOTE s = s" by (induction s) (simp_all add: plain_def doubled_def)
  then show ?thesis by (simp add: lit_fmt_def)
qed

lemma own_table: "read_stmt (skip_space (kw ''CREATE TABLE IF NOT EXISTS '' @ Byte b # ts)) d = Some d"
  by (simp add: skip_kw read_stmt_kw)

lemma runs_meta: "runs META_DDL Some"
proof -
  let ?rest = "lit ''__meta__ (key TEXT NOT NULL PRIMARY KEY,value BLOB NOT NULL) WITHOUT ROWID''"
  let ?b = "kw ''CREATE TABLE IF NOT EXISTS '' @ map Byte ?rest"
  have ddl: "META_DDL = lit ''CREATE TABLE IF NOT EXISTS '' @ ?rest @ lit '';'' @ [10]"
    by (simp add: META_DDL_def lit_def)
  have "piece META_DDL (kw ''CREATE TABLE IF NOT EXISTS '' @ map Byte ?rest @ [Byte 59, Byte 10])"
    unfolding ddl by (intro piece_kw piece_plain end_piece) (simp_all add: plain_lit)
  then have "piece META_DDL (?b @ [Byte 59, Byte 10])" by simp
  moreover have "Byte 59 \<notin> set ?b" "Unterminated \<notin> set ?b" by (auto simp: kw_def lit_def)
  moreover have "read_stmt (skip_space ?b) d = Some d" for d by (simp add: lit_def own_table)
  ultimately show ?thesis by (rule runs_statement)
qed

lemma piece_text: "piece q us \<Longrightarrow> unquoted_start q \<Longrightarrow> piece (lit_fmt s @ q) (Text s # us)"
  by (simp add: piece_def sql_lex_lit unquoted_start_append)

lemma runs_sync_log: "runs SYNC_LOG_DDL Some"
proof -
  let ?u = "''__sync_log__ (table_name  TEXT NOT NULL,record_id   TEXT NOT NULL,op_type     TEXT NOT NULL CHECK (op_type IN (''"
  let ?v = "'')),version     INTEGER NOT NULL DEFAULT 1,updated_at  INTEGER NOT NULL,PRIMARY KEY (table_name, record_id)) WITHOUT ROWID, STRICT''"
  let ?b = "kw ''CREATE TABLE IF NOT EXISTS '' @ kw ?u @ Text (lit ''I'') # kw '','' @ Text (lit ''U'') # kw '','' @
      Text (lit ''D'') # kw ?v"
  have ddl: "SYNC_LOG_DDL = lit ''CREATE TABLE IF NOT EXISTS '' @ lit ?u @ lit_fmt (lit ''I'') @ lit '','' @
     lit_fmt (lit ''U'') @ lit '','' @ lit_fmt (lit ''D'') @ lit ?v @ lit '';'' @ [10]"
    by (simp add: SYNC_LOG_DDL_def lit_fmt_def doubled_def lit_def)
  have "piece SYNC_LOG_DDL (kw ''CREATE TABLE IF NOT EXISTS '' @ kw ?u @ Text (lit ''I'') # kw '','' @ Text (lit ''U'') #
      kw '','' @ Text (lit ''D'') # kw ?v @ [Byte 59, Byte 10])"
    unfolding ddl by (intro piece_kw piece_text end_piece) (simp_all add: plain_lit sql_simps)
  then have "piece SYNC_LOG_DDL (?b @ [Byte 59, Byte 10])" by simp
  moreover have "Byte 59 \<notin> set ?b" "Unterminated \<notin> set ?b" by (auto simp: kw_def lit_def)
  moreover have "kw (c # s) = Byte (of_char c) # kw s" for c s by (simp add: kw_def lit_def)
  then have "\<exists>x r. kw ?u @ Text (lit ''I'') # kw '','' @ Text (lit ''U'') # kw '','' @ Text (lit ''D'') # kw ?v = Byte x # r"
    by simp
  then have "read_stmt (skip_space ?b) d = Some d" for d using own_table by metis
  ultimately show ?thesis by (rule runs_statement)
qed

definition hash_insert :: "u8 list \<Rightarrow> str" where
  "hash_insert h = lit ''INSERT INTO __meta__ (key, value) VALUES ('schema_hash', X'' @ [SQUOTE] @
     concat (map hex_byte h) @ [SQUOTE] @ lit '') ON CONFLICT(key) DO UPDATE SET value = excluded.value;'' @ [10]"

lemma runs_hash_insert: "runs (hash_insert h) Some"
proof -
  let ?u = "''INSERT INTO __meta__ (key, value) VALUES (''" and ?v = "'') ON CONFLICT(key) DO UPDATE SET value = excluded.value''"
  let ?hex = "concat (map hex_byte h)"
  let ?b = "kw ?u @ Text (lit ''schema_hash'') # kw '', X'' @ Text ?hex # kw ?v"
  have "hash_insert h = lit ?u @ lit_fmt (lit ''schema_hash'') @ lit '', X'' @ ([SQUOTE] @ ?hex @ [SQUOTE]) @
      lit ?v @ lit '';'' @ [10]"
    by (simp add: hash_insert_def lit_fmt_def doubled_def lit_def)
  also have "\<dots> = lit ?u @ lit_fmt (lit ''schema_hash'') @ lit '', X'' @ lit_fmt ?hex @ lit ?v @ lit '';'' @ [10]"
    by (simp only: plain_lit_fmt [OF hex_plain])
  finally have shape: "hash_insert h = \<dots>" .
  have "piece (hash_insert h) (kw ?u @ Text (lit ''schema_hash'') # kw '', X'' @ Text ?hex # kw ?v @ [Byte 59, Byte 10])"
    unfolding shape by (intro piece_kw piece_text end_piece) (simp_all add: plain_lit sql_simps)
  then have "piece (hash_insert h) (?b @ [Byte 59, Byte 10])" by simp
  moreover have "Byte 59 \<notin> set ?b" "Unterminated \<notin> set ?b" by (auto simp: kw_def lit_def)
  moreover have "read_stmt (skip_space ?b) d = Some d" for d
    by (simp add: skip_kw read_stmt_def) (simp add: after_def kw_def lit_def)
  ultimately show ?thesis by (rule runs_statement)
qed

lemma runs_hash_upsert: "runs p f \<Longrightarrow> runs (write_hash_upsert h p) f"
proof -
  assume p: "runs p f"
  have "unquoted_start (hash_insert h)" by (simp add: hash_insert_def sql_simps)
  moreover have "unquoted_start (META_DDL @ hash_insert h)" by (simp add: META_DDL_def sql_simps)
  ultimately have "runs (p @ META_DDL @ hash_insert h) f"
    using p runs_meta runs_hash_insert by (intro runs_inert) simp_all
  then show ?thesis by (simp add: write_hash_upsert_def hash_insert_def)
qed

section \<open>The scripts\<close>

lemma ddl_start: "made S s \<Longrightarrow> unquoted_start (ddl_text s @ r) \<and> ddl_text s \<noteq> []"
  by (cases s) (simp_all add: create_text_def lit_def unquoted_start_def)

lemma runs_script: "\<forall>s \<in> set ss. made S s \<Longrightarrow> runs (concat (map ddl_text ss)) (run_script S ss)"
proof (induction ss)
  case Nil
  have "run_script S [] = Some" by (simp add: fun_eq_iff)
  then show ?case using runs_nil by simp
next
  case (Cons s ss)
  have "unquoted_start (concat (map ddl_text ss))"
    using Cons.prems ddl_start by (cases ss) (auto simp: unquoted_start_def [of "[]"])
  then have "runs (ddl_text s @ concat (map ddl_text ss)) (\<lambda>d. Option.bind (run_stmt S s d) (run_script S ss))"
    using Cons by (intro runs_append runs_ddl) simp_all
  moreover have "run_script S (s # ss) = (\<lambda>d. Option.bind (run_stmt S s d) (run_script S ss))" by (simp add: fun_eq_iff)
  ultimately show ?case by simp
qed

lemma drop_all_runs: "runs (drop_all_sql ns) (run_script S (map DropTable ns))"
  using runs_script [of "map DropTable ns" S] by (simp add: drop_all_sql_def comp_def)

definition tidy_schema :: "'t database_schema \<Rightarrow> bool" where
  "tidy_schema S \<longleftrightarrow> (\<forall>t \<in> set (tables S). tidy_table S t)"

lemma build_ddl_runs:
  assumes "named S" "tidy_schema S"
  shows "\<exists>sql. build_ddl S = Inr sql \<and> runs sql (run_script S (map (\<lambda>t. CreateTable t []) (tables S)))"
proof -
  let ?ss = "map (\<lambda>t. CreateTable t (create_text S t)) (tables S)"
  let ?text = "concat (map ddl_text ?ss)"
  have in_range: "\<forall>t \<in> set (tables S). unat t < length (ds_tables S)"
    using named_wf [OF assms(1)] set_tables_wf [of S] by (auto simp: schema_wf_def)
  then have "fold_res (write_create_table S) (tables S) [] = Inr ([] @ concat (map (create_text S) (tables S)))"
    using write_create_table_text [OF assms(1)] by (intro fold_text) blast
  then have ddl: "build_ddl S = Inr (write_hash_upsert (ds_hash S) (?text @ SYNC_LOG_DDL))"
    by (simp add: build_ddl_def comp_def)
  have "runs ?text (run_script S ?ss)" using assms(2) by (intro runs_script) (simp add: tidy_schema_def)
  then have "runs (write_hash_upsert (ds_hash S) (?text @ SYNC_LOG_DDL)) (run_script S ?ss)"
    by (intro runs_hash_upsert runs_inert runs_sync_log) (simp_all add: SYNC_LOG_DDL_def sql_simps)
  moreover have "run_script S (map (\<lambda>t. CreateTable t (f t)) ts) d = run_script S (map (\<lambda>t. CreateTable t []) ts) d" for f ts d
    by (induction ts arbitrary: d) simp_all
  then have "run_script S ?ss = run_script S (map (\<lambda>t. CreateTable t []) (tables S))" by (simp add: fun_eq_iff)
  ultimately show ?thesis using ddl by auto
qed

section \<open>The script of a migration\<close>

lemma add_column_made:
  assumes tidy: "tidy_column S c" and c: "c < length (ds_columns S)" and run: "add_column_stmts S n c = Inr ss"
  shows "\<forall>s \<in> set ss. made S s"
proof -
  let ?m = "ds_columns S ! c"
  let ?s = "if is_nullable ?m then [] else lit '' NOT NULL''"
  obtain name default where cd: "column_name S c = Inr name" "column_default S ?m = Inr default"
      "ss = AddColumn n name (sqlite_type (col_data_type ?m)) (case default of
         None \<Rightarrow> [] | Some d \<Rightarrow> lit '' DEFAULT '' @ d @ ?s) #
         (if is_unique ?m then [UniqueIndex n name] else [])"
    using run c by (auto simp: add_column_stmts_def sum_bind_Inr column_meta_def Let_def)
  have "made S (AddColumn n name (sqlite_type (col_data_type ?m)) (case default of
         None \<Rightarrow> [] | Some d \<Rightarrow> lit '' DEFAULT '' @ d @ ?s))"
  proof (cases default)
    case None
    then show ?thesis using piece_nil by (auto simp: unquoted_start_def balanced_def)
  next
    case (Some d)
    then have d: "piece d (sql_lex d)" "balanced (sql_lex d)"
      using tidy cd(2) by (auto simp: tidy_column_def tidy_def)
    have s: "plain ?s" "unquoted_start ?s" "level 0 (map Byte ?s) = Some 0"
      by (simp_all add: plain_lit) (simp_all add: plain_def unquoted_start_def lit_def)
    have "piece (lit '' DEFAULT '' @ d @ ?s) (kw '' DEFAULT '' @ sql_lex d @ map Byte ?s)"
      using s by (intro piece_kw piece_append [OF d(1)] piece_bytes) (simp_all add: plain_lit)
    moreover have "balanced (kw '' DEFAULT '' @ sql_lex d @ map Byte ?s)"
      using d(2) s(3) by (simp add: balanced_def level_append) (simp add: kw_def lit_def)
    moreover have "unquoted_start (lit '' DEFAULT '' @ d @ ?s)" by (simp add: sql_simps)
    ultimately show ?thesis unfolding Some option.case made.simps by blast
  qed
  then show ?thesis using cd(3) by simp
qed

lemma map_res_all: "map_res f xs = Inr ys \<Longrightarrow> \<forall>x \<in> set xs. \<forall>y. f x = Inr y \<longrightarrow> P y \<Longrightarrow> \<forall>y \<in> set ys. P y"
  by (induction xs arbitrary: ys) (auto simp: sum_bind_Inr)

lemma scan_added: "scan_columns S cs live added = Inr (b, live', added') \<Longrightarrow> set added' \<subseteq> set added \<union> set cs"
proof (induction cs arbitrary: live added)
  case (Cons c cs)
  from Cons.prems show ?case
    by (auto simp: sum_bind_Inr split: option.splits if_splits dest!: Cons.IH)
qed simp

lemma table_stmts_made:
  assumes nm: "named S" and t: "unat t < length (ds_tables S)" and tidy: "tidy_table S t"
    and run: "table_stmts iter_c S t (stmts, existing) = Inr (stmts', existing')" and made: "\<forall>s \<in> set stmts. made S s"
  shows "\<forall>s \<in> set stmts'. made S s"
proof -
  note wf = named_wf [OF nm]
  have create: "create_stmt S t = Inr (CreateTable t (create_text S t))" by (rule create_stmt_text [OF nm t])
  have add: "made S s" if scan: "scan_columns S (cols_of S t) cols [] = Inr (b, live, added)"
      and adds: "map_res (add_column_stmts S n) added = Inr adds" and s: "ss \<in> set adds" "s \<in> set ss"
    for cols b live added n adds ss s
  proof -
    have "set added \<subseteq> set (cols_of S t)" using scan_added [OF scan] by simp
    then have "\<forall>ss \<in> set adds. \<forall>s \<in> set ss. made S s"
      using tidy cols_of_in [OF wf t] add_column_made [of S] unfolding tidy_table_def
      by (intro map_res_all [OF adds]) blast
    then show ?thesis using s by blast
  qed
  show ?thesis
    using run made create tidy
    by (auto simp: table_stmts_def Let_def sum_bind_Inr table_columns_cols [OF wf t] split: option.splits if_splits prod.splits)
      (rule add, assumption+)
qed

lemma plan_made:
  assumes "named S" "tidy_schema S" "alter_plan iter_t iter_c S live = Inr stmts"
  shows "\<forall>s \<in> set stmts. made S s"
proof -
  have fold: "\<forall>s \<in> set stmts'. made S s"
    if "fold_res (table_stmts iter_c S) ts (stmts, existing) = Inr (stmts', existing')" "\<forall>s \<in> set stmts. made S s"
      "\<forall>t \<in> set ts. unat t < length (ds_tables S) \<and> tidy_table S t" for ts stmts existing stmts' existing'
    using that
  proof (induction ts arbitrary: stmts existing)
    case (Cons t ts)
    then obtain s1 e1 where s1: "table_stmts iter_c S t (stmts, existing) = Inr (s1, e1)"
        "fold_res (table_stmts iter_c S) ts (s1, e1) = Inr (stmts', existing')"
      by (auto simp: sum_bind_Inr)
    have "\<forall>s \<in> set s1. made S s"
      using Cons.prems by (intro table_stmts_made [OF assms(1) _ _ s1(1)]) simp_all
    then show ?case using Cons.prems by (intro Cons.IH [OF s1(2)]) simp_all
  qed simp
  have "\<forall>t \<in> set (tables S). unat t < length (ds_tables S) \<and> tidy_table S t"
    using assms(2) named_wf [OF assms(1)] set_tables_wf [of S] by (auto simp: schema_wf_def tidy_schema_def)
  moreover obtain stmts' rest where "fold_res (table_stmts iter_c S) (tables S) ([], live) = Inr (stmts', rest)"
      "stmts = stmts' @ map DropTable (iter_t (map fst rest))"
    using assms(3) by (auto simp: alter_plan_def sum_bind_Inr)
  ultimately show ?thesis using fold [of "tables S" "[]" live stmts' rest] by auto
qed

lemma alter_sql_runs:
  assumes "named S" "tidy_schema S" "alter_plan iter_t iter_c S live = Inr stmts"
  shows "alter_sql iter_t iter_c S live = Inr (write_hash_upsert (ds_hash S) (concat (map ddl_text stmts)))"
    "runs (write_hash_upsert (ds_hash S) (concat (map ddl_text stmts))) (run_script S stmts)"
  using runs_hash_upsert [OF runs_script [OF plan_made [OF assms]]] assms(3) by (simp_all add: alter_sql_def)

end
