(* ===== verification/Sqlite_Db.thy ===== *)
theory Sqlite_Db
  imports Dialect Sqlite_Scripts
begin

unbundle bit_operations_syntax

text \<open>
  The operations of \<open>SqliteDatabase\<close> (\<open>dialect/sqlite.rs\<close>).  SQLite, its driver and the file
  system are the fields of a record of functions; \<open>'d\<close> is the content of a database.  A
  transaction that is dropped or whose commit fails leaves the content as it was.
\<close>

section \<open>The environment\<close>

record ('e, 'd) sqlite_env =
  env_temp_file :: bool
  env_write :: "u8 list \<Rightarrow> bool"
  env_connect :: "u8 list \<Rightarrow> 'd option"
  env_begin :: "'d \<Rightarrow> bool"
  env_exec :: "'d \<Rightarrow> str \<Rightarrow> 'e + 'd"
  env_commit :: "'d \<Rightarrow> bool"
  env_exec_pool :: "'d \<Rightarrow> str \<Rightarrow> ('e + unit) \<times> 'd"
  env_columns :: "'d \<Rightarrow> 'e + 'e info_row list"
  env_hash :: "'d \<Rightarrow> 'e + u8 list option"
  env_triggers :: "'d \<Rightarrow> 'e + str list"
  env_read :: "'d \<Rightarrow> 'e + u8 list"
  env_show :: "'e \<Rightarrow> str"
  env_iter_t :: "str list \<Rightarrow> str list"
  env_iter_c :: "str list \<Rightarrow> str list"

section \<open>Creating and altering tables\<close>

text \<open>Begin, execute one script, commit; \<open>step\<close> names the script in an error.\<close>

definition in_transaction ::
  "('e, 'd) sqlite_env \<Rightarrow> str \<Rightarrow> (unit \<Rightarrow> str res) \<Rightarrow> 'd \<Rightarrow> ('e, unit, 'd) db_result" where
  "in_transaction E step script d =
     (if \<not> env_begin E d then (Inl (DbError FailedToAcquireTransaction), d)
      else case script () of
          Inl p \<Rightarrow> (Inl (DbPanic p), d)
        | Inr sql \<Rightarrow>
            (case env_exec E d sql of
               Inl err \<Rightarrow> (Inl (DbError (SetupFailed step (env_show E err))), d)
             | Inr d' \<Rightarrow>
                 if env_commit E d' then (Inr (), d') else (Inl (DbError FailedToCommitTransaction), d)))"

definition create_tables :: "('e, 'd) sqlite_env \<Rightarrow> 't database_schema \<Rightarrow> 'd \<Rightarrow> ('e, unit, 'd) db_result" where
  "create_tables E S d = in_transaction E (lit ''creating sqlite tables'') (\<lambda>_. build_ddl S) d"

text \<open>The second attempt of \<open>alter_tables\<close>.\<close>

definition rebuild_tables ::
  "('e, 'd) sqlite_env \<Rightarrow> 't database_schema \<Rightarrow> str list \<Rightarrow> 'd \<Rightarrow> ('e, unit, 'd) db_result" where
  "rebuild_tables E S live d =
     db_bind (in_transaction E (lit ''rebuilding sqlite tables'') (\<lambda>_. Inr (drop_all_sql live)) d)
       (\<lambda>_ d. create_tables E S d)"

definition alter_tables :: "('e, 'd) sqlite_env \<Rightarrow> 't database_schema \<Rightarrow> 'd \<Rightarrow> ('e, unit, 'd) db_result" where
  "alter_tables E S d =
     (case env_columns E d of
        Inl err \<Rightarrow> (Inl (DbError (SetupFailed (lit ''introspecting sqlite schema'') (env_show E err))), d)
      | Inr rows \<Rightarrow>
          (case live_of_rows rows of
             Inl err \<Rightarrow> (Inl (DbError (SqlxError err)), d)
           | Inr existing \<Rightarrow>
               let live = env_iter_t E (map fst existing) in
               (case alter_sql (env_iter_t E) (env_iter_c E) S existing of
                  Inl p \<Rightarrow> (Inl (DbPanic p), d)
                | Inr sql \<Rightarrow>
                    if \<not> env_begin E d then (Inl (DbError FailedToAcquireTransaction), d)
                    else case env_exec E d sql of
                        Inr d' \<Rightarrow>
                          if env_commit E d' then (Inr (), d') else (Inl (DbError FailedToCommitTransaction), d)
                      | Inl _ \<Rightarrow> rebuild_tables E S live d)))"

section \<open>Triggers\<close>

definition setup_triggers :: "('e, 'd) sqlite_env \<Rightarrow> 't database_schema \<Rightarrow> 'd \<Rightarrow> ('e, unit, 'd) db_result" where
  "setup_triggers E S d =
     db_bind (db_pure (triggers_sql S) d) (\<lambda>r d. case r of
        Inl name \<Rightarrow> (Inl (DbError (SetupFailed (lit ''creating sqlite triggers'')
            (lit ''Table '' @ name @ lit '' has no primary key''))), d)
      | Inr sql \<Rightarrow> in_transaction E (lit ''creating sqlite triggers'') (\<lambda>_. Inr sql) d)"

definition drop_triggers_sql :: "str list \<Rightarrow> str" where
  "drop_triggers_sql names = concat (map (\<lambda>n. lit ''DROP TRIGGER IF EXISTS '' @ ident_fmt n @ lit '';'' @ [10]) names)"

definition drop_triggers :: "('e, 'd) sqlite_env \<Rightarrow> 'd \<Rightarrow> ('e, unit, 'd) db_result" where
  "drop_triggers E d =
     (case env_triggers E d of
        Inl err \<Rightarrow> (Inl (DbError (SetupFailed (lit ''listing sqlite triggers'') (env_show E err))), d)
      | Inr names \<Rightarrow>
          if names = [] then (Inr (), d)
          else
            (case env_exec_pool E d (drop_triggers_sql names) of
               (Inl err, d') \<Rightarrow> (Inl (DbError (SetupFailed (lit ''dropping sqlite triggers'') (env_show E err))), d')
             | (Inr _, d') \<Rightarrow> (Inr (), d')))"

section \<open>Opening and exporting\<close>

text \<open>\<open>stored_schema_hash\<close>: an error, a missing row and a value of another length all give \<open>None\<close>.\<close>

definition stored_schema_hash :: "('e, 'd) sqlite_env \<Rightarrow> 'd \<Rightarrow> u8 list option" where
  "stored_schema_hash E d = (case env_hash E d of
       Inr (Some bytes) \<Rightarrow> if length bytes = 32 then Some bytes else None
     | _ \<Rightarrow> None)"

text \<open>An open database; before it is opened there is none.\<close>

definition sqlite_new :: "('e, 'd) sqlite_env \<Rightarrow> 't database_schema \<Rightarrow> ('e, 'd, 'd option) db_result" where
  "sqlite_new E S =
     (if \<not> env_temp_file E then (Inl (DbError ConnectionPoolFailed), None)
      else case env_connect E [] of
          None \<Rightarrow> (Inl (DbError ConnectionPoolFailed), None)
        | Some d \<Rightarrow> (case create_tables E S d of (r, d') \<Rightarrow> (map_sum id (\<lambda>_. d') r, Some d')))"

definition SQLITE_MAGIC :: "u8 list" where
  "SQLITE_MAGIC = lit ''SQLite format 3'' @ [0]"

definition OPTIMIZE :: str where
  "OPTIMIZE = lit ''PRAGMA analysis_limit=400; PRAGMA optimize;''"

text \<open>What \<open>from\<close> does once the file is open.\<close>

definition adopt :: "('e, 'd) sqlite_env \<Rightarrow> 't database_schema \<Rightarrow> 'd \<Rightarrow> ('e, unit, 'd) db_result" where
  "adopt E S d =
     db_bind
       (case stored_schema_hash E d of
          Some h \<Rightarrow> if h = ds_hash S then (Inr (), d) else alter_tables E S d
        | None \<Rightarrow> create_tables E S d)
       (\<lambda>_ d. drop_triggers E d)"

definition sqlite_from ::
  "('e, 'd) sqlite_env \<Rightarrow> 't database_schema \<Rightarrow> u8 list \<Rightarrow> ('e, 'd, 'd option) db_result" where
  "sqlite_from E S bytes =
     (if length bytes < 100 \<or> take 16 bytes \<noteq> SQLITE_MAGIC then (Inl (DbError InvalidSqliteBytes), None)
      else if \<not> env_temp_file E then (Inl (DbError ConnectionPoolFailed), None)
      else if \<not> env_write E bytes then (Inl (DbError InvalidSqliteBytes), None)
      else case env_connect E bytes of
          None \<Rightarrow> (Inl (DbError ConnectionPoolFailed), None)
        | Some d0 \<Rightarrow>
            let d = snd (env_exec_pool E d0 OPTIMIZE) in
            (case adopt E S d of (r, d') \<Rightarrow> (map_sum id (\<lambda>_. d') r, Some d')))"

text \<open>\<open>bytes\<close>; \<open>has_file\<close> says whether the instance still owns its temporary file.\<close>

definition sqlite_bytes ::
  "('e, 'd) sqlite_env \<Rightarrow> 't database_schema \<Rightarrow> bool \<Rightarrow> 'd \<Rightarrow> ('e, u8 list, 'd) db_result" where
  "sqlite_bytes E S has_file d =
     db_bind (setup_triggers E S d) (\<lambda>_ d.
     let d' = snd (env_exec_pool E d (lit ''PRAGMA wal_checkpoint(TRUNCATE);'')) in
     if \<not> has_file then
       (Inl (DbError (SetupFailed (lit ''exporting sqlite database'') (lit ''temp file already taken''))), d')
     else case env_read E d' of
         Inl err \<Rightarrow> (Inl (DbError (SetupFailed (lit ''exporting sqlite database'') (env_show E err))), d')
       | Inr bytes \<Rightarrow> (Inr bytes, d'))"

section \<open>Failed transactions\<close>

lemma in_transaction_error: "in_transaction E step script d = (Inl e, d') \<Longrightarrow> d' = d"
  by (auto simp: in_transaction_def split: if_splits sum.splits)

lemma in_transaction_Inr:
  "in_transaction E step script d = (Inr (), d') \<Longrightarrow> \<exists>sql. script () = Inr sql \<and> env_exec E d sql = Inr d'"
  by (auto simp: in_transaction_def split: if_splits sum.splits)

text \<open>
  What the operations rely on of SQLite: a generated script that succeeds has the effect of its
  statements on the catalog of the database, and the introspection query lists the catalog.
\<close>

definition generated :: "('e, 'd) sqlite_env \<Rightarrow> 't database_schema \<Rightarrow> str \<Rightarrow> bool" where
  "generated E S sql \<longleftrightarrow> build_ddl S = Inr sql \<or> (\<exists>live. alter_sql (env_iter_t E) (env_iter_c E) S live = Inr sql) \<or>
     (\<exists>ns. sql = drop_all_sql ns)"

definition sqlite_runs :: "('e, 'd) sqlite_env \<Rightarrow> ('d \<Rightarrow> catalog) \<Rightarrow> 't database_schema \<Rightarrow> bool" where
  "sqlite_runs E cat S \<longleftrightarrow>
     (\<forall>d sql d'. generated E S sql \<longrightarrow> env_exec E d sql = Inr d' \<longrightarrow> run_text sql (cat d) = Some (cat d')) \<and>
     (\<forall>d rows live. env_columns E d = Inr rows \<longrightarrow> live_of_rows rows = Inr live \<longrightarrow> cat d = live_catalog live)"

text \<open>Tables that exist already are kept as they are.\<close>

lemma run_creates:
  "run_script S (map (\<lambda>t. CreateTable t []) ts) d =
     Some (map_of (map (\<lambda>t. (lc (t_name S t), schema_columns S t)) ts) ++ d)"
proof (induction ts arbitrary: d)
  case (Cons t ts)
  let ?d = "if d (lc (t_name S t)) = None then d(lc (t_name S t) \<mapsto> schema_columns S t) else d"
  have "m ++ ?d = m(lc (t_name S t) \<mapsto> schema_columns S t) ++ d" for m
    by (auto simp: map_add_def fun_eq_iff split: option.splits)
  then show ?case
    using Cons [of ?d] by (simp only: list.map run_script.simps run_stmt.simps bind.simps map_of.simps fst_conv snd_conv)
qed simp

lemma create_tables_catalog:
  assumes nm: "named S" and tidy: "tidy_schema S" and sqlite: "sqlite_runs E cat S"
    and run: "create_tables E S d = (Inr (), d')"
  shows "cat d' = schema_catalog S ++ cat d"
proof -
  obtain sql where sql: "build_ddl S = Inr sql" "env_exec E d sql = Inr d'"
    using in_transaction_Inr run unfolding create_tables_def by metis
  then have "run_text sql (cat d) = Some (cat d')"
    using sqlite unfolding sqlite_runs_def generated_def by metis
  moreover have "runs sql (run_script S (map (\<lambda>t. CreateTable t []) (tables S)))"
    using build_ddl_runs [OF nm tidy] sql(1) by auto
  ultimately show ?thesis by (simp add: runs_text run_creates schema_catalog_def)
qed

text \<open>Dropping every live table and creating the schema's tables.\<close>

lemma rebuild_catalog:
  assumes nm: "named S" and tidy: "tidy_schema S" and sqlite: "sqlite_runs E cat S"
    and ns: "set ns = fst ` set live" "cat d = live_catalog live" and run: "rebuild_tables E S ns d = (Inr (), d')"
  shows "cat d' = schema_catalog S"
proof -
  obtain d1 where d1: "env_exec E d (drop_all_sql ns) = Inr d1" "create_tables E S d1 = (Inr (), d')"
    using run by (auto simp: rebuild_tables_def db_bind_Inr dest!: in_transaction_Inr)
  have "run_text (drop_all_sql ns) (cat d) = Some (cat d1)"
    using sqlite d1(1) unfolding sqlite_runs_def generated_def by metis
  then have d1_cat: "cat d1 = live_catalog live |` (- (lc ` set ns))"
    by (simp add: runs_text [OF drop_all_runs [of _ S]] run_drop_tables ns(2))
  have "live_catalog live k = None" if "k \<notin> lc ` set ns" for k
    using that unfolding live_catalog_eq map_of_lc_None ns(1) by auto
  then have "cat d1 k = None" for k unfolding d1_cat by (simp add: restrict_map_def)
  then have "cat d1 = Map.empty" by blast
  then show ?thesis using create_tables_catalog [OF nm tidy sqlite d1(2)] by simp
qed

lemma alter_tables_catalog:
  assumes nm: "named S" and tidy: "tidy_schema S" and sqlite: "sqlite_runs E cat S"
    and iter: "\<And>xs. mset (env_iter_t E xs) = mset xs" "\<And>xs. mset (env_iter_c E xs) = mset xs"
    and names: "\<And>rows live. env_columns E d = Inr rows \<Longrightarrow> live_of_rows rows = Inr live \<Longrightarrow> live_names_ok S live"
    and run: "alter_tables E S d = (Inr (), d')"
  shows "catalogs_agree (cat d') (schema_catalog S)"
proof -
  from run obtain rows where rows: "env_columns E d = Inr rows"
    by (auto simp: alter_tables_def split: sum.splits)
  from run rows obtain live where live: "live_of_rows rows = Inr live"
    by (auto simp: alter_tables_def split: sum.splits)
  have cat: "cat d = live_catalog live" using sqlite rows live unfolding sqlite_runs_def by blast
  obtain stmts c where plan: "alter_plan (env_iter_t E) (env_iter_c E) S live = Inr stmts"
      "run_script S stmts (live_catalog live) = Some c" "catalogs_agree c (schema_catalog S)"
    using alter_plan_run [OF nm names [OF rows live] iter] by blast
  let ?sql = "write_hash_upsert (ds_hash S) (concat (map ddl_text stmts))"
  note sql = alter_sql_runs [OF nm tidy plan(1)]
  show ?thesis
  proof (cases "env_exec E d ?sql")
    case (Inr d1)
    have "run_text ?sql (cat d) = Some (cat d1)"
      using sqlite Inr sql(1) unfolding sqlite_runs_def generated_def by metis
    moreover have "d' = d1" using run rows live sql(1) Inr by (auto simp: alter_tables_def split: if_splits)
    ultimately show ?thesis using plan(2,3) by (simp add: runs_text [OF sql(2)] cat)
  next
    case (Inl err)
    let ?ns = "env_iter_t E (map fst live)"
    have "rebuild_tables E S ?ns d = (Inr (), d')"
      using run rows live sql(1) Inl by (auto simp: alter_tables_def split: if_splits)
    moreover have "set ?ns = fst ` set live" using mset_eq_setD [OF iter(1)] by simp
    ultimately have "cat d' = schema_catalog S" using rebuild_catalog [OF nm tidy sqlite _ cat] by blast
    then show ?thesis using columns_agree_refl by (simp add: catalogs_agree_def option.rel_refl)
  qed
qed

section \<open>Opening a database\<close>

lemma drop_triggers_state:
  "drop_triggers E d = (r, d') \<Longrightarrow> d' = d \<or> (\<exists>ns. d' = snd (env_exec_pool E d (drop_triggers_sql ns)))"
  by (auto simp: drop_triggers_def split: sum.splits if_splits prod.splits) (metis snd_conv)+

lemma adopt_Inr:
  assumes "adopt E S d = (Inr (), d')"
  obtains d1 where "drop_triggers E d1 = (Inr (), d')"
    "case stored_schema_hash E d of
       None \<Rightarrow> create_tables E S d = (Inr (), d1)
     | Some h \<Rightarrow> if h = ds_hash S then d1 = d else alter_tables E S d = (Inr (), d1)"
  using assms by (auto simp: adopt_def db_bind_Inr split: option.splits if_splits)

lemma sqlite_from_Inr:
  assumes "sqlite_from E S bytes = (Inr d', x)"
  obtains d0 where "100 \<le> length bytes" "take 16 bytes = SQLITE_MAGIC" "env_connect E bytes = Some d0" "x = Some d'"
    "adopt E S (snd (env_exec_pool E d0 OPTIMIZE)) = (Inr (), d')"
proof -
  have guard: "\<not> (length bytes < 100 \<or> take 16 bytes \<noteq> SQLITE_MAGIC)" "env_temp_file E" "env_write E bytes"
    using assms by (auto simp: sqlite_from_def split: if_splits)
  moreover obtain d0 where d0: "env_connect E bytes = Some d0"
    using assms guard by (auto simp: sqlite_from_def split: option.splits)
  moreover obtain r d1 where a: "adopt E S (snd (env_exec_pool E d0 OPTIMIZE)) = (r, d1)" by fastforce
  moreover have "(map_sum id (\<lambda>_. d1) r, Some d1) = (Inr d', x)"
    using assms guard d0 a by (simp add: sqlite_from_def Let_def)
  then have "r = Inr ()" "d1 = d'" "x = Some d'" by (cases r; simp)+
  ultimately show ?thesis using that by auto
qed

end
