(* ===== verification/Sqlite_Props.thy ===== *)
theory Sqlite_Props
  imports Sqlite_Db Schema_Props
begin

unbundle bit_operations_syntax

text \<open>
  Properties of the SQLite dialect: the text it generates, the migration of an existing
  database, and the operations that run the text.  The runs are on the small schema of
  \<open>Schema_Props\<close>.
\<close>

section \<open>The small schema as text\<close>

lemma demo_resolve:
  "resolve_symbol demo_S y = Inr (abs_resolve (replicate 16 []) y)"
  by (simp add: resolve_symbol_def resolve_rep [OF fresh_I_rep])

lemma demo_letters:
  "text_of demo_S sym_a = lit ''a''" "text_of demo_S sym_b = lit ''b''"
  "text_of demo_S sym_i = lit ''i''" "text_of demo_S sym_r = lit ''r''"
  by (simp_all add: text_of_def demo_resolve abs_resolve_def demo_syms shard_id_def index_def STATIC_SHARD_ID_def
      INDEX_MASK_def lit_def Let_def)

lemma demo_parts:
  "ds_tables demo_S =
     [\<lparr>tm_name = sym_a, tm_columns_start = 0, tm_columns_len = 1, tm_primary_key = Some 0, tm_fk_start = 0, tm_fk_len = 0\<rparr>,
      \<lparr>tm_name = sym_b, tm_columns_start = 1, tm_columns_len = 2, tm_primary_key = Some 0, tm_fk_start = 0, tm_fk_len = 1\<rparr>]"
  "ds_columns demo_S = [plain_col sym_i PRIMARY_KEY \<lparr>pr_start = 0, pr_len = 0\<rparr>,
     plain_col sym_i PRIMARY_KEY \<lparr>pr_start = 0, pr_len = 0\<rparr>, plain_col sym_r NULLABLE \<lparr>pr_start = 0, pr_len = 1\<rparr>]"
  "ds_constraint_pool demo_S = []"
  by (simp_all add: demo_S_def)

lemma demo_named: "named demo_S"
proof -
  have "resolve_symbol demo_S y \<noteq> Inr None" if "y \<in> {sym_a, sym_b, sym_i, sym_r}" for y
    using that by (auto simp: demo_resolve abs_resolve_def demo_syms shard_id_def index_def STATIC_SHARD_ID_def
      INDEX_MASK_def Let_def)
  then show ?thesis
    using demo_S_wf unfolding named_def by (simp add: demo_resolve demo_parts plain_col_def)
qed

lemma demo_names:
  "tables demo_S = [0, 1]" "cols_of demo_S 0 = [0]" "cols_of demo_S 1 = [1, 2]"
  "t_name demo_S 0 = lit ''a''" "t_name demo_S 1 = lit ''b''"
  "c_name demo_S 0 = lit ''i''" "c_name demo_S (Suc 0) = lit ''i''" "c_name demo_S 2 = lit ''r''"
  "col_checks demo_S c = []"
  by (simp_all add: tables_def t_name_def c_name_def cols_of_def upt_rec col_checks_def sub_slice_def demo_parts
      demo_letters plain_col_def)

lemma demo_quiet: "\<forall>t \<in> set (tables demo_S). quiet_table demo_S t"
proof -
  have "col_default_value (ds_columns demo_S ! c) = None" if "c < 3" for c
    using that by (auto simp: demo_parts plain_col_def less_Suc_eq numeral_3_eq_3)
  then show ?thesis by (simp add: demo_names quiet_table_def column_default_def)
qed

section \<open>The text of the schema\<close>

lemma says_lit: "says q ns \<Longrightarrow> unquoted_start q \<Longrightarrow> says (lit_fmt s @ q) ns"
proof -
  assume "says q ns" and q: "unquoted_start q"
  then obtain ts where "piece q ts" "names_of ts = ns" "Unterminated \<notin> set ts" by (auto simp: says_def)
  then show ?thesis
    using q unfolding says_def
    by (intro exI [of _ "Text s # ts"]) (auto simp: piece_def sql_lex_lit unquoted_start_append)
qed

lemma sync_log_says: "says SYNC_LOG_DDL []"
proof -
  have ddl: "SYNC_LOG_DDL = lit ''CREATE TABLE IF NOT EXISTS __sync_log__ (table_name  TEXT NOT NULL,record_id   TEXT NOT NULL,'' @
     lit ''op_type     TEXT NOT NULL CHECK (op_type IN ('' @ lit_fmt (lit ''I'') @ lit '','' @ lit_fmt (lit ''U'') @ lit '','' @
     lit_fmt (lit ''D'') @ lit '')),version     INTEGER NOT NULL DEFAULT 1,'' @
     lit ''updated_at  INTEGER NOT NULL,PRIMARY KEY (table_name, record_id)) WITHOUT ROWID, STRICT;'' @ [10]"
    by (simp add: SYNC_LOG_DDL_def lit_fmt_def doubled_def lit_def)
  have "plain [10]" by (simp add: plain_def)
  then show ?thesis
    unfolding ddl by (intro says_plain says_lit says_of_plain, simp_all add: plain_lit sql_simps)
qed

text \<open>What a reader of SQL sees of the script's last statement.\<close>

lemma hash_lex:
  assumes "says pre ns"
  shows "\<exists>ts. names_of ts = ns \<and> Unterminated \<notin> set ts \<and> sql_lex (write_hash_upsert h pre) =
    ts @ map Byte (META_DDL @ lit ''INSERT INTO __meta__ (key, value) VALUES ('') @ Text (lit ''schema_hash'') #
      map Byte (lit '', X'') @ Text (concat (map hex_byte h)) #
      map Byte (lit '') ON CONFLICT(key) DO UPDATE SET value = excluded.value;'' @ [10])"
proof -
  obtain ts where ts: "piece pre ts" "names_of ts = ns" "Unterminated \<notin> set ts"
    using assms by (auto simp: says_def)
  let ?hex = "concat (map hex_byte h)"
  have key: "lit ''INSERT INTO __meta__ (key, value) VALUES ('schema_hash', X'' =
      lit ''INSERT INTO __meta__ (key, value) VALUES ('' @ lit_fmt (lit ''schema_hash'') @ lit '', X''"
    by (simp add: lit_fmt_def doubled_def lit_def)
  have nl: "plain [10]" "plain META_DDL" by (simp_all add: plain_def META_DDL_def lit_def)
  have start: "unquoted_start (META_DDL @ r)" for r by (simp add: META_DDL_def sql_simps)
  have "write_hash_upsert h pre = pre @ META_DDL @ lit ''INSERT INTO __meta__ (key, value) VALUES ('' @
      lit_fmt (lit ''schema_hash'') @ lit '', X'' @ lit_fmt ?hex @
      lit '') ON CONFLICT(key) DO UPDATE SET value = excluded.value;'' @ [10]"
    unfolding write_hash_upsert_def key plain_lit_fmt [OF hex_plain, symmetric] by simp
  then have "sql_lex (write_hash_upsert h pre) = ts @ map Byte (META_DDL @ lit ''INSERT INTO __meta__ (key, value) VALUES ('') @
      Text (lit ''schema_hash'') # map Byte (lit '', X'') @ Text ?hex #
      map Byte (lit '') ON CONFLICT(key) DO UPDATE SET value = excluded.value;'' @ [10])"
    using ts(1) start sql_lex_plain [OF nl(1), of "[]"] by (simp add: piece_def sql_simps sql_lex_plain [OF nl(2)])
  then show ?thesis using ts by blast
qed

text \<open>
  C11: for a schema whose names can be read and whose defaults and checks are complete pieces of
  SQL, \<open>build_ddl\<close> does not panic, and a reader of the script finds no unterminated quote;
  the quoted names are exactly the names of the tables, columns and references in the order of
  the schema, whatever characters they contain, and the hash can be read back.
\<close>

theorem build_ddl_readable:
  assumes "named S" "\<forall>t \<in> set (tables S). quiet_table S t"
  shows "\<exists>sql ts hex us. build_ddl S = Inr sql \<and> sql_lex sql = ts @ Text hex # us \<and> unhex hex = ds_hash S \<and>
    Unterminated \<notin> set (sql_lex sql) \<and> names_of (sql_lex sql) = concat (map (create_names S) (tables S))"
proof -
  have "\<forall>t \<in> set (tables S). unat t < length (ds_tables S) \<and> quiet_table S t"
    using assms named_wf [OF assms(1)] set_tables_wf [of S] by (auto simp: schema_wf_def)
  then obtain sql where sql: "fold_res (write_create_table S) (tables S) [] = Inr sql"
      "opens sql (concat (map (create_names S) (tables S)))"
    using write_tables_says [OF assms(1) _ opens_nil] by fastforce
  let ?sql = "write_hash_upsert (ds_hash S) (sql @ SYNC_LOG_DDL)"
  have "says (sql @ SYNC_LOG_DDL) (concat (map (create_names S) (tables S)))"
    using sql(2) sync_log_says by (force simp: opens_def)
  from hash_lex [OF this, of "ds_hash S"] obtain ts where
    ts: "names_of ts = concat (map (create_names S) (tables S))" "Unterminated \<notin> set ts"
    and lex: "sql_lex ?sql = (ts @
       map Byte (META_DDL @ lit ''INSERT INTO __meta__ (key, value) VALUES ('') @ Text (lit ''schema_hash'') #
       map Byte (lit '', X'')) @ Text (concat (map hex_byte (ds_hash S))) #
       map Byte (lit '') ON CONFLICT(key) DO UPDATE SET value = excluded.value;'' @ [10])"
    by auto
  have "Unterminated \<notin> set (sql_lex ?sql)" "names_of (sql_lex ?sql) = concat (map (create_names S) (tables S))"
    unfolding lex using ts by (auto simp: names_of_bytes)
  then show ?thesis
    using lex unhex_hex [of "ds_hash S"] sql(1) unfolding build_ddl_def by (metis (no_types, lifting) sum_bind_simps(2))
qed

theorem build_ddl_readable_witness:
  "\<exists>sql. build_ddl demo_S = Inr sql \<and> Unterminated \<notin> set (sql_lex sql)"
  using build_ddl_readable [OF demo_named demo_quiet] by blast

section \<open>Triggers\<close>

text \<open>
  What a reader of SQL should see of one trigger statement: all names arrive as quoted names
  whatever characters they contain, and nothing else of the statement depends on them.
\<close>

definition trigger_tokens :: "str \<Rightarrow> str \<Rightarrow> trigger_event \<Rightarrow> sql_token list" where
  "trigger_tokens n pk ev =
     map Byte (lit ''CREATE TRIGGER IF NOT EXISTS '') @
     Name (lit ''__trg_'' @ n @ lit ''_'' @ event_name ev @ lit ''_sync_log__'') #
     map Byte (lit '' AFTER '' @ event_name ev @ lit '' ON '') @ Name n #
     map Byte (lit '' FOR EACH ROW BEGIN INSERT INTO __sync_log__ (table_name, record_id, op_type, version, updated_at) VALUES ('') @
     Text (lit ''public.'' @ n) #
     map Byte (lit '', CAST('' @ event_row ev @ lit ''.'') @ Name pk # map Byte (lit '' AS TEXT), '') @
     Text (event_op ev) #
     map Byte (lit '', 1, CAST((julianday('') @ Text (lit ''now'') #
     map Byte (lit '') - 2440587.5) * 86400000 AS INTEGER)) '' @
       lit ''ON CONFLICT (table_name, record_id) DO UPDATE SET op_type = excluded.op_type, '' @
       lit ''version = version + 1, updated_at = excluded.updated_at; END;'' @ [10])"

lemma trigger_lex: "sql_lex (trigger_sql n pk ev @ r) = trigger_tokens n pk ev @ sql_lex r"
proof -
  have op: "[SQUOTE] @ event_op ev @ [SQUOTE] = lit_fmt (event_op ev)"
    by (cases ev) (simp_all add: lit_fmt_def doubled_def lit_def)
  have now: "lit '', 1, CAST((julianday('now') - 2440587.5) * 86400000 AS INTEGER)) '' =
      lit '', 1, CAST((julianday('' @ lit_fmt (lit ''now'') @ lit '') - 2440587.5) * 86400000 AS INTEGER)) ''"
    by (simp add: lit_fmt_def doubled_def lit_def)
  have ev: "sql_lex (event_name ev @ r) = map Byte (event_name ev) @ sql_lex r"
      "sql_lex (event_row ev @ r) = map Byte (event_row ev) @ sql_lex r" for r
    by (cases ev; simp add: sql_simps)+
  have nl: "sql_lex (10 # r) = Byte 10 # sql_lex r" by (simp add: sql_lex.simps)
  show ?thesis
    unfolding trigger_sql_def trigger_tokens_def append_assoc [symmetric] op [unfolded append_assoc [symmetric]]
    unfolding append_assoc now
    by (simp add: sql_simps ev nl)
qed

definition pk_name :: "'t database_schema \<Rightarrow> u16 \<Rightarrow> str" where
  "pk_name S t = (case primary_key S t of Inr (Some c) \<Rightarrow> c_name S c | _ \<Rightarrow> [])"

lemma primary_key_cases:
  assumes nm: "named S" and t: "unat t < length (ds_tables S)"
  shows "primary_key S t = Inr None \<and> tm_primary_key (ds_tables S ! unat t) = None \<or>
    tm_primary_key (ds_tables S ! unat t) \<noteq> None \<and>
    (\<exists>c. primary_key S t = Inr (Some c) \<and> column_name S c = Inr (pk_name S t))"
proof (cases "tm_primary_key (ds_tables S ! unat t)")
  case None
  then show ?thesis using t by (simp add: primary_key_def table_meta_at_def)
next
  case (Some k)
  then obtain c where c: "primary_key S t = Inr (Some c)" "c < length (ds_columns S)"
    using schema_wf_table [OF named_wf [OF nm] t] t
    by (auto simp: primary_key_def table_meta_at_def table_wf_def columns_of_table(1) [OF named_wf [OF nm] t])
  then show ?thesis using Some column_name_named [OF nm c(2)] by (simp add: pk_name_def)
qed

lemma table_triggers_cases:
  assumes nm: "named S" and t: "unat t < length (ds_tables S)"
  shows "table_triggers S t = Inr (if tm_primary_key (ds_tables S ! unat t) = None then Inl (t_name S t)
    else Inr (concat (map (trigger_sql (t_name S t) (pk_name S t)) [OnInsert, OnUpdate, OnDelete])))"
  using primary_key_cases [OF nm t] table_name_named [OF nm t] by (auto simp: table_triggers_def)

lemma triggers_loop_cases:
  assumes "named S"
  shows "\<forall>t \<in> set ts. unat t < length (ds_tables S) \<Longrightarrow> triggers_loop S ts sql =
    Inr (case find (\<lambda>t. tm_primary_key (ds_tables S ! unat t) = None) ts of
        Some t \<Rightarrow> Inl (t_name S t)
      | None \<Rightarrow> Inr (sql @ concat (map (\<lambda>t. concat (map (trigger_sql (t_name S t) (pk_name S t))
          [OnInsert, OnUpdate, OnDelete])) ts)))"
  by (induction ts arbitrary: sql) (simp_all add: table_triggers_cases [OF assms] split: option.splits)

lemma triggers_lex:
  "sql_lex (concat (map (\<lambda>t. concat (map (trigger_sql (f t) (g t)) evs)) ts)) =
     concat (map (\<lambda>t. concat (map (trigger_tokens (f t) (g t)) evs)) ts)"
proof -
  have one: "sql_lex (concat (map (trigger_sql n pk) es) @ r) = concat (map (trigger_tokens n pk) es) @ sql_lex r" for n pk es r
    by (induction es) (simp_all add: trigger_lex)
  show ?thesis by (induction ts) (simp_all add: one)
qed

text \<open>
  C21: the trigger script of a schema is refused exactly when some table has no primary key, and
  then names the first such table.  Otherwise a reader of the script sees three triggers per
  table, in the order of the schema, that write the table's name, the record's key and the
  operation to the log, whatever characters the names contain.
\<close>

theorem triggers_sql_correct:
  assumes "named S"
  shows "case find (\<lambda>t. tm_primary_key (ds_tables S ! unat t) = None) (tables S) of
      Some t \<Rightarrow> triggers_sql S = Inr (Inl (t_name S t))
    | None \<Rightarrow> \<exists>sql. triggers_sql S = Inr (Inr sql) \<and>
        sql_lex sql = concat (map (\<lambda>t. concat (map (trigger_tokens (t_name S t) (pk_name S t)) [OnInsert, OnUpdate, OnDelete]))
          (tables S))"
proof -
  have "\<forall>t \<in> set (tables S). unat t < length (ds_tables S)"
    using named_wf [OF assms] set_tables_wf [of S] by (auto simp: schema_wf_def)
  then have "triggers_sql S = Inr (case find (\<lambda>t. tm_primary_key (ds_tables S ! unat t) = None) (tables S) of
        Some t \<Rightarrow> Inl (t_name S t)
      | None \<Rightarrow> Inr (concat (map (\<lambda>t. concat (map (trigger_sql (t_name S t) (pk_name S t))
          [OnInsert, OnUpdate, OnDelete])) (tables S))))"
    using triggers_loop_cases [OF assms, of "tables S" "[]"] by (simp add: triggers_sql_def split: option.splits)
  then show ?thesis
    using triggers_lex [of "t_name S" "pk_name S" "[OnInsert, OnUpdate, OnDelete]" "tables S"]
    by (simp split: option.splits)
qed

theorem triggers_sql_correct_witness:
  "\<exists>sql. triggers_sql demo_S = Inr (Inr sql) \<and> Name (lit ''b'') \<in> set (sql_lex sql)"
proof -
  have "find (\<lambda>t. tm_primary_key (ds_tables demo_S ! unat t) = None) (tables demo_S) = None"
    by (simp add: demo_names demo_parts)
  then show ?thesis
    using triggers_sql_correct [OF demo_named] by (auto simp: demo_names trigger_tokens_def)
qed

section \<open>Migration\<close>

text \<open>
  A database with a table \<open>b\<close> that lacks the column \<open>r\<close> and has a column \<open>x\<close>
  the schema does not know, and a table \<open>old\<close>.
\<close>

definition demo_live :: live_tables where
  "demo_live = [(lit ''b'', [(lit ''i'', lit ''integer'', True), (lit ''x'', lit ''TEXT'', False)]),
     (lit ''old'', [(lit ''k'', lit ''TEXT'', True)])]"

lemma demo_live_ok: "live_names_ok demo_S demo_live"
proof -
  have "lit ''a'' \<noteq> lit ''b''" by (simp add: lit_def)
  then show ?thesis
    by (simp add: live_names_ok_def names_ok_def table_names_ok_def demo_names demo_live_def to_ascii_lowercase_def)
      (simp add: lit_def)
qed

text \<open>
  C7: for a database whose names do not clash up to ASCII case, the migration script can be
  computed, and running its statements on the catalog of the database gives the catalog of the
  schema: the same tables, with the same columns, types and primary keys, and nothing else.
  This holds for every order in which the hash maps are walked.
\<close>

theorem alter_plan_correct:
  assumes "named S" "live_names_ok S live" "\<And>xs. mset (iter_t xs) = mset xs" "\<And>xs. mset (iter_c xs) = mset xs"
  shows "\<exists>stmts d. alter_plan iter_t iter_c S live = Inr stmts \<and>
    run_script S stmts (live_catalog live) = Some d \<and> catalogs_agree d (schema_catalog S)"
  by (rule alter_plan_run [OF assms])

theorem alter_plan_correct_witness:
  "\<exists>stmts d. alter_plan rev rev demo_S demo_live = Inr stmts \<and>
    run_script demo_S stmts (live_catalog demo_live) = Some d \<and> catalogs_agree d (schema_catalog demo_S)"
  by (rule alter_plan_correct [OF demo_named demo_live_ok]) simp_all

lemma delete_filter: "k \<in> K \<Longrightarrow> filter (\<lambda>(x, _). x \<notin> K) (AList.delete k xs) = filter (\<lambda>(x, _). x \<notin> K) xs"
  by (induction xs) auto

lemma delete_then_filter:
  "filter (\<lambda>(x, _). x \<notin> K) (AList.delete k xs) = filter (\<lambda>(x, _). x \<notin> insert k K) xs"
  by (induction xs) auto

lemma scan_columns_same:
  assumes nm: "named S"
  shows "\<forall>c \<in> set cs. c < length (ds_columns S) \<and> (\<exists>ty. map_of live (c_name S c) = Some (ty, c_pk S c) \<and>
      eq_ignore_ascii_case ty (c_type S c)) \<Longrightarrow> distinct (map (c_name S) cs) \<Longrightarrow>
    scan_columns S cs live added = Inr (False, filter (\<lambda>(k, _). k \<notin> c_name S ` set cs) live, added)"
proof (induction cs arbitrary: live)
  case Nil
  show ?case by (simp add: case_prod_unfold)
next
  case (Cons c cs)
  let ?n = "c_name S c"
  have c: "column_meta S c = Inr (ds_columns S ! c)" "column_name S c = Inr ?n"
    using Cons.prems column_name_named [OF nm] by (simp_all add: column_meta_def)
  have "c_name S x \<noteq> ?n" if "x \<in> set cs" for x using Cons.prems(2) that by (metis distinct.simps(2) image_eqI list.set_map list.simps(9))
  then have "scan_columns S cs (AList.delete ?n live) added =
      Inr (False, filter (\<lambda>(k, _). k \<notin> c_name S ` set cs) (AList.delete ?n live), added)"
    using Cons.prems by (intro Cons.IH) simp_all
  moreover obtain ty where "map_of live ?n = Some (ty, c_pk S c)" "eq_ignore_ascii_case ty (c_type S c)"
    using Cons.prems(1) by auto
  ultimately show ?case by (simp add: c delete_then_filter)
qed

text \<open>A live table that is as the schema describes it.\<close>

definition table_same :: "'t database_schema \<Rightarrow> u16 \<Rightarrow> live_cols \<Rightarrow> bool" where
  "table_same S t cols \<longleftrightarrow> fst ` set cols = c_name S ` set (cols_of S t) \<and>
     (\<forall>c \<in> set (cols_of S t). \<exists>ty. map_of cols (c_name S c) = Some (ty, is_primary_key (ds_columns S ! c)) \<and>
        eq_ignore_ascii_case ty (sqlite_type (col_data_type (ds_columns S ! c))))"

lemma table_stmts_same:
  assumes nm: "named S" and t: "unat t < length (ds_tables S)" and iter: "iter_c [] = []"
    and cols: "map_of existing (t_name S t) = Some cols" "table_same S t cols" "distinct (map (c_name S) (cols_of S t))"
  shows "table_stmts iter_c S t (stmts, existing) = Inr (stmts, AList.delete (t_name S t) existing)"
proof -
  note wf = named_wf [OF nm]
  have "scan_columns S (cols_of S t) cols [] = Inr (False, filter (\<lambda>(k, _). k \<notin> c_name S ` set (cols_of S t)) cols, [])"
    using cols(2) cols_of_in [OF wf t] by (intro scan_columns_same [OF nm _ cols(3)]) (auto simp: table_same_def)
  moreover have "filter (\<lambda>(k, _). k \<notin> c_name S ` set (cols_of S t)) cols = []"
    using cols(2) by (force simp: table_same_def filter_empty_conv)
  ultimately show ?thesis
    using cols(1) iter table_name_named [OF nm t] table_columns_cols [OF wf t]
    by (simp add: table_stmts_def Let_def)
qed

lemma tables_same:
  assumes nm: "named S" and iter: "iter_c [] = []"
  shows "\<forall>t \<in> set ts. unat t < length (ds_tables S) \<and> distinct (map (c_name S) (cols_of S t)) \<and>
      (\<exists>cols. map_of existing (t_name S t) = Some cols \<and> table_same S t cols) \<Longrightarrow> distinct (map (t_name S) ts) \<Longrightarrow>
    fold_res (table_stmts iter_c S) ts (stmts, existing) =
      Inr (stmts, filter (\<lambda>(k, _). k \<notin> t_name S ` set ts) existing)"
proof (induction ts arbitrary: existing)
  case Nil
  show ?case by (simp add: case_prod_unfold)
next
  case (Cons t ts)
  let ?ex = "AList.delete (t_name S t) existing"
  have "t_name S x \<noteq> t_name S t" if "x \<in> set ts" for x
    using Cons.prems(2) that by (metis distinct.simps(2) image_eqI list.set_map list.simps(9))
  then have "fold_res (table_stmts iter_c S) ts (stmts, ?ex) = Inr (stmts, filter (\<lambda>(k, _). k \<notin> t_name S ` set ts) ?ex)"
    using Cons.prems by (intro Cons.IH) simp_all
  moreover have "table_stmts iter_c S t (stmts, existing) = Inr (stmts, ?ex)"
    using Cons.prems(1) table_stmts_same [where iter_c = iter_c, OF nm _ iter] by auto
  ultimately show ?case by (simp add: delete_then_filter)
qed

lemma alter_plan_same:
  assumes "named S" "live_names_ok S live" "fst ` set live = t_name S ` set (tables S)"
    "\<forall>t \<in> set (tables S). \<forall>cols. map_of live (t_name S t) = Some cols \<longrightarrow> table_same S t cols"
    "iter_t [] = []" "iter_c [] = []"
  shows "alter_plan iter_t iter_c S live = Inr []"
proof -
  have in_range: "unat t < length (ds_tables S)" if "t \<in> set (tables S)" for t
    using that named_wf [OF assms(1)] set_tables_wf [of S] by (auto simp: schema_wf_def)
  have dist: "distinct (map (t_name S) (tables S))"
    using assms(2) names_ok_distinct by (auto simp: live_names_ok_def)
  have "distinct (map (c_name S) (cols_of S t))" if "t \<in> set (tables S)" for t
    using assms(2) that distinct_map [of lc "map (c_name S) (cols_of S t)"]
    by (simp add: live_names_ok_def table_names_ok_def comp_def)
  moreover have "\<exists>cols. map_of live (t_name S t) = Some cols \<and> table_same S t cols" if "t \<in> set (tables S)" for t
    using assms(3,4) that by (cases "map_of live (t_name S t)") (auto simp: map_of_eq_None_iff)
  ultimately have "fold_res (table_stmts iter_c S) (tables S) ([], live) =
      Inr ([], filter (\<lambda>(k, _). k \<notin> t_name S ` set (tables S)) live)"
    using in_range dist by (intro tables_same [where iter_c = iter_c, OF assms(1,6)]) blast
  moreover have "filter (\<lambda>(k, _). k \<notin> t_name S ` set (tables S)) live = []"
    using assms(3) by (force simp: filter_empty_conv)
  ultimately show ?thesis using assms(5) by (simp add: alter_plan_def)
qed

text \<open>
  C28: a database whose tables already have the columns, types and primary keys of the schema
  gets no statement besides the new hash, so nothing of its content is touched.  Nullability,
  uniqueness, defaults, foreign keys and checks are not compared.
\<close>

theorem alter_plan_unchanged:
  assumes "named S" "live_names_ok S live" "fst ` set live = t_name S ` set (tables S)"
    "\<forall>t \<in> set (tables S). \<forall>cols. map_of live (t_name S t) = Some cols \<longrightarrow> table_same S t cols"
    "iter_t [] = []" "iter_c [] = []"
  shows "alter_plan iter_t iter_c S live = Inr []"
  using assms by (rule alter_plan_same)

definition same_live :: live_tables where
  "same_live = [(lit ''b'', [(lit ''i'', lit ''INTEGER'', True), (lit ''r'', lit ''INTEGER'', False)]),
     (lit ''a'', [(lit ''i'', lit ''INTEGER'', True)])]"

lemma same_live_ok:
  "live_names_ok demo_S same_live" "fst ` set same_live = t_name demo_S ` set (tables demo_S)"
  "\<forall>t \<in> set (tables demo_S). \<forall>cols. map_of same_live (t_name demo_S t) = Some cols \<longrightarrow> table_same demo_S t cols"
proof -
  have "lit ''a'' \<noteq> lit ''b''" by (simp add: lit_def)
  then show "live_names_ok demo_S same_live" "fst ` set same_live = t_name demo_S ` set (tables demo_S)"
    by (simp_all add: live_names_ok_def names_ok_def table_names_ok_def demo_names same_live_def to_ascii_lowercase_def
      insert_commute) (simp add: lit_def)
  show "\<forall>t \<in> set (tables demo_S). \<forall>cols. map_of same_live (t_name demo_S t) = Some cols \<longrightarrow> table_same demo_S t cols"
    by (simp add: demo_names same_live_def table_same_def demo_parts plain_col_def is_primary_key_def
        flags_contains_def PRIMARY_KEY_def NULLABLE_def eq_ignore_ascii_case_def) (auto simp: lit_def)
qed

theorem alter_plan_unchanged_witness: "alter_plan rev rev demo_S same_live = Inr []"
  by (rule alter_plan_unchanged [OF demo_named same_live_ok]) simp_all

lemma table_stmts_keeps:
  "table_stmts iter_c S t (stmts, ex) = Inr (stmts', ex') \<Longrightarrow> table_name S t \<noteq> Inr n \<Longrightarrow> n \<in> fst ` set ex \<Longrightarrow>
    n \<in> fst ` set ex'"
  by (auto simp: table_stmts_def Let_def sum_bind_Inr AList.delete_eq image_iff split: option.splits if_splits prod.splits)
    blast+

lemma tables_keep:
  "fold_res (table_stmts iter_c S) ts (stmts, ex) = Inr (stmts', ex') \<Longrightarrow> \<forall>t \<in> set ts. table_name S t \<noteq> Inr n \<Longrightarrow>
    n \<in> fst ` set ex \<Longrightarrow> n \<in> fst ` set ex'"
proof (induction ts arbitrary: stmts ex)
  case (Cons t ts)
  then obtain s1 e1 where "table_stmts iter_c S t (stmts, ex) = Inr (s1, e1)"
      "fold_res (table_stmts iter_c S) ts (s1, e1) = Inr (stmts', ex')"
    by (auto simp: sum_bind_Inr)
  then show ?case using Cons table_stmts_keeps by (metis list.set_intros)
qed simp

text \<open>
  C36: SQLite's names do not distinguish upper and lower case, the map of live tables does.  When
  the database has a table whose name differs from a table of the schema only in case, the script
  ends with that table dropped: the new table is not created because the old one exists, and then
  the old one is removed.
\<close>

theorem alter_plan_case_clash:
  assumes "named S" "t \<in> set (tables S)" "n \<in> fst ` set live" "n \<notin> t_name S ` set (tables S)" "lc n = lc (t_name S t)"
    "\<And>xs. mset (iter_t xs) = mset xs" "alter_plan iter_t iter_c S live = Inr stmts" "run_script S stmts d0 = Some d"
  shows "d (lc (t_name S t)) = None"
proof -
  obtain stmts' rest where f: "fold_res (table_stmts iter_c S) (tables S) ([], live) = Inr (stmts', rest)"
      and s: "stmts = stmts' @ map DropTable (iter_t (map fst rest))"
    using assms(7) by (auto simp: alter_plan_def sum_bind_Inr)
  have "\<forall>u \<in> set (tables S). table_name S u \<noteq> Inr n"
    using assms(1,4) table_name_named [OF assms(1)] set_tables_wf [of S] by (auto simp: schema_wf_def named_def)
  then have "n \<in> fst ` set rest" using tables_keep [OF f] assms(3) by blast
  then have "n \<in> set (iter_t (map fst rest))" using mset_eq_setD [OF assms(6), of "map fst rest"] by simp
  moreover obtain d1 where "run_script S (map DropTable (iter_t (map fst rest))) d1 = Some d"
    using assms(8) unfolding s run_script_append by (auto simp: bind_eq_Some_conv)
  ultimately have "lc (t_name S t) \<in> lc ` set (iter_t (map fst rest))" "d = d1 |` (- (lc ` set (iter_t (map fst rest))))"
    using assms(5) by (auto simp: run_drop_tables rev_image_eqI)
  then show ?thesis by simp
qed

definition upper_live :: live_tables where
  "upper_live = [(lit ''a'', [(lit ''i'', lit ''INTEGER'', True)]),
     (lit ''B'', [(lit ''i'', lit ''INTEGER'', True), (lit ''r'', lit ''INTEGER'', False)])]"

lemma upper_plan:
  "\<exists>stmts d. alter_plan rev rev demo_S upper_live = Inr stmts \<and> run_script demo_S stmts (live_catalog upper_live) = Some d"
proof -
  obtain sql where sql: "create_stmt demo_S 1 = Inr (CreateTable 1 sql)"
    using write_create_table_says [OF demo_named _ _ opens_nil, of 1] demo_quiet by (auto simp: create_stmt_def demo_names)
  have scan: "scan_columns demo_S [0] [(lit ''i'', lit ''INTEGER'', True)] [] = Inr (False, [], [])"
    using scan_columns_same [OF demo_named, of "[0]" "[(lit ''i'', lit ''INTEGER'', True)]" "[]"]
    by (simp add: demo_names demo_parts plain_col_def is_primary_key_def flags_contains_def PRIMARY_KEY_def
        eq_ignore_ascii_case_def)
  have ne: "lit ''a'' \<noteq> lit ''B''" "lit ''b'' \<noteq> lit ''a''" "lit ''b'' \<noteq> lit ''B''" by (simp_all add: lit_def)
  have n: "table_name demo_S 0 = Inr (lit ''a'')" "table_name demo_S 1 = Inr (lit ''b'')" "table_columns demo_S 0 = Inr [0]"
    using table_name_named [OF demo_named] table_columns_cols [OF demo_S_wf] by (simp_all add: demo_names)
  have "alter_plan rev rev demo_S upper_live = Inr [CreateTable 1 sql, DropTable (lit ''B'')]"
    using scan sql ne by (simp add: alter_plan_def demo_names upper_live_def table_stmts_def n)
  then show ?thesis by simp
qed

theorem alter_plan_case_clash_witness:
  "\<exists>stmts d. alter_plan rev rev demo_S upper_live = Inr stmts \<and>
    run_script demo_S stmts (live_catalog upper_live) = Some d \<and> d (lit ''b'') = None"
proof -
  obtain stmts d where run: "alter_plan rev rev demo_S upper_live = Inr stmts"
      "run_script demo_S stmts (live_catalog upper_live) = Some d"
    using upper_plan by blast
  have "d (lc (t_name demo_S 1)) = None"
    by (rule alter_plan_case_clash [of _ 1 "lit ''B''" upper_live rev rev, OF demo_named _ _ _ _ _ run])
      (simp_all add: demo_names upper_live_def lit_def to_ascii_lowercase_def)
  moreover have "lc (t_name demo_S 1) = lit ''b''" by (simp add: demo_names lit_def to_ascii_lowercase_def)
  ultimately show ?thesis using run by auto
qed

section \<open>Opening a database\<close>

text \<open>Removing triggers touches no table.\<close>

definition keeps_tables :: "('e, 'd) sqlite_env \<Rightarrow> ('d \<Rightarrow> catalog) \<Rightarrow> bool" where
  "keeps_tables E cat \<longleftrightarrow> (\<forall>d ns. cat (snd (env_exec_pool E d (drop_triggers_sql ns))) = cat d)"

text \<open>The content of the database that \<open>from\<close> opens, before it looks for the schema's hash.\<close>

definition sqlite_opened :: "('e, 'd) sqlite_env \<Rightarrow> u8 list \<Rightarrow> 'd option" where
  "sqlite_opened E bytes = map_option (\<lambda>d. snd (env_exec_pool E d OPTIMIZE)) (env_connect E bytes)"

text \<open>
  C10: when \<open>from\<close> succeeds, the bytes had the header of a SQLite file, and its tables are as
  follows.  If the file has the hash of the schema, they are the tables it had.  If it has another
  hash, they are the tables of the schema and no others, whether the migration was run or, after
  it failed, everything was dropped and created.  If it has none, the tables of the schema are
  added, and a table of the file keeps its columns, even if a table of the schema has its name.
  The environment has to execute the generated texts as a reader of SQL does (\<open>run_text\<close>); that
  the texts say the right thing is proved, for a schema whose defaults and checks are complete
  pieces of SQL (\<open>tidy_schema\<close>).  The names of the file's tables do not clash with those of the
  schema up to ASCII case.
\<close>

theorem sqlite_from_correct:
  assumes "named S" "tidy_schema S" "sqlite_runs E cat S" "keeps_tables E cat"
    and iter: "\<And>xs. mset (env_iter_t E xs) = mset xs" "\<And>xs. mset (env_iter_c E xs) = mset xs"
    and names: "\<And>d rows live. sqlite_opened E bytes = Some d \<Longrightarrow> env_columns E d = Inr rows \<Longrightarrow>
      live_of_rows rows = Inr live \<Longrightarrow> live_names_ok S live"
    and run: "sqlite_from E S bytes = (Inr d', x)"
  shows "100 \<le> length bytes \<and> take 16 bytes = SQLITE_MAGIC \<and> x = Some d' \<and>
    (\<exists>d. sqlite_opened E bytes = Some d \<and> (case stored_schema_hash E d of
        None \<Rightarrow> cat d' = schema_catalog S ++ cat d
      | Some h \<Rightarrow> if h = ds_hash S then cat d' = cat d else catalogs_agree (cat d') (schema_catalog S)))"
proof -
  obtain d0 where d0: "100 \<le> length bytes" "take 16 bytes = SQLITE_MAGIC" "env_connect E bytes = Some d0" "x = Some d'"
      "adopt E S (snd (env_exec_pool E d0 OPTIMIZE)) = (Inr (), d')"
    using sqlite_from_Inr [OF run] by metis
  let ?d = "snd (env_exec_pool E d0 OPTIMIZE)"
  have opened: "sqlite_opened E bytes = Some ?d" using d0(3) by (simp add: sqlite_opened_def)
  obtain d1 where d1: "drop_triggers E d1 = (Inr (), d')"
      "case stored_schema_hash E ?d of
         None \<Rightarrow> create_tables E S ?d = (Inr (), d1)
       | Some h \<Rightarrow> if h = ds_hash S then d1 = ?d else alter_tables E S ?d = (Inr (), d1)"
    by (rule adopt_Inr [OF d0(5)])
  have same: "cat d' = cat d1" using drop_triggers_state [OF d1(1)] assms(4) by (auto simp: keeps_tables_def)
  have altered: "catalogs_agree (cat d1) (schema_catalog S)" if run: "alter_tables E S ?d = (Inr (), d1)"
    by (rule alter_tables_catalog [OF assms(1-3) iter _ run]) (rule names [OF opened])
  have "case stored_schema_hash E ?d of None \<Rightarrow> cat d' = schema_catalog S ++ cat ?d
      | Some h \<Rightarrow> if h = ds_hash S then cat d' = cat ?d else catalogs_agree (cat d') (schema_catalog S)"
    using d1(2) altered create_tables_catalog [OF assms(1-3)] same by (simp split: option.splits if_splits)
  with opened have "\<exists>d. sqlite_opened E bytes = Some d \<and> (case stored_schema_hash E d of
        None \<Rightarrow> cat d' = schema_catalog S ++ cat d
      | Some h \<Rightarrow> if h = ds_hash S then cat d' = cat d else catalogs_agree (cat d') (schema_catalog S))"
    by (intro exI [of _ ?d] conjI)
  then show ?thesis using d0(1,2,4) by simp
qed

text \<open>
  A database whose content is either the rows of its introspection query, as the file has them, or
  the catalog that is left by the scripts it has executed.  The file has the tables of
  \<open>demo_live\<close> and the hash of another schema.
\<close>

definition old_rows :: "unit info_row list" where
  "old_rows = map (\<lambda>(t, c, ty, pk). \<lparr>ir_table = Inr t, ir_column = Inr c, ir_type = Inr ty, ir_pk = Inr pk\<rparr>)
     [(lit ''b'', lit ''i'', lit ''integer'', 1), (lit ''b'', lit ''x'', lit ''TEXT'', 0), (lit ''old'', lit ''k'', lit ''TEXT'', 1)]"

fun demo_cat :: "unit info_row list + catalog \<Rightarrow> catalog" where
  "demo_cat (Inl rows) = (case live_of_rows rows of Inr live \<Rightarrow> live_catalog live | Inl _ \<Rightarrow> Map.empty)"
| "demo_cat (Inr c) = c"

definition demo_E :: "(unit, unit info_row list + catalog) sqlite_env" where
  "demo_E = \<lparr>env_temp_file = True, env_write = (\<lambda>_. True), env_connect = (\<lambda>_. Some (Inl old_rows)), env_begin = (\<lambda>_. True),
     env_exec = (\<lambda>d sql. case run_text sql (demo_cat d) of None \<Rightarrow> Inl () | Some c \<Rightarrow> Inr (Inr c)),
     env_commit = (\<lambda>_. True), env_exec_pool = (\<lambda>d _. (Inr (), d)),
     env_columns = (\<lambda>d. case d of Inl rows \<Rightarrow> Inr rows | Inr _ \<Rightarrow> Inl ()),
     env_hash = (\<lambda>_. Inr (Some (replicate 32 1))), env_triggers = (\<lambda>_. Inr []), env_read = (\<lambda>_. Inr []),
     env_show = (\<lambda>_. []), env_iter_t = rev, env_iter_c = rev\<rparr>"

lemma old_rows_live: "live_of_rows old_rows = Inr demo_live"
  by (simp add: live_of_rows_def old_rows_def add_info_def Let_def demo_live_def lit_def)

lemma demo_E_runs: "sqlite_runs demo_E demo_cat demo_S"
  by (auto simp: sqlite_runs_def demo_E_def split: option.splits sum.splits)

lemma demo_tidy: "tidy_schema demo_S"
proof -
  have "col_default_value (ds_columns demo_S ! c) = None" if "c < 3" for c
    using that by (auto simp: demo_parts plain_col_def less_Suc_eq numeral_3_eq_3)
  then show ?thesis by (simp add: tidy_schema_def demo_names tidy_table_def tidy_column_def column_default_def)
qed

lemma demo_E_from: "\<exists>d. sqlite_from demo_E demo_S (SQLITE_MAGIC @ replicate 84 0) = (Inr d, Some d)"
proof -
  obtain stmts c where plan: "alter_plan rev rev demo_S demo_live = Inr stmts"
      "run_script demo_S stmts (live_catalog demo_live) = Some c"
    using alter_plan_run [OF demo_named demo_live_ok, of rev rev] by auto
  note sql = alter_sql_runs [OF demo_named demo_tidy plan(1)]
  have "alter_tables demo_E demo_S (Inl old_rows) = (Inr (), Inr c)"
    using runs_text [OF sql(2)] plan(2) by (simp add: alter_tables_def demo_E_def old_rows_live sql(1) Let_def)
  moreover have "replicate 32 (1 :: u8) \<noteq> ds_hash demo_S" by (simp add: demo_S_def)
  ultimately have "adopt demo_E demo_S (Inl old_rows) = (Inr (), Inr c)"
    by (simp add: adopt_def stored_schema_hash_def demo_E_def drop_triggers_def)
  moreover have "length SQLITE_MAGIC = 16" by (simp add: SQLITE_MAGIC_def lit_def)
  ultimately show ?thesis by (simp add: sqlite_from_def demo_E_def)
qed

theorem sqlite_from_correct_witness:
  "\<exists>d. sqlite_from demo_E demo_S (SQLITE_MAGIC @ replicate 84 0) = (Inr d, Some d) \<and>
     catalogs_agree (demo_cat d) (schema_catalog demo_S)"
proof -
  let ?bytes = "SQLITE_MAGIC @ replicate 84 0"
  obtain d where d: "sqlite_from demo_E demo_S ?bytes = (Inr d, Some d)" using demo_E_from by blast
  have opened: "sqlite_opened demo_E b = Some (Inl old_rows)" for b by (simp add: sqlite_opened_def demo_E_def)
  have env: "keeps_tables demo_E demo_cat" "env_iter_t demo_E = rev" "env_iter_c demo_E = rev"
      "env_columns demo_E (Inl old_rows) = Inr old_rows"
    by (simp_all add: keeps_tables_def demo_E_def)
  have "stored_schema_hash demo_E e = Some (replicate 32 1)" for e by (simp add: stored_schema_hash_def demo_E_def)
  moreover have "replicate 32 (1 :: u8) \<noteq> ds_hash demo_S" by (simp add: demo_S_def)
  moreover have names: "live_names_ok demo_S live" if "sqlite_opened demo_E ?bytes = Some e"
      "env_columns demo_E e = Inr rows" "live_of_rows rows = Inr live" for e rows live
    using that demo_live_ok by (auto simp: opened env old_rows_live)
  moreover have "mset (env_iter_t demo_E xs) = mset xs" "mset (env_iter_c demo_E xs) = mset xs" for xs
    by (simp_all add: env)
  note sqlite_from_correct [OF demo_named demo_tidy demo_E_runs env(1) this names d]
  ultimately show ?thesis using d by (simp add: opened)
qed

text \<open>The rows of a database that has the tables of the small schema.\<close>

definition demo_info :: "unit info_row list" where
  "demo_info = map (\<lambda>(t, c, pk). \<lparr>ir_table = Inr t, ir_column = Inr c, ir_type = Inr (lit ''INTEGER''), ir_pk = Inr pk\<rparr>)
     [(lit ''b'', lit ''i'', 1), (lit ''b'', lit ''r'', 0), (lit ''a'', lit ''i'', 1)]"

lemma demo_info_live: "live_of_rows demo_info = Inr same_live"
  by (simp add: live_of_rows_def demo_info_def add_info_def Let_def same_live_def lit_def)

lemma same_plan: "alter_plan rev rev demo_S same_live = Inr []"
  by (rule alter_plan_same [OF demo_named same_live_ok]) simp_all

lemma drop_all_differs: "drop_all_sql ns \<noteq> write_hash_upsert h p"
proof (cases ns rule: rev_cases)
  case Nil
  then show ?thesis by (simp add: drop_all_sql_def write_hash_upsert_def)
next
  case (snoc ms n)
  then have "\<exists>r. rev (drop_all_sql ns) = 10 # 59 # DQUOTE # r"
    by (simp add: drop_all_sql_def ident_fmt_def) (simp add: lit_def)
  moreover have "\<exists>r. rev (write_hash_upsert h p) = 10 # 59 # 101 # r"
    by (simp add: write_hash_upsert_def) (simp add: lit_def)
  ultimately show ?thesis by fastforce
qed

text \<open>
  C22: the operations that fail leave the database as it was, with one exception: \<open>alter_tables\<close>
  drops the live tables, those the introspection query listed, in a transaction of its own, so that
  an error after it leaves a database without them.
\<close>

theorem failures_keep_database:
  "(create_tables E S d = (Inl e, d') \<longrightarrow> d' = d) \<and> (setup_triggers E S d = (Inl e, d') \<longrightarrow> d' = d) \<and>
   (alter_tables E S d = (Inl e, d') \<longrightarrow> d' = d \<or>
      (\<exists>rows live. env_columns E d = Inr rows \<and> live_of_rows rows = Inr live \<and>
        env_exec E d (drop_all_sql (env_iter_t E (map fst live))) = Inr d' \<and> create_tables E S d' = (Inl e, d')))"
proof (intro conjI impI)
  show "d' = d" if "create_tables E S d = (Inl e, d')"
    using that unfolding create_tables_def by (rule in_transaction_error)
  show "d' = d" if "setup_triggers E S d = (Inl e, d')"
    using that in_transaction_error [of E _ _ d e d']
    by (auto simp: setup_triggers_def db_bind_def db_pure_def split: sum.splits prod.splits)
  have created: "d' = d1" if "create_tables E S d1 = (Inl e, d')" for d1
    using that unfolding create_tables_def by (rule in_transaction_error)
  have rebuilt: "d' = d \<or> env_exec E d (drop_all_sql live) = Inr d' \<and> create_tables E S d' = (Inl e, d')"
    if r: "rebuild_tables E S live d = (Inl e, d')" for live
  proof (cases "in_transaction E (lit ''rebuilding sqlite tables'') (\<lambda>_. Inr (drop_all_sql live)) d")
    case (Pair r1 d1)
    show ?thesis
    proof (cases r1)
      case (Inl e1)
      then show ?thesis using r Pair in_transaction_error by (fastforce simp: rebuild_tables_def)
    next
      case (Inr u)
      then have "create_tables E S d1 = (Inl e, d')" using r Pair by (simp add: rebuild_tables_def)
      moreover have "env_exec E d (drop_all_sql live) = Inr d1" using in_transaction_Inr Pair Inr by fastforce
      ultimately show ?thesis using created by blast
    qed
  qed
  show "d' = d \<or> (\<exists>rows live. env_columns E d = Inr rows \<and> live_of_rows rows = Inr live \<and>
        env_exec E d (drop_all_sql (env_iter_t E (map fst live))) = Inr d' \<and> create_tables E S d' = (Inl e, d'))"
    if "alter_tables E S d = (Inl e, d')"
    using that rebuilt by (auto simp: alter_tables_def Let_def split: sum.splits if_splits)
qed

text \<open>A database that can only drop tables; its content is the number of scripts it has run.\<close>

definition failing_E :: "(unit, nat) sqlite_env" where
  "failing_E = \<lparr>env_temp_file = True, env_write = (\<lambda>_. True), env_connect = (\<lambda>_. Some 0), env_begin = (\<lambda>_. True),
     env_exec = (\<lambda>n sql. if sql = drop_all_sql [lit ''a'', lit ''b''] then Inr (n + 1) else Inl ()),
     env_commit = (\<lambda>_. True), env_exec_pool = (\<lambda>n _. (Inr (), n)), env_columns = (\<lambda>_. Inr demo_info),
     env_hash = (\<lambda>_. Inr None), env_triggers = (\<lambda>_. Inr []), env_read = (\<lambda>_. Inr []),
     env_show = (\<lambda>_. []), env_iter_t = rev, env_iter_c = rev\<rparr>"

lemma failing_E_run:
  "alter_tables failing_E demo_S 0 = (Inl (DbError (SetupFailed (lit ''creating sqlite tables'') [])), 1)"
proof -
  let ?names = "[lit ''a'', lit ''b'']" and ?up = "write_hash_upsert (ds_hash demo_S)"
  have first: "env_exec failing_E 0 (?up []) = Inl ()" "env_exec failing_E 0 (drop_all_sql ?names) = Inr 1"
    using drop_all_differs [of ?names "ds_hash demo_S" "[]"] by (simp_all add: failing_E_def)
  obtain p where p: "build_ddl demo_S = Inr (?up p)"
    using write_tables_says [OF demo_named _ opens_nil, of "tables demo_S"] demo_quiet
    by (auto simp: build_ddl_def demo_names)
  then have "create_tables failing_E demo_S 1 = (Inl (DbError (SetupFailed (lit ''creating sqlite tables'') [])), 1)"
    using drop_all_differs [of ?names "ds_hash demo_S" p] by (simp add: create_tables_def in_transaction_def failing_E_def)
  moreover have "rebuild_tables failing_E demo_S ?names 0 = create_tables failing_E demo_S 1"
    by (simp add: rebuild_tables_def in_transaction_def failing_E_def)
  moreover have "env_iter_t failing_E (map fst same_live) = ?names" by (simp add: failing_E_def same_live_def)
  moreover have "alter_tables failing_E demo_S 0 = rebuild_tables failing_E demo_S (env_iter_t failing_E (map fst same_live)) 0"
    using first by (simp add: alter_tables_def alter_sql_def demo_info_live same_plan failing_E_def)
  ultimately show ?thesis by simp
qed

theorem failures_keep_database_witness:
  "\<exists>live e. env_exec failing_E 0 (drop_all_sql live) = Inr 1 \<and> create_tables failing_E demo_S 1 = (Inl e, 1)"
  using failures_keep_database [of failing_E demo_S 0 _ 1] failing_E_run by (metis zero_neq_one)

end
