(* ===== verification/Postgres_Db.thy ===== *)
theory Postgres_Db
  imports Dialect Schema_Builder
begin

unbundle bit_operations_syntax

text \<open>
  The operations of \<open>PostgresDatabase\<close> (\<open>dialect/postgres.rs\<close>): reading the catalog into a
  schema, and installing the sync log, its backfill and the triggers in one transaction.  The
  server and its driver are the fields of a record of functions; \<open>'d\<close> is the content of the
  database.  A transaction that is dropped or whose commit fails leaves the content as it was.
\<close>

section \<open>The environment\<close>

text \<open>
  A statement, with the value bound to \<open>$1\<close> if there is one.  The script
  \<open>database_schema.sql\<close>, which the crate includes at compile time, is a field of the
  environment as well.
\<close>

datatype pg_stmt = Raw str | Bound str str

text \<open>
  One row of \<open>boomerang.database_schema('public')\<close>: the results of \<open>try_get\<close> for its
  columns.
\<close>

record 'e catalog_row =
  cr_table_name :: "'e + str"
  cr_column_name :: "'e + str"
  cr_fk_constraints :: "'e + str list"
  cr_fk_namespaces :: "'e + str list"
  cr_fk_tables :: "'e + str list"
  cr_fk_columns :: "'e + str list"
  cr_fk_on_update :: "'e + i16 list"
  cr_fk_on_delete :: "'e + i16 list"
  cr_check_defs :: "'e + str list"
  cr_domain_checks :: "'e + str list"
  cr_data_type :: "'e + str"
  cr_nullable :: "'e + bool"
  cr_is_primary :: "'e + bool"
  cr_is_unique :: "'e + bool"
  cr_default_expr :: "'e + str option"

record ('e, 'd) pg_env =
  pg_connect :: "str \<Rightarrow> 'd option"
  pg_begin :: "'d \<Rightarrow> bool"
  pg_exec :: "'d \<Rightarrow> pg_stmt \<Rightarrow> 'e + 'd"
  pg_commit :: "'d \<Rightarrow> bool"
  pg_has_setup :: "'d \<Rightarrow> 'e + bool"
  pg_rows :: "'d \<Rightarrow> ('e + 'e catalog_row) list"
  pg_hash :: "'d \<Rightarrow> 'e + u8 list"
  pg_log_count :: "'d \<Rightarrow> 'e + int"
  pg_functions :: "'d \<Rightarrow> 'e + str list"
  pg_show :: "'e \<Rightarrow> str"
  pg_schema_query :: str

type_synonym ('e, 'a) pg_result = "'e db_fail + 'a"

text \<open>Executing a statement with \<open>map_err\<close>, driver results with \<open>SqlxError\<close>, and panics.\<close>

definition run_or :: "('e, 'd) pg_env \<Rightarrow> ('e \<Rightarrow> 'e database_error) \<Rightarrow> pg_stmt \<Rightarrow> 'd \<Rightarrow> ('e, 'd) pg_result" where
  "run_or E f stmt d = map_sum (\<lambda>err. DbError (f err)) id (pg_exec E d stmt)"

definition sqlx :: "'e + 'a \<Rightarrow> ('e, 'a) pg_result" where
  "sqlx r = map_sum (\<lambda>err. DbError (SqlxError err)) id r"

definition in_tx :: "'a res \<Rightarrow> ('e, 'a) pg_result" where
  "in_tx r = map_sum DbPanic id r"

section \<open>Setup\<close>

text \<open>The lines of a raw string.\<close>

definition sql_lines :: "str list \<Rightarrow> str" where
  "sql_lines ls = (case ls of [] \<Rightarrow> [] | l # ls \<Rightarrow> l @ concat (map (\<lambda>x. 10 # x) ls))"

definition SYNC_LOG_TABLE :: str where
  "SYNC_LOG_TABLE = sql_lines
    [[],
     lit ''            CREATE TABLE IF NOT EXISTS boomerang.sync_log'',
     lit ''            ('',
     lit ''                table_name text COLLATE '' @ [DQUOTE] @ lit ''C'' @ [DQUOTE] @ lit '' NOT NULL,'',
     lit ''                record_id  text COLLATE '' @ [DQUOTE] @ lit ''C'' @ [DQUOTE] @ lit '' NOT NULL,'',
     lit ''                op_type    char(1)          NOT NULL CHECK (op_type IN ('I', 'U', 'D')),'',
     lit ''                version    bigint           NOT NULL DEFAULT 1,'',
     lit ''                updated_at bigint           NOT NULL,'',
     lit ''                CONSTRAINT sync_log_pkey PRIMARY KEY (table_name, record_id)'',
     lit ''            ) WITH (fillfactor = 70);'',
     lit ''        '']"

definition perform_setup :: "('e, 'd) pg_env \<Rightarrow> 'd \<Rightarrow> ('e, 'd) pg_result" where
  "perform_setup E d =
     sum_bind
       (case pg_has_setup E d of
          Inl err \<Rightarrow> Inl (DbError (SetupFailed (lit ''checking for database schema functions'') (pg_show E err)))
        | Inr has_database_schema \<Rightarrow>
            if \<not> has_database_schema then
              run_or E (\<lambda>err. SetupFailed (lit ''creating database schema functions'') (pg_show E err))
                (Raw (pg_schema_query E)) d
            else Inr d)
       (run_or E (\<lambda>err. SetupFailed (lit ''creating sync log table'') (pg_show E err)) (Raw SYNC_LOG_TABLE))"

section \<open>Reading the catalog\<close>

text \<open>\<open>i16\<close> and actions (\<open>core/schema.rs\<close>); \<open>as u8\<close> keeps the low byte.\<close>

definition action_of_i16 :: "i16 \<Rightarrow> action res" where
  "action_of_i16 v = action_of_u8 (ucast v)"

fun action_to_i16 :: "action \<Rightarrow> i16" where
  "action_to_i16 NoAction = 0"
| "action_to_i16 Cascade = 1"
| "action_to_i16 SetNull = 2"
| "action_to_i16 SetDefault = 3"
| "action_to_i16 Restrict = 4"

definition unwrap_or :: "'a \<Rightarrow> 'e + 'a \<Rightarrow> 'a" where
  "unwrap_or x r = (case r of Inl _ \<Rightarrow> x | Inr y \<Rightarrow> y)"

definition foreign_key_of :: "((((str \<times> str) \<times> str) \<times> str) \<times> i16) \<times> i16 \<Rightarrow> raw_foreign_key res" where
  "foreign_key_of x = (case x of (((((c, n), t), col), upd), del) \<Rightarrow>
     sum_bind (action_of_i16 upd) (\<lambda>on_update.
     sum_bind (action_of_i16 del) (\<lambda>on_delete.
     Inr \<lparr>rf_constraint_name = c, rf_namespace = n, rf_referenced_table = t, rf_referenced_column = col,
          rf_on_update = on_update, rf_on_delete = on_delete\<rparr>)))"

text \<open>
  The zipped lists of foreign keys.  The source maps them inside \<open>add_row\<close>, as it consumes the
  iterator; an unknown action panics in both places.
\<close>

definition foreign_keys_of :: "'e catalog_row \<Rightarrow> raw_foreign_key list res" where
  "foreign_keys_of row = map_res foreign_key_of
     (zip (zip (zip (zip (zip (unwrap_or [] (cr_fk_constraints row)) (unwrap_or [] (cr_fk_namespaces row)))
       (unwrap_or [] (cr_fk_tables row))) (unwrap_or [] (cr_fk_columns row))) (unwrap_or [] (cr_fk_on_update row)))
       (unwrap_or [] (cr_fk_on_delete row)))"

definition raw_row_of :: "'e catalog_row \<Rightarrow> ('e, raw_row) pg_result" where
  "raw_row_of row =
     sum_bind (sqlx (cr_table_name row)) (\<lambda>table_name.
     sum_bind (sqlx (cr_column_name row)) (\<lambda>column_name.
     sum_bind (sqlx (cr_data_type row)) (\<lambda>data_type.
     sum_bind (sqlx (cr_nullable row)) (\<lambda>nullable.
     sum_bind (sqlx (cr_is_primary row)) (\<lambda>is_primary.
     sum_bind (sqlx (cr_is_unique row)) (\<lambda>is_unique.
     sum_bind (in_tx (foreign_keys_of row)) (\<lambda>fks.
     Inr \<lparr>rr_table_name = table_name, rr_column_name = column_name, rr_data_type = data_type, rr_nullable = nullable,
          rr_is_primary = is_primary, rr_is_unique = is_unique, rr_default_expr = unwrap_or None (cr_default_expr row),
          rr_foreign_keys = fks, rr_check_defs = unwrap_or [] (cr_check_defs row),
          rr_domain_checks = unwrap_or [] (cr_domain_checks row)\<rparr>)))))))"

text \<open>The loop over the stream of rows.\<close>

definition load_row :: "'t deps \<Rightarrow> 'e + 'e catalog_row \<Rightarrow> 't schema_builder \<Rightarrow> ('e, 't schema_builder) pg_result" where
  "load_row D r B =
     sum_bind (sqlx r) (\<lambda>row.
     sum_bind (raw_row_of row) (\<lambda>raw.
     in_tx (add_row D raw B)))"

fun load_rows :: "'t deps \<Rightarrow> ('e + 'e catalog_row) list \<Rightarrow> 't schema_builder \<Rightarrow> ('e, 't schema_builder) pg_result" where
  "load_rows D [] B = Inr B"
| "load_rows D (r # rs) B = sum_bind (load_row D r B) (load_rows D rs)"

definition load_schema ::
  "'t deps \<Rightarrow> u32 \<Rightarrow> local_cache \<Rightarrow> ('e, 'd) pg_env \<Rightarrow> 'd \<Rightarrow> ('e, 't database_schema) pg_result" where
  "load_schema D next_id c E d =
     sum_bind (in_tx (builder_with_capacity D next_id c 200 2000)) (\<lambda>builder.
     sum_bind (load_rows D (pg_rows E d) builder) (\<lambda>builder.
     case pg_hash E d of
       Inl _ \<Rightarrow> Inl (DbError SchemaHashComputationFailed)
     | Inr schema_hash \<Rightarrow> in_tx (build builder schema_hash)))"

section \<open>Backfill and triggers\<close>

text \<open>The loop of both functions: \<open>stmt\<close> for every table, \<open>missing\<close> for one without primary key.\<close>

fun for_tables ::
  "('e, 'd) pg_env \<Rightarrow> 't database_schema \<Rightarrow> (str \<Rightarrow> 'e database_error) \<Rightarrow> (str \<Rightarrow> str \<Rightarrow> pg_stmt) \<Rightarrow> u16 list \<Rightarrow> 'd \<Rightarrow>
   ('e, 'd) pg_result" where
  "for_tables E S missing stmt [] d = Inr d"
| "for_tables E S missing stmt (t # ts) d =
     sum_bind (in_tx (table_name S t)) (\<lambda>tab.
     sum_bind (in_tx (primary_key S t)) (\<lambda>r. case r of
         None \<Rightarrow> Inl (DbError (missing tab))
       | Some c \<Rightarrow>
           sum_bind (in_tx (column_name S c)) (\<lambda>primary_col.
           sum_bind (run_or E SqlxError (stmt tab primary_col) d) (for_tables E S missing stmt ts))))"

definition backfill_stmt :: "str \<Rightarrow> str \<Rightarrow> pg_stmt" where
  "backfill_stmt tab pk = Bound (sql_lines
    [[],
     lit ''                    INSERT INTO boomerang.sync_log (table_name, record_id, op_type, version, updated_at)'',
     lit ''                    SELECT $1, '' @ ident_fmt pk @ lit ''::text, 'I', 1, (extract(epoch from now()) * 1000)::bigint'',
     lit ''                    FROM '' @ ident_fmt (lit ''public'') @ lit ''.'' @ ident_fmt tab,
     lit ''                    ON CONFLICT (table_name, record_id) DO NOTHING'',
     lit ''                '']) (lit ''public.'' @ tab)"

definition backfill_sync_logs :: "('e, 'd) pg_env \<Rightarrow> 't database_schema \<Rightarrow> 'd \<Rightarrow> ('e, 'd) pg_result" where
  "backfill_sync_logs E S d =
     sum_bind (sqlx (pg_log_count E d)) (\<lambda>log_row_count.
     if log_row_count > 0 then Inr d
     else for_tables E S (\<lambda>tab. BackfillFailed tab (lit ''Table has no primary key'')) backfill_stmt (tables S) d)"

definition pg_trigger_stmt :: "str \<Rightarrow> str \<Rightarrow> pg_stmt" where
  "pg_trigger_stmt tab pk =
     (let func = ident_fmt (lit ''sync_log_touch_'' @ tab);
          trg = ident_fmt (lit ''trg_'' @ tab @ lit ''_sync_log'');
          name = lit_fmt (lit ''public.'' @ tab)
      in Raw (sql_lines
    [[],
     lit ''                    CREATE OR REPLACE FUNCTION '' @ func @ lit ''() RETURNS trigger'',
     lit ''                    LANGUAGE plpgsql AS $$'',
     lit ''                    BEGIN'',
     lit ''                        IF current_setting('boomerang.sync_write', true) = 'true' THEN'',
     lit ''                            RETURN NULL;'',
     lit ''                        END IF;'',
     [],
     lit ''                        INSERT INTO boomerang.sync_log AS l (table_name, record_id, op_type, version, updated_at)'',
     lit ''                        VALUES ('',
     lit ''                            '' @ name @ lit '','',
     lit ''                            (CASE WHEN TG_OP = 'DELETE' THEN OLD.'' @ ident_fmt pk @ lit '' ELSE NEW.'' @ ident_fmt pk @ lit '' END)::text,'',
     lit ''                            left(TG_OP, 1),'',
     lit ''                            1,'',
     lit ''                            (extract(epoch FROM clock_timestamp()) * 1000)::bigint'',
     lit ''                        )'',
     lit ''                        ON CONFLICT (table_name, record_id) DO UPDATE'',
     lit ''                        SET op_type    = EXCLUDED.op_type,'',
     lit ''                            version    = l.version + 1,'',
     lit ''                            updated_at = EXCLUDED.updated_at;'',
     [],
     lit ''                        RETURN NULL;'',
     lit ''                    END $$;'',
     [],
     lit ''                    CREATE OR REPLACE TRIGGER '' @ trg,
     lit ''                    AFTER INSERT OR UPDATE OR DELETE ON '' @ ident_fmt tab,
     lit ''                    FOR EACH ROW EXECUTE FUNCTION '' @ func @ lit ''();'',
     lit ''                 '']))"

definition pg_setup_triggers :: "('e, 'd) pg_env \<Rightarrow> 't database_schema \<Rightarrow> 'd \<Rightarrow> ('e, 'd) pg_result" where
  "pg_setup_triggers E S d =
     for_tables E S (\<lambda>tab. SetupFailed (lit ''creating table trigger'') (lit ''Table '' @ tab @ lit '' has no primary key''))
       pg_trigger_stmt (tables S) d"

section \<open>The whole setup, and its removal\<close>

definition SET_SYNC_WRITE :: str where
  "SET_SYNC_WRITE = lit ''SET LOCAL boomerang.sync_write = '' @ [SQUOTE] @ lit ''true'' @ [SQUOTE]"

text \<open>What \<open>new\<close> does inside its transaction: the schema and the content at its end.\<close>

definition pg_install ::
  "'t deps \<Rightarrow> u32 \<Rightarrow> local_cache \<Rightarrow> ('e, 'd) pg_env \<Rightarrow> 'd \<Rightarrow> ('e, 't database_schema \<times> 'd) pg_result" where
  "pg_install D next_id c E d =
     sum_bind (perform_setup E d) (\<lambda>d.
     sum_bind (load_schema D next_id c E d) (\<lambda>schema.
     sum_bind (run_or E SqlxError (Raw SET_SYNC_WRITE) d) (\<lambda>d.
     sum_bind (backfill_sync_logs E schema d) (\<lambda>d.
     sum_bind (pg_setup_triggers E schema d) (\<lambda>d.
     Inr (schema, d))))))"

definition pg_new ::
  "'t deps \<Rightarrow> u32 \<Rightarrow> local_cache \<Rightarrow> ('e, 'd) pg_env \<Rightarrow> str \<Rightarrow> ('e, 't database_schema, 'd option) db_result" where
  "pg_new D next_id c E url = (case pg_connect E url of
       None \<Rightarrow> (Inl (DbError ConnectionPoolFailed), None)
     | Some d \<Rightarrow>
         if \<not> pg_begin E d then (Inl (DbError FailedToAcquireTransaction), Some d)
         else case pg_install D next_id c E d of
             Inl e \<Rightarrow> (Inl e, Some d)
           | Inr (schema, d') \<Rightarrow>
               if pg_commit E d' then (Inr schema, Some d') else (Inl (DbError FailedToCommitTransaction), Some d))"

definition remove_setup_sql :: "str list \<Rightarrow> str" where
  "remove_setup_sql functions =
     concat (map (\<lambda>f. lit ''DROP FUNCTION IF EXISTS '' @ ident_fmt f @ lit ''() CASCADE;'' @ [10]) functions) @
     lit ''DROP SCHEMA IF EXISTS boomerang CASCADE;''"

definition remove_setup :: "('e, 'd) pg_env \<Rightarrow> 'd \<Rightarrow> ('e, unit, 'd) db_result" where
  "remove_setup E d =
     (if \<not> pg_begin E d then (Inl (DbError FailedToAcquireTransaction), d)
      else case sum_bind (sqlx (pg_functions E d)) (\<lambda>functions.
          run_or E (\<lambda>err. SetupFailed (lit ''removing postgres sync artifacts'') (pg_show E err))
            (Raw (remove_setup_sql functions)) d) of
          Inl e \<Rightarrow> (Inl e, d)
        | Inr d' \<Rightarrow> if pg_commit E d' then (Inr (), d') else (Inl (DbError FailedToCommitTransaction), d))"

end
