(* ===== verification/Builder_Names.thy ===== *)
theory Builder_Names
  imports Builder_Correct Sqlite_Text
begin

unbundle bit_operations_syntax

text \<open>
  What the catalog rows say and what the schema says: the strings of the rows, followed through
  the interner and the builder to the names a schema answers.
\<close>

section \<open>The contract of interning\<close>

text \<open>
  A state that interns strings: a symbol reads as the string it was returned for, keeps doing so,
  and no string has two symbols.
\<close>

locale naming =
  fixes ok :: "'s \<Rightarrow> bool"
    and put :: "'s \<Rightarrow> str \<Rightarrow> (symbol \<times> 's) res"
    and reads :: "'s \<Rightarrow> symbol \<Rightarrow> str option"
    and accepts :: "str \<Rightarrow> bool"
  assumes put_ok: "ok s \<Longrightarrow> accepts v \<Longrightarrow> put s v = Inr (y, s') \<Longrightarrow> ok s'"
    and put_reads: "ok s \<Longrightarrow> accepts v \<Longrightarrow> put s v = Inr (y, s') \<Longrightarrow> reads s' y = Some v"
    and put_keeps: "ok s \<Longrightarrow> accepts v \<Longrightarrow> put s v = Inr (y, s') \<Longrightarrow> reads s z = Some w \<Longrightarrow> reads s' z = Some w"
    and reads_inj: "ok s \<Longrightarrow> reads s y = Some v \<Longrightarrow> reads s z = Some v \<Longrightarrow> y = z"
begin

definition later :: "'s \<Rightarrow> 's \<Rightarrow> bool" where
  "later s s' \<longleftrightarrow> ok s' \<and> (\<forall>z w. reads s z = Some w \<longrightarrow> reads s' z = Some w)"

lemma later_refl: "ok s \<Longrightarrow> later s s"
  by (simp add: later_def)

lemma later_ok: "later s s' \<Longrightarrow> ok s'"
  by (simp add: later_def)

lemma later_trans: "later s s' \<Longrightarrow> later s' s'' \<Longrightarrow> later s s''"
  by (simp add: later_def)

lemma later_put: "ok s \<Longrightarrow> accepts v \<Longrightarrow> put s v = Inr (y, s') \<Longrightarrow> later s s' \<and> reads s' y = Some v"
  using put_ok put_reads put_keeps by (simp add: later_def)

lemma later_reads: "later s s' \<Longrightarrow> reads s y = Some v \<Longrightarrow> reads s' y = Some v"
  by (simp add: later_def)

lemma later_map: "later s s' \<Longrightarrow> map (reads s) ys = map Some vs \<Longrightarrow> map (reads s') ys = map Some vs"
  by (induction ys arbitrary: vs) (auto simp: later_def Cons_eq_map_conv)

end

text \<open>
  The builder as such a state.  \<open>W\<close> is the set of strings the rows contain; no two of them
  may be confused by the thread-local cache (\<open>Interner_Cache\<close> shows what happens otherwise).
\<close>

definition distinguishable :: "'t deps \<Rightarrow> str set \<Rightarrow> bool" where
  "distinguishable D W \<longleftrightarrow> (\<forall>w \<in> W. \<forall>v \<in> W. 8 < length w \<and> length w = length v \<and> prefix8 w = prefix8 v \<and>
     (ucast (hash_of D w) :: u32) = ucast (hash_of D v) \<longrightarrow> w = v)"

definition interning :: "'t deps \<Rightarrow> str set \<Rightarrow> 't schema_builder \<Rightarrow> bool" where
  "interning D W B \<longleftrightarrow> hashbrown_ok D \<and> distinguishable D W \<and>
     (\<exists>sss. interner_rep D (sb_interner B) sss \<and> cache_ok D (sb_interner B) sss (sb_cache B) \<and>
        (\<forall>ss \<in> set sss. set ss \<subseteq> W))"

definition reads_as :: "'t schema_builder \<Rightarrow> symbol \<Rightarrow> str option" where
  "reads_as B y = ok_opt (resolve (sb_interner B) y)"

lemma add_string_subset:
  "\<forall>ss \<in> set sss. set ss \<subseteq> W \<Longrightarrow> v \<in> W \<Longrightarrow> \<forall>ss \<in> set (add_string sss sid v). set ss \<subseteq> W"
  using nth_mem [of sid sss]
  by (cases "sid < length sss")
    (force simp: add_string_def list_update_beyond dest!: set_update_subset_insert [THEN subsetD])+

lemma intern_reads:
  assumes B: "interning D W B" and v: "v \<in> W" "value_ok v" and run: "intern D B v = Inr (y, B')"
  shows "interning D W B'" "reads_as B' y = Some v" "reads_as B z = Some w \<Longrightarrow> reads_as B' z = Some w"
proof -
  obtain sss where s: "hashbrown_ok D" "distinguishable D W" "interner_rep D (sb_interner B) sss"
      "cache_ok D (sb_interner B) sss (sb_cache B)" "\<forall>ss \<in> set sss. set ss \<subseteq> W"
    using B by (auto simp: interning_def)
  obtain I c where g: "get_or_intern D (sb_interner B) (sb_cache B) v = (Inr y, I, c)"
      "B' = B\<lparr>sb_interner := I, sb_cache := c\<rparr>"
    using run by (auto simp: intern_def split: prod.splits sum.splits)
  have "no_cache_alias D sss v"
    using s(2,5) v(1) unfolding no_cache_alias_def distinguishable_def by blast
  then obtain sss' where t: "interner_rep D I sss'" "cache_ok D I sss' c" "abs_get D sss' v = Some y"
      "sss' = sss \<or> sss' = add_string sss (home D (length sss) v) v"
    using get_or_intern_Inr [OF s(1,3,4) _ v(2) g(1)] by blast
  have "\<forall>ss \<in> set sss'. set ss \<subseteq> W" using t(4) s(5) add_string_subset v(1) by blast
  then show "interning D W B'" using s(1,2) t(1,2) g(2) by (auto simp: interning_def)
  have r: "reads_as B' y = abs_resolve sss' y" "reads_as B y = abs_resolve sss y" for y
    using resolve_rep [OF t(1)] resolve_rep [OF s(3)] g(2) by (simp_all add: reads_as_def ok_opt_def)
  show "reads_as B' y = Some v" using abs_resolve_get [OF t(1,3)] by (simp add: r)
  show "reads_as B' z = Some w" if "reads_as B z = Some w"
    using that t(4) abs_resolve_grow unfolding r by metis
qed

lemma reads_as_inj:
  assumes "interning D W B" "reads_as B y = Some v" "reads_as B z = Some v"
  shows "y = z"
proof -
  have "interner_inv (D, sb_interner B)" using assms(1) by (auto simp: interning_def interner_inv_def)
  from tbl.res_inj [OF this, of y v z] assms(2,3) show ?thesis by (simp add: reads_as_def interner_resolve_def)
qed

interpretation names: naming "interning D W" "intern D" reads_as "\<lambda>v. v \<in> W \<and> value_ok v" for D W
proof
  show "interning D W B'" "reads_as B' y = Some v" if "interning D W B" "v \<in> W \<and> value_ok v" "intern D B v = Inr (y, B')"
    for B v y B'
    using intern_reads(1,2) [OF that(1) _ _ that(3)] that(2) by simp_all
  show "reads_as B' z = Some w" if "interning D W B" "v \<in> W \<and> value_ok v" "intern D B v = Inr (y, B')"
      "reads_as B z = Some w" for B v y B' z w
    using intern_reads(3) [OF that(1) _ _ that(3,4)] that(2) by simp
qed (rule reads_as_inj)

section \<open>Columns\<close>

definition type_reads :: "(symbol \<Rightarrow> str option) \<Rightarrow> value_type \<Rightarrow> str \<Rightarrow> bool" where
  "type_reads f t s \<longleftrightarrow> (case builtin_type s of Some u \<Rightarrow> t = u | None \<Rightarrow> \<exists>y. t = VCustom y \<and> f y = Some s)"

text \<open>A column says what a row says, when symbols are read with \<open>f\<close>.\<close>

definition column_reads :: "(symbol \<Rightarrow> str option) \<Rightarrow> symbol list \<Rightarrow> column \<Rightarrow> raw_row \<Rightarrow> bool" where
  "column_reads f pool c r \<longleftrightarrow>
     f (col_name c) = Some (rr_column_name r) \<and> type_reads f (col_data_type c) (rr_data_type r) \<and>
     is_nullable c = rr_nullable r \<and> is_primary_key c = rr_is_primary r \<and> is_unique c = rr_is_unique r \<and>
     rel_option (\<lambda>y d. f y = Some d) (col_default_value c) (rr_default_expr r) \<and>
     map f (sub_slice pool (unat (pr_start (col_constraints c))) (unat (pr_len (col_constraints c)))) =
       map Some (rr_check_defs r @ rr_domain_checks r)"

definition row_strings :: "raw_row \<Rightarrow> str list" where
  "row_strings r = [rr_table_name r, rr_column_name r, rr_data_type r] @ rr_check_defs r @ rr_domain_checks r @
     (case rr_default_expr r of None \<Rightarrow> [] | Some d \<Rightarrow> [d]) @
     concat (map (\<lambda>fk. [rf_constraint_name fk, rf_namespace fk, rf_referenced_table fk, rf_referenced_column fk])
       (rr_foreign_keys r))"

lemma flags_read:
  assumes "col_flags c = flags_set (flags_set (flags_set 0 NULLABLE n) PRIMARY_KEY p) UNIQUE u"
  shows "is_nullable c = n" "is_primary_key c = p" "is_unique c = u"
  using assms
  by (cases n; cases p; cases u; simp add: is_nullable_def is_primary_key_def is_unique_def flags_set_def flags_with_def
      flags_contains_def NULLABLE_def PRIMARY_KEY_def UNIQUE_def)+

lemma interning_state:
  assumes "sb_interner B' = sb_interner B" "sb_cache B' = sb_cache B"
  shows "interning D W B' = interning D W B" "reads_as B' = reads_as B"
  using assms by (simp_all add: interning_def reads_as_def [abs_def])

lemma add_check_reads:
  assumes "interning D W B" "v \<in> W" "value_ok v" "add_check D v B = Inr B'"
  shows "names.later D W B B' \<and> (\<exists>y. sb_constraint_pool B' = sb_constraint_pool B @ [y] \<and> reads_as B' y = Some v)"
proof -
  obtain y B1 where B1: "intern D B v = Inr (y, B1)" "B' = B1\<lparr>sb_constraint_pool := sb_constraint_pool B1 @ [y]\<rparr>"
    using assms(4) by (auto simp: add_check_def sum_bind_Inr)
  have st: "interning D W B' = interning D W B1" "reads_as B' = reads_as B1"
    using interning_state [of B' B1] B1(2) by simp_all
  show ?thesis
    using names.later_put [OF assms(1) _ B1(1)] assms(2,3) B1(2) same_data_fields(4) [OF intern_same [OF B1(1)]]
    unfolding names.later_def st by simp
qed

lemma add_checks_reads:
  "interning D W B \<Longrightarrow> \<forall>v \<in> set vs. v \<in> W \<and> value_ok v \<Longrightarrow> fold_res (add_check D) vs B = Inr B' \<Longrightarrow>
   names.later D W B B' \<and> (\<exists>ys. sb_constraint_pool B' = sb_constraint_pool B @ ys \<and> map (reads_as B') ys = map Some vs)"
proof (induction vs arbitrary: B)
  case Nil
  then show ?case by (simp add: names.later_refl)
next
  case (Cons v vs)
  obtain B1 where B1: "add_check D v B = Inr B1" "fold_res (add_check D) vs B1 = Inr B'"
    using Cons.prems(3) by (auto simp: sum_bind_Inr)
  obtain y where y: "names.later D W B B1" "sb_constraint_pool B1 = sb_constraint_pool B @ [y]" "reads_as B1 y = Some v"
    using add_check_reads [OF Cons.prems(1) _ _ B1(1)] Cons.prems(2) by auto
  have "interning D W B1" using y(1) by (simp add: names.later_def)
  then obtain ys where ys: "names.later D W B1 B'" "sb_constraint_pool B' = sb_constraint_pool B1 @ ys"
      "map (reads_as B') ys = map Some vs"
    using Cons.IH [OF _ _ B1(2)] Cons.prems(2) by auto
  have "sb_constraint_pool B' = sb_constraint_pool B @ y # ys" "map (reads_as B') (y # ys) = map Some (v # vs)"
    using y ys names.later_reads [OF ys(1) y(3)] by simp_all
  then show ?case using names.later_trans [OF y(1) ys(1)] by blast
qed

text \<open>
  A key of the pool and its unresolved entry say what a foreign key of a row says; \<open>n\<close> is
  the table the key belongs to.
\<close>

definition key_reads :: "(symbol \<Rightarrow> str option) \<Rightarrow> foreign_key \<Rightarrow> raw_foreign_key \<Rightarrow> bool" where
  "key_reads f k fk \<longleftrightarrow>
     f (fk_constraint_name k) = Some (rf_constraint_name fk) \<and> f (fk_namespace k) = Some (rf_namespace fk) \<and>
     fk_on_update k = rf_on_update fk \<and> fk_on_delete k = rf_on_delete fk"

definition target_reads :: "(symbol \<Rightarrow> str option) \<Rightarrow> unresolved_fk \<Rightarrow> raw_foreign_key \<Rightarrow> bool" where
  "target_reads f u fk \<longleftrightarrow>
     f (uf_ref_table_sym u) = Some (rf_referenced_table fk) \<and> f (uf_ref_column_sym u) = Some (rf_referenced_column fk)"

definition keys_read ::
  "(symbol \<Rightarrow> str option) \<Rightarrow> nat \<Rightarrow> foreign_key list \<Rightarrow> unresolved_fk list \<Rightarrow> raw_foreign_key list \<Rightarrow> bool" where
  "keys_read f n ks us fks \<longleftrightarrow> list_all2 (key_reads f) ks fks \<and> list_all2 (target_reads f) us fks \<and>
     (\<forall>u \<in> set us. uf_source_table_idx u = n)"

lemma keys_read_later:
  assumes "\<And>y v. f y = Some v \<Longrightarrow> g y = Some v"
  shows "key_reads f k fk \<Longrightarrow> key_reads g k fk" "target_reads f u fk \<Longrightarrow> target_reads g u fk"
    "keys_read f n ks us fks \<Longrightarrow> keys_read g n ks us fks"
proof -
  show *: "key_reads f k fk \<Longrightarrow> key_reads g k fk" "target_reads f u fk \<Longrightarrow> target_reads g u fk" for k u fk
    using assms by (simp_all add: key_reads_def target_reads_def)
  show "keys_read f n ks us fks \<Longrightarrow> keys_read g n ks us fks"
    using * unfolding keys_read_def by (blast intro: list_all2_mono)
qed

abbreviation fk_strings :: "raw_foreign_key \<Rightarrow> str list" where
  "fk_strings fk \<equiv> [rf_constraint_name fk, rf_namespace fk, rf_referenced_table fk, rf_referenced_column fk]"

lemma add_fk_reads:
  assumes B: "interning D W B" and run: "add_fk D fk B = Inr B'" and strs: "\<forall>v \<in> set (fk_strings fk). v \<in> W \<and> value_ok v"
  shows "names.later D W B B' \<and> sb_tables B' = sb_tables B \<and>
    (\<exists>k u. sb_foreign_key_pool B' = sb_foreign_key_pool B @ [k] \<and> sb_unresolved B' = sb_unresolved B @ [u] \<and>
       keys_read (reads_as B') (length (sb_tables B)) [k] [u] [fk])"
proof -
  obtain y1 B1 y2 B2 y3 B3 y4 B4 where s: "intern D B (rf_constraint_name fk) = Inr (y1, B1)"
      "intern D B1 (rf_namespace fk) = Inr (y2, B2)" "intern D B2 (rf_referenced_table fk) = Inr (y3, B3)"
      "intern D B3 (rf_referenced_column fk) = Inr (y4, B4)"
    and B': "B' = B4\<lparr>sb_foreign_key_pool := sb_foreign_key_pool B4 @
         [\<lparr>fk_constraint_name = y1, fk_namespace = y2, fk_table = 0, fk_column = 0,
           fk_on_update = rf_on_update fk, fk_on_delete = rf_on_delete fk\<rparr>],
       sb_unresolved := sb_unresolved B4 @
         [\<lparr>uf_pool_index = n_fks B4, uf_source_table_idx = length (sb_tables B4),
           uf_ref_table_sym = y3, uf_ref_column_sym = y4\<rparr>]\<rparr>"
    using run by (auto simp: add_fk_def sum_bind_Inr)
  have l1: "names.later D W B B1" "reads_as B1 y1 = Some (rf_constraint_name fk)"
    using names.later_put [OF B _ s(1)] strs by simp_all
  have l2: "names.later D W B1 B2" "reads_as B2 y2 = Some (rf_namespace fk)"
    using names.later_put [OF names.later_ok [OF l1(1)] _ s(2)] strs by simp_all
  have l3: "names.later D W B2 B3" "reads_as B3 y3 = Some (rf_referenced_table fk)"
    using names.later_put [OF names.later_ok [OF l2(1)] _ s(3)] strs by simp_all
  have l4: "names.later D W B3 B4" "reads_as B4 y4 = Some (rf_referenced_column fk)"
    using names.later_put [OF names.later_ok [OF l3(1)] _ s(4)] strs by simp_all
  have same: "interning D W B' = interning D W B4" "reads_as B' = reads_as B4"
    using interning_state [of B' B4] B' by simp_all
  have "reads_as B4 y1 = Some (rf_constraint_name fk)" "reads_as B4 y2 = Some (rf_namespace fk)"
      "reads_as B4 y3 = Some (rf_referenced_table fk)"
    using l1 l2 l3 l4 by (simp_all add: names.later_def)
  then have "keys_read (reads_as B') (length (sb_tables B4)) [last (sb_foreign_key_pool B')] [last (sb_unresolved B')] [fk]"
    using l4(2) unfolding same by (simp add: B' keys_read_def key_reads_def target_reads_def)
  moreover have "names.later D W B B'" using l1 l2 l3 l4 same by (simp add: names.later_def)
  moreover have "sb_tables B4 = sb_tables B" "sb_foreign_key_pool B4 = sb_foreign_key_pool B" "sb_unresolved B4 = sb_unresolved B"
    using s [THEN intern_same] by (simp_all add: same_data_fields(1,3,9))
  ultimately show ?thesis by (simp add: B')
qed

lemma add_fks_reads:
  "interning D W B \<Longrightarrow> \<forall>fk \<in> set fks. \<forall>v \<in> set (fk_strings fk). v \<in> W \<and> value_ok v \<Longrightarrow>
   fold_res (add_fk D) fks B = Inr B' \<Longrightarrow>
   names.later D W B B' \<and> (\<exists>ks us. sb_foreign_key_pool B' = sb_foreign_key_pool B @ ks \<and>
     sb_unresolved B' = sb_unresolved B @ us \<and> keys_read (reads_as B') (length (sb_tables B)) ks us fks)"
proof (induction fks arbitrary: B)
  case Nil
  then show ?case by (simp add: names.later_refl keys_read_def)
next
  case (Cons fk fks)
  obtain B1 where B1: "add_fk D fk B = Inr B1" "fold_res (add_fk D) fks B1 = Inr B'"
    using Cons.prems(3) by (auto simp: sum_bind_Inr)
  obtain k u where k: "names.later D W B B1" "sb_tables B1 = sb_tables B" "sb_foreign_key_pool B1 = sb_foreign_key_pool B @ [k]"
      "sb_unresolved B1 = sb_unresolved B @ [u]" "keys_read (reads_as B1) (length (sb_tables B)) [k] [u] [fk]"
    using add_fk_reads [OF Cons.prems(1) B1(1)] Cons.prems(2) by auto
  obtain ks us where ks: "names.later D W B1 B'" "sb_foreign_key_pool B' = sb_foreign_key_pool B1 @ ks"
      "sb_unresolved B' = sb_unresolved B1 @ us" "keys_read (reads_as B') (length (sb_tables B1)) ks us fks"
    using Cons.IH [OF names.later_ok [OF k(1)] _ B1(2)] Cons.prems(2) by auto
  have "keys_read (reads_as B') (length (sb_tables B)) [k] [u] [fk]"
    using keys_read_later(3) [OF names.later_reads [OF ks(1)] k(5)] .
  then have "keys_read (reads_as B') (length (sb_tables B)) (k # ks) (u # us) (fk # fks)"
    using ks(4) k(2) by (simp add: keys_read_def)
  then show ?case using k ks names.later_trans [OF k(1) ks(1)] by auto
qed

section \<open>One row\<close>

lemma switch_table_same:
  assumes "same_data B B'"
  shows "same_data (switch_table B y) (switch_table B' y)"
proof -
  obtain I c where B': "B' = B\<lparr>sb_interner := I, sb_cache := c\<rparr>" using assms by (auto simp: same_data_def)
  have "switch_table B' y = (switch_table B y)\<lparr>sb_interner := I, sb_cache := c\<rparr>"
    by (simp add: B' switch_table_def finish_table_def split: option.splits)
  then show ?thesis unfolding same_data_def by blast
qed

lemma same_data_trans: "same_data B B' \<Longrightarrow> same_data B' B'' \<Longrightarrow> same_data B B''"
  unfolding same_data_def by (elim exE) (intro exI, simp)

lemma switch_table_state:
  "sb_interner (switch_table B y) = sb_interner B" "sb_cache (switch_table B y) = sb_cache B"
  "sb_current_table (switch_table B y) = Some y"
  by (auto simp: switch_table_def finish_table_def split: option.splits)

lemma type_of_row:
  assumes B: "interning D W B" "rr_data_type r \<in> W" "value_ok (rr_data_type r)"
    and run: "(case builtin_type (rr_data_type r) of Some t \<Rightarrow> Inr (t, B)
       | None \<Rightarrow> sum_bind (intern D B (rr_data_type r)) (\<lambda>(y, B). Inr (VCustom y, B))) = Inr (t, B')"
  shows "names.later D W B B'" "type_reads (reads_as B') t (rr_data_type r)" "same_data B B'"
proof -
  have "names.later D W B B' \<and> type_reads (reads_as B') t (rr_data_type r) \<and> same_data B B'"
  proof (cases "builtin_type (rr_data_type r)")
    case None
    then obtain y where y: "intern D B (rr_data_type r) = Inr (y, B')" "t = VCustom y" using run by (auto simp: sum_bind_Inr)
    then show ?thesis
      using None names.later_put [OF B(1) _ y(1)] B intern_same [OF y(1)] by (simp add: type_reads_def)
  next
    case (Some u)
    have "same_data B B" unfolding same_data_def by (intro exI [of _ "sb_interner B"] exI [of _ "sb_cache B"]) simp
    then show ?thesis using Some run names.later_refl [OF B(1)] by (simp add: type_reads_def)
  qed
  then show "names.later D W B B'" "type_reads (reads_as B') t (rr_data_type r)" "same_data B B'" by blast+
qed

lemma default_of_row:
  assumes B: "interning D W B" "\<forall>d. rr_default_expr r = Some d \<longrightarrow> d \<in> W \<and> value_ok d"
    and run: "(case rr_default_expr r of None \<Rightarrow> Inr (None, B)
       | Some d \<Rightarrow> sum_bind (intern D B d) (\<lambda>(y, B). Inr (Some y, B))) = Inr (v, B')"
  shows "names.later D W B B'" "rel_option (\<lambda>y d. reads_as B' y = Some d) v (rr_default_expr r)" "same_data B B'"
proof -
  have "names.later D W B B' \<and> rel_option (\<lambda>y d. reads_as B' y = Some d) v (rr_default_expr r) \<and> same_data B B'"
  proof (cases "rr_default_expr r")
    case None
    have "same_data B B" unfolding same_data_def by (intro exI [of _ "sb_interner B"] exI [of _ "sb_cache B"]) simp
    then show ?thesis using None run names.later_refl [OF B(1)] by simp
  next
    case (Some d)
    then obtain y where y: "intern D B d = Inr (y, B')" "v = Some y" using run by (auto simp: sum_bind_Inr)
    then show ?thesis using Some names.later_put [OF B(1) _ y(1)] B(2) intern_same [OF y(1)] by simp
  qed
  then show "names.later D W B B'" "rel_option (\<lambda>y d. reads_as B' y = Some d) v (rr_default_expr r)" "same_data B B'"
    by blast+
qed

lemma add_fks_pool: "fold_res (add_fk D) fks B = Inr B' \<Longrightarrow> sb_constraint_pool B' = sb_constraint_pool B"
proof (induction fks arbitrary: B)
  case (Cons fk fks)
  then obtain B1 where "add_fk D fk B = Inr B1" "fold_res (add_fk D) fks B1 = Inr B'" by (auto simp: sum_bind_Inr)
  then show ?case using Cons.IH add_fk_eq by fastforce
qed simp

lemma add_checks_keys:
  "fold_res (add_check D) vs B = Inr B' \<Longrightarrow>
     sb_foreign_key_pool B' = sb_foreign_key_pool B \<and> sb_unresolved B' = sb_unresolved B"
proof (induction vs arbitrary: B)
  case (Cons v vs)
  then obtain B1 where "add_check D v B = Inr B1" "fold_res (add_check D) vs B1 = Inr B'" by (auto simp: sum_bind_Inr)
  then show ?case using Cons.IH add_check_eq by fastforce
qed simp

lemma type_reads_later:
  "names.later D W B B' \<Longrightarrow> type_reads (reads_as B) t s \<Longrightarrow> type_reads (reads_as B') t s"
  using names.later_reads by (fastforce simp: type_reads_def split: option.splits)

lemma row_column_reads:
  assumes "f cy = Some (rr_column_name r)" "type_reads f t (rr_data_type r)"
    "rel_option (\<lambda>y d. f y = Some d) v (rr_default_expr r)" "map f ys = map Some (rr_check_defs r @ rr_domain_checks r)"
    "sb_constraint_pool B5 = sb_constraint_pool B3 @ ys" "n_checks B5 < 2 ^ 16"
  shows "column_reads f (sb_constraint_pool B5) (row_column r cy t v B3 B5 B6) r"
proof -
  let ?c = "row_column r cy t v B3 B5 B6"
  have lens: "unat (pr_start (col_constraints ?c)) = n_checks B3" "unat (pr_len (col_constraints ?c)) = length ys"
    using assms(5,6) unat_u32_of [of "n_checks B3"] unat_len16 [of "n_checks B5" "word_of_nat (n_checks B3)"]
    by (simp_all add: row_column_def)
  have "col_flags ?c = flags_set (flags_set (flags_set 0 NULLABLE (rr_nullable r)) PRIMARY_KEY (rr_is_primary r))
      UNIQUE (rr_is_unique r)" by (simp add: row_column_def)
  note flags = flags_read [OF this]
  have "sub_slice (sb_constraint_pool B5) (n_checks B3) (length ys) = ys" using assms(5) by (simp add: sub_slice_def)
  then show ?thesis using assms(1-4) by (simp add: column_reads_def flags lens) (simp add: row_column_def)
qed

text \<open>The strings of a row along the steps of \<open>add_row\<close>, read in the last of them.\<close>

lemma add_row_chain:
  assumes row: "add_row D r B0 = Inr B'" and B0: "interning D W B0"
    and strs: "\<forall>v \<in> set (row_strings r). v \<in> W \<and> value_ok v"
  obtains y cy t v ys ks us B3 B5 B6 B8 where
    "names.later D W B0 B8" "reads_as B8 y = Some (rr_table_name r)" "reads_as B8 cy = Some (rr_column_name r)"
    "type_reads (reads_as B8) t (rr_data_type r)" "rel_option (\<lambda>y d. reads_as B8 y = Some d) v (rr_default_expr r)"
    "map (reads_as B8) ys = map Some (rr_check_defs r @ rr_domain_checks r)"
    "keys_read (reads_as B8) (length (sb_tables B8)) ks us (rr_foreign_keys r)"
    "same_data (switch_table B0 y) B3"
    "frame (B3\<lparr>sb_pk := sb_pk B8\<rparr>) B8" "sb_constraint_pool B5 = sb_constraint_pool B3 @ ys"
    "sb_constraint_pool B8 = sb_constraint_pool B5" "sb_foreign_key_pool B5 = sb_foreign_key_pool B3"
    "sb_foreign_key_pool B6 = sb_foreign_key_pool B5 @ ks" "sb_foreign_key_pool B8 = sb_foreign_key_pool B6"
    "sb_unresolved B8 = sb_unresolved B3 @ us"
    "B' = B8\<lparr>sb_columns := sb_columns B8 @ [row_column r cy t v B3 B5 B6],
       sb_column_names := sb_column_names B8 @ [cy]\<rparr>"
proof -
  let ?b4 = "\<lambda>B. if rr_is_primary r then B\<lparr>sb_pk := Some (word_of_nat (n_cols B - unat (sb_cols_start B)))\<rparr> else B"
  let ?checks = "rr_check_defs r @ rr_domain_checks r"
  obtain y cy t v B1 B3 B5 B6 B7 B8 where s1: "intern D B0 (rr_table_name r) = Inr (y, B1)"
    and s3: "intern D (switch_table B1 y) (rr_column_name r) = Inr (cy, B3)"
    and s5: "fold_res (add_check D) ?checks (?b4 B3) = Inr B5" and s6: "fold_res (add_fk D) (rr_foreign_keys r) B5 = Inr B6"
    and s7: "(case builtin_type (rr_data_type r) of Some t \<Rightarrow> Inr (t, B6)
        | None \<Rightarrow> sum_bind (intern D B6 (rr_data_type r)) (\<lambda>(y, B). Inr (VCustom y, B))) = Inr (t, B7)"
    and s8: "(case rr_default_expr r of None \<Rightarrow> Inr (None, B7)
        | Some d \<Rightarrow> sum_bind (intern D B7 d) (\<lambda>(y, B). Inr (Some y, B))) = Inr (v, B8)"
    and B': "B' = B8\<lparr>sb_columns := sb_columns B8 @ [row_column r cy t v B3 B5 B6],
       sb_column_names := sb_column_names B8 @ [cy]\<rparr>"
    by (rule add_row_steps [OF row])
  let ?B2 = "switch_table B1 y"
  note in_row = strs [unfolded row_strings_def]
  have p1: "names.later D W B0 B1" "reads_as B1 y = Some (rr_table_name r)"
    using names.later_put [OF B0 _ s1] in_row by simp_all
  have st2: "interning D W ?B2 = interning D W B1" "reads_as ?B2 = reads_as B1"
    using interning_state [of ?B2 B1] by (simp_all add: switch_table_state)
  have p3: "names.later D W ?B2 B3" "reads_as B3 cy = Some (rr_column_name r)"
    using names.later_put [where W = W, OF _ _ s3] names.later_ok [OF p1(1)] in_row by (simp_all add: st2)
  have st4: "interning D W (?b4 B3) = interning D W B3" "reads_as (?b4 B3) = reads_as B3"
    using interning_state [of "?b4 B3" B3] by simp_all
  have b4: "sb_constraint_pool (?b4 B3) = sb_constraint_pool B3" "\<forall>v \<in> set ?checks. v \<in> W \<and> value_ok v"
      "sb_foreign_key_pool (?b4 B3) = sb_foreign_key_pool B3" "sb_unresolved (?b4 B3) = sb_unresolved B3"
    using in_row by auto
  obtain ys where p5: "names.later D W (?b4 B3) B5" "sb_constraint_pool B5 = sb_constraint_pool B3 @ ys"
      "map (reads_as B5) ys = map Some ?checks"
    using add_checks_reads [OF _ b4(2) s5] names.later_ok [OF p3(1)] unfolding st4 b4(1) by blast
  have "\<forall>fk \<in> set (rr_foreign_keys r). \<forall>v \<in> set (fk_strings fk). v \<in> W \<and> value_ok v" using in_row by fastforce
  then obtain ks us where p6: "names.later D W B5 B6" "sb_foreign_key_pool B6 = sb_foreign_key_pool B5 @ ks"
      "sb_unresolved B6 = sb_unresolved B5 @ us" "keys_read (reads_as B6) (length (sb_tables B5)) ks us (rr_foreign_keys r)"
    using add_fks_reads [OF names.later_ok [OF p5(1)] _ s6] by blast
  have "rr_data_type r \<in> W" "value_ok (rr_data_type r)" using in_row by simp_all
  note p7 = type_of_row [OF names.later_ok [OF p6(1)] this s7]
  have p8: "names.later D W B7 B8" "rel_option (\<lambda>y d. reads_as B8 y = Some d) v (rr_default_expr r)" "same_data B7 B8"
    using default_of_row [OF names.later_ok [OF p7(1)] _ s8] in_row by auto
  have l: "names.later D W B0 B8" "names.later D W B1 B8" "names.later D W B3 B8" "names.later D W B5 B8" "names.later D W B6 B8"
    using p1(1) p3(1) p5(1) p6(1) p7(1) p8(1) unfolding names.later_def st2 st4 by metis+
  note d7 = same_data_fields [OF p7(3)] and d8 = same_data_fields [OF p8(3)] and k5 = add_checks_keys [OF s5]
  have "frame (?b4 B3) B8"
    using add_checks_frame [OF s5] add_fks_frame [OF s6] same_frame [OF p7(3)] same_frame [OF p8(3)] frame_trans by blast
  then have fr: "frame (B3\<lparr>sb_pk := sb_pk B8\<rparr>) B8" by (auto simp: frame_def split: if_splits)
  have tabs: "sb_tables B5 = sb_tables B8"
    using add_fks_frame [OF s6] d7 d8 by (simp add: frame_def)
  have same: "same_data (switch_table B0 y) B3"
    using intern_same [OF s3] switch_table_same [OF intern_same [OF s1], of y] by (rule same_data_trans [rotated])
  show thesis
    using names.later_reads [OF l(2) p1(2)] names.later_reads [OF l(3) p3(2)] type_reads_later [OF p8(1) p7(2)] p8(2)
      names.later_map [OF l(4) p5(3)] keys_read_later(3) [OF names.later_reads [OF l(5)] p6(4)] p5(2) p6(2,3)
      add_fks_pool [OF s6] d7 d8 k5 b4 tabs
    by (intro that [OF l(1) _ _ _ _ _ _ same fr _ _ _ _ _ _ B']) simp_all
qed

text \<open>A row adds one column, its checks and its keys, and they say what the row says.\<close>

lemma add_row_reads:
  assumes row: "add_row D r B0 = Inr B'" and B0: "interning D W B0" and small: "builder_small B'"
    and strs: "\<forall>v \<in> set (row_strings r). v \<in> W \<and> value_ok v"
  shows "\<exists>y c ys ks us. names.later D W B0 B' \<and> reads_as B' y = Some (rr_table_name r) \<and>
    sb_columns B' = sb_columns B0 @ [c] \<and> column_reads (reads_as B') (sb_constraint_pool B') c r \<and>
    sb_constraint_pool B' = sb_constraint_pool B0 @ ys \<and> sb_tables B' = sb_tables (switch_table B0 y) \<and>
    sb_current_table B' = Some y \<and> sb_cols_start B' = sb_cols_start (switch_table B0 y) \<and>
    sb_foreign_key_pool B' = sb_foreign_key_pool B0 @ ks \<and> sb_unresolved B' = sb_unresolved B0 @ us \<and>
    keys_read (reads_as B') (length (sb_tables B')) ks us (rr_foreign_keys r) \<and>
    unat (pr_start (col_foreign_keys c)) = n_fks B0 \<and> unat (pr_len (col_foreign_keys c)) = length ks"
proof -
  obtain y cy t v ys ks us B3 B5 B6 B8 where
    a: "names.later D W B0 B8" "reads_as B8 y = Some (rr_table_name r)" "reads_as B8 cy = Some (rr_column_name r)"
      "type_reads (reads_as B8) t (rr_data_type r)" "rel_option (\<lambda>y d. reads_as B8 y = Some d) v (rr_default_expr r)"
      "map (reads_as B8) ys = map Some (rr_check_defs r @ rr_domain_checks r)"
      "keys_read (reads_as B8) (length (sb_tables B8)) ks us (rr_foreign_keys r)"
    and same: "same_data (switch_table B0 y) B3" and fr: "frame (B3\<lparr>sb_pk := sb_pk B8\<rparr>) B8"
    and pools: "sb_constraint_pool B5 = sb_constraint_pool B3 @ ys" "sb_constraint_pool B8 = sb_constraint_pool B5"
      "sb_foreign_key_pool B5 = sb_foreign_key_pool B3" "sb_foreign_key_pool B6 = sb_foreign_key_pool B5 @ ks"
      "sb_foreign_key_pool B8 = sb_foreign_key_pool B6" "sb_unresolved B8 = sb_unresolved B3 @ us"
    and B': "B' = B8\<lparr>sb_columns := sb_columns B8 @ [row_column r cy t v B3 B5 B6],
       sb_column_names := sb_column_names B8 @ [cy]\<rparr>"
    by (rule add_row_chain [OF row B0 strs])
  let ?c = "row_column r cy t v B3 B5 B6"
  have small8: "n_checks B5 < 2 ^ 16" "n_fks B6 < 2 ^ 16" using small pools by (simp_all add: builder_small_def B')
  have col: "column_reads (reads_as B8) (sb_constraint_pool B8) ?c r"
    unfolding pools(2) using a(3-6) pools(1) small8(1) by (rule row_column_reads)
  have f3: "sb_columns B3 = sb_columns B0" "sb_foreign_key_pool B3 = sb_foreign_key_pool B0"
      "sb_constraint_pool B3 = sb_constraint_pool B0" "sb_unresolved B3 = sb_unresolved B0"
    using same_data_fields [OF same] by (simp_all add: switch_table_fields switch_table_def)
  have fr': "sb_columns B8 = sb_columns B3" "sb_tables B8 = sb_tables B3" "sb_cols_start B8 = sb_cols_start B3"
      "sb_current_table B8 = sb_current_table B3"
    using fr by (simp_all add: frame_def)
  have st8: "interning D W B' = interning D W B8" "reads_as B' = reads_as B8"
    using interning_state [of B' B8] B' by simp_all
  have keys: "unat (pr_start (col_foreign_keys ?c)) = n_fks B0" "unat (pr_len (col_foreign_keys ?c)) = length ks"
    using small8(2) pools(3,4) f3 unat_u32_of [of "n_fks B5"] unat_len16 [of "n_fks B6" "word_of_nat (n_fks B5)"]
    by (simp_all add: row_column_def)
  have "names.later D W B0 B'" using a(1) st8 by (simp add: names.later_def)
  then show ?thesis
    using a(2,7) col keys f3 fr' pools same_data_fields [OF same] unfolding st8
    by (intro exI [of _ y] exI [of _ ?c] exI [of _ ys] exI [of _ ks] exI [of _ us]) (simp add: B' switch_table_state(3))
qed

end
