(* ===== verification/Builder_Rows.thy ===== *)
theory Builder_Rows
  imports Builder_Names
begin

text \<open>
  From the rows of the catalog to the tables and columns of the schema: each table covers the rows
  of its name, and each column says what its row says.
\<close>

section \<open>Tables\<close>

text \<open>
  A table as a triple of its name, its first column and its number of columns.  The triples
  describe the sequence \<open>ts\<close> of the rows' table names.
\<close>

type_synonym segment = "symbol \<times> nat \<times> nat"

inductive segments_read :: "(symbol \<Rightarrow> str option) \<Rightarrow> segment list \<Rightarrow> str list \<Rightarrow> bool" for f where
  none: "segments_read f [] []"
| next_table: "segments_read f segs ts \<Longrightarrow> f y = Some t \<Longrightarrow> segs = [] \<or> fst (last segs) \<noteq> y \<Longrightarrow>
     segments_read f (segs @ [(y, length ts, Suc 0)]) (ts @ [t])"
| same_table: "segments_read f (segs @ [(y, s, n)]) ts \<Longrightarrow> f y = Some t \<Longrightarrow>
     segments_read f (segs @ [(y, s, Suc n)]) (ts @ [t])"

lemma segments_later:
  "segments_read f segs ts \<Longrightarrow> (\<And>y t. f y = Some t \<Longrightarrow> g y = Some t) \<Longrightarrow> segments_read g segs ts"
  by (induction rule: segments_read.induct) (simp_all add: segments_read.intros)

lemma segments_last:
  "segments_read f segs ts \<Longrightarrow> segs \<noteq> [] \<Longrightarrow>
     ts \<noteq> [] \<and> f (fst (last segs)) = Some (last ts) \<and> fst (snd (last segs)) + snd (snd (last segs)) = length ts"
  by (induction rule: segments_read.induct) auto

lemma segments_empty: "segments_read f segs ts \<Longrightarrow> segs = [] \<longleftrightarrow> ts = []"
  by (induction rule: segments_read.induct) auto

text \<open>Each triple covers rows of its name, and every row is covered.\<close>

lemma segments_cover:
  "segments_read f segs ts \<Longrightarrow>
     (\<forall>(y, s, n) \<in> set segs. 0 < n \<and> s + n \<le> length ts \<and> (\<forall>i. s \<le> i \<and> i < s + n \<longrightarrow> f y = Some (ts ! i))) \<and>
     (\<forall>i < length ts. \<exists>(y, s, n) \<in> set segs. s \<le> i \<and> i < s + n)"
proof (induction rule: segments_read.induct)
  case (next_table segs ts y t)
  then show ?case by (fastforce simp: nth_append less_Suc_eq)
next
  case (same_table segs y s n ts t)
  have "s + n = length ts" using segments_last [OF same_table(1)] by simp
  then show ?case using same_table by (fastforce simp: nth_append less_Suc_eq)
qed simp

text \<open>There is one triple for each run of equal names.\<close>

lemma segments_runs:
  assumes "segments_read f segs ts" and inj: "\<And>y z t. f y = Some t \<Longrightarrow> f z = Some t \<Longrightarrow> y = z"
  shows "map (\<lambda>x. f (fst x)) segs = map Some (remdups_adj ts)"
  using assms(1)
proof (induction rule: segments_read.induct)
  case (next_table segs ts y t)
  have "ts = [] \<or> last ts \<noteq> t"
    using next_table segments_last [OF next_table(1)] segments_empty [OF next_table(1)] inj [OF next_table(2)] by blast
  then show ?case using next_table by (simp add: remdups_adj_append')
next
  case (same_table segs y s n ts t)
  have "ts \<noteq> []" "last ts = t" using segments_last [OF same_table(1)] same_table(2) by simp_all
  then show ?case using same_table by (simp add: remdups_adj_append'')
qed simp

text \<open>The triples of a builder; the last one is the table in progress.\<close>

definition segments :: "'t schema_builder \<Rightarrow> segment list" where
  "segments B = map (\<lambda>m. (tm_name m, unat (tm_columns_start m), unat (tm_columns_len m))) (sb_tables B) @
     (case sb_current_table B of None \<Rightarrow> [] | Some y \<Rightarrow> [(y, unat (sb_cols_start B), n_cols B - unat (sb_cols_start B))])"

lemma segments_finish:
  assumes "builder_inv B" "builder_small B"
  shows "map (\<lambda>m. (tm_name m, unat (tm_columns_start m), unat (tm_columns_len m))) (sb_tables (finish_table B)) = segments B"
proof (cases "sb_current_table B")
  case (Some y)
  then have "unat (sb_cols_start B) \<le> n_cols B" using assms(1) by (simp add: builder_inv_def current_ok_def)
  then show ?thesis using Some assms(2) unat_len16 by (simp add: finish_table_def segments_def builder_small_def)
qed (simp add: finish_table_def segments_def)

lemma segments_switch:
  assumes inv: "builder_inv B" "builder_small B" and n: "n_cols B' = Suc (n_cols B)"
    and B': "sb_tables B' = sb_tables (switch_table B y)" "sb_current_table B' = Some y"
      "sb_cols_start B' = sb_cols_start (switch_table B y)"
  shows "segments B' = (case sb_current_table B of
     Some z \<Rightarrow> if z = y then butlast (segments B) @ [(y, unat (sb_cols_start B), Suc (n_cols B - unat (sb_cols_start B)))]
       else segments B @ [(y, n_cols B, Suc 0)]
   | None \<Rightarrow> segments B @ [(y, n_cols B, Suc 0)])"
proof (cases "sb_current_table B = Some y")
  case True
  then have "switch_table B y = B" "unat (sb_cols_start B) \<le> n_cols B"
    using inv(1) by (simp_all add: switch_table_def builder_inv_def current_ok_def)
  then show ?thesis using True B' n by (simp add: segments_def butlast_append Suc_diff_le)
next
  case False
  then have "sb_tables B' = sb_tables (finish_table B)" "unat (sb_cols_start B') = n_cols B"
    using B' inv(2) unat_u32_of by (simp_all add: switch_table_def builder_small_def)
  then have "segments B' = segments B @ [(y, n_cols B, Suc 0)]"
    using segments_finish [OF inv] B'(2) n by (simp add: segments_def [of B'])
  then show ?thesis using False by (auto split: option.splits)
qed

text \<open>The invariant: the builder says what the rows so far say.\<close>

definition rows_read :: "'t schema_builder \<Rightarrow> raw_row list \<Rightarrow> bool" where
  "rows_read B rs \<longleftrightarrow> segments_read (reads_as B) (segments B) (map rr_table_name rs) \<and>
     list_all2 (column_reads (reads_as B) (sb_constraint_pool B)) (sb_columns B) rs"

lemma rows_read_column:
  "rows_read B rs \<Longrightarrow> j < length rs \<Longrightarrow>
     column_reads (reads_as B) (sb_constraint_pool B) (sb_columns B ! j) (rs ! j)"
  by (auto simp: rows_read_def list_all2_conv_all_nth)

lemma column_reads_later:
  assumes "column_reads f pool c r" "\<And>y t. f y = Some t \<Longrightarrow> g y = Some t"
    "unat (pr_start (col_constraints c)) + unat (pr_len (col_constraints c)) \<le> length pool"
  shows "column_reads g (pool @ ys) c r"
proof -
  have slice: "sub_slice (pool @ ys) (unat (pr_start (col_constraints c))) (unat (pr_len (col_constraints c))) =
      sub_slice pool (unat (pr_start (col_constraints c))) (unat (pr_len (col_constraints c)))"
    using assms(3) by (simp add: sub_slice_def)
  have "map g zs = map Some vs" if "map f zs = map Some vs" for zs vs
    using that assms(2) by (induction zs arbitrary: vs) (auto simp: Cons_eq_map_conv)
  moreover have "rel_option (\<lambda>y d. g y = Some d) (col_default_value c) (rr_default_expr r)"
    using assms(1,2) by (auto simp: column_reads_def elim!: option.rel_mono_strong)
  moreover have "type_reads g (col_data_type c) (rr_data_type r)"
    using assms(1,2) by (auto simp: column_reads_def type_reads_def split: option.splits)
  ultimately show ?thesis using assms(1,2) slice unfolding column_reads_def by metis
qed

lemma rows_read_step:
  assumes row: "add_row D r B0 = Inr B'" and B0: "interning D W B0" "builder_inv B0" "rows_read B0 rs"
    and small: "builder_small B'" and strs: "\<forall>v \<in> set (row_strings r). v \<in> W \<and> value_ok v"
  shows "interning D W B' \<and> rows_read B' (rs @ [r])"
proof -
  obtain y c ys where p: "names.later D W B0 B'" "reads_as B' y = Some (rr_table_name r)"
      "sb_columns B' = sb_columns B0 @ [c]" "column_reads (reads_as B') (sb_constraint_pool B') c r"
      "sb_constraint_pool B' = sb_constraint_pool B0 @ ys" "sb_tables B' = sb_tables (switch_table B0 y)"
      "sb_current_table B' = Some y" "sb_cols_start B' = sb_cols_start (switch_table B0 y)"
    using add_row_reads [OF row B0(1) small strs] by blast
  have small0: "builder_small B0" using grows_small [OF add_row_grows [OF row] small] .
  have len: "length rs = n_cols B0" using B0(3) by (auto simp: rows_read_def dest: list_all2_lengthD)
  have old: "segments_read (reads_as B') (segments B0) (map rr_table_name rs)"
    using B0(3) names.later_reads [OF p(1)] by (auto simp: rows_read_def intro: segments_later)
  have n: "n_cols B' = Suc (n_cols B0)" using p(3) by simp
  note segs = segments_switch [OF B0(2) small0 n p(6,7,8)]
  have "segments_read (reads_as B') (segments B') (map rr_table_name rs @ [rr_table_name r])"
  proof (cases "sb_current_table B0 = Some y")
    case True
    then have "segments B0 = butlast (segments B0) @ [(y, unat (sb_cols_start B0), n_cols B0 - unat (sb_cols_start B0))]"
      by (simp add: segments_def butlast_append)
    then have "segments_read (reads_as B') (butlast (segments B0) @
        [(y, unat (sb_cols_start B0), n_cols B0 - unat (sb_cols_start B0))]) (map rr_table_name rs)"
      using old by simp
    from segments_read.same_table [of "reads_as B'", OF this p(2)] show ?thesis using segs True by simp
  next
    case False
    then have "segments B0 = [] \<or> fst (last (segments B0)) \<noteq> y"
      using B0(2) by (auto simp: segments_def builder_inv_def split: option.splits)
    then show ?thesis
      using segments_read.next_table [of "reads_as B'", OF old p(2)] segs False len by (auto split: option.splits)
  qed
  moreover have "list_all2 (column_reads (reads_as B') (sb_constraint_pool B')) (sb_columns B0) rs"
  proof (rule list.rel_mono_strong)
    show "list_all2 (column_reads (reads_as B0) (sb_constraint_pool B0)) (sb_columns B0) rs"
      using B0(3) by (simp add: rows_read_def)
    show "column_reads (reads_as B') (sb_constraint_pool B') d q"
      if "d \<in> set (sb_columns B0)" "column_reads (reads_as B0) (sb_constraint_pool B0) d q" for d q
    proof -
      have "unat (pr_start (col_constraints d)) + unat (pr_len (col_constraints d)) \<le> n_checks B0"
        using B0(2) that(1) by (simp add: builder_inv_def finished_ok_def col_range_ok_def)
      with that(2) names.later_reads [OF p(1)] show ?thesis unfolding p(5) by (rule column_reads_later)
    qed
  qed
  ultimately show ?thesis
    using p(3,4) names.later_ok [OF p(1)] by (simp add: rows_read_def list_all2_appendI)
qed

lemma rows_read_start:
  assumes "builder_with_capacity D next_id c tables_cap columns_cap = Inr B" "hashbrown_ok D" "distinguishable D W"
    "next_id \<noteq> 0" "\<forall>idx. ce_interner_id (c idx) \<noteq> next_id"
  shows "interning D W B" "rows_read B []"
proof -
  obtain I n where I: "with_capacity D next_id (columns_cap + tables_cap) = (Inr I, next_id + 1)"
      "interner_rep D I (replicate n [])" "interner_id I = next_id"
    using interner_rep_new [OF assms(2,4)] unfolding with_capacity_def by blast
  then have B: "B = \<lparr>sb_interner = I, sb_cache = c, sb_tables = [], sb_columns = [], sb_column_names = [],
          sb_constraint_pool = [], sb_foreign_key_pool = [], sb_current_table = None, sb_cols_start = 0,
          sb_fk_start = 0, sb_pk = None, sb_unresolved = []\<rparr>"
    using assms(1) by (simp add: builder_with_capacity_def)
  have "cache_ok D I (replicate n []) c" using assms(5) I(3) by (simp add: cache_ok_def)
  then show "interning D W B" using assms(2,3) I(2) by (auto simp: B interning_def)
  show "rows_read B []" by (simp add: B rows_read_def segments_def segments_read.none)
qed

section \<open>The schema\<close>

lemma filter_range:
  assumes "s + n \<le> length xs" "\<And>i. i < length xs \<Longrightarrow> P (xs ! i) \<longleftrightarrow> s \<le> i \<and> i < s + n"
  shows "filter P xs = sub_slice xs s n"
proof -
  have xs: "xs = take s xs @ sub_slice xs s n @ drop (s + n) xs"
    unfolding sub_slice_def by (metis append_take_drop_id drop_drop add.commute)
  have "filter P (take s xs) = []" "filter P (drop (s + n) xs) = []" "filter P (sub_slice xs s n) = sub_slice xs s n"
    using assms by (auto simp: filter_empty_conv filter_id_conv in_set_conv_nth sub_slice_def)
  then show ?thesis by (subst xs) simp
qed

lemma rows_runs:
  assumes "interning D W B" "rows_read B rs"
  shows "map (\<lambda>x. reads_as B (fst x)) (segments B) = map Some (remdups_adj (map rr_table_name rs))"
  using segments_runs [of "reads_as B" "segments B"] reads_as_inj [OF assms(1)] assms(2) by (simp add: rows_read_def)

text \<open>The names of a builder's tables are as different as the runs of table names in the rows.\<close>

lemma rows_table:
  assumes B: "interning D W B" "rows_read B rs" and d: "distinct (remdups_adj (map rr_table_name rs))"
    and seg: "(y, s, n) \<in> set (segments B)"
  shows "\<exists>t. reads_as B y = Some t \<and> s + n \<le> length rs \<and> t \<in> rr_table_name ` set rs \<and>
    filter (\<lambda>r. rr_table_name r = t) rs = sub_slice rs s n"
proof -
  let ?ts = "map rr_table_name rs"
  have read: "segments_read (reads_as B) (segments B) ?ts" using B(2) by (simp add: rows_read_def)
  note cover = segments_cover [OF read]
  have "distinct (map (\<lambda>x. reads_as B (fst x)) (segments B))" using rows_runs [OF B] d by (simp add: distinct_map)
  then have one: "a = b" if "a \<in> set (segments B)" "b \<in> set (segments B)" "reads_as B (fst a) = reads_as B (fst b)" for a b
    using that by (auto simp: distinct_map dest: inj_onD)
  have cov: "0 < n \<and> s + n \<le> length rs \<and> (\<forall>i. s \<le> i \<and> i < s + n \<longrightarrow> reads_as B y = Some (?ts ! i))"
    if "(y, s, n) \<in> set (segments B)" for y s n
    using bspec [OF conjunct1 [OF cover] that] by simp
  have c: "0 < n" "s + n \<le> length rs" "\<And>i. s \<le> i \<Longrightarrow> i < s + n \<Longrightarrow> reads_as B y = Some (?ts ! i)"
    using cov [OF seg] by simp_all
  define t where "t = ?ts ! s"
  have t: "reads_as B y = Some t" "t \<in> rr_table_name ` set rs" using c(3) [of s] c(1,2) by (simp_all add: t_def)
  have "rr_table_name (rs ! i) = t \<longleftrightarrow> s \<le> i \<and> i < s + n" if i: "i < length rs" for i
  proof
    assume name: "rr_table_name (rs ! i) = t"
    obtain y' s' n' where z: "(y', s', n') \<in> set (segments B)" "s' \<le> i" "i < s' + n'"
      using conjunct2 [OF cover] i by auto
    have "reads_as B y' = Some (?ts ! i)" using cov [OF z(1)] z(2,3) by blast
    then show "s \<le> i \<and> i < s + n" using one [OF z(1) seg] t(1) name i z(2,3) by simp
  next
    assume "s \<le> i \<and> i < s + n"
    then show "rr_table_name (rs ! i) = t" using c(3) [of i] t(1) i by simp
  qed
  then show ?thesis using t c(2) filter_range [OF c(2), of "\<lambda>r. rr_table_name r = t"] by blast
qed

lemma rows_names:
  assumes B: "interning D W B" "rows_read B rs" and d: "distinct (remdups_adj (map rr_table_name rs))"
  shows "distinct (map fst (segments B))" "(\<lambda>x. reads_as B (fst x)) ` set (segments B) = Some ` rr_table_name ` set rs"
proof -
  note runs = rows_runs [OF B]
  have "distinct (map (reads_as B) (map fst (segments B)))"
    using arg_cong [OF runs, of distinct] d by (simp add: distinct_map comp_def)
  then show "distinct (map fst (segments B))" by (auto simp: distinct_map intro: inj_on_imageI2)
  show "(\<lambda>x. reads_as B (fst x)) ` set (segments B) = Some ` rr_table_name ` set rs"
    using arg_cong [OF runs, of set] by (simp add: image_image)
qed

text \<open>A column of the schema says what the column of the builder said.\<close>

lemma column_reads_rel: "column_rel xs c c' \<Longrightarrow> column_reads f pool c' r = column_reads f pool c r"
proof -
  assume "column_rel xs c c'"
  then obtain k where "c' = c\<lparr>col_foreign_keys := k\<rparr>" unfolding column_rel_def by blast
  then show ?thesis by (simp add: column_reads_def is_nullable_def is_primary_key_def is_unique_def)
qed

abbreviation schema_reads :: "'t database_schema \<Rightarrow> symbol \<Rightarrow> str option" where
  "schema_reads S y \<equiv> ok_opt (resolve_symbol S y)"

lemma ready_of_rows:
  assumes "interning D W B" "rows_read B rs" "distinct (remdups_adj (map rr_table_name rs))" "builder_inv B" "builder_small B"
  shows "ready (finish_table B)"
proof -
  let ?T = "sb_tables (finish_table B)"
  have segs: "map (\<lambda>m. (tm_name m, unat (tm_columns_start m), unat (tm_columns_len m))) ?T = segments B"
    using segments_finish [OF assms(4,5)] .
  then have names: "map tm_name ?T = map fst (segments B)" by (auto simp: comp_def dest: arg_cong [of _ _ "map fst"])
  have "length (segments B) = length (remdups_adj (map rr_table_name rs))"
    using rows_runs [OF assms(1,2)] by (metis length_map)
  moreover have "length rs = n_cols B" using assms(2) by (auto simp: rows_read_def dest: list_all2_lengthD)
  ultimately have "length ?T < 2 ^ 16"
    using assms(5) arg_cong [OF segs, of length] remdups_adj_length [of "map rr_table_name rs"] by (simp add: builder_small_def)
  moreover have "builder_small (finish_table B)" using assms(5) by (simp add: builder_small_def)
  ultimately show ?thesis
    using finish_table_ok [OF assms(4,5)] rows_names(1) [OF assms(1-3)] names by (simp add: ready_def)
qed

lemma schema_column_reads:
  assumes B: "rows_read B rs" and S: "schema_of (finish_table B) order hash S" and i: "i < length rs"
  shows "column_reads (reads_as B) (ds_constraint_pool S) (ds_columns S ! i) (rs ! i)"
proof -
  have len: "n_cols B = length rs" using B by (auto simp: rows_read_def dest: list_all2_lengthD)
  have "column_rel (all_infos (finish_table B)) (sb_columns B ! i) (ds_columns S ! i)"
    using S i len by (auto simp: schema_of_def list_all2_conv_all_nth)
  moreover have "column_reads (reads_as B) (sb_constraint_pool B) (sb_columns B ! i) (rs ! i)"
    using B i len by (auto simp: rows_read_def list_all2_conv_all_nth)
  ultimately show ?thesis using column_reads_rel S by (simp add: schema_of_def)
qed

lemma schema_of_reads: "schema_of (finish_table B) order hash S \<Longrightarrow> schema_reads S = reads_as B"
  by (simp add: fun_eq_iff schema_of_def resolve_symbol_def reads_as_def)

lemma schema_of_rows:
  assumes B: "interning D W B" "rows_read B rs" and d: "distinct (remdups_adj (map rr_table_name rs))"
    and inv: "builder_inv B" "builder_small B"
    and S: "schema_of (finish_table B) order hash S" "order_ok (finish_table B) order" and t: "unat t < length (ds_tables S)"
  shows "reads_as B (tm_name (ds_tables S ! unat t)) = Some (t_name S t) \<and>
    (\<exists>s n. cols_of S t = [s..<s + n] \<and> s + n \<le> length rs \<and>
       filter (\<lambda>r. rr_table_name r = t_name S t) rs = sub_slice rs s n)"
proof -
  let ?F = "finish_table B" and ?m = "ds_tables S ! unat t"
  note st = schema_of_tables [OF S] and reads = schema_of_reads [OF S(1)]
  have k: "unat t < length (sb_tables ?F)" using t st(1) by simp
  define m where "m = sb_tables ?F ! (order ! unat t)"
  note rel = table_rel_fields [OF st(3) [OF k], folded m_def]
  have seg: "(tm_name m, unat (tm_columns_start m), unat (tm_columns_len m)) \<in> set (segments B)" (is "(?y, ?s, ?n) \<in> _")
    unfolding segments_finish [OF inv, symmetric] using st(4) [OF k] by (auto simp: m_def)
  obtain n where n: "reads_as B ?y = Some n" "?s + ?n \<le> length rs" "filter (\<lambda>r. rr_table_name r = n) rs = sub_slice rs ?s ?n"
    using rows_table [OF B d seg] by blast
  have name: "t_name S t = n"
    using n(1) rel(1) fun_cong [OF reads, of ?y] by (auto simp: t_name_def text_of_def ok_opt_def split: sum.splits option.splits)
  have cols: "cols_of S t = [?s..<?s + ?n]" by (simp add: cols_of_def rel)
  show ?thesis using rel(1) n name cols by auto
qed

lemma named_of_rows:
  assumes B: "interning D W B" "rows_read B rs" and S: "schema_of (finish_table B) order hash S" "schema_wf S"
    and names: "\<And>t. unat (t :: u16) < length (ds_tables S) \<Longrightarrow> reads_as B (tm_name (ds_tables S ! unat t)) \<noteq> None"
  shows "named S"
proof -
  obtain sss where "interner_rep D (sb_interner B) sss" using B(1) by (auto simp: interning_def)
  then have total: "\<exists>r. resolve_symbol S y = Inr r" for y
    using S(1) resolve_rep [of D "sb_interner B"] by (simp add: schema_of_def resolve_symbol_def)
  note reads = fun_cong [OF schema_of_reads [OF S(1)]]
  have some: "resolve_symbol S y \<noteq> Inr None" if "reads_as B y \<noteq> None" for y
    using that unfolding reads [symmetric] by (auto simp: ok_opt_def)
  have "reads_as B (tm_name m) \<noteq> None" if m: "m \<in> set (ds_tables S)" for m
  proof -
    obtain k where k: "k < length (ds_tables S)" "m = ds_tables S ! k"
      using m unfolding in_set_conv_nth by blast
    then have "unat (word_of_nat k :: u16) = k" using S(2) by (intro unat_word_of_nat_small) (simp add: schema_wf_def)
    then show ?thesis using names [of "word_of_nat k"] k by simp
  qed
  moreover have "reads_as B (col_name c) \<noteq> None" if c: "c \<in> set (ds_columns S)" for c
  proof -
    have len: "length (ds_columns S) = length rs"
      using B(2) S(1) by (auto simp: rows_read_def schema_of_def dest!: list_all2_lengthD)
    then obtain i where "i < length rs" "c = ds_columns S ! i"
      using c unfolding in_set_conv_nth by auto
    then show ?thesis using schema_column_reads [OF B(2) S(1)] by (auto simp: column_reads_def)
  qed
  ultimately show ?thesis using S(2) total some unfolding named_def by blast
qed

lemma schema_table_names:
  assumes "schema_wf S"
  shows "(\<lambda>t. tm_name (ds_tables S ! unat t)) ` set (tables S) = tm_name ` set (ds_tables S)"
proof -
  have in_range: "t \<in> set (tables S) \<longleftrightarrow> unat t < length (ds_tables S)" for t
    using assms set_tables_wf [of S] by (simp add: schema_wf_def)
  have "unat (word_of_nat k :: u16) = k" if "k < length (ds_tables S)" for k
    using assms that by (intro unat_word_of_nat_small) (simp add: schema_wf_def)
  then have "k \<in> unat ` set (tables S)" if "k < length (ds_tables S)" for k
    using that in_range [of "word_of_nat k"] by (intro image_eqI [of _ _ "word_of_nat k"]) simp_all
  then have "{..<length (ds_tables S)} = unat ` set (tables S)" using in_range by blast
  moreover have "set (ds_tables S) = (!) (ds_tables S) ` {..<length (ds_tables S)}" by (auto simp: set_conv_nth)
  ultimately show ?thesis by (simp add: image_image)
qed

lemma schema_of_names:
  assumes inv: "builder_inv B" "builder_small B"
    and S: "schema_of (finish_table B) order hash S" "order_ok (finish_table B) order"
  shows "tm_name ` set (ds_tables S) = fst ` set (segments B)"
proof -
  let ?T = "sb_tables (finish_table B)"
  note st = schema_of_tables [OF S]
  have "tm_name (ds_tables S ! k) = tm_name (?T ! (order ! k))" if "k < length ?T" for k
    using table_rel_fields(1) [OF st(3) [OF that]] .
  then have "map tm_name (ds_tables S) = map (\<lambda>i. tm_name (?T ! i)) order"
    using st(1,2) by (intro nth_equalityI) simp_all
  then have "tm_name ` set (ds_tables S) = (\<lambda>i. tm_name (?T ! i)) ` {..<length ?T}"
    using S(2) by (metis (no_types, lifting) order_ok_def list.set_map)
  also have "\<dots> = tm_name ` set ?T" by (force simp: set_conv_nth)
  also have "\<dots> = fst ` set (segments B)" unfolding segments_finish [OF inv, symmetric] by (simp add: image_image)
  finally show ?thesis .
qed

end
