(* ===== verification/Builder_Keys.thy ===== *)
theory Builder_Keys
  imports Builder_Rows
begin

text \<open>
  From the foreign keys of the rows to the foreign keys of the schema: a table and a column have
  the keys their rows declare, as far as the table and the column a key refers to exist.
\<close>

section \<open>The keys of the rows\<close>

text \<open>Each key with the number of its row.\<close>

definition raw_keys :: "raw_row list \<Rightarrow> (nat \<times> raw_foreign_key) list" where
  "raw_keys rs = concat (map (\<lambda>i. map (Pair i) (rr_foreign_keys (rs ! i))) [0..<length rs])"

lemma raw_keys_Nil [simp]: "raw_keys [] = []"
  by (simp add: raw_keys_def)

lemma raw_keys_snoc: "raw_keys (rs @ [r]) = raw_keys rs @ map (Pair (length rs)) (rr_foreign_keys r)"
proof -
  have "map (\<lambda>i. map (Pair i) (rr_foreign_keys ((rs @ [r]) ! i))) [0..<length rs] =
      map (\<lambda>i. map (Pair i) (rr_foreign_keys (rs ! i))) [0..<length rs]"
    by (simp add: nth_append)
  then show ?thesis by (simp add: raw_keys_def del: map_eq_conv)
qed

lemma raw_keys_row: "(i, fk) \<in> set (raw_keys rs) \<Longrightarrow> i < length rs"
  by (auto simp: raw_keys_def)

lemma raw_keys_of_table:
  "map snd (filter (\<lambda>(i, fk). P (rs ! i) \<and> Q fk) (raw_keys rs)) = filter Q (concat (map rr_foreign_keys (filter P rs)))"
proof (induction rs rule: rev_induct)
  case (snoc r rs)
  have "filter (\<lambda>(i, fk). P ((rs @ [r]) ! i) \<and> Q fk) (raw_keys rs) = filter (\<lambda>(i, fk). P (rs ! i) \<and> Q fk) (raw_keys rs)"
    by (rule filter_cong [OF refl]) (auto simp: nth_append dest: raw_keys_row)
  then show ?case using snoc by (simp add: raw_keys_snoc filter_map comp_def)
qed simp

lemma raw_keys_of_row:
  "j < length rs \<Longrightarrow> map snd (filter (\<lambda>(i, fk). i = j \<and> Q fk) (raw_keys rs)) = filter Q (rr_foreign_keys (rs ! j))"
proof (induction rs rule: rev_induct)
  case (snoc r rs)
  have "filter (\<lambda>(i, fk). i = length rs \<and> Q fk) (raw_keys rs) = []"
    by (auto simp: filter_empty_conv dest: raw_keys_row)
  then show ?case using snoc by (auto simp: raw_keys_snoc filter_map comp_def nth_append less_Suc_eq)
qed simp

section \<open>The keys of the builder\<close>

definition key_columns_ok :: "'t schema_builder \<Rightarrow> raw_row list \<Rightarrow> bool" where
  "key_columns_ok B rs \<longleftrightarrow> (\<forall>i < length rs. \<forall>p < n_fks B.
     fst (raw_keys rs ! p) = i \<longleftrightarrow> unat (pr_start (col_foreign_keys (sb_columns B ! i))) \<le> p \<and>
       p < unat (pr_start (col_foreign_keys (sb_columns B ! i))) + unat (pr_len (col_foreign_keys (sb_columns B ! i))))"

text \<open>The unresolved entry of a key, and the table it stands under.\<close>

definition entry_reads :: "'t schema_builder \<Rightarrow> raw_row list \<Rightarrow> unresolved_fk \<Rightarrow> nat \<times> raw_foreign_key \<Rightarrow> bool" where
  "entry_reads B rs u x \<longleftrightarrow> (case x of (i, fk) \<Rightarrow> target_reads (reads_as B) u fk \<and>
     uf_source_table_idx u < length (segments B) \<and>
     reads_as B (fst (segments B ! uf_source_table_idx u)) = Some (rr_table_name (rs ! i)))"

definition rows_keys :: "'t schema_builder \<Rightarrow> raw_row list \<Rightarrow> bool" where
  "rows_keys B rs \<longleftrightarrow> list_all2 (\<lambda>k (i, fk). key_reads (reads_as B) k fk) (sb_foreign_key_pool B) (raw_keys rs) \<and>
     list_all2 (entry_reads B rs) (sb_unresolved B) (raw_keys rs) \<and> key_columns_ok B rs"

lemma segments_kept:
  assumes "builder_inv B" "builder_small B" "n_cols B' = Suc (n_cols B)" "sb_tables B' = sb_tables (switch_table B y)"
    "sb_current_table B' = Some y" "sb_cols_start B' = sb_cols_start (switch_table B y)" "i < length (segments B)"
  shows "i < length (segments B') \<and> fst (segments B' ! i) = fst (segments B ! i)"
  using segments_switch [OF assms(1-6)] assms(7)
  by (auto simp: nth_append segments_def split: option.splits if_splits)

lemma segments_current:
  "sb_current_table B = Some y \<Longrightarrow>
     length (sb_tables B) < length (segments B) \<and> fst (segments B ! length (sb_tables B)) = y"
  by (simp add: segments_def nth_append)

lemma rows_keys_step:
  assumes row: "add_row D r B0 = Inr B'" and B0: "interning D W B0" "builder_inv B0" "n_cols B0 = length rs" "rows_keys B0 rs"
    and small: "builder_small B'" and strs: "\<forall>v \<in> set (row_strings r). v \<in> W \<and> value_ok v"
  shows "rows_keys B' (rs @ [r])"
proof -
  obtain y c ks us where p: "names.later D W B0 B'" "reads_as B' y = Some (rr_table_name r)"
      "sb_columns B' = sb_columns B0 @ [c]" "sb_tables B' = sb_tables (switch_table B0 y)"
      "sb_current_table B' = Some y" "sb_cols_start B' = sb_cols_start (switch_table B0 y)"
      "sb_foreign_key_pool B' = sb_foreign_key_pool B0 @ ks" "sb_unresolved B' = sb_unresolved B0 @ us"
      "keys_read (reads_as B') (length (sb_tables B')) ks us (rr_foreign_keys r)"
      "unat (pr_start (col_foreign_keys c)) = n_fks B0" "unat (pr_len (col_foreign_keys c)) = length ks"
    using add_row_reads [OF row B0(1) small strs] by blast
  let ?f = "reads_as B'"
  have small0: "builder_small B0" using grows_small [OF add_row_grows [OF row] small] .
  have old: "list_all2 (\<lambda>k (i, fk). key_reads (reads_as B0) k fk) (sb_foreign_key_pool B0) (raw_keys rs)"
      "list_all2 (entry_reads B0 rs) (sb_unresolved B0) (raw_keys rs)" "key_columns_ok B0 rs"
    using B0(4) by (simp_all add: rows_keys_def)
  have len: "length (raw_keys rs) = n_fks B0" using list_all2_lengthD [OF old(1)] by simp
  have lens: "length ks = length (rr_foreign_keys r)" using p(9) by (auto simp: keys_read_def dest: list_all2_lengthD)
  have n: "n_cols B' = Suc (n_cols B0)" using p(3) by simp
  have "list_all2 (\<lambda>k (i, fk). key_reads ?f k fk) (sb_foreign_key_pool B0) (raw_keys rs)"
    using old(1) by (rule list_all2_mono) (auto intro: keys_read_later(1) [OF names.later_reads [OF p(1)]])
  moreover have "list_all2 (\<lambda>k (i, fk). key_reads ?f k fk) ks (map (Pair (length rs)) (rr_foreign_keys r))"
    using p(9) by (simp add: keys_read_def list.rel_map)
  moreover have "entry_reads B' (rs @ [r]) u x"
    if "x \<in> set (raw_keys rs)" "entry_reads B0 rs u x" for u x
    using that segments_kept [OF B0(2) small0 n p(4,5,6)] names.later_reads [OF p(1)]
      keys_read_later(2) [OF names.later_reads [OF p(1)]]
    by (auto simp: entry_reads_def nth_append dest: raw_keys_row)
  then have "list_all2 (entry_reads B' (rs @ [r])) (sb_unresolved B0) (raw_keys rs)"
    using old(2) by (auto elim: list.rel_mono_strong)
  moreover have "list_all2 (entry_reads B' (rs @ [r])) us (map (Pair (length rs)) (rr_foreign_keys r))"
    using p(2,9) segments_current [OF p(5)]
    by (auto simp: keys_read_def list.rel_map entry_reads_def elim!: list.rel_mono_strong)
  moreover have "key_columns_ok B' (rs @ [r])"
    unfolding key_columns_ok_def
  proof (intro allI impI)
    fix i q assume i: "i < length (rs @ [r])" and q: "q < n_fks B'"
    let ?k = "col_foreign_keys (sb_columns B' ! i)"
    have at: "fst (raw_keys (rs @ [r]) ! q) = (if q < n_fks B0 then fst (raw_keys rs ! q) else length rs)"
      using q p(7) lens len by (simp add: raw_keys_snoc nth_append)
    show "fst (raw_keys (rs @ [r]) ! q) = i \<longleftrightarrow>
        unat (pr_start ?k) \<le> q \<and> q < unat (pr_start ?k) + unat (pr_len ?k)"
    proof (cases "i = length rs")
      case True
      then have "sb_columns B' ! i = c" using p(3) B0(3) by (metis nth_append_length)
      moreover have "fst (raw_keys rs ! q) \<noteq> length rs" if "q < n_fks B0"
        using raw_keys_row [of _ _ rs] nth_mem [of q "raw_keys rs"] that len by (metis less_irrefl prod.collapse)
      ultimately show ?thesis using q p(7,10,11) True by (simp add: at not_less)
    next
      case False
      then have j: "i < length rs" "sb_columns B' ! i = sb_columns B0 ! i" using i p(3) B0(3) by (simp_all add: nth_append)
      then have "sb_columns B0 ! i \<in> set (sb_columns B0)" using B0(3) by simp
      then have "unat (pr_start (col_foreign_keys (sb_columns B0 ! i))) + unat (pr_len (col_foreign_keys (sb_columns B0 ! i))) \<le> n_fks B0"
        using B0(2) by (simp add: builder_inv_def finished_ok_def col_range_ok_def)
      then show ?thesis using old(3) j by (simp add: at key_columns_ok_def)
    qed
  qed
  ultimately show ?thesis
    unfolding rows_keys_def raw_keys_snoc p(7,8) by (intro conjI list_all2_appendI)
qed

lemma rows_read_all:
  "fold_res (add_row D) rs B0 = Inr B \<Longrightarrow> interning D W B0 \<Longrightarrow> builder_inv B0 \<Longrightarrow> rows_read B0 qs \<Longrightarrow> rows_keys B0 qs \<Longrightarrow>
   builder_small B \<Longrightarrow> \<forall>r \<in> set rs. \<forall>v \<in> set (row_strings r). v \<in> W \<and> value_ok v \<Longrightarrow>
   interning D W B \<and> rows_read B (qs @ rs) \<and> rows_keys B (qs @ rs)"
proof (induction rs arbitrary: B0 qs)
  case (Cons r rs)
  obtain B1 where B1: "add_row D r B0 = Inr B1" "fold_res (add_row D) rs B1 = Inr B"
    using Cons.prems(1) by (auto simp: sum_bind_Inr)
  have small: "builder_small B1" using grows_small [OF add_rows_grows [OF B1(2)] Cons.prems(6)] .
  have len: "n_cols B0 = length qs" using Cons.prems(4) by (auto simp: rows_read_def dest: list_all2_lengthD)
  have "interning D W B1 \<and> rows_read B1 (qs @ [r])"
    using Cons.prems by (intro rows_read_step [OF B1(1) _ _ _ small]) auto
  moreover have "rows_keys B1 (qs @ [r])"
    using Cons.prems len by (intro rows_keys_step [OF B1(1) _ _ _ _ small]) auto
  ultimately show ?case
    using Cons.IH [OF B1(2), of "qs @ [r]"] add_row_ok [OF B1(1) Cons.prems(3) small] Cons.prems by simp
qed simp

lemma rows_keys_start:
  assumes "builder_with_capacity D next_id c tables_cap columns_cap = Inr B"
  shows "rows_keys B []"
  using assms by (auto simp: builder_with_capacity_def sum_bind_Inr rows_keys_def key_columns_ok_def)

section \<open>Which keys resolve\<close>

text \<open>The table and the column a key refers to are among the rows.\<close>

definition present :: "raw_row list \<Rightarrow> raw_foreign_key \<Rightarrow> bool" where
  "present rs fk \<longleftrightarrow>
     (\<exists>r \<in> set rs. rr_table_name r = rf_referenced_table fk \<and> rr_column_name r = rf_referenced_column fk)"

lemma table_segment:
  assumes "builder_inv B" "builder_small B" "i < length (sb_tables (finish_table B))"
  defines "m \<equiv> sb_tables (finish_table B) ! i"
  shows "segments B ! i = (tm_name m, unat (tm_columns_start m), unat (tm_columns_len m))"
    "segments B ! i \<in> set (segments B)"
  using assms(3) unfolding segments_finish [OF assms(1,2), symmetric] m_def by simp_all

lemma points_to_present:
  assumes B: "interning D W B" "rows_read B rs" and d: "distinct (remdups_adj (map rr_table_name rs))"
    and inv: "builder_inv B" "builder_small B" and u: "target_reads (reads_as B) u fk"
  shows "(\<exists>i c. points_to (finish_table B) u i c) \<longleftrightarrow> present rs fk"
proof
  assume "\<exists>i c. points_to (finish_table B) u i c"
  then obtain i c where ic: "points_to (finish_table B) u i c" by blast
  define m where "m = sb_tables (finish_table B) ! i"
  have pt: "i < length (sb_tables (finish_table B))" "tm_name m = uf_ref_table_sym u" "c < unat (tm_columns_len m)"
      "col_name (sb_columns B ! (unat (tm_columns_start m) + c)) = uf_ref_column_sym u"
    using ic by (simp_all add: points_to_def m_def)
  let ?j = "unat (tm_columns_start m) + c"
  have "(tm_name m, unat (tm_columns_start m), unat (tm_columns_len m)) \<in> set (segments B)"
    using table_segment [OF inv pt(1)] by (simp add: m_def)
  then obtain t where t: "reads_as B (tm_name m) = Some t" "unat (tm_columns_start m) + unat (tm_columns_len m) \<le> length rs"
      "filter (\<lambda>r. rr_table_name r = t) rs = sub_slice rs (unat (tm_columns_start m)) (unat (tm_columns_len m))"
    using rows_table [OF B d] by blast
  then have "rs ! ?j \<in> set (filter (\<lambda>r. rr_table_name r = t) rs)"
    using pt(3) nth_sub_slice [OF t(2) pt(3)] nth_mem [of c "sub_slice rs _ _"] length_sub_slice [OF t(2)] by metis
  moreover have "column_reads (reads_as B) (sb_constraint_pool B) (sb_columns B ! ?j) (rs ! ?j)"
    using t(2) pt(3) by (intro rows_read_column [OF B(2)]) simp
  ultimately show "present rs fk"
    using u pt(2,4) t(1) by (auto simp: present_def target_reads_def column_reads_def)
next
  assume "present rs fk"
  then obtain j where j: "j < length rs" "rr_table_name (rs ! j) = rf_referenced_table fk"
      "rr_column_name (rs ! j) = rf_referenced_column fk"
    by (auto simp: present_def in_set_conv_nth)
  have read: "segments_read (reads_as B) (segments B) (map rr_table_name rs)" using B(2) by (simp add: rows_read_def)
  obtain y s n where seg: "(y, s, n) \<in> set (segments B)" "s \<le> j" "j < s + n"
    using conjunct2 [OF segments_cover [OF read]] j(1) by fastforce
  then have y: "reads_as B y = Some (rf_referenced_table fk)"
    using bspec [OF conjunct1 [OF segments_cover [OF read]] seg(1)] j by simp
  have "(y, s, n) \<in> set (map (\<lambda>m. (tm_name m, unat (tm_columns_start m), unat (tm_columns_len m))) (sb_tables (finish_table B)))"
    using seg(1) by (simp only: segments_finish [OF inv])
  then obtain i where i: "i < length (sb_tables (finish_table B))" "tm_name (sb_tables (finish_table B) ! i) = y"
      "unat (tm_columns_start (sb_tables (finish_table B) ! i)) = s" "unat (tm_columns_len (sb_tables (finish_table B) ! i)) = n"
    by (auto simp: in_set_conv_nth)
  have "column_reads (reads_as B) (sb_constraint_pool B) (sb_columns B ! j) (rs ! j)"
    by (rule rows_read_column [OF B(2) j(1)])
  then have "y = uf_ref_table_sym u" "col_name (sb_columns B ! j) = uf_ref_column_sym u"
    using y u j(3) reads_as_inj [OF B(1)] by (auto simp: target_reads_def column_reads_def)
  then have "points_to (finish_table B) u i (j - s)" using i seg by (auto simp: points_to_def)
  then show "\<exists>i c. points_to (finish_table B) u i c" by blast
qed

section \<open>The keys of the schema\<close>

text \<open>A key of the schema says what a key of a row says, its target included.\<close>

definition key_says :: "'t database_schema \<Rightarrow> foreign_key \<Rightarrow> raw_foreign_key \<Rightarrow> bool" where
  "key_says S k fk \<longleftrightarrow> fk_wf S k \<and> key_reads (schema_reads S) k fk \<and>
     t_name S (fk_table k) = rf_referenced_table fk \<and>
     c_name S (unat (tm_columns_start (ds_tables S ! unat (fk_table k))) + unat (fk_column k)) = rf_referenced_column fk"

lemma text_of_reads: "schema_reads S y = Some v \<Longrightarrow> text_of S y = v"
  by (auto simp: text_of_def ok_opt_def split: sum.splits option.splits)

text \<open>A builder whose rows are known, and its schema.\<close>

definition schema_from ::
  "'t deps \<Rightarrow> str set \<Rightarrow> 't schema_builder \<Rightarrow> raw_row list \<Rightarrow> nat list \<Rightarrow> 't database_schema \<Rightarrow> bool" where
  "schema_from D W B rs order S \<longleftrightarrow> interning D W B \<and> rows_read B rs \<and> rows_keys B rs \<and>
     distinct (remdups_adj (map rr_table_name rs)) \<and> builder_inv B \<and> builder_small B \<and>
     schema_of (finish_table B) order (ds_hash S) S \<and> order_ok (finish_table B) order"

abbreviation new_key :: "'t schema_builder \<Rightarrow> nat list \<Rightarrow> fk_info \<Rightarrow> foreign_key" where
  "new_key B order \<equiv> new_fk (sb_foreign_key_pool B) (index_of_tables order (length (sb_tables (finish_table B))))"

lemma schema_from_ready: "schema_from D W B rs order S \<Longrightarrow> ready (finish_table B)"
  using ready_of_rows by (auto simp: schema_from_def)

lemma new_key_says:
  assumes S: "schema_from D W B rs order S" and x: "resolved (finish_table B) u = Some x" "u \<in> set (sb_unresolved B)"
    and u: "target_reads (reads_as B) u fk" "key_reads (reads_as B) (sb_foreign_key_pool B ! uf_pool_index u) fk"
  shows "key_says S (new_key B order x) fk"
proof -
  let ?F = "finish_table B"
  have so: "schema_of ?F order (ds_hash S) S" "order_ok ?F order" using S by (simp_all add: schema_from_def)
  note rd = schema_from_ready [OF S] and reads = schema_of_reads [OF so(1)]
  have xs: "x \<in> set (all_infos ?F)" using x by (auto simp: in_infos)
  note names = new_fk_names [OF rd so x(1) xs]
  have "fst x = uf_pool_index u" using resolved_ok(2) [OF rd x(1)] by (cases x) (simp add: info_ok_def)
  then have "key_reads (schema_reads S) (new_key B order x) fk"
    using u(2) unfolding reads by (cases x) (simp add: key_reads_def new_fk_def)
  moreover have "new_key B order x \<in> set (ds_foreign_key_pool S)" using so(1) xs by (simp add: schema_of_def)
  then have "fk_wf S (new_key B order x)" by (rule schema_of_fk_wf [OF rd so])
  ultimately show ?thesis
    using names u(1) fun_cong [OF reads] text_of_reads [of S]
    by (simp add: key_says_def t_name_def c_name_def target_reads_def)
qed

lemma rows_keys_joined:
  assumes S: "schema_from D W B rs order S"
  shows "list_all2 (\<lambda>u (i, fk). u \<in> set (sb_unresolved B) \<and> entry_reads B rs u (i, fk) \<and>
      key_reads (reads_as B) (sb_foreign_key_pool B ! uf_pool_index u) fk \<and>
      uf_pool_index u < n_fks B \<and> i < length rs \<and> fst (raw_keys rs ! uf_pool_index u) = i) (sb_unresolved B) (raw_keys rs)"
proof -
  have keys: "list_all2 (\<lambda>k (i, fk). key_reads (reads_as B) k fk) (sb_foreign_key_pool B) (raw_keys rs)"
      "list_all2 (entry_reads B rs) (sb_unresolved B) (raw_keys rs)"
    using S by (simp_all add: schema_from_def rows_keys_def)
  have pix: "uf_pool_index (sb_unresolved B ! i) = i" if "i < n_fks B" for i
    using schema_from_ready [OF S] that by (simp add: ready_def fks_known_def)
  have row: "fst (raw_keys rs ! i) < length rs" if "i < length (raw_keys rs)" for i
    using raw_keys_row [of "fst (raw_keys rs ! i)" "snd (raw_keys rs ! i)"] nth_mem [OF that] by simp
  show ?thesis
    using keys pix row unfolding list_all2_conv_all_nth by (fastforce simp: case_prod_beta)
qed

lemma selected_keys:
  assumes S: "schema_from D W B rs order S"
    and sel: "\<And>u i fk x. u \<in> set (sb_unresolved B) \<Longrightarrow> entry_reads B rs u (i, fk) \<Longrightarrow> uf_pool_index u < n_fks B \<Longrightarrow>
      i < length rs \<Longrightarrow> fst (raw_keys rs ! uf_pool_index u) = i \<Longrightarrow> resolved (finish_table B) u = Some x \<Longrightarrow> s x \<longleftrightarrow> P i"
  shows "list_all2 (key_says S) (map (new_key B order) (filter s (all_infos (finish_table B))))
    (map snd (filter (\<lambda>(i, fk). P i \<and> present rs fk) (raw_keys rs)))"
proof -
  let ?F = "finish_table B"
  note rd = schema_from_ready [OF S]
  have facts: "interning D W B" "rows_read B rs" "distinct (remdups_adj (map rr_table_name rs))" "builder_inv B" "builder_small B"
    using S by (simp_all add: schema_from_def)
  have found: "(\<exists>i c. points_to ?F u i c) \<longleftrightarrow> resolved ?F u \<noteq> None" for u
    using resolved_ok(2,3) [OF rd] by (fastforce simp: info_ok_def)
  have "list_all2 (\<lambda>x (i, fk). key_says S (new_key B order x) fk) (filter s (List.map_filter (resolved ?F) (sb_unresolved B)))
      (filter (\<lambda>(i, fk). P i \<and> present rs fk) (raw_keys rs))"
  proof (rule list_all2_filters [OF rows_keys_joined [OF S]])
    fix u p
    assume "case p of (i, fk) \<Rightarrow> u \<in> set (sb_unresolved B) \<and> entry_reads B rs u (i, fk) \<and>
      key_reads (reads_as B) (sb_foreign_key_pool B ! uf_pool_index u) fk \<and>
      uf_pool_index u < n_fks B \<and> i < length rs \<and> fst (raw_keys rs ! uf_pool_index u) = i"
    then obtain i fk where p: "p = (i, fk)" and
      u: "u \<in> set (sb_unresolved B)" "entry_reads B rs u (i, fk)" "uf_pool_index u < n_fks B" "i < length rs"
        "fst (raw_keys rs ! uf_pool_index u) = i" and
      k: "key_reads (reads_as B) (sb_foreign_key_pool B ! uf_pool_index u) fk"
      by (cases p) simp
    have t: "target_reads (reads_as B) u fk" using u(2) by (simp add: entry_reads_def)
    have pres: "present rs fk \<longleftrightarrow> resolved ?F u \<noteq> None" using points_to_present [OF facts t] found by simp
    show "case resolved ?F u of None \<Rightarrow> \<not> (case p of (i, fk) \<Rightarrow> P i \<and> present rs fk)
      | Some x \<Rightarrow> if s x then (case p of (i, fk) \<Rightarrow> P i \<and> present rs fk) \<and>
            (case p of (i, fk) \<Rightarrow> key_says S (new_key B order x) fk)
          else \<not> (case p of (i, fk) \<Rightarrow> P i \<and> present rs fk)"
    proof (cases "resolved ?F u")
      case None
      then show ?thesis using pres by (simp add: p)
    next
      case (Some x)
      then have "s x \<longleftrightarrow> P i" using sel u by blast
      then show ?thesis using Some pres new_key_says [OF S Some u(1) t k] by (simp add: p)
    qed
  qed
  then show ?thesis
    by (simp add: infos_def list.rel_map) (erule list_all2_mono, simp split: prod.splits)
qed

text \<open>The keys of a table, and those of a column.\<close>

lemma table_keys:
  assumes S: "schema_from D W B rs order S" and t: "unat t < length (ds_tables S)"
  shows "list_all2 (key_says S) (fks_of S (unat t))
    (filter (present rs) (concat (map rr_foreign_keys (filter (\<lambda>r. rr_table_name r = t_name S t) rs))))"
proof -
  let ?F = "finish_table B"
  have facts: "interning D W B" "rows_read B rs" "distinct (remdups_adj (map rr_table_name rs))" "builder_inv B" "builder_small B"
      "schema_of ?F order (ds_hash S) S" "order_ok ?F order"
    using S by (simp_all add: schema_from_def)
  note rd = schema_from_ready [OF S] and st = schema_of_tables [OF facts(6,7)]
  have k: "unat t < length (sb_tables ?F)" using t st(1) by simp
  have name: "reads_as B (tm_name (sb_tables ?F ! (order ! unat t))) = Some (t_name S t)"
    using schema_of_rows [OF facts t] table_rel_fields(1) [OF st(3) [OF k]] by simp
  have "fst (snd x) = order ! unat t \<longleftrightarrow> rr_table_name (rs ! i) = t_name S t"
    if u: "entry_reads B rs u (i, fk)" "resolved ?F u = Some x" for u i fk x
  proof -
    have src: "fst (snd x) = uf_source_table_idx u" using resolved_ok(2) [OF rd u(2)] by (cases x) (simp add: info_ok_def)
    have e: "uf_source_table_idx u < length (sb_tables ?F)"
        "reads_as B (fst (segments B ! uf_source_table_idx u)) = Some (rr_table_name (rs ! i))"
      using u(1) arg_cong [OF segments_finish [OF facts(4,5)], of length] by (simp_all add: entry_reads_def)
    then have own: "reads_as B (tm_name (sb_tables ?F ! uf_source_table_idx u)) = Some (rr_table_name (rs ! i))"
      using table_segment(1) [OF facts(4,5) e(1)] by simp
    have "rr_table_name (rs ! i) = t_name S t \<longleftrightarrow>
        tm_name (sb_tables ?F ! uf_source_table_idx u) = tm_name (sb_tables ?F ! (order ! unat t))"
      using own name reads_as_inj [OF facts(1)] by auto
    then show ?thesis using ready_name_inj [OF rd e(1) st(4) [OF k]] src by simp
  qed
  then have "list_all2 (key_says S) (map (new_key B order) (filter (\<lambda>x. fst (snd x) = order ! unat t) (all_infos ?F)))
      (map snd (filter (\<lambda>(i, fk). rr_table_name (rs ! i) = t_name S t \<and> present rs fk) (raw_keys rs)))"
    by (intro selected_keys [OF S]) blast
  moreover have "(\<lambda>(p, src, uu). src = order ! unat t) = (\<lambda>x :: fk_info. fst (snd x) = order ! unat t)"
    by (simp add: fun_eq_iff)
  ultimately show ?thesis
    using raw_keys_of_table [of "\<lambda>r. rr_table_name r = t_name S t" rs "present rs"]
    unfolding schema_of_fks [OF rd facts(6,7) k] by simp
qed

lemma column_keys:
  assumes S: "schema_from D W B rs order S" and j: "j < length rs"
  shows "\<exists>ks. column_foreign_keys S j = Inr ks \<and> list_all2 (key_says S) ks (filter (present rs) (rr_foreign_keys (rs ! j)))"
proof -
  let ?F = "finish_table B" and ?c = "sb_columns B ! j" and ?c' = "ds_columns S ! j"
  let ?a = "unat (pr_start (col_foreign_keys ?c))" and ?n = "unat (pr_len (col_foreign_keys ?c))"
  let ?a' = "unat (pr_start (col_foreign_keys ?c'))" and ?n' = "unat (pr_len (col_foreign_keys ?c'))"
  have so: "schema_of ?F order (ds_hash S) S" "order_ok ?F order" and rows: "rows_read B rs" "key_columns_ok B rs"
    using S by (simp_all add: schema_from_def rows_keys_def)
  note rd = schema_from_ready [OF S]
  have len: "n_cols B = length rs" using rows(1) by (auto simp: rows_read_def dest: list_all2_lengthD)
  have rel: "column_rel (all_infos ?F) ?c ?c'" "length (ds_columns S) = length rs"
    using so(1) j len by (auto simp: schema_of_def list_all2_conv_all_nth)
  then have slice: "?a' + ?n' \<le> length (all_infos ?F)"
      "sub_slice (all_infos ?F) ?a' ?n' = filter (\<lambda>x. ?a \<le> fst x \<and> fst x < ?a + ?n) (all_infos ?F)"
    by (simp_all add: column_rel_def Let_def)
  have pool: "ds_foreign_key_pool S = map (new_key B order) (all_infos ?F)" using so(1) by (simp add: schema_of_def)
  have "column_foreign_keys S j = Inr (map (new_key B order) (filter (\<lambda>x. ?a \<le> fst x \<and> fst x < ?a + ?n) (all_infos ?F)))"
    unfolding slice(2) [symmetric]
    using j rel(2) slice(1) by (simp add: column_foreign_keys_def column_meta_def pool sub_slice_def take_map drop_map)
  moreover have "?a \<le> fst x \<and> fst x < ?a + ?n \<longleftrightarrow> i = j"
    if "uf_pool_index u < n_fks B" "fst (raw_keys rs ! uf_pool_index u) = i" "resolved ?F u = Some x" for u i x
  proof -
    have "fst x = uf_pool_index u" using resolved_ok(2) [OF rd that(3)] by (cases x) (simp add: info_ok_def)
    then show ?thesis using rows(2) j that(1,2) by (auto simp: key_columns_ok_def)
  qed
  then have "list_all2 (key_says S) (map (new_key B order) (filter (\<lambda>x. ?a \<le> fst x \<and> fst x < ?a + ?n) (all_infos ?F)))
      (map snd (filter (\<lambda>(i, fk). i = j \<and> present rs fk) (raw_keys rs)))"
    by (intro selected_keys [OF S]) blast
  ultimately show ?thesis using raw_keys_of_row [OF j, of "present rs"] by simp
qed

section \<open>From rows to the schema\<close>

text \<open>
  What the schema says about table \<open>t\<close> is what the rows with its name say: its columns in
  order with the keys of each, and the keys of the table.
\<close>

definition table_reads :: "'t database_schema \<Rightarrow> raw_row list \<Rightarrow> u16 \<Rightarrow> bool" where
  "table_reads S rs t \<longleftrightarrow>
     (let rows = filter (\<lambda>r. rr_table_name r = t_name S t) rs in
      list_all2 (\<lambda>c r. column_reads (schema_reads S) (ds_constraint_pool S) (ds_columns S ! c) r \<and>
          (\<exists>ks. column_foreign_keys S c = Inr ks \<and> list_all2 (key_says S) ks (filter (present rs) (rr_foreign_keys r))))
        (cols_of S t) rows \<and>
      (\<exists>ks. table_foreign_keys S t = Inr ks \<and>
          list_all2 (key_says S) ks (filter (present rs) (concat (map rr_foreign_keys rows)))))"

lemma table_reads_rows:
  assumes S: "schema_from D W B rs order S" and t: "unat t < length (ds_tables S)"
  shows "table_reads S rs t"
proof -
  have facts: "interning D W B" "rows_read B rs" "distinct (remdups_adj (map rr_table_name rs))" "builder_inv B" "builder_small B"
      "schema_of (finish_table B) order (ds_hash S) S" "order_ok (finish_table B) order"
    using S by (simp_all add: schema_from_def)
  have wf: "schema_wf S" by (rule schema_of_wf [OF schema_from_ready [OF S] facts(6,7)])
  obtain s n where sn: "cols_of S t = [s..<s + n]" "s + n \<le> length rs"
      "filter (\<lambda>r. rr_table_name r = t_name S t) rs = sub_slice rs s n"
    using schema_of_rows [OF facts t] by blast
  have "column_reads (schema_reads S) (ds_constraint_pool S) (ds_columns S ! j) (rs ! j) \<and>
      (\<exists>ks. column_foreign_keys S j = Inr ks \<and> list_all2 (key_says S) ks (filter (present rs) (rr_foreign_keys (rs ! j))))"
    if "j < length rs" for j
    using schema_column_reads [OF facts(2,6) that] column_keys [OF S that] schema_of_reads [OF facts(6)] by simp
  then show ?thesis
    using table_keys [OF S t] table_foreign_keys_wf [OF wf t] sn
    by (simp add: table_reads_def Let_def list_all2_conv_all_nth sub_slice_def)
qed

text \<open>From rows to the schema.\<close>

lemma rows_to_schema:
  assumes B: "interning D W B" "rows_read B rs" and keys: "rows_keys B rs"
    and d: "distinct (remdups_adj (map rr_table_name rs))" and inv: "builder_inv B" "builder_small B"
  shows "\<exists>S. build B hash = Inr S \<and> named S \<and> ds_hash S = hash \<and> inj_on (t_name S) (set (tables S)) \<and>
    t_name S ` set (tables S) = rr_table_name ` set rs \<and> (\<forall>t \<in> set (tables S). table_reads S rs t)"
proof -
  have rd: "ready (finish_table B)" by (rule ready_of_rows [OF B d inv])
  obtain S order where S: "build B hash = Inr S" "order_ok (finish_table B) order" "schema_of (finish_table B) order hash S"
    using build_schema_of [OF rd] by blast
  note rows = schema_of_rows [OF B d inv S(3,2)]
  have wf: "schema_wf S" by (rule schema_of_wf [OF rd S(3,2)])
  then have in_range: "t \<in> set (tables S) \<longleftrightarrow> unat t < length (ds_tables S)" for t
    using set_tables_wf [of S] by (simp add: schema_wf_def)
  have "named S" using named_of_rows [OF B S(3) wf] rows by force
  moreover have "inj_on (t_name S) (set (tables S))"
  proof (rule inj_onI)
    fix t u assume tu: "t \<in> set (tables S)" "u \<in> set (tables S)" "t_name S t = t_name S u"
    then have "tm_name (ds_tables S ! unat t) = tm_name (ds_tables S ! unat u)"
      using rows [of t] rows [of u] in_range reads_as_inj [OF B(1)] by metis
    then show "t = u" using schema_wf_name_inj [OF wf] tu in_range by (simp add: word_unat_eq_iff)
  qed
  moreover have "t_name S ` set (tables S) = rr_table_name ` set rs"
  proof -
    have "Some ` t_name S ` set (tables S) = reads_as B ` (\<lambda>t. tm_name (ds_tables S ! unat t)) ` set (tables S)"
      unfolding image_image using rows in_range by (intro image_cong) simp_all
    also have "(\<lambda>t. tm_name (ds_tables S ! unat t)) ` set (tables S) = fst ` set (segments B)"
      unfolding schema_table_names [OF wf] schema_of_names [OF inv S(3,2)] ..
    also have "reads_as B ` fst ` set (segments B) = Some ` rr_table_name ` set rs"
      using rows_names(2) [OF B d] by (simp only: image_image)
    finally show ?thesis by (metis inj_Some inj_image_eq_iff)
  qed
  moreover have hash: "ds_hash S = hash" using S(3) by (simp add: schema_of_def)
  have "schema_from D W B rs order S" using B keys d inv S(2,3) by (simp add: schema_from_def hash)
  then have "\<forall>t \<in> set (tables S). table_reads S rs t" using table_reads_rows in_range by blast
  ultimately show ?thesis using S(1) hash by blast
qed

end
