(* ===== verification/Postgres_Props.thy ===== *)
theory Postgres_Props
  imports Postgres_Db Builder_Keys Builder_Props Sqlite_Props
begin

unbundle bit_operations_syntax

text \<open>
  Properties of the Postgres dialect: the schema it loads says what the catalog rows say, and its
  setup is one script that is run as a whole or not at all.
\<close>

section \<open>Loading the schema\<close>

lemma in_tx_simps [simp]: "in_tx (Inr x) = Inr x" "in_tx (Inl p) = Inl (DbPanic p)"
  by (simp_all add: in_tx_def)

lemma sqlx_simps [simp]: "sqlx (Inr x) = Inr x" "sqlx (Inl e) = Inl (DbError (SqlxError e))"
  by (simp_all add: sqlx_def)

lemma load_rows_fold:
  "map_res raw_row_of rows = Inr rs \<Longrightarrow> load_rows D (map Inr rows) B = in_tx (fold_res (add_row D) rs B)"
proof (induction rows arbitrary: rs B)
  case (Cons row rows)
  then obtain r rs' where r: "raw_row_of row = Inr r" "map_res raw_row_of rows = Inr rs'" "rs = r # rs'"
    by (auto simp: sum_bind_Inr)
  then show ?case using Cons.IH [OF r(2)] by (cases "add_row D r B") (simp_all add: load_row_def)
qed simp

lemma load_schema_rows:
  assumes "hashbrown_ok D" "next_id \<noteq> 0" "\<forall>idx. ce_interner_id (c idx) \<noteq> next_id"
    and rows: "pg_rows E d = map Inr rows" "map_res raw_row_of rows = Inr rs" "pg_hash E d = Inr hash"
    and strs: "distinguishable D (set (concat (map row_strings rs)))" "\<forall>v \<in> set (concat (map row_strings rs)). value_ok v"
    and grouped: "distinct (remdups_adj (map rr_table_name rs))"
    and run: "builder_with_capacity D next_id c 200 2000 = Inr B0" "fold_res (add_row D) rs B0 = Inr B" "builder_small B"
  shows "\<exists>S. load_schema D next_id c E d = Inr S \<and> named S \<and> ds_hash S = hash \<and>
    inj_on (t_name S) (set (tables S)) \<and> t_name S ` set (tables S) = rr_table_name ` set rs \<and>
    (\<forall>t \<in> set (tables S). table_reads S rs t)"
proof -
  let ?W = "set (concat (map row_strings rs))"
  note start = rows_read_start [OF run(1) assms(1) strs(1) assms(2,3)]
  have B: "interning D ?W B \<and> rows_read B ([] @ rs) \<and> rows_keys B ([] @ rs)"
    using strs(2)
    by (intro rows_read_all [OF run(2) start(1) builder_inv_start [OF run(1)] start(2) rows_keys_start [OF run(1)] run(3)]) auto
  have "builder_inv B" by (rule add_rows_ok [OF run(2) builder_inv_start [OF run(1)] run(3)])
  then obtain S where "build B hash = Inr S" "named S" "ds_hash S = hash" "inj_on (t_name S) (set (tables S))"
      "t_name S ` set (tables S) = rr_table_name ` set rs" "\<forall>t \<in> set (tables S). table_reads S rs t"
    using rows_to_schema [OF _ _ _ grouped _ run(3)] B by (metis append_Nil)
  moreover have "load_rows D (map Inr rows) B0 = Inr B" using load_rows_fold [OF rows(2), of D B0] run(2) by simp
  ultimately show ?thesis using run(1) rows by (simp add: load_schema_def)
qed

text \<open>
  C5: when the rows of the catalog can be read and interned, \<open>load_schema\<close> returns a schema
  that says what the rows say: its tables are the tables of the rows, each once and with its own
  name, and the columns of a table are its rows in order, with their names, types, flags, defaults
  and checks.  The foreign keys of a table and of each of its columns are those the rows declare,
  in order, with their names, actions and targets; only a key to a table or a column that is not
  among the rows is left out.  The rows come ordered by table, and no two of their strings are
  confused by the thread-local cache.
\<close>

theorem load_schema_correct:
  assumes "hashbrown_ok D" "next_id \<noteq> 0" "\<forall>idx. ce_interner_id (c idx) \<noteq> next_id"
    and rows: "pg_rows E d = map Inr rows" "map_res raw_row_of rows = Inr rs" "pg_hash E d = Inr hash"
    and strs: "distinguishable D (set (concat (map row_strings rs)))" "\<forall>v \<in> set (concat (map row_strings rs)). value_ok v"
    and grouped: "distinct (remdups_adj (map rr_table_name rs))"
    and run: "builder_with_capacity D next_id c 200 2000 = Inr B0" "fold_res (add_row D) rs B0 = Inr B" "builder_small B"
  shows "\<exists>S. load_schema D next_id c E d = Inr S \<and> named S \<and> ds_hash S = hash \<and>
    inj_on (t_name S) (set (tables S)) \<and> t_name S ` set (tables S) = rr_table_name ` set rs \<and>
    (\<forall>t \<in> set (tables S). table_reads S rs t)"
  by (rule load_schema_rows [OF assms])

section \<open>A small catalog\<close>

definition catalog_row_of :: "raw_row \<Rightarrow> unit catalog_row" where
  "catalog_row_of r = \<lparr>cr_table_name = Inr (rr_table_name r), cr_column_name = Inr (rr_column_name r),
     cr_fk_constraints = Inr (map rf_constraint_name (rr_foreign_keys r)),
     cr_fk_namespaces = Inr (map rf_namespace (rr_foreign_keys r)),
     cr_fk_tables = Inr (map rf_referenced_table (rr_foreign_keys r)),
     cr_fk_columns = Inr (map rf_referenced_column (rr_foreign_keys r)),
     cr_fk_on_update = Inr (map (\<lambda>f. action_to_i16 (rf_on_update f)) (rr_foreign_keys r)),
     cr_fk_on_delete = Inr (map (\<lambda>f. action_to_i16 (rf_on_delete f)) (rr_foreign_keys r)),
     cr_check_defs = Inr (rr_check_defs r), cr_domain_checks = Inr (rr_domain_checks r),
     cr_data_type = Inr (rr_data_type r), cr_nullable = Inr (rr_nullable r), cr_is_primary = Inr (rr_is_primary r),
     cr_is_unique = Inr (rr_is_unique r), cr_default_expr = Inr (rr_default_expr r)\<rparr>"

definition demo_P :: "(unit, nat) pg_env" where
  "demo_P = \<lparr>pg_connect = (\<lambda>_. Some 0), pg_begin = (\<lambda>_. True), pg_exec = (\<lambda>n _. Inr (n + 1)), pg_commit = (\<lambda>_. True),
     pg_has_setup = (\<lambda>_. Inr False), pg_rows = (\<lambda>_. map (\<lambda>r. Inr (catalog_row_of r)) demo_rows),
     pg_hash = (\<lambda>_. Inr (replicate 32 0)), pg_log_count = (\<lambda>_. Inr 0), pg_functions = (\<lambda>_. Inr []),
     pg_show = (\<lambda>_. []), pg_schema_query = []\<rparr>"

lemma action_i16: "action_of_i16 (action_to_i16 a) = Inr a"
  by (cases a) (simp_all add: action_of_i16_def action_of_u8_def)

lemma catalog_row_roundtrip: "raw_row_of (catalog_row_of r) = Inr r"
proof -
  have "map_res foreign_key_of (zip (zip (zip (zip (zip (map rf_constraint_name fks) (map rf_namespace fks))
      (map rf_referenced_table fks)) (map rf_referenced_column fks)) (map (\<lambda>f. action_to_i16 (rf_on_update f)) fks))
      (map (\<lambda>f. action_to_i16 (rf_on_delete f)) fks)) = Inr fks" for fks
    by (induction fks) (simp_all add: foreign_key_of_def action_i16)
  then show ?thesis by (simp add: raw_row_of_def catalog_row_of_def foreign_keys_of_def unwrap_or_def)
qed

lemma demo_catalog: "map_res raw_row_of (map catalog_row_of demo_rows) = Inr demo_rows"
proof -
  have "map_res raw_row_of (map catalog_row_of rs) = Inr rs" for rs
    by (induction rs) (simp_all add: catalog_row_roundtrip)
  then show ?thesis .
qed

lemma empty_B_start': "builder_with_capacity demo_D 1 local_cache_new 200 2000 = Inr empty_B"
proof -
  have "with_capacity demo_D 1 2200 = interner_new demo_D 1"
    by (simp add: with_capacity_def interner_new_def with_capacity_and_shards_def demo_D_def list_deps_def Let_def)
  then show ?thesis by (simp add: builder_with_capacity_def fresh_I_new empty_B_def)
qed

lemma demo_strings:
  "distinguishable demo_D (set (concat (map row_strings demo_rows)))"
  "\<forall>v \<in> set (concat (map row_strings demo_rows)). value_ok v"
  by (auto simp: distinguishable_def demo_rows_def plain_row_def fk_row_def row_strings_def lit_def value_ok_def)

lemma demo_catalog_ok:
  "pg_rows demo_P d = map Inr (map catalog_row_of demo_rows)" "pg_hash demo_P d = Inr (replicate 32 0)"
  "\<forall>idx. ce_interner_id (local_cache_new idx) \<noteq> 1" "distinct (remdups_adj (map rr_table_name demo_rows))"
  by (simp_all add: demo_P_def local_cache_new_def demo_rows_def plain_row_def lit_def)

theorem load_schema_correct_witness:
  "\<exists>S. load_schema demo_D 1 local_cache_new demo_P 0 = Inr S \<and> named S \<and> t_name S ` set (tables S) = {lit ''a'', lit ''b''} \<and>
    (\<forall>t \<in> set (tables S). table_reads S demo_rows t)"
proof -
  have "rr_table_name ` set demo_rows = {lit ''a'', lit ''b''}" by (auto simp: demo_rows_def plain_row_def)
  then show ?thesis
    using load_schema_correct [OF demo_D_ok _ demo_catalog_ok(3) demo_catalog_ok(1) demo_catalog demo_catalog_ok(2) demo_strings
        demo_catalog_ok(4) empty_B_start' demo_rows_run demo_B_small]
    by (metis zero_neq_one)
qed

section \<open>The setup as a script\<close>

fun exec_all :: "('e, 'd) pg_env \<Rightarrow> pg_stmt list \<Rightarrow> 'd \<Rightarrow> 'e + 'd" where
  "exec_all E [] d = Inr d"
| "exec_all E (s # ss) d = sum_bind (pg_exec E d s) (exec_all E ss)"

text \<open>The name of a table and of its primary key column, for a table whose names can be read and that has one.\<close>

definition keyed :: "'t database_schema \<Rightarrow> u16 \<Rightarrow> str \<times> str \<Rightarrow> bool" where
  "keyed S t k \<longleftrightarrow> table_name S t = Inr (fst k) \<and>
     (\<exists>c. primary_key S t = Inr (Some c) \<and> column_name S c = Inr (snd k))"

lemma keyed_unique: "keyed S t k \<Longrightarrow> keyed S t l \<Longrightarrow> k = l"
  by (auto simp: keyed_def prod_eq_iff)

lemma keyed_list_unique: "list_all2 (keyed S) ts ks \<Longrightarrow> list_all2 (keyed S) ts ls \<Longrightarrow> ks = ls"
proof (induction ks arbitrary: ts ls)
  case (Cons k ks)
  then show ?case by (cases ts; cases ls) (auto dest: keyed_unique)
qed simp

lemma run_or_Inr: "run_or E f s d = Inr d' \<longleftrightarrow> pg_exec E d s = Inr d'"
  by (cases "pg_exec E d s") (simp_all add: run_or_def)

lemma in_tx_Inr: "in_tx r = Inr x \<longleftrightarrow> r = Inr x" and sqlx_Inr: "sqlx q = Inr y \<longleftrightarrow> q = Inr y"
  by (cases r; simp add: in_tx_def) (cases q; simp add: sqlx_def)

text \<open>The loop over the tables runs one statement per table, in order, and needs a primary key for each.\<close>

lemma for_tables_Cons_run:
  "for_tables E S missing stmt (t # ts) d = Inr d' \<longleftrightarrow>
     (\<exists>k d1. keyed S t k \<and> pg_exec E d (case_prod stmt k) = Inr d1 \<and> for_tables E S missing stmt ts d1 = Inr d')"
proof
  assume "for_tables E S missing stmt (t # ts) d = Inr d'"
  then obtain tab c pk d1 where "table_name S t = Inr tab" "primary_key S t = Inr (Some c)" "column_name S c = Inr pk"
      "pg_exec E d (stmt tab pk) = Inr d1" "for_tables E S missing stmt ts d1 = Inr d'"
    by (auto simp: sum_bind_Inr run_or_Inr in_tx_Inr split: option.splits)
  then show "\<exists>k d1. keyed S t k \<and> pg_exec E d (case_prod stmt k) = Inr d1 \<and> for_tables E S missing stmt ts d1 = Inr d'"
    by (intro exI [of _ "(tab, pk)"] exI [of _ d1]) (simp add: keyed_def)
next
  assume "\<exists>k d1. keyed S t k \<and> pg_exec E d (case_prod stmt k) = Inr d1 \<and> for_tables E S missing stmt ts d1 = Inr d'"
  then obtain k d1 where "keyed S t k" "pg_exec E d (stmt (fst k) (snd k)) = Inr d1" "for_tables E S missing stmt ts d1 = Inr d'"
    by (metis case_prod_beta)
  then show "for_tables E S missing stmt (t # ts) d = Inr d'" by (auto simp: keyed_def run_or_def)
qed

lemma for_tables_run:
  "for_tables E S missing stmt ts d = Inr d' \<longleftrightarrow>
     (\<exists>ks. list_all2 (keyed S) ts ks \<and> exec_all E (map (case_prod stmt) ks) d = Inr d')"
proof (induction ts arbitrary: d)
  case (Cons t ts)
  show ?case
  proof
    assume "for_tables E S missing stmt (t # ts) d = Inr d'"
    then obtain k d1 ks where "keyed S t k" "pg_exec E d (case_prod stmt k) = Inr d1"
        "list_all2 (keyed S) ts ks" "exec_all E (map (case_prod stmt) ks) d1 = Inr d'"
      unfolding for_tables_Cons_run Cons.IH by blast
    then show "\<exists>ks. list_all2 (keyed S) (t # ts) ks \<and> exec_all E (map (case_prod stmt) ks) d = Inr d'"
      by (intro exI [of _ "k # ks"]) simp
  next
    assume "\<exists>ks. list_all2 (keyed S) (t # ts) ks \<and> exec_all E (map (case_prod stmt) ks) d = Inr d'"
    then obtain k ks where "keyed S t k" "list_all2 (keyed S) ts ks" "exec_all E (map (case_prod stmt) (k # ks)) d = Inr d'"
      by (metis list_all2_Cons1)
    then show "for_tables E S missing stmt (t # ts) d = Inr d'"
      unfolding for_tables_Cons_run Cons.IH list.map exec_all.simps sum_bind_Inr by blast
  qed
qed simp

lemma perform_setup_run:
  "perform_setup E d = Inr d' \<longleftrightarrow> (\<exists>has. pg_has_setup E d = Inr has \<and>
     exec_all E ((if has then [] else [Raw (pg_schema_query E)]) @ [Raw SYNC_LOG_TABLE]) d = Inr d')"
  by (auto simp: perform_setup_def sum_bind_Inr run_or_Inr split: sum.splits if_splits)

lemma backfill_run:
  "backfill_sync_logs E S d = Inr d' \<longleftrightarrow> (\<exists>n. pg_log_count E d = Inr n \<and>
     (if n > 0 then d' = d
      else \<exists>ks. list_all2 (keyed S) (tables S) ks \<and> exec_all E (map (case_prod backfill_stmt) ks) d = Inr d'))"
proof (cases "pg_log_count E d")
  case (Inr n)
  then show ?thesis by (cases "n > 0") (auto simp: backfill_sync_logs_def for_tables_run)
qed (simp add: backfill_sync_logs_def)

text \<open>
  What a successful \<open>new\<close> has done on content \<open>d\<close>: the setup of the functions and of the log
  table, the reading of the schema, the switch, the backfill and the triggers.
\<close>

definition pg_installed ::
  "'t deps \<Rightarrow> u32 \<Rightarrow> local_cache \<Rightarrow> ('e, 'd) pg_env \<Rightarrow> 'd \<Rightarrow> 't database_schema \<Rightarrow> 'd \<Rightarrow> bool" where
  "pg_installed D next_id c E d S d' \<longleftrightarrow> (\<exists>has d1 d2 n ks.
     pg_has_setup E d = Inr has \<and>
     exec_all E ((if has then [] else [Raw (pg_schema_query E)]) @ [Raw SYNC_LOG_TABLE]) d = Inr d1 \<and>
     load_schema D next_id c E d1 = Inr S \<and>
     exec_all E [Raw SET_SYNC_WRITE] d1 = Inr d2 \<and>
     pg_log_count E d2 = Inr n \<and>
     list_all2 (keyed S) (tables S) ks \<and>
     exec_all E ((if n > 0 then [] else map (case_prod backfill_stmt) ks) @ map (case_prod pg_trigger_stmt) ks) d2 = Inr d')"

lemma exec_all_append: "exec_all E (ss @ us) d = Inr d' \<longleftrightarrow> (\<exists>d1. exec_all E ss d = Inr d1 \<and> exec_all E us d1 = Inr d')"
  by (induction ss arbitrary: d) (auto simp: sum_bind_Inr)

lemma pg_install_steps:
  "pg_install D next_id c E d = Inr (S, d') \<longleftrightarrow> (\<exists>d1 d2 d3. perform_setup E d = Inr d1 \<and> load_schema D next_id c E d1 = Inr S \<and>
     pg_exec E d1 (Raw SET_SYNC_WRITE) = Inr d2 \<and> backfill_sync_logs E S d2 = Inr d3 \<and> pg_setup_triggers E S d3 = Inr d')"
  by (auto simp: pg_install_def sum_bind_Inr run_or_Inr)

lemma pg_install_run: "pg_install D next_id c E d = Inr (S, d') \<longleftrightarrow> pg_installed D next_id c E d S d'"
proof
  assume "pg_install D next_id c E d = Inr (S, d')"
  then obtain d1 d2 d3 where s: "perform_setup E d = Inr d1" "load_schema D next_id c E d1 = Inr S"
      "pg_exec E d1 (Raw SET_SYNC_WRITE) = Inr d2" "backfill_sync_logs E S d2 = Inr d3" "pg_setup_triggers E S d3 = Inr d'"
    unfolding pg_install_steps by blast
  obtain has where has: "pg_has_setup E d = Inr has"
      "exec_all E ((if has then [] else [Raw (pg_schema_query E)]) @ [Raw SYNC_LOG_TABLE]) d = Inr d1"
    using s(1) unfolding perform_setup_run by blast
  obtain ks where ks: "list_all2 (keyed S) (tables S) ks" "exec_all E (map (case_prod pg_trigger_stmt) ks) d3 = Inr d'"
    using s(5) unfolding pg_setup_triggers_def for_tables_run by blast
  obtain n where n: "pg_log_count E d2 = Inr n" "exec_all E (if n > 0 then [] else map (case_prod backfill_stmt) ks) d2 = Inr d3"
    using s(4) keyed_list_unique [OF ks(1)] unfolding backfill_run by (auto split: if_splits)
  have "exec_all E ((if n > 0 then [] else map (case_prod backfill_stmt) ks) @ map (case_prod pg_trigger_stmt) ks) d2 = Inr d'"
    unfolding exec_all_append using n(2) ks(2) by blast
  moreover have "exec_all E [Raw SET_SYNC_WRITE] d1 = Inr d2" using s(3) by simp
  ultimately show "pg_installed D next_id c E d S d'"
    unfolding pg_installed_def using has s(2) n(1) ks(1) by blast
next
  assume "pg_installed D next_id c E d S d'"
  then obtain has d1 d2 n ks where h: "pg_has_setup E d = Inr has"
      "exec_all E ((if has then [] else [Raw (pg_schema_query E)]) @ [Raw SYNC_LOG_TABLE]) d = Inr d1"
      "load_schema D next_id c E d1 = Inr S" "exec_all E [Raw SET_SYNC_WRITE] d1 = Inr d2" "pg_log_count E d2 = Inr n"
      "list_all2 (keyed S) (tables S) ks"
      "exec_all E ((if n > 0 then [] else map (case_prod backfill_stmt) ks) @ map (case_prod pg_trigger_stmt) ks) d2 = Inr d'"
    unfolding pg_installed_def by blast
  obtain d3 where d3: "exec_all E (if n > 0 then [] else map (case_prod backfill_stmt) ks) d2 = Inr d3"
      "exec_all E (map (case_prod pg_trigger_stmt) ks) d3 = Inr d'"
    using h(7) unfolding exec_all_append by blast
  have "perform_setup E d = Inr d1" unfolding perform_setup_run using h(1,2) by blast
  moreover have "pg_exec E d1 (Raw SET_SYNC_WRITE) = Inr d2" using h(4) by (simp add: sum_bind_Inr)
  moreover have "backfill_sync_logs E S d2 = Inr d3" unfolding backfill_run using h(5,6) d3(1) by (auto split: if_splits)
  moreover have "pg_setup_triggers E S d3 = Inr d'" unfolding pg_setup_triggers_def for_tables_run using h(6) d3(2) by blast
  ultimately show "pg_install D next_id c E d = Inr (S, d')" unfolding pg_install_steps using h(3) by blast
qed

text \<open>
  C15: \<open>new\<close> succeeds with schema \<open>S\<close> exactly when the connection, the transaction and every
  statement of the setup do, and then the committed content is the result of exactly this script,
  in this order: the schema functions, only if the server says that they are not there; the log
  table; the schema is read; the switch that keeps the triggers from logging the backfill; the
  backfill of every table, only if the server counts no row of the log; and the trigger of every
  table.  It needs a primary key for every table, and the statements of a table carry the name of
  the table and of its key column.
\<close>

theorem pg_new_script:
  "pg_new D next_id c E url = (Inr S, x) \<longleftrightarrow>
     (\<exists>d d'. pg_connect E url = Some d \<and> pg_begin E d \<and> pg_installed D next_id c E d S d' \<and> pg_commit E d' \<and> x = Some d')"
  unfolding pg_install_run [symmetric] by (auto simp: pg_new_def split: option.splits sum.splits prod.splits if_splits)

lemma demo_load: "load_schema demo_D 1 local_cache_new demo_P d = Inr built_S" "named built_S"
proof -
  show load: "load_schema demo_D 1 local_cache_new demo_P d = Inr built_S" for d
    using load_rows_fold [OF demo_catalog, of demo_D empty_B] demo_catalog_ok(1,2)
    by (simp add: load_schema_def empty_B_start' demo_rows_run demo_built)
  have "\<exists>S. load_schema demo_D 1 local_cache_new demo_P 0 = Inr S \<and> named S"
    using load_schema_rows [OF demo_D_ok _ demo_catalog_ok(3) demo_catalog_ok(1) demo_catalog demo_catalog_ok(2) demo_strings
        demo_catalog_ok(4) empty_B_start' demo_rows_run demo_B_small]
    by (metis zero_neq_one)
  then show "named built_S" using load by simp
qed

lemma demo_new: "pg_new demo_D 1 local_cache_new demo_P [] = (Inr built_S, Some 7)"
proof -
  have count: "exec_all demo_P ss n = Inr (n + length ss)" for ss n
    by (induction ss arbitrary: n) (simp_all add: demo_P_def)
  have ts: "tables built_S = [0, 1]" by (simp add: tables_def built_S_def upt_rec)
  have "\<exists>k. keyed built_S t k" if "t \<in> set (tables built_S)" for t
  proof -
    have t: "unat t < length (ds_tables built_S)" "tm_primary_key (ds_tables built_S ! unat t) \<noteq> None"
      using that unfolding ts by (auto simp: built_S_def)
    then obtain c where "primary_key built_S t = Inr (Some c)" "column_name built_S c = Inr (pk_name built_S t)"
      using primary_key_cases [OF demo_load(2) t(1)] by auto
    then show ?thesis
      using table_name_named [OF demo_load(2) t(1)]
      by (intro exI [of _ "(t_name built_S t, pk_name built_S t)"]) (simp add: keyed_def)
  qed
  then obtain k l where "keyed built_S 0 k" "keyed built_S 1 l" unfolding ts by (metis list.set_intros)
  then have ks: "list_all2 (keyed built_S) (tables built_S) [k, l]" unfolding ts by simp
  have "for_tables demo_P built_S f stmt (tables built_S) n = Inr (n + 2)" for f stmt n
  proof -
    have "exec_all demo_P (map (case_prod stmt) [k, l]) n = Inr (n + 2)" unfolding count by simp
    then show ?thesis unfolding for_tables_run using ks by blast
  qed
  moreover have "run_or demo_P f s n = Inr (n + 1)" "pg_has_setup demo_P n = Inr False" "pg_log_count demo_P n = Inr 0"
    for f s n by (simp_all add: demo_P_def run_or_def)
  ultimately have "pg_install demo_D 1 local_cache_new demo_P 0 = Inr (built_S, 7)"
    by (simp add: pg_install_def perform_setup_def demo_load(1) backfill_sync_logs_def pg_setup_triggers_def)
  then show ?thesis by (simp add: pg_new_def demo_P_def)
qed

text \<open>The server counts the statements it runs: the script of the small schema has seven.\<close>

theorem pg_new_script_witness:
  "pg_installed demo_D 1 local_cache_new demo_P 0 built_S 7"
  using iffD1 [OF pg_new_script demo_new] by (auto simp: demo_P_def)

end
