(* ===== verification/Value.thy ===== *)
theory Value
  imports Schema
begin

unbundle bit_operations_syntax

text \<open>
  The values of \<open>core/value.rs\<close>.  The types of other crates (decimals, JSON, UUIDs, dates and
  times) are one type \<open>'x\<close>; their \<open>==\<close> are the fields of a record.  A float is its bits.
\<close>

section \<open>Floats\<close>

type_synonym f64 = "64 word"
type_synonym f32 = "32 word"

definition f64_is_nan :: "f64 \<Rightarrow> bool" where
  "f64_is_nan b \<longleftrightarrow> drop_bit 52 b AND 0x7FF = 0x7FF \<and> b AND mask 52 \<noteq> 0"

text \<open>\<open>==\<close> of \<open>f64\<close>: not a number differs from everything, and the two zeros are equal.\<close>

definition f64_eq :: "f64 \<Rightarrow> f64 \<Rightarrow> bool" where
  "f64_eq a b \<longleftrightarrow> \<not> f64_is_nan a \<and> \<not> f64_is_nan b \<and> (a = b \<or> a AND mask 63 = 0 \<and> b AND mask 63 = 0)"

section \<open>Values\<close>

record custom_value =
  cv_name :: symbol
  cv_value :: str

datatype 'x val =
    is_Null: ValNull
  | is_Bool: ValBool (of_Bool: bool)
  | is_Int: ValInt (of_Int: i64)
  | is_Float: ValFloat (of_Float: f64)
  | is_Decimal: ValDecimal (of_Decimal: 'x)
  | is_Text: ValText (of_Text: str)
  | is_Blob: ValBlob (of_Blob: "u8 list")
  | is_Json: ValJson (of_Json: 'x)
  | is_Uuid: ValUuid (of_Uuid: 'x)
  | is_Timestamp: ValTimestamp (of_Timestamp: 'x)
  | is_TimestampTz: ValTimestampTz (of_TimestampTz: 'x)
  | is_Date: ValDate (of_Date: 'x)
  | is_Time: ValTime (of_Time: 'x)
  | is_TimeTz: ValTimeTz (of_TimeTz: 'x)
  | is_Custom: ValCustom (of_Custom: custom_value)
  | is_BoolArray: ValBoolArray (of_BoolArray: "bool list")
  | is_IntArray: ValIntArray (of_IntArray: "i64 list")
  | is_FloatArray: ValFloatArray (of_FloatArray: "f64 list")
  | is_DecimalArray: ValDecimalArray (of_DecimalArray: "'x list")
  | is_TextArray: ValTextArray (of_TextArray: "str list")

fun val_kind :: "'x val \<Rightarrow> value_type" where
  "val_kind ValNull = VNull"
| "val_kind (ValBool _) = VBool"
| "val_kind (ValInt _) = VInt"
| "val_kind (ValFloat _) = VFloat"
| "val_kind (ValDecimal _) = VDecimal"
| "val_kind (ValText _) = VText"
| "val_kind (ValBlob _) = VBlob"
| "val_kind (ValJson _) = VJson"
| "val_kind (ValUuid _) = VUuid"
| "val_kind (ValTimestamp _) = VTimestamp"
| "val_kind (ValTimestampTz _) = VTimestampTz"
| "val_kind (ValDate _) = VDate"
| "val_kind (ValTime _) = VTime"
| "val_kind (ValTimeTz _) = VTimeTz"
| "val_kind (ValCustom custom) = VCustom (cv_name custom)"
| "val_kind (ValBoolArray _) = VBoolArray"
| "val_kind (ValIntArray _) = VIntArray"
| "val_kind (ValFloatArray _) = VFloatArray"
| "val_kind (ValDecimalArray _) = VDecimalArray"
| "val_kind (ValTextArray _) = VTextArray"

definition val_is_null :: "'x val \<Rightarrow> bool" where
  "val_is_null v = is_Null v"

record 'x ext_eq =
  eq_decimal :: "'x \<Rightarrow> 'x \<Rightarrow> bool"
  eq_json :: "'x \<Rightarrow> 'x \<Rightarrow> bool"
  eq_uuid :: "'x \<Rightarrow> 'x \<Rightarrow> bool"
  eq_timestamp :: "'x \<Rightarrow> 'x \<Rightarrow> bool"
  eq_timestamp_tz :: "'x \<Rightarrow> 'x \<Rightarrow> bool"
  eq_date :: "'x \<Rightarrow> 'x \<Rightarrow> bool"
  eq_time :: "'x \<Rightarrow> 'x \<Rightarrow> bool"
  eq_time_tz :: "'x \<Rightarrow> 'x \<Rightarrow> bool"

text \<open>\<open>eq\<close>: the arms of the match, one per constructor of the left side; the rest is \<open>False\<close>.\<close>

primrec val_eq :: "'x ext_eq \<Rightarrow> 'x val \<Rightarrow> 'x val \<Rightarrow> bool" where
  "val_eq X ValNull w = is_Null w"
| "val_eq X (ValBool a) w = (is_Bool w \<and> a = of_Bool w)"
| "val_eq X (ValInt a) w = (is_Int w \<and> a = of_Int w)"
| "val_eq X (ValFloat a) w = (is_Float w \<and> a = of_Float w)"
| "val_eq X (ValDecimal a) w = (is_Decimal w \<and> eq_decimal X a (of_Decimal w))"
| "val_eq X (ValText a) w = (is_Text w \<and> a = of_Text w)"
| "val_eq X (ValBlob a) w = (is_Blob w \<and> a = of_Blob w)"
| "val_eq X (ValJson a) w = (is_Json w \<and> eq_json X a (of_Json w))"
| "val_eq X (ValUuid a) w = (is_Uuid w \<and> eq_uuid X a (of_Uuid w))"
| "val_eq X (ValTimestamp a) w = (is_Timestamp w \<and> eq_timestamp X a (of_Timestamp w))"
| "val_eq X (ValTimestampTz a) w = (is_TimestampTz w \<and> eq_timestamp_tz X a (of_TimestampTz w))"
| "val_eq X (ValDate a) w = (is_Date w \<and> eq_date X a (of_Date w))"
| "val_eq X (ValTime a) w = (is_Time w \<and> eq_time X a (of_Time w))"
| "val_eq X (ValTimeTz a) w = (is_TimeTz w \<and> eq_time_tz X a (of_TimeTz w))"
| "val_eq X (ValCustom a) w = (is_Custom w \<and> a = of_Custom w)"
| "val_eq X (ValBoolArray a) w = (is_BoolArray w \<and> a = of_BoolArray w)"
| "val_eq X (ValIntArray a) w = (is_IntArray w \<and> a = of_IntArray w)"
| "val_eq X (ValFloatArray a) w = (is_FloatArray w \<and> list_all2 f64_eq a (of_FloatArray w))"
| "val_eq X (ValDecimalArray a) w = (is_DecimalArray w \<and> list_all2 (eq_decimal X) a (of_DecimalArray w))"
| "val_eq X (ValTextArray a) w = (is_TextArray w \<and> a = of_TextArray w)"

section \<open>Conversions\<close>

text \<open>
  The \<open>From\<close> implementations for integers: \<open>as i64\<close> extends the sign of a signed type and
  fills an unsigned one with zeros.  The boxed slices and the vectors are the same lists.
\<close>

definition val_of_signed :: "'a::len word \<Rightarrow> 'x val" where
  "val_of_signed v = ValInt (scast v)"

definition val_of_unsigned :: "'a::len word \<Rightarrow> 'x val" where
  "val_of_unsigned v = ValInt (ucast v)"

definition val_of_signed_array :: "'a::len word list \<Rightarrow> 'x val" where
  "val_of_signed_array vs = ValIntArray (map scast vs)"

definition val_of_unsigned_array :: "'a::len word list \<Rightarrow> 'x val" where
  "val_of_unsigned_array vs = ValIntArray (map ucast vs)"

text \<open>
  \<open>f32\<close> to \<open>f64\<close>: sign, exponent and fraction move to their places.  A subnormal number is
  normalised by the position \<open>k\<close> of its leading one.
\<close>

fun top_bit :: "nat \<Rightarrow> f32 \<Rightarrow> nat" where
  "top_bit 0 m = 0"
| "top_bit (Suc k) m = (if bit m (Suc k) then Suc k else top_bit k m)"

definition f64_of_f32 :: "f32 \<Rightarrow> f64" where
  "f64_of_f32 b =
     (let sgn = push_bit 63 (ucast (drop_bit 31 b)) :: f64;
          ex = drop_bit 23 b AND 0xFF;
          m = b AND mask 23
      in if ex = 0 then
           if m = 0 then sgn
           else let k = top_bit 22 m in
             sgn OR push_bit 52 (word_of_nat (k + 874)) OR (push_bit (52 - k) (ucast m) AND mask 52)
         else if ex = 0xFF then
           sgn OR push_bit 52 0x7FF OR (if m = 0 then 0 else push_bit 51 1 OR push_bit 29 (ucast m))
         else sgn OR push_bit 52 (ucast ex + 896) OR push_bit 29 (ucast m))"

definition val_of_f64 :: "f64 \<Rightarrow> 'x val" where
  "val_of_f64 v = ValFloat v"

definition val_of_f32 :: "f32 \<Rightarrow> 'x val" where
  "val_of_f32 v = ValFloat (f64_of_f32 v)"

definition val_of_f32_array :: "f32 list \<Rightarrow> 'x val" where
  "val_of_f32_array vs = ValFloatArray (map f64_of_f32 vs)"

text \<open>The implementations that only wrap their argument.\<close>

definition val_of_bool :: "bool \<Rightarrow> 'x val" where "val_of_bool = ValBool"
definition val_of_string :: "str \<Rightarrow> 'x val" where "val_of_string = ValText"
definition val_of_bytes :: "u8 list \<Rightarrow> 'x val" where "val_of_bytes = ValBlob"
definition val_of_json :: "'x \<Rightarrow> 'x val" where "val_of_json = ValJson"
definition val_of_timestamp :: "'x \<Rightarrow> 'x val" where "val_of_timestamp = ValTimestamp"
definition val_of_timestamp_tz :: "'x \<Rightarrow> 'x val" where "val_of_timestamp_tz = ValTimestampTz"
definition val_of_uuid :: "'x \<Rightarrow> 'x val" where "val_of_uuid = ValUuid"
definition val_of_decimal :: "'x \<Rightarrow> 'x val" where "val_of_decimal = ValDecimal"
definition val_of_i64_array :: "i64 list \<Rightarrow> 'x val" where "val_of_i64_array = ValIntArray"
definition val_of_f64_array :: "f64 list \<Rightarrow> 'x val" where "val_of_f64_array = ValFloatArray"
definition val_of_bool_array :: "bool list \<Rightarrow> 'x val" where "val_of_bool_array = ValBoolArray"
definition val_of_decimal_array :: "'x list \<Rightarrow> 'x val" where "val_of_decimal_array = ValDecimalArray"
definition val_of_string_array :: "str list \<Rightarrow> 'x val" where "val_of_string_array = ValTextArray"

section \<open>Laws\<close>

text \<open>Widening an integer keeps its value.\<close>

lemma val_of_unsigned_value:
  assumes "LENGTH('a) \<le> 64"
  shows "uint (of_Int (val_of_unsigned (v :: 'a::len word))) = uint v"
proof -
  have "(2::int) ^ LENGTH('a) \<le> 2 ^ 64" using assms by (rule power_increasing) simp
  moreover have "uint v < 2 ^ LENGTH('a)" "0 \<le> uint v" by simp_all
  ultimately have "uint v < 2 ^ 64" by linarith
  then show ?thesis by (simp add: val_of_unsigned_def unsigned_ucast_eq take_bit_int_eq_self)
qed

lemma val_of_signed_value:
  assumes "LENGTH('a) \<le> 64"
  shows "sint (of_Int (val_of_signed (v :: 'a::len word))) = sint v"
proof -
  have "(2::int) ^ (LENGTH('a) - 1) \<le> 2 ^ 63" using assms by (intro power_increasing) simp_all
  moreover have "- (2 ^ (LENGTH('a) - 1)) \<le> sint v" "sint v < 2 ^ (LENGTH('a) - 1)"
    using sint_greater_eq [of v] sint_less [of v] by simp_all
  ultimately have "- (2 ^ 63) \<le> sint v" "sint v < 2 ^ 63" by linarith+
  then show ?thesis by (simp add: val_of_signed_def signed_scast_eq signed_take_bit_int_eq_self)
qed

definition ext_equiv :: "'x ext_eq \<Rightarrow> bool" where
  "ext_equiv X \<longleftrightarrow> (\<forall>e \<in> {eq_decimal X, eq_json X, eq_uuid X, eq_timestamp X, eq_timestamp_tz X, eq_date X, eq_time X,
     eq_time_tz X}. equivp e)"

lemma f64_eq_sym: "f64_eq a b \<Longrightarrow> f64_eq b a"
  by (auto simp: f64_eq_def)

lemma f64_eq_trans: "f64_eq a b \<Longrightarrow> f64_eq b c \<Longrightarrow> f64_eq a c"
  by (auto simp: f64_eq_def)

lemma list_all2_refl_iff: "list_all2 f xs xs \<longleftrightarrow> (\<forall>x \<in> set xs. f x x)"
  by (induction xs) auto

lemma ext_equivD:
  assumes "ext_equiv X" "e \<in> {eq_decimal X, eq_json X, eq_uuid X, eq_timestamp X, eq_timestamp_tz X, eq_date X, eq_time X,
     eq_time_tz X}"
  shows "e a a" "e a b \<Longrightarrow> e b a" "e a b \<Longrightarrow> e b c \<Longrightarrow> e a c"
proof -
  have e: "equivp e" using assms unfolding ext_equiv_def by (rule bspec)
  show "e a a" using e by (rule equivp_reflp)
  show "e b a" if "e a b" using e that by (rule equivp_symp)
  show "e a c" if "e a b" "e b c" using e that by (rule equivp_transp)
qed

lemma list_all2_sym: "(\<And>a b. e a b \<Longrightarrow> e b a) \<Longrightarrow> list_all2 e xs ys \<Longrightarrow> list_all2 e ys xs"
  by (simp add: list_all2_conv_all_nth)

lemmas val_discs = val.is_Null_def val.is_Bool_def val.is_Int_def val.is_Float_def val.is_Decimal_def val.is_Text_def val.is_Blob_def
  val.is_Json_def val.is_Uuid_def val.is_Timestamp_def val.is_TimestampTz_def val.is_Date_def val.is_Time_def val.is_TimeTz_def
  val.is_Custom_def val.is_BoolArray_def val.is_IntArray_def val.is_FloatArray_def val.is_DecimalArray_def val.is_TextArray_def

lemma val_eq_kind: "val_eq X v w \<Longrightarrow> val_kind v = val_kind w"
  by (cases v) (auto simp: val_discs)

lemma val_eq_sym:
  assumes "ext_equiv X" "val_eq X v w"
  shows "val_eq X w v"
proof -
  note ext = ext_equivD(2) [OF assms(1)]
  have dec: "list_all2 (eq_decimal X) a b \<Longrightarrow> list_all2 (eq_decimal X) b a" for a b
    by (rule list_all2_sym [of "eq_decimal X"]) (use ext [of "eq_decimal X"] in auto)
  have flt: "list_all2 f64_eq a b \<Longrightarrow> list_all2 f64_eq b a" for a b
    by (rule list_all2_sym [of f64_eq, OF f64_eq_sym])
  show ?thesis using assms(2) by (cases v) (auto simp: val_discs intro: ext dec flt)
qed

lemma val_eq_trans:
  assumes "ext_equiv X" "val_eq X u v" "val_eq X v w"
  shows "val_eq X u w"
proof -
  note ext = ext_equivD(3) [OF assms(1)]
  have dec: "list_all2 (eq_decimal X) a b \<Longrightarrow> list_all2 (eq_decimal X) b c \<Longrightarrow> list_all2 (eq_decimal X) a c" for a b c
    by (rule list_all2_trans [of "eq_decimal X" "eq_decimal X"]) (use ext [of "eq_decimal X"] in auto)
  have flt: "list_all2 f64_eq a b \<Longrightarrow> list_all2 f64_eq b c \<Longrightarrow> list_all2 f64_eq a c" for a b c
    by (rule list_all2_trans [of f64_eq f64_eq]) (use f64_eq_trans in auto)
  show ?thesis using assms(2,3) by (cases u) (auto simp: val_discs intro: dec flt ext)
qed

text \<open>
  C29: equality of values is symmetric and transitive, and equal values have the same kind.  It is
  reflexive on every value but a float array that contains a NaN: there \<open>==\<close> compares numbers,
  while for a single float it compares bits.
\<close>

theorem val_eq_laws:
  assumes "ext_equiv X"
  shows "(val_eq X v w \<longrightarrow> val_kind v = val_kind w \<and> val_eq X w v) \<and>
    (val_eq X u v \<and> val_eq X v w \<longrightarrow> val_eq X u w) \<and>
    (val_eq X v v \<longleftrightarrow> \<not> (is_FloatArray v \<and> (\<exists>x \<in> set (of_FloatArray v). f64_is_nan x)))"
proof (intro conjI impI)
  show "val_eq X v v \<longleftrightarrow> \<not> (is_FloatArray v \<and> (\<exists>x \<in> set (of_FloatArray v). f64_is_nan x))"
    by (cases v) (simp_all add: list_all2_refl_iff f64_eq_def ext_equivD(1) [OF assms])
qed (use val_eq_kind val_eq_sym [OF assms] val_eq_trans [OF assms] in blast)+

text \<open>The equality of a type on which it is structural, and a quiet NaN.\<close>

definition plain_eq :: "unit ext_eq" where
  "plain_eq = \<lparr>eq_decimal = (=), eq_json = (=), eq_uuid = (=), eq_timestamp = (=), eq_timestamp_tz = (=), eq_date = (=),
     eq_time = (=), eq_time_tz = (=)\<rparr>"

theorem val_eq_laws_witness:
  "val_eq plain_eq (ValFloat 0x7FF8000000000000) (ValFloat 0x7FF8000000000000) \<and>
   \<not> val_eq plain_eq (ValFloatArray [0x7FF8000000000000]) (ValFloatArray [0x7FF8000000000000])"
proof -
  have "ext_equiv plain_eq" by (simp add: ext_equiv_def plain_eq_def identity_equivp)
  note laws = val_eq_laws [OF this]
  have "f64_is_nan 0x7FF8000000000000" by (simp add: f64_is_nan_def mask_eq_exp_minus_1)
  then show ?thesis
    using laws [of "ValFloat 0x7FF8000000000000" ValNull ValNull] laws [of "ValFloatArray [0x7FF8000000000000]" ValNull ValNull]
    by simp
qed

end
