(* ===== verification/Spec2Isabelle.thy ===== *)
theory Spec2Isabelle
  imports Sqlite_Handles Interner_Cache Threads_Props Storage_Props Builder_Props Sync_Props Sqlite_Defaults Sqlite_Props
    Postgres_Props Value
begin

text \<open>
  Boomerang keeps a SQLite database on a device and a Postgres database on a server in step.
  This development models the Rust crate \<open>src/crates/database\<close>; paths below are relative to its
  \<open>src\<close> directory.

  The parts of the program and how they interact.  The crate loads the schema of the server's
  database (\<open>dialect/postgres.rs\<close>) row by row into a builder (\<open>core/schema_builder.rs\<close>), which
  makes a compact \<open>DatabaseSchema\<close> (\<open>core/schema.rs\<close>).  All names of a schema are symbols of a
  string interner (\<open>core/string_interner.rs\<close>), and schema and interner travel to the device as
  bytes.  There the SQLite dialect (\<open>dialect/sqlite.rs\<close>) creates or migrates the tables of the
  schema.  On both sides triggers keep a log with one row per changed record, and the truth table
  (\<open>sync/truth_table.rs\<close>) merges the two logs into the list of records on which the databases
  differ.

  Theories and sources.

  \<^item> \<open>Prelude\<close>, \<open>Results\<close>: machine integers, strings as byte lists, panics as values, memory,
    sequencing of code that may fail, the binary search of the standard library.
  \<^item> \<open>Symbols\<close>, \<open>Memory_Pool\<close>, \<open>String_Array\<close>, \<open>Interner\<close>: the structs \<open>Symbol\<close>,
    \<open>MemoryPool\<close>, \<open>LockFreeStringArray\<close> and \<open>StringInterner\<close> of \<open>core/string_interner.rs\<close>
    with every operation, as they run on one thread.  The thread-local caches are explicit
    arguments; a step that can panic returns \<open>Inl\<close> and the state it leaves behind.
    \<open>Interner_Rep\<close> and \<open>Interner_Correct\<close> say which strings an interner represents and that
    the operations refine lookup and resolve on lists of strings; \<open>Interner_Bytes\<close> has the byte
    image and the two ways to read it; \<open>Interner_Props\<close>, \<open>Interner_Cache\<close> and
    \<open>Storage_Props\<close> hold the properties.
  \<^item> \<open>Interner_Threads\<close>: \<open>get_or_intern\<close>, \<open>get\<close> and \<open>resolve\<close> again, as several threads run them on
    one interner.  \<open>pc\<close> is where a thread is inside a call, \<open>start\<close> and \<open>act\<close> are its steps, one for
    every access to memory that another thread can observe, and \<open>step\<close> lets any thread go on.
    \<open>Threads_Solo\<close> shows that the steps of a thread that is alone are the sequential operations.
    \<open>Interner_Atomic\<close> is the interner in which every call is one atomic step; \<open>Threads_Steps\<close>
    (arrays and records on the way), \<open>Threads_Locks\<close> (who holds which guard), \<open>Threads_Inv\<close> (the
    invariant), \<open>Threads_Sim\<close>, \<open>Threads_Reads\<close> and \<open>Threads_Insert\<close> (one lemma per step) and
    \<open>Threads_Refine\<close> show that the threads refine it; \<open>Threads_Live\<close> is their progress, and
    \<open>Threads_Props\<close> holds the properties.
  \<^item> \<open>Schema\<close>, \<open>Schema_Wf\<close>, \<open>Schema_Codec\<close>, \<open>Schema_Props\<close>: \<open>core/schema.rs\<close>, its accessors,
    the well-formedness of a schema, and \<open>encode\<close>, \<open>decode\<close>, \<open>decode_unchecked\<close> byte by byte.
  \<^item> \<open>Topo_Sort\<close>, \<open>Schema_Builder\<close>, \<open>Builder_Inv\<close>, \<open>Builder_Correct\<close>, \<open>Builder_Names\<close>,
    \<open>Builder_Rows\<close>, \<open>Builder_Keys\<close>, \<open>Builder_Props\<close>: \<open>core/schema_builder.rs\<close>.  \<open>Builder_Inv\<close> is the invariant of the builder
    between rows, \<open>Builder_Correct\<close> relates the builder to the schema it builds, and
    \<open>Builder_Names\<close>, \<open>Builder_Rows\<close> and \<open>Builder_Keys\<close> follow the strings of the rows to the
    tables, columns and foreign keys of the schema.
  \<^item> \<open>Truth_Table\<close>, \<open>Truth_Table_Correct\<close>, \<open>Sync_Props\<close>: \<open>sync/truth_table.rs\<close> and
    \<open>sync/log_row.rs\<close>, the merge join of two streams of log rows, against a specification that
    looks every record up in both logs.  An item of a stream carries the thread-local cache of the
    thread that receives it, because the lookup of the row's table probes that cache.
  \<^item> \<open>Sql_Text\<close>, \<open>Dialect\<close>: the quoting of \<open>core.rs\<close>, a reader of quoted SQL, the error type of
    \<open>dialect.rs\<close>.
  \<^item> \<open>Sqlite_Ddl\<close>, \<open>Sqlite_Text\<close>, \<open>Sqlite_Defaults\<close>, \<open>Sqlite_Alter\<close>, \<open>Alter_Correct\<close>,
    \<open>Sqlite_Reader\<close>, \<open>Sqlite_Scripts\<close>, \<open>Sqlite_Db\<close>, \<open>Sqlite_Props\<close>: \<open>dialect/sqlite.rs\<close>, the text
    it generates, the plan of a migration, and the operations that run them.  The plan is a list of
    statements; \<open>run_stmt\<close> is their effect on the catalog of a database, as SQLite documents it.
    \<open>Sqlite_Reader\<close> is a second, independent account of it: it reads the text of a script token by
    token, cuts it into statements, column definitions and constraints, and applies what it has read
    to the catalog (\<open>run_text\<close>).  It shows that the text of every statement, \<open>CREATE TABLE\<close> with its
    columns included, does what \<open>run_stmt\<close> says; \<open>Sqlite_Scripts\<close> lifts this to the scripts that
    create, alter and drop the tables.  \<open>Sqlite_Handles\<close> has
    the handles that share the temporary file, with \<open>clone\<close>, \<open>close\<close>, \<open>bytes\<close> and \<open>Drop\<close> as steps of
    a process, and the options of the connections.
  \<^item> \<open>Postgres_Db\<close>, \<open>Postgres_Props\<close>: \<open>dialect/postgres.rs\<close>.
  \<^item> \<open>Value\<close>: \<open>core/value.rs\<close>.

  What the lemmas show.  A symbol the interner returns resolves to its string and is unique, the
  byte image gives the same symbols back, and the arena, the arrays and the cache keep their
  invariants.  Threads that share an interner behave as if each call took effect at once, agree on
  every symbol, and never wait for each other for ever.  Encoding a schema and decoding it is the identity, and no prefix of an image
  decodes.  The builder turns the rows of the catalog into a well-formed schema that says what
  the rows say, with every table behind the tables it references where that is possible.  The
  merge ends and yields exactly the records on which the logs differ, in order.  The generated
  SQL reads back with the names of the schema whatever characters they contain and creates the
  columns of the schema, the migration ends with the tables of the schema, opening a file leaves
  the tables its stored hash calls for, and the operations that fail say what they leave behind.
  The temporary file of a database lives as long as its handles.
  The interfaces between the parts are locales, each interpreted on the model: \<open>byte_arena\<close> of
  \<open>Prelude\<close> (byte-addressed memory), \<open>symbol_table\<close> of \<open>Interner_Correct\<close> (what the schema and
  sync code rely on of an interner), \<open>simulation\<close> of \<open>Interner_Atomic\<close> (steps answered by steps of
  a specification; interpreted on the threads in \<open>Threads_Refine\<close>), \<open>codec\<close> and \<open>strict_codec\<close> of \<open>Schema_Codec\<close> (a writer and
  its reader) and \<open>naming\<close> of \<open>Builder_Names\<close> (a state that interns strings).

  Termination.  The loops that consume a list or a range are structural.  \<open>topo_loop\<close> is a
  function with the measure "tables still waiting plus length of the queue", and \<open>next_entry\<close>
  one with the number of rows that are left.  The loop of \<open>from_bytes\<close> is a partial function,
  because the size of a record can wrap to zero; that it returns on the image of an interner is
  part of the round trip.  A call of a thread is at most twelve steps (\<open>rank\<close>).  No definition
  takes fuel.

  Parameters.  \<open>hashbrown::HashTable\<close>, the hash of long strings and the allocator's initial
  bytes are fields of \<open>deps\<close>, with the documented behaviour of the table as the hypothesis
  \<open>hashbrown_ok\<close>.  The drivers, SQLite, Postgres and the file system are the fields of
  \<open>sqlite_env\<close> and \<open>pg_env\<close>.  What \<open>sqlite_from_correct\<close> relies on of SQLite is \<open>sqlite_runs\<close> (a
  generated script that succeeds has the effect that \<open>run_text\<close> reads in its text, and the
  introspection query lists the catalog) and \<open>keeps_tables\<close> (\<open>DROP TRIGGER\<close> touches no table).
  A transaction that fails is rolled back.  The text of \<open>database_schema.sql\<close>
  (in the repository's \<open>sql\<close> directory) is a field too.  The
  order in which a Rust hash map is iterated, and which of two futures fails first, are arguments.

  Bounds.  The format stores ranges in 16 and 32 bits; the theorems about the builder assume
  \<open>builder_small\<close>, that its pools stay within them.  Strings are shorter than \<open>2 ^ 32 - 7\<close>
  bytes, the assertion of the allocator.  Theorems that go through the thread-local cache assume
  \<open>no_cache_alias\<close> (or \<open>distinguishable\<close>): no two strings of more than eight bytes agree in
  length, prefix and the low half of their hashes; \<open>cache_fits\<close> says it of one lookup in one
  cache, and \<open>apart\<close> of all strings that threads intern.  \<open>cache_wrong_hit\<close> shows what happens when
  they do.  Defaults and checks of a schema are text the server printed; theorems about generated
  SQL assume that they are complete pieces of SQL (\<open>quiet_table\<close>, \<open>tidy_schema\<close>).

  Not modelled: memory orderings weaker than sequential consistency, \<open>insert_unique\<close>, the byte
  image and \<open>resolve_unchecked\<close> while other threads run, deallocation and prefetching in the
  interner (a record's header and text are written in one step there); what SQLite and Postgres refuse
  of the generated statements, which is a failure of the parameter; the SQL that the Postgres
  server runs for the catalog query; the benchmarks and the
  greeting binary.
\<close>

end
